(* ===== verification/Prelude.thy ===== *)
theory Prelude
  imports Main "HOL-Library.Word" "HOL-Library.Multiset" "HOL-Library.Product_Lexorder"
begin

text \<open>
  Shared vocabulary of the development: the fixed-width integer types of the C++ sources, the
  three-way comparison idiom (\<open>int compare(const T&)\<close> with a negative, zero or positive result),
  and the two contracts that \<open>src/Scylla-moon/reversibly_mergeable.hh\<close> documents for mergeable
  data, stated as locales that the component theories interpret on their own operations.
\<close>

section \<open>Machine integers\<close>

type_synonym u8 = "8 word"
type_synonym u32 = "32 word"
type_synonym u64 = "64 word"

text \<open>
  \<open>int32_t\<close> and \<open>int64_t\<close> are words read with \<^const>\<open>sint\<close>: equality is word equality, an order
  test is written on \<^const>\<open>sint\<close>, and a cast to the unsigned type of the same width is the
  identity.
\<close>

type_synonym i32 = "32 word"
type_synonym i64 = "64 word"

named_theorems tri_simps \<open>unfolding rules for three-way comparisons\<close>
named_theorems merge_simps \<open>behaviour of the merge operations\<close>

lemma sint_eq_iff [simp]: "sint (a :: 'a::len word) = sint b \<longleftrightarrow> a = b"
  by (simp flip: word_eq_iff_signed)

lemma uint_eq_sint: "0 \<le> sint (a :: 'a::len word) \<Longrightarrow> uint a = sint a"
proof -
  assume nonneg: "0 \<le> sint a"
  have "sint a < 2 ^ (LENGTH('a) - 1)" using sint_less [of a] by simp
  also have "\<dots> \<le> 2 ^ LENGTH('a)" by (rule power_increasing) simp_all
  finally show ?thesis using nonneg by (simp add: uint_sint take_bit_int_eq_self)
qed

lemma sint_plus_1:
  assumes "0 \<le> sint a" "sint a < 2 ^ 62"
  shows "sint (a + 1 :: i64) = sint a + 1"
  using assms by (simp add: sint_word_ariths signed_take_bit_int_eq_self)

lemma sint_less_ne: "sint (a :: 'a::len word) < sint b \<Longrightarrow> a \<noteq> b"
  by auto

section \<open>Three-way comparisons\<close>

text \<open>
  The comparison contract the sources rely on: exchanging the arguments negates the sign, and
  "not greater" is transitive. Two values may compare equal without being equal.
\<close>

locale tri_preorder =
  fixes cmp :: "'a \<Rightarrow> 'a \<Rightarrow> int"
    and ok :: "'a \<Rightarrow> bool"
  assumes cmp_swap: "ok x \<Longrightarrow> ok y \<Longrightarrow> cmp x y < 0 \<longleftrightarrow> 0 < cmp y x"
    and cmp_trans: "ok x \<Longrightarrow> ok y \<Longrightarrow> ok z \<Longrightarrow> cmp x y \<le> 0 \<Longrightarrow> cmp y z \<le> 0 \<Longrightarrow> cmp x z \<le> 0"

text \<open>The idiom \<open>if (compare(*this, t) < 0) *this = t;\<close>: keep the left value unless the right
  one is strictly greater.\<close>

definition keep_max :: "('a \<Rightarrow> 'a \<Rightarrow> int) \<Rightarrow> 'a \<Rightarrow> 'a \<Rightarrow> 'a" where
  "keep_max cmp x y = (if cmp x y < 0 then y else x)"

lemma keep_max_idem [simp]: "keep_max cmp x x = x"
  by (simp add: keep_max_def)

lemma keep_max_cases: "keep_max cmp x y = x \<or> keep_max cmp x y = y"
  by (simp add: keep_max_def)

context tri_preorder
begin

lemma cmp_refl: "ok x \<Longrightarrow> cmp x x = 0"
  using cmp_swap [of x x] by linarith

lemma cmp_zero_swap: "ok x \<Longrightarrow> ok y \<Longrightarrow> cmp x y = 0 \<longleftrightarrow> cmp y x = 0"
  using cmp_swap [of x y] cmp_swap [of y x] by linarith

lemma cmp_le_swap: "ok x \<Longrightarrow> ok y \<Longrightarrow> cmp x y \<le> 0 \<longleftrightarrow> 0 \<le> cmp y x"
  using cmp_swap [of x y] cmp_swap [of y x] by linarith

lemma cmp_less_trans1:
  assumes "ok x" "ok y" "ok z" "cmp x y < 0" "cmp y z \<le> 0"
  shows "cmp x z < 0"
proof (rule ccontr)
  assume "\<not> cmp x z < 0"
  then have "cmp z x \<le> 0" using assms cmp_le_swap [of z x] by simp
  then have "cmp y x \<le> 0" using assms cmp_trans [of y z x] by simp
  then show False using assms cmp_le_swap [of y x] by simp
qed

lemma cmp_less_trans2:
  assumes "ok x" "ok y" "ok z" "cmp x y \<le> 0" "cmp y z < 0"
  shows "cmp x z < 0"
proof (rule ccontr)
  assume "\<not> cmp x z < 0"
  then have "cmp z x \<le> 0" using assms cmp_le_swap [of z x] by simp
  then have "cmp z y \<le> 0" using assms cmp_trans [of z x y] by simp
  then show False using assms cmp_le_swap [of z y] by simp
qed

lemma keep_max_assoc:
  assumes "ok x" "ok y" "ok z"
  shows "keep_max cmp (keep_max cmp x y) z = keep_max cmp x (keep_max cmp y z)"
proof (cases "cmp x y < 0")
  case True
  then show ?thesis
    using assms cmp_less_trans1 [of x y z] by (simp add: keep_max_def)
next
  case False
  then have "cmp y x \<le> 0"
    using assms cmp_le_swap [of y x] by simp
  then show ?thesis
    using False assms cmp_less_trans2 [of y x z] by (auto simp: keep_max_def)
qed

lemma keep_max_comm:
  "ok x \<Longrightarrow> ok y \<Longrightarrow> cmp x y \<noteq> 0 \<Longrightarrow> keep_max cmp x y = keep_max cmp y x"
  unfolding keep_max_def using cmp_swap [of x y] cmp_swap [of y x] by auto

lemma keep_max_comm_upto:
  "ok x \<Longrightarrow> ok y \<Longrightarrow> cmp (keep_max cmp x y) (keep_max cmp y x) = 0"
  unfolding keep_max_def using cmp_swap [of x y] cmp_swap [of y x] cmp_refl
  by auto

lemma cmp_zero_trans:
  "ok x \<Longrightarrow> ok y \<Longrightarrow> ok z \<Longrightarrow> cmp x y = 0 \<Longrightarrow> cmp y z = 0 \<Longrightarrow> cmp x z = 0"
  using cmp_trans [of x y z] cmp_trans [of z y x] cmp_zero_swap [of x y] cmp_zero_swap [of y z]
    cmp_le_swap [of z x] by simp

lemma keep_max_cong:
  assumes "ok x" "ok x'" "ok y" "ok y'" "cmp x x' = 0" "cmp y y' = 0"
  shows "cmp (keep_max cmp x y) (keep_max cmp x' y') = 0"
proof -
  have zero: "cmp x' x = 0" "cmp y' y = 0"
    using assms cmp_zero_swap by auto
  have "cmp x' y' < 0" if "cmp x y < 0"
    using assms zero that cmp_less_trans1 [of x y y'] cmp_less_trans2 [of x' x y'] by auto
  moreover have "cmp x y < 0" if "cmp x' y' < 0"
    using assms zero that cmp_less_trans1 [of x' y' y] cmp_less_trans2 [of x x' y] by auto
  ultimately show ?thesis using assms by (auto simp: keep_max_def)
qed

lemma keep_max_ge: "ok x \<Longrightarrow> ok y \<Longrightarrow> cmp x (keep_max cmp x y) \<le> 0 \<and> cmp y (keep_max cmp x y) \<le> 0"
  unfolding keep_max_def using cmp_le_swap [of y x] cmp_refl by auto

end

text \<open>A comparison that reads off a key in a linear order is a \<open>tri_preorder\<close>.\<close>

lemma tri_preorder_by_key:
  fixes key :: "'a \<Rightarrow> 'k::linorder"
  assumes "\<And>x y. ok x \<Longrightarrow> ok y \<Longrightarrow> cmp x y < 0 \<longleftrightarrow> key x < key y"
    and "\<And>x y. ok x \<Longrightarrow> ok y \<Longrightarrow> 0 < cmp x y \<longleftrightarrow> key y < key x"
  shows "tri_preorder cmp ok"
proof
  fix x y z
  show "cmp x y < 0 \<longleftrightarrow> 0 < cmp y x" if "ok x" "ok y"
    using assms that by blast
  show "cmp x z \<le> 0" if "ok x" "ok y" "ok z" "cmp x y \<le> 0" "cmp y z \<le> 0"
  proof -
    from that assms(2) have "key x \<le> key y" "key y \<le> key z"
      by (auto simp: not_less [symmetric])
    then have "\<not> key z < key x" by auto
    with that assms(2) show ?thesis by (auto simp: not_less [symmetric])
  qed
qed

section \<open>Mergeable and reversibly mergeable data\<close>

text \<open>
  \<open>reversibly_mergeable.hh\<close>: a Mergeable type has an \<open>apply\<close> operation that forms a commutative
  semigroup. Equality of the data is the type's own \<open>operator==\<close>, so commutativity is stated up
  to an equivalence \<open>eqv\<close>.
\<close>

locale mergeable =
  fixes merge :: "'a \<Rightarrow> 'a \<Rightarrow> 'a"
    and eqv :: "'a \<Rightarrow> 'a \<Rightarrow> bool"
    and ok :: "'a \<Rightarrow> bool"
  assumes eqv_refl: "ok x \<Longrightarrow> eqv x x"
    and eqv_sym: "ok x \<Longrightarrow> ok y \<Longrightarrow> eqv x y \<Longrightarrow> eqv y x"
    and eqv_trans: "ok x \<Longrightarrow> ok y \<Longrightarrow> ok z \<Longrightarrow> eqv x y \<Longrightarrow> eqv y z \<Longrightarrow> eqv x z"
    and merge_ok: "ok x \<Longrightarrow> ok y \<Longrightarrow> ok (merge x y)"
    and merge_cong: "ok x \<Longrightarrow> ok x' \<Longrightarrow> ok y \<Longrightarrow> ok y' \<Longrightarrow> eqv x x' \<Longrightarrow> eqv y y' \<Longrightarrow>
      eqv (merge x y) (merge x' y')"
    and merge_comm: "ok x \<Longrightarrow> ok y \<Longrightarrow> eqv (merge x y) (merge y x)"
    and merge_assoc: "ok x \<Longrightarrow> ok y \<Longrightarrow> ok z \<Longrightarrow> eqv (merge (merge x y) z) (merge x (merge y z))"
    and merge_idem: "ok x \<Longrightarrow> eqv (merge x x) x"

text \<open>Keeping the greater of two values is such a merge, up to "compares equal".\<close>

sublocale tri_preorder \<subseteq> keep: mergeable "keep_max cmp" "\<lambda>x y. cmp x y = 0" ok
proof
  fix x y z x' y'
  show "cmp x x = 0" if "ok x" using that by (rule cmp_refl)
  show "cmp y x = 0" if "ok x" "ok y" "cmp x y = 0" using that cmp_zero_swap by simp
  show "cmp x z = 0" if "ok x" "ok y" "ok z" "cmp x y = 0" "cmp y z = 0"
    using that by (rule cmp_zero_trans)
  show "ok (keep_max cmp x y)" if "ok x" "ok y"
    using that by (simp add: keep_max_def)
  show "cmp (keep_max cmp x y) (keep_max cmp x' y') = 0"
    if "ok x" "ok x'" "ok y" "ok y'" "cmp x x' = 0" "cmp y y' = 0"
    using that by (rule keep_max_cong)
  show "cmp (keep_max cmp x y) (keep_max cmp y x) = 0" if "ok x" "ok y"
    using that by (rule keep_max_comm_upto)
  show "cmp (keep_max cmp (keep_max cmp x y) z) (keep_max cmp x (keep_max cmp y z)) = 0"
    if "ok x" "ok y" "ok z"
    using that keep_max_assoc [of x y z] cmp_refl by (simp add: keep_max_def)
  show "cmp (keep_max cmp x x) x = 0" if "ok x" using that cmp_refl by simp
qed

text \<open>Folding a sequence of writes into a state: two replicas that receive the same writes in a
  different order end in equivalent states.\<close>

context mergeable
begin

lemma fold_merge_ok:
  "ok s \<Longrightarrow> (\<And>x. x \<in> set xs \<Longrightarrow> ok x) \<Longrightarrow> ok (foldl merge s xs)"
  by (induction xs arbitrary: s) (auto simp: merge_ok)

lemma fold_merge_cong:
  "ok s \<Longrightarrow> ok t \<Longrightarrow> (\<And>x. x \<in> set xs \<Longrightarrow> ok x) \<Longrightarrow> eqv s t \<Longrightarrow>
     eqv (foldl merge s xs) (foldl merge t xs)"
proof (induction xs arbitrary: s t)
  case (Cons a xs)
  have "ok a" by (simp add: Cons.prems(3))
  with Cons.prems have "eqv (merge s a) (merge t a)"
    by (intro merge_cong eqv_refl) auto
  with Cons \<open>ok a\<close> show ?case by (auto simp: merge_ok)
qed simp

lemma merge_right_swap:
  assumes "ok s" "ok x" "ok y"
  shows "eqv (merge (merge s x) y) (merge (merge s y) x)"
proof -
  have "eqv (merge (merge s x) y) (merge s (merge x y))"
    using assms by (simp add: merge_assoc)
  moreover have "eqv (merge s (merge x y)) (merge s (merge y x))"
    using assms by (simp add: merge_cong merge_comm eqv_refl merge_ok)
  moreover have "eqv (merge s (merge y x)) (merge (merge s y) x)"
    using assms by (simp add: eqv_sym merge_assoc merge_ok)
  moreover have "ok (merge (merge s x) y)" "ok (merge s (merge x y))" "ok (merge s (merge y x))"
    "ok (merge (merge s y) x)"
    using assms by (simp_all add: merge_ok)
  ultimately show ?thesis
    by (blast intro: eqv_trans)
qed

lemma fold_merge_move:
  "ok s \<Longrightarrow> ok a \<Longrightarrow> (\<And>x. x \<in> set xs \<Longrightarrow> ok x) \<Longrightarrow>
     eqv (foldl merge (merge s a) xs) (merge (foldl merge s xs) a)"
proof (induction xs arbitrary: s)
  case Nil
  then show ?case by (simp add: eqv_refl merge_ok)
next
  case (Cons b xs)
  then have w: "ok b" "\<And>x. x \<in> set xs \<Longrightarrow> ok x" by auto
  have "eqv (foldl merge (merge (merge s a) b) xs) (foldl merge (merge (merge s b) a) xs)"
    using Cons.prems w by (intro fold_merge_cong) (auto simp: merge_ok merge_right_swap)
  moreover have "eqv (foldl merge (merge (merge s b) a) xs) (merge (foldl merge (merge s b) xs) a)"
    using Cons.prems w by (intro Cons.IH) (auto simp: merge_ok)
  moreover have "ok (foldl merge (merge (merge s a) b) xs)"
    "ok (foldl merge (merge (merge s b) a) xs)" "ok (merge (foldl merge (merge s b) xs) a)"
    using Cons.prems(1,2) w by (auto intro!: fold_merge_ok merge_ok)
  ultimately have "eqv (foldl merge (merge (merge s a) b) xs) (merge (foldl merge (merge s b) xs) a)"
    by (blast intro: eqv_trans)
  then show ?case by simp
qed

theorem fold_merge_perm:
  assumes "ok s" and "\<And>x. x \<in> set xs \<Longrightarrow> ok x" and "mset xs = mset ys"
  shows "eqv (foldl merge s xs) (foldl merge s ys)"
  using assms
proof (induction xs arbitrary: s ys)
  case Nil
  then show ?case by (simp add: eqv_refl)
next
  case (Cons a xs)
  then have "a \<in> set ys"
    by (metis list.set_intros(1) set_mset_mset)
  then obtain us vs where ys: "ys = us @ a # vs"
    by (meson split_list)
  have wys: "\<And>x. x \<in> set ys \<Longrightarrow> ok x"
    using Cons.prems(2,3) by (metis set_mset_mset)
  have w: "ok a" "ok (merge s a)" "ok (foldl merge s us)"
    using Cons.prems ys wys by (auto simp: merge_ok fold_merge_ok)
  have "eqv (foldl merge (merge s a) xs) (foldl merge (merge s a) (us @ vs))"
    using Cons.prems ys w by (intro Cons.IH) auto
  moreover have "eqv (foldl merge (merge s a) us) (merge (foldl merge s us) a)"
    using Cons.prems ys wys w by (intro fold_merge_move) auto
  then have "eqv (foldl merge (merge s a) (us @ vs)) (foldl merge s ys)"
    using Cons.prems ys wys w
    by (simp, intro fold_merge_cong) (auto simp: merge_ok fold_merge_ok)
  moreover have "ok (foldl merge (merge s a) xs)" "ok (foldl merge (merge s a) (us @ vs))"
    "ok (foldl merge s ys)"
    using Cons.prems ys wys w by (auto intro!: fold_merge_ok simp: merge_ok)
  ultimately have "eqv (foldl merge (merge s a) xs) (foldl merge s ys)"
    by (blast intro: eqv_trans)
  then show ?case by simp
qed

end

text \<open>
  ReversiblyMergeable: \<open>apply_reversibly(x, y) = (x', y')\<close> stores \<open>apply(x, y)\<close> in \<open>x'\<close>, and
  \<open>revert(x', y') = (x'', y'')\<close> gives back \<open>x'' = x\<close> with \<open>apply(x'', y'') = apply(x, y)\<close>.
\<close>

locale reversibly_mergeable =
  fixes merge :: "'a \<Rightarrow> 'a \<Rightarrow> 'a"
    and apply_rev :: "'a \<Rightarrow> 'a \<Rightarrow> 'a \<times> 'a"
    and revert :: "'a \<Rightarrow> 'a \<Rightarrow> 'a \<times> 'a"
    and ok :: "'a \<Rightarrow> bool"
  assumes apply_rev_fst: "ok x \<Longrightarrow> ok y \<Longrightarrow> fst (apply_rev x y) = merge x y"
    and revert_fst: "ok x \<Longrightarrow> ok y \<Longrightarrow> fst (case_prod revert (apply_rev x y)) = x"
    and revert_commutes: "ok x \<Longrightarrow> ok y \<Longrightarrow>
      case_prod merge (case_prod revert (apply_rev x y)) = merge x y"
begin

text \<open>A failed attempt that is reverted can be retried: the retry stores what the first attempt
  would have stored.\<close>

lemma retry_after_revert:
  assumes "ok x" "ok y" "ok (snd (case_prod revert (apply_rev x y)))"
  shows "fst (case_prod apply_rev (case_prod revert (apply_rev x y))) = merge x y"
proof -
  obtain y' where y': "case_prod revert (apply_rev x y) = (x, y')"
    using revert_fst [OF assms(1,2)] by (cases "case_prod revert (apply_rev x y)") simp
  then have "merge x y' = merge x y"
    using revert_commutes [OF assms(1,2)] by simp
  moreover have "fst (apply_rev x y') = merge x y'"
    using assms y' by (intro apply_rev_fst) simp_all
  ultimately show ?thesis
    by (simp add: y')
qed

end

end
