(* ===== verification/Anchorless_List.thy ===== *)
theory Anchorless_List
  imports Prelude "HOL-Library.Monad_Syntax"
begin

text \<open>
  The intrusive doubly linked list without an anchor, \<open>class anchorless_list_base_hook\<close>
  (\<open>src/Scylla-moon/utils/anchorless_list.hh\<close>), over an explicit memory: a map from addresses to
  nodes. A pointer is an optional address, \<open>None\<close> the null pointer. An operation that would
  dereference a null pointer or the address of a destroyed object has the value \<open>None\<close>, and so has
  a loop that never ends.
\<close>

section \<open>Memory\<close>

type_synonym addr = nat

record 'a node =
  next_ptr :: "addr option"
  prev_ptr :: "addr option"
  obj :: 'a

record 'a memory =
  cells :: "addr \<rightharpoonup> 'a node"
  brk :: addr

definition upd_node :: "addr \<Rightarrow> ('a node \<Rightarrow> 'a node) \<Rightarrow> 'a memory \<Rightarrow> 'a memory option" where
  "upd_node a f m =
     (case cells m a of None \<Rightarrow> None | Some n \<Rightarrow> Some (m\<lparr>cells := (cells m)(a \<mapsto> f n)\<rparr>))"

text \<open>\<open>current_allocator().construct<T>(...)\<close>; addresses are handed out in increasing order.\<close>

definition construct :: "'a \<Rightarrow> 'a memory \<Rightarrow> addr \<times> 'a memory" where
  "construct x m =
     (brk m, m\<lparr>cells := (cells m)(brk m \<mapsto> \<lparr>next_ptr = None, prev_ptr = None, obj = x\<rparr>),
               brk := Suc (brk m)\<rparr>)"

definition free :: "addr \<Rightarrow> 'a memory \<Rightarrow> 'a memory" where
  "free a m = m\<lparr>cells := (cells m)(a := None)\<rparr>"

section \<open>The list operations\<close>

text \<open>\<open>if (p) p->field = v\<close>.\<close>

definition upd_if :: "addr option \<Rightarrow> ('a node \<Rightarrow> 'a node) \<Rightarrow> 'a memory \<Rightarrow> 'a memory option" where
  "upd_if p f m = (case p of None \<Rightarrow> Some m | Some a \<Rightarrow> upd_node a f m)"

definition insert_after :: "addr \<Rightarrow> addr \<Rightarrow> 'a memory \<Rightarrow> 'a memory option" where
  "insert_after this e m = do {
     en \<leftarrow> cells m e;
     let nxt = next_ptr en;
     m \<leftarrow> upd_node this (next_ptr_update (\<lambda>_. nxt)) m;
     m \<leftarrow> upd_node e (next_ptr_update (\<lambda>_. Some this)) m;
     m \<leftarrow> upd_node this (prev_ptr_update (\<lambda>_. Some e)) m;
     upd_if nxt (prev_ptr_update (\<lambda>_. Some this)) m
   }"

definition insert_before :: "addr \<Rightarrow> addr \<Rightarrow> 'a memory \<Rightarrow> 'a memory option" where
  "insert_before this e m = do {
     en \<leftarrow> cells m e;
     let prv = prev_ptr en;
     m \<leftarrow> upd_node this (prev_ptr_update (\<lambda>_. prv)) m;
     m \<leftarrow> upd_node e (prev_ptr_update (\<lambda>_. Some this)) m;
     m \<leftarrow> upd_node this (next_ptr_update (\<lambda>_. Some e)) m;
     upd_if prv (next_ptr_update (\<lambda>_. Some this)) m
   }"

definition erase :: "addr \<Rightarrow> 'a memory \<Rightarrow> 'a memory option" where
  "erase this m = do {
     n \<leftarrow> cells m this;
     m \<leftarrow> upd_if (next_ptr n) (prev_ptr_update (\<lambda>_. prev_ptr n)) m;
     m \<leftarrow> upd_if (prev_ptr n) (next_ptr_update (\<lambda>_. next_ptr n)) m;
     upd_node this (\<lambda>n. n\<lparr>next_ptr := None, prev_ptr := None\<rparr>) m
   }"

definition next_of :: "'a memory \<Rightarrow> addr \<Rightarrow> addr option option" where
  "next_of m this = map_option next_ptr (cells m this)"

definition prev_of :: "'a memory \<Rightarrow> addr \<Rightarrow> addr option option" where
  "prev_of m this = map_option prev_ptr (cells m this)"

definition is_front :: "'a memory \<Rightarrow> addr \<Rightarrow> bool option" where
  "is_front m this = map_option (\<lambda>p. p = None) (prev_of m this)"

definition is_back :: "'a memory \<Rightarrow> addr \<Rightarrow> bool option" where
  "is_back m this = map_option (\<lambda>p. p = None) (next_of m this)"

text \<open>The destructor unlinks the hook before the memory is released.\<close>

definition destroy_hook :: "addr \<Rightarrow> 'a memory \<Rightarrow> 'a memory option" where
  "destroy_hook this m = erase this m"

text \<open>The move constructor: \<open>this\<close> takes the place of \<open>other\<close> on its list.\<close>

definition move_hook :: "addr \<Rightarrow> addr \<Rightarrow> 'a memory \<Rightarrow> 'a memory option" where
  "move_hook this other m = do {
     old \<leftarrow> cells m other;
     m \<leftarrow> upd_node this (\<lambda>n. n\<lparr>next_ptr := next_ptr old, prev_ptr := prev_ptr old\<rparr>) m;
     m \<leftarrow> upd_if (next_ptr old) (prev_ptr_update (\<lambda>_. Some this)) m;
     m \<leftarrow> upd_if (prev_ptr old) (next_ptr_update (\<lambda>_. Some this)) m;
     upd_node other (\<lambda>n. n\<lparr>next_ptr := None, prev_ptr := None\<rparr>) m
   }"

text \<open>The range \<open>[this, nullptr)\<close> and the walk back to the first element.\<close>

partial_function (option) elements_from :: "'a memory \<Rightarrow> addr option \<Rightarrow> addr list option" where
  [code]: "elements_from m p =
     (case p of None \<Rightarrow> Some []
      | Some a \<Rightarrow> Option.bind (next_of m a) (\<lambda>nxt.
          Option.bind (elements_from m nxt) (\<lambda>rest. Some (a # rest))))"

partial_function (option) list_begin :: "'a memory \<Rightarrow> addr \<Rightarrow> addr option" where
  [code]: "list_begin m a =
     Option.bind (prev_of m a) (\<lambda>prv.
       case prv of None \<Rightarrow> Some a | Some q \<Rightarrow> list_begin m q)"

definition all_elements :: "'a memory \<Rightarrow> addr \<Rightarrow> addr list option" where
  "all_elements m a = do { b \<leftarrow> list_begin m a; elements_from m (Some b) }"

section \<open>The list a memory holds\<close>

text \<open>\<open>segment m p c xs n\<close>: starting at \<open>c\<close>, whose predecessor is \<open>p\<close>, the nodes \<open>xs\<close> follow each
  other and the last one points to \<open>n\<close>.\<close>

fun segment :: "'a memory \<Rightarrow> addr option \<Rightarrow> addr option \<Rightarrow> addr list \<Rightarrow> addr option \<Rightarrow> bool" where
  "segment m p c [] n \<longleftrightarrow> c = n"
| "segment m p c (x # xs) n \<longleftrightarrow>
     c = Some x \<and> prev_of m x = Some p \<and>
     (case next_of m x of None \<Rightarrow> False | Some c' \<Rightarrow> segment m (Some x) c' xs n)"

definition head :: "addr list \<Rightarrow> addr option" where
  "head xs = (case xs of [] \<Rightarrow> None | x # _ \<Rightarrow> Some x)"

definition linked :: "'a memory \<Rightarrow> addr list \<Rightarrow> bool" where
  "linked m xs \<longleftrightarrow> distinct xs \<and> segment m None (head xs) xs None"

definition payload :: "'a memory \<Rightarrow> addr \<Rightarrow> 'a option" where
  "payload m a = map_option obj (cells m a)"

section \<open>Segments\<close>

definition last_or :: "addr option \<Rightarrow> addr list \<Rightarrow> addr option" where
  "last_or p xs = (if xs = [] then p else Some (last xs))"

lemma head_simps [simp]: "head [] = None" "head (x # xs) = Some x"
  by (simp_all add: head_def)

lemma head_append [simp]: "head (xs @ y # zs) = (case xs of [] \<Rightarrow> Some y | x # _ \<Rightarrow> Some x)"
  by (cases xs) simp_all

lemma last_or_simps [simp]: "last_or p [] = p" "last_or p (xs @ [x]) = Some x"
  "last_or p (x # xs) = last_or (Some x) xs"
  by (simp_all add: last_or_def)

lemma segment_cong:
  assumes "\<And>x. x \<in> set xs \<Longrightarrow> next_of m' x = next_of m x \<and> prev_of m' x = prev_of m x"
  shows "segment m' p c xs n = segment m p c xs n"
  using assms by (induction xs arbitrary: p c) (auto split: option.splits)

lemma segment_append:
  "segment m p c (xs @ ys) n \<longleftrightarrow>
     (let k = (if ys = [] then n else head ys)
      in segment m p c xs k \<and> segment m (last_or p xs) k ys n)"
proof (induction xs arbitrary: p c)
  case Nil
  then show ?case by (cases ys) (auto simp: Let_def split: option.splits)
next
  case (Cons x xs)
  then show ?case by (auto simp: Let_def split: option.splits)
qed

lemma segment_allocated:
  "segment m p c xs n \<Longrightarrow> x \<in> set xs \<Longrightarrow> \<exists>nd. cells m x = Some nd"
  by (induction xs arbitrary: p c) (auto simp: prev_of_def split: option.splits)

lemma linked_allocated: "linked m xs \<Longrightarrow> x \<in> set xs \<Longrightarrow> \<exists>nd. cells m x = Some nd"
  by (auto simp: linked_def dest: segment_allocated)

lemma linked_split:
  "linked m (ys @ e # zs) \<longleftrightarrow>
     distinct (ys @ e # zs) \<and> segment m None (head (ys @ [e])) ys (Some e) \<and>
     prev_of m e = Some (last_or None ys) \<and> next_of m e = Some (head zs) \<and>
     segment m (Some e) (head zs) zs None"
proof -
  have "segment m (Some e) c zs None \<Longrightarrow> c = head zs" for c
    by (cases zs) (auto split: option.splits)
  moreover have "head (ys @ e # zs) = head (ys @ [e])"
    by (cases ys) simp_all
  ultimately show ?thesis
    by (auto simp: linked_def segment_append Let_def split: option.splits)
qed

text \<open>The walks return the list the memory holds.\<close>

lemma elements_from_segment: "segment m p c xs None \<Longrightarrow> elements_from m c = Some xs"
proof (induction xs arbitrary: p c)
  case Nil
  then show ?case by (subst elements_from.simps) simp
next
  case (Cons x xs)
  then obtain c' where "c = Some x" "next_of m x = Some c'" "segment m (Some x) c' xs None"
    by (auto split: option.splits)
  with Cons.IH [of "Some x" c'] show ?case by (subst elements_from.simps) simp
qed

lemma elements_from_linked: "linked m xs \<Longrightarrow> elements_from m (head xs) = Some xs"
  by (auto simp: linked_def intro: elements_from_segment)

lemma list_begin_linked: "linked m (ys @ e # zs) \<Longrightarrow> list_begin m e = Some (hd (ys @ [e]))"
proof (induction ys arbitrary: e zs rule: rev_induct)
  case Nil
  then show ?case by (subst list_begin.simps) (simp add: linked_split [of m "[]", simplified])
next
  case (snoc y ys)
  then have "linked m (ys @ y # e # zs)" by simp
  from snoc.IH [OF this] have "list_begin m y = Some (hd (ys @ [y]))" .
  moreover have "prev_of m e = Some (Some y)"
    using snoc.prems by (simp add: linked_split)
  ultimately show ?case
    by (subst list_begin.simps) (cases ys; simp)
qed

lemma all_elements_linked: "linked m (ys @ e # zs) \<Longrightarrow> all_elements m e = Some (ys @ e # zs)"
  using list_begin_linked [of m ys e zs] elements_from_linked [of m "ys @ e # zs"]
  by (cases ys) (simp_all add: all_elements_def)

section \<open>Effect of the operations on the links\<close>

lemma upd_node_Some: "cells m a = Some n \<Longrightarrow> upd_node a f m = Some (m\<lparr>cells := (cells m)(a \<mapsto> f n)\<rparr>)"
  by (simp add: upd_node_def)

lemma insert_before_links:
  assumes "cells m e = Some en" "cells m a = Some an" "a \<noteq> e"
    and "\<And>q. prev_ptr en = Some q \<Longrightarrow> q \<noteq> a \<and> q \<noteq> e \<and> cells m q \<noteq> None"
  obtains m' where "insert_before a e m = Some m'"
    "prev_of m' = (prev_of m)(a \<mapsto> prev_ptr en, e \<mapsto> Some a)"
    "next_of m' = (case prev_ptr en of None \<Rightarrow> (next_of m)(a \<mapsto> Some e)
       | Some q \<Rightarrow> (next_of m)(a \<mapsto> Some e, q \<mapsto> Some a))"
    "payload m' = payload m" "brk m' = brk m"
proof -
  show ?thesis
  proof (cases "prev_ptr en")
    case None
    let ?m = "m\<lparr>cells := (cells m)(a \<mapsto> an\<lparr>prev_ptr := None, next_ptr := Some e\<rparr>,
       e \<mapsto> en\<lparr>prev_ptr := Some a\<rparr>)\<rparr>"
    have "insert_before a e m = Some ?m"
      using assms None by (simp add: insert_before_def upd_node_def upd_if_def fun_upd_twist)
    moreover have "prev_of ?m = (prev_of m)(a \<mapsto> prev_ptr en, e \<mapsto> Some a)"
      "next_of ?m = (next_of m)(a \<mapsto> Some e)" "payload ?m = payload m"
      using assms None by (auto simp: prev_of_def next_of_def payload_def fun_eq_iff)
    ultimately show ?thesis using that [of ?m] None by simp
  next
    case (Some q)
    then obtain qn where q: "cells m q = Some qn" "q \<noteq> a" "q \<noteq> e" using assms(4) by auto
    let ?m = "m\<lparr>cells := (cells m)(a \<mapsto> an\<lparr>prev_ptr := Some q, next_ptr := Some e\<rparr>,
       e \<mapsto> en\<lparr>prev_ptr := Some a\<rparr>, q \<mapsto> qn\<lparr>next_ptr := Some a\<rparr>)\<rparr>"
    have "insert_before a e m = Some ?m"
      using assms Some q by (simp add: insert_before_def upd_node_def upd_if_def fun_upd_twist)
    moreover have "prev_of ?m = (prev_of m)(a \<mapsto> prev_ptr en, e \<mapsto> Some a)"
      "next_of ?m = (next_of m)(a \<mapsto> Some e, q \<mapsto> Some a)" "payload ?m = payload m"
      using assms Some q by (auto simp: prev_of_def next_of_def payload_def fun_eq_iff)
    ultimately show ?thesis using that [of ?m] Some by simp
  qed
qed

lemma erase_links:
  assumes "cells m e = Some en"
    and "\<And>q. prev_ptr en = Some q \<Longrightarrow> q \<noteq> e \<and> cells m q \<noteq> None"
    and "\<And>z. next_ptr en = Some z \<Longrightarrow> z \<noteq> e \<and> cells m z \<noteq> None"
    and "prev_ptr en \<noteq> next_ptr en \<or> prev_ptr en = None"
  obtains m' where "erase e m = Some m'"
    "prev_of m' = (case next_ptr en of None \<Rightarrow> (prev_of m)(e \<mapsto> None)
       | Some z \<Rightarrow> (prev_of m)(z \<mapsto> prev_ptr en, e \<mapsto> None))"
    "next_of m' = (case prev_ptr en of None \<Rightarrow> (next_of m)(e \<mapsto> None)
       | Some q \<Rightarrow> (next_of m)(q \<mapsto> next_ptr en, e \<mapsto> None))"
    "payload m' = payload m" "brk m' = brk m"
proof -
  have "\<exists>m'. erase e m = Some m' \<and>
    prev_of m' = (case next_ptr en of None \<Rightarrow> (prev_of m)(e \<mapsto> None)
       | Some z \<Rightarrow> (prev_of m)(z \<mapsto> prev_ptr en, e \<mapsto> None)) \<and>
    next_of m' = (case prev_ptr en of None \<Rightarrow> (next_of m)(e \<mapsto> None)
       | Some q \<Rightarrow> (next_of m)(q \<mapsto> next_ptr en, e \<mapsto> None)) \<and>
    payload m' = payload m \<and> brk m' = brk m"
    using assms
    by (cases "prev_ptr en"; cases "next_ptr en")
      (auto simp: erase_def upd_node_def upd_if_def prev_of_def next_of_def payload_def fun_eq_iff)
  then show ?thesis using that by blast
qed

section \<open>The contract of the list\<close>

text \<open>What a client of the list relies on: where an element goes, which one disappears, what the
  neighbours are, and that the objects on the list are not touched. \<open>detached m a\<close> is an allocated
  object that is on no list.\<close>

locale intrusive_list =
  fixes linked :: "'m \<Rightarrow> addr list \<Rightarrow> bool"
    and detached :: "'m \<Rightarrow> addr \<Rightarrow> bool"
    and payload :: "'m \<Rightarrow> addr \<Rightarrow> 'a option"
    and insert_before :: "addr \<Rightarrow> addr \<Rightarrow> 'm \<Rightarrow> 'm option"
    and erase :: "addr \<Rightarrow> 'm \<Rightarrow> 'm option"
    and next_of :: "'m \<Rightarrow> addr \<Rightarrow> addr option option"
    and prev_of :: "'m \<Rightarrow> addr \<Rightarrow> addr option option"
    and elements :: "'m \<Rightarrow> addr option \<Rightarrow> addr list option"
  assumes insert_law: "linked m (ys @ e # zs) \<Longrightarrow> detached m a \<Longrightarrow> a \<notin> set (ys @ e # zs) \<Longrightarrow>
      \<exists>m'. insert_before a e m = Some m' \<and> linked m' (ys @ a # e # zs) \<and> payload m' = payload m"
    and erase_law: "linked m (ys @ e # zs) \<Longrightarrow>
      \<exists>m'. erase e m = Some m' \<and> linked m' (ys @ zs) \<and> payload m' = payload m \<and> detached m' e"
    and next_law: "linked m (ys @ e # zs) \<Longrightarrow> next_of m e = Some (head zs)"
    and prev_law: "linked m (ys @ e # zs) \<Longrightarrow> prev_of m e = Some (last_or None ys)"
    and elements_law: "linked m xs \<Longrightarrow> elements m (head xs) = Some xs"
    and linked_distinct: "linked m xs \<Longrightarrow> distinct xs"
begin

lemma push_front:
  assumes "linked m (e # zs)" "detached m a" "a \<notin> set (e # zs)"
  shows "\<exists>m'. insert_before a e m = Some m' \<and> linked m' (a # e # zs) \<and> payload m' = payload m"
  using insert_law [of m "[]" e zs a] assms by simp

text \<open>Dropping the successor of an element, as the version garbage collector does.\<close>

lemma erase_next:
  assumes "linked m (ys @ l # z # zs)"
  shows "next_of m l = Some (Some z) \<and>
    (\<exists>m'. erase z m = Some m' \<and> linked m' (ys @ l # zs) \<and> payload m' = payload m \<and> detached m' z)"
  using next_law [of m ys l "z # zs"] erase_law [of m "ys @ [l]" z zs] assms by simp

text \<open>Stepping back from an element and then dropping the element itself.\<close>

lemma step_back_and_erase:
  assumes "linked m (ys @ [q, l] @ zs)"
  shows "prev_of m l = Some (Some q) \<and> next_of m q = Some (Some l) \<and>
    (\<exists>m'. erase l m = Some m' \<and> linked m' (ys @ [q] @ zs) \<and> payload m' = payload m)"
  using prev_law [of m "ys @ [q]" l zs] erase_next [of m ys q l zs] assms by (auto simp: last_or_def)

end

definition detached :: "'a memory \<Rightarrow> addr \<Rightarrow> bool" where
  "detached m a \<longleftrightarrow> next_of m a = Some None \<and> prev_of m a = Some None"

lemma linked_neighbours:
  assumes "linked m (ys @ e # zs)"
  obtains en where "cells m e = Some en" "prev_ptr en = last_or None ys" "next_ptr en = head zs"
  using assms that by (auto simp: linked_split prev_of_def next_of_def)

lemma linked_insert:
  assumes lk: "linked m (ys @ e # zs)" and a: "detached m a" "a \<notin> set (ys @ e # zs)"
  shows "\<exists>m'. insert_before a e m = Some m' \<and> linked m' (ys @ a # e # zs) \<and> payload m' = payload m
    \<and> brk m' = brk m \<and> (\<forall>x. x \<notin> set (a # ys @ e # zs) \<longrightarrow> next_of m' x = next_of m x \<and> prev_of m' x = prev_of m x)"
proof -
  obtain en where en: "cells m e = Some en" "prev_ptr en = last_or None ys" "next_ptr en = head zs"
    using lk by (rule linked_neighbours)
  obtain an where an: "cells m a = Some an"
    using a by (auto simp: detached_def next_of_def)
  have q: "q \<noteq> a \<and> q \<noteq> e \<and> cells m q \<noteq> None" if "prev_ptr en = Some q" for q
  proof -
    have "q \<in> set ys" using that en(2) by (cases ys rule: rev_cases) auto
    moreover have "e \<notin> set ys" using lk by (auto simp: linked_split)
    ultimately show ?thesis using a linked_allocated [OF lk, of q] by auto
  qed
  from a have "a \<noteq> e" by auto
  then obtain m' where m': "insert_before a e m = Some m'"
    "prev_of m' = (prev_of m)(a \<mapsto> prev_ptr en, e \<mapsto> Some a)"
    "next_of m' = (case prev_ptr en of None \<Rightarrow> (next_of m)(a \<mapsto> Some e)
       | Some q \<Rightarrow> (next_of m)(a \<mapsto> Some e, q \<mapsto> Some a))"
    "payload m' = payload m" "brk m' = brk m"
    using insert_before_links [OF en(1) an _ q] by blast
  have dist: "e \<notin> set ys" "e \<notin> set zs" "set ys \<inter> set zs = {}" "distinct ys" "distinct zs"
    using lk by (auto simp: linked_split)
  have lastys: "last ys \<notin> set zs" if "ys \<noteq> []"
    using that dist(3) last_in_set [of ys] by blast
  have "segment m' (Some e) (head zs) zs None"
    using lk m' a dist en(2) lastys by (subst segment_cong [of _ m' m])
      (auto simp: linked_split last_or_def split: option.splits if_splits)
  moreover have "segment m' None (head (ys @ [a])) ys (Some a)"
  proof (cases ys rule: rev_cases)
    case (snoc ys' y)
    have y: "segment m None (head (ys' @ [y])) ys' (Some y)" "prev_of m y = Some (last_or None ys')"
      using lk snoc linked_split [of m ys' y "e # zs"] by simp_all
    have "segment m' None (head (ys' @ [y])) ys' (Some y)"
      using y m' a dist en(2) snoc by (subst segment_cong [of _ m' m]) auto
    moreover have "prev_of m' y = Some (last_or None ys')" "next_of m' y = Some (Some a)"
      using y m' a dist en(2) snoc by auto
    ultimately show ?thesis
      using snoc by (simp add: segment_append Let_def)
  qed simp
  moreover have "prev_of m' a = Some (last_or None ys)" "prev_of m' e = Some (Some a)"
    using m' en(2) \<open>a \<noteq> e\<close> by simp_all
  moreover have "next_of m' a = Some (Some e)" "next_of m' e = Some (head zs)"
    using m' en q lk \<open>a \<noteq> e\<close> by (auto simp: linked_split split: option.splits)
  ultimately have "linked m' (ys @ a # e # zs)"
    using a dist unfolding linked_split [of m' ys a "e # zs"] by simp
  moreover have "next_of m' x = next_of m x \<and> prev_of m' x = prev_of m x"
    if "x \<notin> set (a # ys @ e # zs)" for x
    using that m' en(2) by (auto simp: last_or_def split: option.splits if_splits)
  ultimately show ?thesis using m' by auto
qed

lemma segment_retarget:
  "segment m p c xs n \<Longrightarrow> xs \<noteq> [] \<Longrightarrow> (\<And>x. x \<in> set xs \<Longrightarrow> prev_of m' x = prev_of m x) \<Longrightarrow>
   (\<And>x. x \<in> set (butlast xs) \<Longrightarrow> next_of m' x = next_of m x) \<Longrightarrow> next_of m' (last xs) = Some t \<Longrightarrow>
   segment m' p c xs t"
proof (induction xs arbitrary: p c)
  case (Cons x xs)
  then show ?case by (cases "xs = []") (auto split: option.splits)
qed simp

lemma segment_reprev:
  "segment m p c (x # xs) n \<Longrightarrow> (\<And>y. y \<in> set xs \<Longrightarrow> prev_of m' y = prev_of m y) \<Longrightarrow>
   (\<And>y. y \<in> set (x # xs) \<Longrightarrow> next_of m' y = next_of m y) \<Longrightarrow> prev_of m' x = Some q \<Longrightarrow>
   segment m' q c (x # xs) n"
  by (auto split: option.splits simp: segment_cong [of xs m' m])

lemma linked_erase:
  assumes lk: "linked m (ys @ e # zs)"
  shows "\<exists>m'. erase e m = Some m' \<and> linked m' (ys @ zs) \<and> payload m' = payload m \<and> detached m' e
    \<and> brk m' = brk m \<and> (\<forall>x. x \<notin> set (ys @ e # zs) \<longrightarrow> next_of m' x = next_of m x \<and> prev_of m' x = prev_of m x)"
proof -
  have sp: "distinct (ys @ e # zs)" "segment m None (head (ys @ [e])) ys (Some e)"
    "segment m (Some e) (head zs) zs None"
    using lk by (auto simp: linked_split)
  obtain en where en: "cells m e = Some en" "prev_ptr en = last_or None ys" "next_ptr en = head zs"
    using lk by (rule linked_neighbours)
  have q: "q \<in> set ys" "q \<noteq> e \<and> cells m q \<noteq> None" if "prev_ptr en = Some q" for q
  proof -
    show "q \<in> set ys" using that en(2) by (cases ys rule: rev_cases) auto
    then show "q \<noteq> e \<and> cells m q \<noteq> None" using sp linked_allocated [OF lk, of q] by auto
  qed
  have z: "z \<in> set zs" "z \<noteq> e \<and> cells m z \<noteq> None" if "next_ptr en = Some z" for z
  proof -
    show "z \<in> set zs" using that en(3) by (cases zs) auto
    then show "z \<noteq> e \<and> cells m z \<noteq> None" using sp linked_allocated [OF lk, of z] by auto
  qed
  have qz: "prev_ptr en \<noteq> next_ptr en \<or> prev_ptr en = None"
  proof (cases "prev_ptr en")
    case (Some x)
    then have "next_ptr en \<noteq> Some x" using q(1) [of x] z(1) [of x] sp(1) by auto
    then show ?thesis using Some by simp
  qed simp
  obtain m' where m': "erase e m = Some m'"
    "prev_of m' = (case next_ptr en of None \<Rightarrow> (prev_of m)(e \<mapsto> None)
       | Some z \<Rightarrow> (prev_of m)(z \<mapsto> prev_ptr en, e \<mapsto> None))"
    "next_of m' = (case prev_ptr en of None \<Rightarrow> (next_of m)(e \<mapsto> None)
       | Some q \<Rightarrow> (next_of m)(q \<mapsto> next_ptr en, e \<mapsto> None))"
    "payload m' = payload m" "brk m' = brk m"
    using erase_links [OF en(1) q(2) z(2) qz] by blast
  have prev_same: "prev_of m' x = prev_of m x" if "x \<noteq> e" "next_ptr en \<noteq> Some x" for x
    using that m'(2) by (auto split: option.splits)
  have next_same: "next_of m' x = next_of m x" if "x \<noteq> e" "prev_ptr en \<noteq> Some x" for x
    using that m'(3) by (auto split: option.splits)
  have "segment m' None (head (ys @ zs)) ys (head zs)"
  proof (cases "ys = []")
    case False
    have "next_of m' (last ys) = Some (head zs)"
      using m'(3) en False sp(1) by (auto simp: last_or_def)
    moreover have "prev_of m' x = prev_of m x" if "x \<in> set ys" for x
      using that z(1) [of x] sp(1) by (intro prev_same) auto
    moreover have "next_of m' x = next_of m x" if "x \<in> set (butlast ys)" for x
    proof -
      have "x \<noteq> last ys" "x \<in> set ys"
        using that sp(1) False by (cases ys rule: rev_cases; auto)+
      then show ?thesis using en(2) False sp(1) by (intro next_same) (auto simp: last_or_def)
    qed
    moreover have "head (ys @ [e]) = head (ys @ zs)" using False by (cases ys) simp_all
    ultimately show ?thesis
      using segment_retarget [OF sp(2) False, of m' "head zs"] by simp
  qed simp
  moreover have "segment m' (last_or None ys) (head zs) zs None"
  proof (cases zs)
    case (Cons w ws)
    have "prev_of m' w = Some (last_or None ys)" using m'(2) en Cons sp(1) by simp
    moreover have "prev_of m' x = prev_of m x" if "x \<in> set ws" for x
      using that en(3) Cons sp(1) by (intro prev_same) auto
    moreover have "next_of m' x = next_of m x" if "x \<in> set zs" for x
      using that q(1) [of x] sp(1) by (intro next_same) auto
    ultimately show ?thesis
      using segment_reprev [of m "Some e" "head zs" w ws None m' "last_or None ys"] sp(3) Cons by simp
  qed simp
  ultimately have "linked m' (ys @ zs)"
    using sp(1) by (cases "zs = []") (auto simp: linked_def segment_append Let_def)
  moreover have "detached m' e"
    using m' by (auto simp: detached_def split: option.splits)
  moreover have "next_of m' x = next_of m x \<and> prev_of m' x = prev_of m x"
    if "x \<notin> set (ys @ e # zs)" for x
    using that q(1) [of x] z(1) [of x] prev_same [of x] next_same [of x] by auto
  ultimately show ?thesis using m' by blast
qed

interpretation al: intrusive_list linked detached payload insert_before erase next_of prev_of
  elements_from
proof
  fix m :: "'a memory" and ys e zs a xs
  show "\<exists>m'. insert_before a e m = Some m' \<and> linked m' (ys @ a # e # zs) \<and> payload m' = payload m"
    if "linked m (ys @ e # zs)" "detached m a" "a \<notin> set (ys @ e # zs)"
    using linked_insert [OF that] by blast
  show "\<exists>m'. erase e m = Some m' \<and> linked m' (ys @ zs) \<and> payload m' = payload m \<and> detached m' e"
    if "linked m (ys @ e # zs)" using linked_erase [OF that] by blast
  show "next_of m e = Some (head zs)" "prev_of m e = Some (last_or None ys)"
    if "linked m (ys @ e # zs)" using that by (auto simp: linked_split)
  show "elements_from m (head xs) = Some xs" "distinct xs" if "linked m xs"
    using that by (auto simp: elements_from_linked linked_def)
qed

section \<open>Relocation and allocation\<close>

lemma move_hook_links:
  assumes "cells m e = Some en" "cells m a = Some an" "a \<noteq> e"
    and "\<And>q. prev_ptr en = Some q \<Longrightarrow> q \<noteq> e \<and> q \<noteq> a \<and> cells m q \<noteq> None"
    and "\<And>z. next_ptr en = Some z \<Longrightarrow> z \<noteq> e \<and> z \<noteq> a \<and> cells m z \<noteq> None"
    and "prev_ptr en \<noteq> next_ptr en \<or> prev_ptr en = None"
  shows "\<exists>m'. move_hook a e m = Some m' \<and>
    prev_of m' = (case next_ptr en of None \<Rightarrow> (prev_of m)(a \<mapsto> prev_ptr en, e \<mapsto> None)
       | Some z \<Rightarrow> (prev_of m)(a \<mapsto> prev_ptr en, z \<mapsto> Some a, e \<mapsto> None)) \<and>
    next_of m' = (case prev_ptr en of None \<Rightarrow> (next_of m)(a \<mapsto> next_ptr en, e \<mapsto> None)
       | Some q \<Rightarrow> (next_of m)(a \<mapsto> next_ptr en, q \<mapsto> Some a, e \<mapsto> None)) \<and>
    payload m' = payload m \<and> brk m' = brk m"
  using assms
  by (cases "prev_ptr en"; cases "next_ptr en")
    (auto simp: move_hook_def upd_node_def upd_if_def prev_of_def next_of_def payload_def fun_eq_iff)

lemma linked_move:
  assumes lk: "linked m (ys @ e # zs)" and a: "detached m a" "a \<notin> set (ys @ e # zs)"
  shows "\<exists>m'. move_hook a e m = Some m' \<and> linked m' (ys @ a # zs) \<and> payload m' = payload m
    \<and> detached m' e \<and> brk m' = brk m"
proof -
  have sp: "distinct (ys @ e # zs)" "segment m None (head (ys @ [e])) ys (Some e)"
    "segment m (Some e) (head zs) zs None"
    using lk by (auto simp: linked_split)
  obtain en where en: "cells m e = Some en" "prev_ptr en = last_or None ys" "next_ptr en = head zs"
    using lk by (rule linked_neighbours)
  obtain an where an: "cells m a = Some an" using a by (auto simp: detached_def next_of_def)
  have "a \<noteq> e" using a by auto
  have q: "q \<in> set ys" "q \<noteq> e \<and> q \<noteq> a \<and> cells m q \<noteq> None" if "prev_ptr en = Some q" for q
  proof -
    show "q \<in> set ys" using that en(2) by (cases ys rule: rev_cases) auto
    then show "q \<noteq> e \<and> q \<noteq> a \<and> cells m q \<noteq> None" using sp a linked_allocated [OF lk, of q] by auto
  qed
  have z: "z \<in> set zs" "z \<noteq> e \<and> z \<noteq> a \<and> cells m z \<noteq> None" if "next_ptr en = Some z" for z
  proof -
    show "z \<in> set zs" using that en(3) by (cases zs) auto
    then show "z \<noteq> e \<and> z \<noteq> a \<and> cells m z \<noteq> None" using sp a linked_allocated [OF lk, of z] by auto
  qed
  have qz: "prev_ptr en \<noteq> next_ptr en \<or> prev_ptr en = None"
  proof (cases "prev_ptr en")
    case (Some x)
    then have "next_ptr en \<noteq> Some x" using q(1) [of x] z(1) [of x] sp(1) by auto
    then show ?thesis using Some by simp
  qed simp
  obtain m' where m': "move_hook a e m = Some m'"
    "prev_of m' = (case next_ptr en of None \<Rightarrow> (prev_of m)(a \<mapsto> prev_ptr en, e \<mapsto> None)
       | Some z \<Rightarrow> (prev_of m)(a \<mapsto> prev_ptr en, z \<mapsto> Some a, e \<mapsto> None))"
    "next_of m' = (case prev_ptr en of None \<Rightarrow> (next_of m)(a \<mapsto> next_ptr en, e \<mapsto> None)
       | Some q \<Rightarrow> (next_of m)(a \<mapsto> next_ptr en, q \<mapsto> Some a, e \<mapsto> None))"
    "payload m' = payload m" "brk m' = brk m"
    using move_hook_links [OF en(1) an \<open>a \<noteq> e\<close> q(2) z(2) qz] by blast
  have prev_same: "prev_of m' x = prev_of m x" if "x \<noteq> e" "x \<noteq> a" "next_ptr en \<noteq> Some x" for x
    using that m'(2) by (auto split: option.splits)
  have next_same: "next_of m' x = next_of m x" if "x \<noteq> e" "x \<noteq> a" "prev_ptr en \<noteq> Some x" for x
    using that m'(3) by (auto split: option.splits)
  have "segment m' None (head (ys @ [a])) ys (Some a)"
  proof (cases "ys = []")
    case False
    have "next_of m' (last ys) = Some (Some a)"
      using m'(3) en False sp(1) by (auto simp: last_or_def)
    moreover have "prev_of m' x = prev_of m x" if "x \<in> set ys" for x
      using that z(1) [of x] sp(1) a by (intro prev_same) auto
    moreover have "next_of m' x = next_of m x" if "x \<in> set (butlast ys)" for x
    proof -
      have "x \<noteq> last ys" "x \<in> set ys"
        using that sp(1) False by (cases ys rule: rev_cases; auto)+
      then show ?thesis using en(2) False sp(1) a by (intro next_same) (auto simp: last_or_def)
    qed
    moreover have "head (ys @ [e]) = head (ys @ [a])" using False by (cases ys) simp_all
    ultimately show ?thesis
      using segment_retarget [OF sp(2) False, of m' "Some a"] by simp
  qed simp
  moreover have "segment m' (Some a) (head zs) zs None"
  proof (cases zs)
    case (Cons w ws)
    have "prev_of m' w = Some (Some a)" using m'(2) en Cons sp(1) by simp
    moreover have "prev_of m' x = prev_of m x" if "x \<in> set ws" for x
      using that en(3) Cons sp(1) a by (intro prev_same) auto
    moreover have "next_of m' x = next_of m x" if "x \<in> set zs" for x
      using that q(1) [of x] sp(1) a by (intro next_same) auto
    ultimately show ?thesis
      using segment_reprev [of m "Some e" "head zs" w ws None m' "Some a"] sp(3) Cons by simp
  qed simp
  moreover have "prev_of m' a = Some (last_or None ys)" "next_of m' a = Some (head zs)"
    using m' en(2,3) q z \<open>a \<noteq> e\<close> by (auto split: option.splits)
  ultimately have "linked m' (ys @ a # zs)"
    using sp(1) a by (auto simp: linked_split)
  moreover have "detached m' e"
    using m' by (auto simp: detached_def split: option.splits)
  ultimately show ?thesis using m' by blast
qed

text \<open>A fresh object is on no list and is none of the objects in use.\<close>

definition below_brk :: "'a memory \<Rightarrow> bool" where
  "below_brk m \<longleftrightarrow> (\<forall>a nd. cells m a = Some nd \<longrightarrow> a < brk m)"

lemma construct_fresh:
  assumes "below_brk m" "construct x m = (a, m')"
  shows "detached m' a" "payload m' = (payload m)(a \<mapsto> x)" "payload m a = None" "below_brk m'"
    "linked m xs \<Longrightarrow> linked m' xs \<and> a \<notin> set xs"
    "brk m' = Suc (brk m)" "a = brk m"
    "b \<noteq> a \<Longrightarrow> next_of m' b = next_of m b \<and> prev_of m' b = prev_of m b"
proof -
  have fresh: "cells m (brk m) = None" using assms(1) by (force simp: below_brk_def)
  have m': "a = brk m" "m' = m\<lparr>cells := (cells m)(brk m \<mapsto> \<lparr>next_ptr = None, prev_ptr = None, obj = x\<rparr>),
      brk := Suc (brk m)\<rparr>"
    using assms(2) by (auto simp: construct_def)
  show "detached m' a" "payload m' = (payload m)(a \<mapsto> x)" "payload m a = None"
    "brk m' = Suc (brk m)" "a = brk m"
    using fresh by (auto simp: m' detached_def next_of_def prev_of_def payload_def fun_eq_iff)
  show "below_brk m'" using assms(1) by (auto simp: m' below_brk_def less_Suc_eq)
  show same: "next_of m' b = next_of m b \<and> prev_of m' b = prev_of m b" if "b \<noteq> a" for b
    using that by (simp add: m' next_of_def prev_of_def)
  show "linked m' xs \<and> a \<notin> set xs" if "linked m xs"
  proof -
    have "a \<notin> set xs" using linked_allocated [OF that, of a] fresh m' by auto
    then have "segment m' None (head xs) xs None = segment m None (head xs) xs None"
      using same by (intro segment_cong) metis
    then show ?thesis using that \<open>a \<notin> set xs\<close> by (simp add: linked_def)
  qed
qed

lemma below_brk_cong: "payload m' = payload m \<Longrightarrow> brk m' = brk m \<Longrightarrow> below_brk m' = below_brk m"
  unfolding below_brk_def payload_def fun_eq_iff by (metis map_option_eq_Some option.exhaust)

section \<open>Properties\<close>

text \<open>C28. Linking an object in front of an element and unlinking it again leaves the list as it was:
  the forward walk finds the new element at its place in between, the neighbours are restored
  after \<open>erase\<close>, and no object on the list is touched by either operation.\<close>

theorem insert_erase_traversal:
  assumes "linked m (ys @ e # zs)" "detached m a" "a \<notin> set (ys @ e # zs)"
  shows "\<exists>m1 m2. insert_before a e m = Some m1 \<and> erase a m1 = Some m2 \<and>
    all_elements m1 e = Some (ys @ a # e # zs) \<and> all_elements m2 e = Some (ys @ e # zs) \<and>
    payload m1 = payload m \<and> payload m2 = payload m"
proof -
  obtain m1 where m1: "insert_before a e m = Some m1" "linked m1 (ys @ a # e # zs)" "payload m1 = payload m"
    using al.insert_law [OF assms] by blast
  then obtain m2 where m2: "erase a m1 = Some m2" "linked m2 (ys @ e # zs)" "payload m2 = payload m"
    using al.erase_law [of m1 ys a "e # zs"] by auto
  have "all_elements m1 e = Some (ys @ a # e # zs)"
    using all_elements_linked [of m1 "ys @ [a]" e zs] m1 by simp
  moreover have "all_elements m2 e = Some (ys @ e # zs)"
    using m2 by (intro all_elements_linked)
  ultimately show ?thesis using m1 m2 by blast
qed

theorem insert_erase_traversal_witness:
  "\<exists>m1 m2. let m = \<lparr>cells = [0 \<mapsto> \<lparr>next_ptr = Some 1, prev_ptr = None, obj = True\<rparr>,
      1 \<mapsto> \<lparr>next_ptr = None, prev_ptr = Some 0, obj = False\<rparr>,
      2 \<mapsto> \<lparr>next_ptr = None, prev_ptr = None, obj = True\<rparr>], brk = 3\<rparr> in
    insert_before 2 1 m = Some m1 \<and> erase 2 m1 = Some m2 \<and>
    all_elements m1 1 = Some [0, 2, 1] \<and> all_elements m2 1 = Some [0, 1] \<and>
    payload m1 = payload m \<and> payload m2 = payload m"
  using insert_erase_traversal [of "\<lparr>cells = [0 \<mapsto> \<lparr>next_ptr = Some 1, prev_ptr = None, obj = True\<rparr>,
      1 \<mapsto> \<lparr>next_ptr = None, prev_ptr = Some 0, obj = False\<rparr>,
      2 \<mapsto> \<lparr>next_ptr = None, prev_ptr = None, obj = True\<rparr>], brk = 3\<rparr>" "[0]" 1 "[]" 2]
  by (simp add: linked_def next_of_def prev_of_def detached_def Let_def)

text \<open>C30. Relocating an object (the hook's move constructor) keeps the list: the new address takes the
  old one's place in every traversal and the old object is left on no list.\<close>

theorem move_keeps_position:
  assumes "linked m (ys @ e # zs)" "detached m a" "a \<notin> set (ys @ e # zs)"
  shows "\<exists>m'. move_hook a e m = Some m' \<and> all_elements m' a = Some (ys @ a # zs) \<and>
    next_of m' e = Some None \<and> prev_of m' e = Some None \<and> payload m' = payload m"
  using linked_move [OF assms] all_elements_linked by (fastforce simp: detached_def)

theorem move_keeps_position_witness:
  "\<exists>m'. let m = \<lparr>cells = [0 \<mapsto> \<lparr>next_ptr = Some 1, prev_ptr = None, obj = True\<rparr>,
      1 \<mapsto> \<lparr>next_ptr = None, prev_ptr = Some 0, obj = False\<rparr>,
      2 \<mapsto> \<lparr>next_ptr = None, prev_ptr = None, obj = True\<rparr>], brk = 3\<rparr> in
    move_hook 2 0 m = Some m' \<and> all_elements m' 2 = Some [2, 1] \<and>
    next_of m' 0 = Some None \<and> prev_of m' 0 = Some None \<and> payload m' = payload m"
  using move_keeps_position [of "\<lparr>cells = [0 \<mapsto> \<lparr>next_ptr = Some 1, prev_ptr = None, obj = True\<rparr>,
      1 \<mapsto> \<lparr>next_ptr = None, prev_ptr = Some 0, obj = False\<rparr>,
      2 \<mapsto> \<lparr>next_ptr = None, prev_ptr = None, obj = True\<rparr>], brk = 3\<rparr>" "[]" 0 "[1]" 2]
  by (simp add: linked_def next_of_def prev_of_def detached_def Let_def)

end
