(* ===== verification/Partition_Version.thy ===== *)
theory Partition_Version
  imports Anchorless_List
begin

text \<open>
  The multi-versioned partition of PORT: \<open>class partition_version\<close>, \<open>class partition_version_ref\<close>,
  \<open>class partition_snapshot\<close> and \<open>class partition_entry\<close>
  (\<open>src/Scylla-moon/partition_version.hh\<close>, \<open>partition_version.cc\<close>), at the level of pointers: the
  versions are objects of the memory of \<open>Anchorless_List\<close>, references and back references are
  explicit, snapshots are reference counted. \<open>None\<close> stands for a null or dangling dereference, a
  failed \<open>assert\<close>, or a loop that does not end.

  The contents of a version are a \<open>mutation_partition\<close>. The operations of that class that a partition
  entry calls are the fields of \<open>partition_ops\<close>; the theory of the mutation partition provides them.
\<close>

section \<open>Data\<close>

record ('p, 'm) partition_ops =
  mp_new :: 'p
  mp_apply_view :: "'p \<Rightarrow> 'm \<Rightarrow> u32 \<Rightarrow> 'p"
  mp_stamp :: "u32 \<Rightarrow> 'p \<Rightarrow> 'p option"
  mp_merge :: "'p \<Rightarrow> 'p \<Rightarrow> 'p"
  mp_upgrade :: "'p \<Rightarrow> 'p"
  static_row_continuous :: "'p \<Rightarrow> bool"
  set_static_row_continuous :: "'p \<Rightarrow> bool \<Rightarrow> 'p"
  mp_evict :: "'p \<Rightarrow> 'p"

text \<open>Who holds the \<open>partition_version_ref\<close> a version points back to.\<close>

datatype ref_owner = Entry_ref | Snapshot_ref nat

record 'p partition_version =
  backref :: "ref_owner option"
  partition :: 'p
  version_number :: u32
  snapshot :: "nat option"

record partition_version_ref =
  version_ptr :: "addr option"
  unique_owner :: bool
  evictable :: bool

text \<open>The constructor of a per-version snapshot leaves \<open>_entry\<close> uninitialised.\<close>

datatype entry_ptr = Null_entry | This_entry | Uninitialised

record partition_snapshot =
  snap_version :: partition_version_ref
  snap_entry :: entry_ptr
  snap_phase :: u64
  refcount :: nat

record partition_entry =
  entry_snapshot :: "nat option"
  entry_version :: partition_version_ref
  highest_version_read :: u32
  highest_version_written :: u32
  num_versions :: u32
  last_version :: "addr option"

text \<open>The state around one partition: its memory, the live snapshots and the entry itself.\<close>

record 'p pstate =
  mem :: "'p partition_version memory"
  snaps :: "nat \<rightharpoonup> partition_snapshot"
  next_snap :: nat
  pe :: partition_entry

definition pv_new :: "'p \<Rightarrow> 'p partition_version" where
  "pv_new mp = \<lparr>backref = None, partition = mp, version_number = 0, snapshot = None\<rparr>"

definition null_ref :: partition_version_ref where
  "null_ref = \<lparr>version_ptr = None, unique_owner = False, evictable = False\<rparr>"

definition pv_at :: "'p pstate \<Rightarrow> addr \<Rightarrow> 'p partition_version option" where
  "pv_at st a = payload (mem st) a"

definition upd_pv ::
    "addr \<Rightarrow> ('p partition_version \<Rightarrow> 'p partition_version) \<Rightarrow> 'p pstate \<Rightarrow> 'p pstate option" where
  "upd_pv a f st = do { m \<leftarrow> upd_node a (obj_update f) (mem st); Some (st\<lparr>mem := m\<rparr>) }"

section \<open>References\<close>

text \<open>\<open>~partition_version_ref\<close>.\<close>

definition ref_destroy :: "partition_version_ref \<Rightarrow> 'p pstate \<Rightarrow> 'p pstate option" where
  "ref_destroy r st =
     (case version_ptr r of None \<Rightarrow> Some st | Some a \<Rightarrow> upd_pv a (backref_update (\<lambda>_. None)) st)"

text \<open>\<open>_version = partition_version_ref(*v, ev)\<close> in the entry: the constructor asserts that the version
  has no back reference, the assignment destroys the old reference and the move constructor
  takes the version over.\<close>

definition assign_entry_ref :: "addr \<Rightarrow> bool \<Rightarrow> 'p pstate \<Rightarrow> 'p pstate option" where
  "assign_entry_ref v ev st = do {
     pv \<leftarrow> pv_at st v;
     if backref pv \<noteq> None then None else do {
       st \<leftarrow> ref_destroy (entry_version (pe st)) st;
       st \<leftarrow> upd_pv v (backref_update (\<lambda>_. Some Entry_ref)) st;
       Some (st\<lparr>pe := (pe st)\<lparr>entry_version := \<lparr>version_ptr = Some v, unique_owner = False, evictable = ev\<rparr>\<rparr>\<rparr>)
     }
   }"

text \<open>\<open>_snapshot->_version = std::move(_version); _snapshot->_entry = nullptr\<close>.\<close>

definition move_entry_ref_to_snapshot :: "nat \<Rightarrow> 'p pstate \<Rightarrow> 'p pstate option" where
  "move_entry_ref_to_snapshot s st = do {
     sn \<leftarrow> snaps st s;
     st \<leftarrow> ref_destroy (snap_version sn) st;
     let r = entry_version (pe st);
     st \<leftarrow> (case version_ptr r of None \<Rightarrow> Some st
            | Some a \<Rightarrow> upd_pv a (backref_update (\<lambda>_. Some (Snapshot_ref s))) st);
     Some (st\<lparr>snaps := (snaps st)(s \<mapsto> sn\<lparr>snap_version := r\<lparr>unique_owner := False\<rparr>, snap_entry := Null_entry\<rparr>),
              pe := (pe st)\<lparr>entry_version := r\<lparr>version_ptr := None\<rparr>\<rparr>\<rparr>)
   }"

section \<open>Creating versions\<close>

definition partition_entry_of :: "'p \<Rightarrow> 'p pstate option" where
  "partition_entry_of mp = (
     let (a, m) = construct (pv_new mp) \<lparr>cells = Map.empty, brk = 0\<rparr>
     in assign_entry_ref a False
          \<lparr>mem = m, snaps = Map.empty, next_snap = 0,
           pe = \<lparr>entry_snapshot = None, entry_version = null_ref, highest_version_read = 0,
                 highest_version_written = 0, num_versions = 0, last_version = None\<rparr>\<rparr>)"

definition set_version :: "addr \<Rightarrow> 'p pstate \<Rightarrow> 'p pstate option" where
  "set_version new_version st = do {
     let ev = evictable (entry_version (pe st));
     st \<leftarrow> (case entry_snapshot (pe st) of None \<Rightarrow> Some st
            | Some s \<Rightarrow> move_entry_ref_to_snapshot s st);
     let st = st\<lparr>pe := (pe st)\<lparr>entry_snapshot := None\<rparr>\<rparr>;
     assign_entry_ref new_version ev st
   }"

text \<open>\<open>construct<partition_version>(mp)\<close>, \<open>insert_before(*_version)\<close>; the new address is returned.\<close>

definition new_version_before_latest :: "'p \<Rightarrow> 'p pstate \<Rightarrow> (addr \<times> 'p pstate) option" where
  "new_version_before_latest mp st = do {
     cur \<leftarrow> version_ptr (entry_version (pe st));
     let (a, m) = construct (pv_new mp) (mem st);
     m \<leftarrow> insert_before a cur m;
     Some (a, st\<lparr>mem := m\<rparr>)
   }"

definition add_version :: "('p, 'm) partition_ops \<Rightarrow> 'p pstate \<Rightarrow> (addr \<times> 'p pstate) option" where
  "add_version ops st = do {
     cur \<leftarrow> version_ptr (entry_version (pe st));
     pv \<leftarrow> pv_at st cur;
     let mp = set_static_row_continuous ops (mp_new ops) (static_row_continuous ops (partition pv));
     (a, st) \<leftarrow> new_version_before_latest mp st;
     st \<leftarrow> set_version a st;
     Some (a, st)
   }"

definition open_version ::
    "('p, 'm) partition_ops \<Rightarrow> u64 \<Rightarrow> 'p pstate \<Rightarrow> (addr \<times> 'p pstate) option" where
  "open_version ops phase st =
     (case entry_snapshot (pe st) of
        None \<Rightarrow> do { v \<leftarrow> version_ptr (entry_version (pe st)); Some (v, st) }
      | Some s \<Rightarrow> do {
          sn \<leftarrow> snaps st s;
          if snap_phase sn \<noteq> phase then add_version ops st
          else do { v \<leftarrow> version_ptr (entry_version (pe st)); Some (v, st) }
        })"

text \<open>\<open>apply(const schema&, const mutation_partition&, const schema&)\<close>: merges in place when the entry
  has no snapshot of its own.\<close>

definition pe_apply_in_place ::
    "('p, 'm) partition_ops \<Rightarrow> bool \<Rightarrow> 'p \<Rightarrow> 'p pstate \<Rightarrow> 'p pstate option" where
  "pe_apply_in_place ops same_schema mp st =
     (case entry_snapshot (pe st) of
        None \<Rightarrow> do {
          v \<leftarrow> version_ptr (entry_version (pe st));
          upd_pv v (partition_update (\<lambda>p. mp_merge ops p mp)) st
        }
      | Some _ \<Rightarrow> do {
          let mp1 = (if same_schema then mp else mp_upgrade ops mp);
          (a, st) \<leftarrow> new_version_before_latest mp1 st;
          set_version a st
        })"

section \<open>PORT writes\<close>

definition promote :: "u32 \<Rightarrow> partition_entry \<Rightarrow> u32" where
  "promote version_to_write e =
     (let promoted = (if version_to_write = 0 then highest_version_written e + 1 else version_to_write)
      in if version_to_write \<noteq> 0 \<and> version_to_write \<le> highest_version_read e
         then highest_version_read e + 1 else promoted)"

text \<open>The garbage collection at the end of a write.\<close>

definition gc_versions :: "'p pstate \<Rightarrow> 'p pstate option" where
  "gc_versions st = do {
     l \<leftarrow> last_version (pe st);
     lv \<leftarrow> pv_at st l;
     st \<leftarrow> (if snapshot lv = None
            then do { p \<leftarrow> prev_of (mem st) l; Some (st\<lparr>pe := (pe st)\<lparr>last_version := p\<rparr>\<rparr>) }
            else Some st);
     l \<leftarrow> last_version (pe st);
     nxt \<leftarrow> next_of (mem st) l;
     z \<leftarrow> nxt;
     m \<leftarrow> erase z (mem st);
     Some (st\<lparr>mem := m, pe := (pe st)\<lparr>num_versions := num_versions (pe st) - 1\<rparr>\<rparr>)
   }"

text \<open>\<open>apply(const schema&, mutation_partition_view, const schema&, lw_shared_ptr<uint32_t>, uint32_t)\<close>.
  \<open>cv\<close> is what \<open>commit_version_ptr\<close> points to, \<open>None\<close> for a null pointer; \<open>is_data\<close> is
  \<open>s.cf_name() == "data"\<close>.\<close>

definition write_ptr :: "u32 option \<Rightarrow> u32 \<Rightarrow> u32 option" where
  "write_ptr p v = map_option (\<lambda>_. v) p"

definition pe_apply ::
    "('p, 'm) partition_ops \<Rightarrow> bool \<Rightarrow> 'm \<Rightarrow> u32 option \<Rightarrow> u32 \<Rightarrow> 'p pstate \<Rightarrow> ('p pstate \<times> u32 option) option"
  where
  "pe_apply ops is_data mpv cv version_to_write st =
     (if version_to_write \<noteq> 0 \<and> version_to_write \<le> highest_version_written (pe st)
      then Some (st, write_ptr cv (highest_version_written (pe st)))
      else do {
        let promoted = promote version_to_write (pe st);
        let cv = write_ptr cv promoted;
        let mp = mp_apply_view ops (mp_new ops) mpv promoted;
        mp \<leftarrow> (if version_to_write \<noteq> 0 \<or> is_data then mp_stamp ops promoted mp else Some mp);
        (a, st) \<leftarrow> new_version_before_latest mp st;
        st \<leftarrow> upd_pv a (version_number_update (\<lambda>_. promoted)) st;
        st \<leftarrow> set_version a st;
        let st = (if promoted = 1 then st\<lparr>pe := (pe st)\<lparr>last_version := Some a\<rparr>\<rparr> else st);
        let st = st\<lparr>pe := (pe st)\<lparr>highest_version_written := promoted\<rparr>\<rparr>;
        let n = num_versions (pe st);
        let st = st\<lparr>pe := (pe st)\<lparr>num_versions := n + 1\<rparr>\<rparr>;
        st \<leftarrow> (if n \<ge> 100 then gc_versions st else Some st);
        Some (st, cv)
      })"

section \<open>PORT reads\<close>

text \<open>The search for the newest version that is not newer than the requested one; \<open>Some None\<close> when
  the list ends first.\<close>

partial_function (option) find_version ::
    "'p partition_version memory \<Rightarrow> addr option \<Rightarrow> u32 \<Rightarrow> addr option option" where
  [code]: "find_version m p v =
     (case p of None \<Rightarrow> Some None
      | Some a \<Rightarrow> Option.bind (payload m a) (\<lambda>pv.
          if version_number pv \<le> v then Some (Some a)
          else Option.bind (next_of m a) (\<lambda>nxt. find_version m nxt v)))"

definition select_version :: "u32 \<Rightarrow> 'p pstate \<Rightarrow> addr option" where
  "select_version version_to_read st = do {
     first \<leftarrow> version_ptr (entry_version (pe st));
     if version_to_read > 0 then do {
       itr \<leftarrow> find_version (mem st) (Some first) version_to_read;
       (case itr of None \<Rightarrow> Some first
        | Some a \<Rightarrow> do {
            pv \<leftarrow> pv_at st a;
            Some (if version_number pv = 0 then first else a)
          })
     } else Some first
   }"

definition pe_read ::
    "('p, 'm) partition_ops \<Rightarrow> u64 \<Rightarrow> u32 \<Rightarrow> 'p pstate \<Rightarrow> (nat \<times> 'p pstate) option" where
  "pe_read ops phase version_to_read st = do {
     (_, st) \<leftarrow> open_version ops phase st;
     let st = (if version_to_read > highest_version_read (pe st)
               then st\<lparr>pe := (pe st)\<lparr>highest_version_read := version_to_read\<rparr>\<rparr> else st);
     a \<leftarrow> select_version version_to_read st;
     pv \<leftarrow> pv_at st a;
     (case snapshot pv of
        Some s \<Rightarrow> do {
          sn \<leftarrow> snaps st s;
          Some (s, st\<lparr>snaps := (snaps st)(s \<mapsto> sn\<lparr>refcount := refcount sn + 1\<rparr>)\<rparr>)
        }
      | None \<Rightarrow> do {
          let s = next_snap st;
          let sn = \<lparr>snap_version = \<lparr>version_ptr = Some a, unique_owner = False, evictable = False\<rparr>,
                    snap_entry = Uninitialised, snap_phase = phase, refcount = 1\<rparr>;
          st \<leftarrow> upd_pv a (snapshot_update (\<lambda>_. Some s)) st;
          Some (s, st\<lparr>snaps := (snaps st)(s \<mapsto> sn), next_snap := Suc s\<rparr>)
        })
   }"

section \<open>Snapshots\<close>

text \<open>\<open>partition_snapshot::version()\<close>.\<close>

definition snapshot_version :: "'p pstate \<Rightarrow> nat \<Rightarrow> addr option" where
  "snapshot_version st s = do {
     sn \<leftarrow> snaps st s;
     (case version_ptr (snap_version sn) of
        Some a \<Rightarrow> Some a
      | None \<Rightarrow> (if snap_entry sn = This_entry then version_ptr (entry_version (pe st)) else None))
   }"

text \<open>What a reader of the snapshot sees: the partition of the snapshot's version.\<close>

definition snapshot_partition :: "'p pstate \<Rightarrow> nat \<Rightarrow> 'p option" where
  "snapshot_partition st s = do { a \<leftarrow> snapshot_version st s; pv \<leftarrow> pv_at st a; Some (partition pv) }"

definition version_count :: "'p pstate \<Rightarrow> nat \<Rightarrow> nat option" where
  "version_count st s = do {
     a \<leftarrow> snapshot_version st s; vs \<leftarrow> elements_from (mem st) (Some a); Some (length vs) }"

text \<open>\<open>squashed\<close>: the versions from the snapshot's on, merged from the newest to the oldest.\<close>

definition snapshot_squashed :: "('p, 'm) partition_ops \<Rightarrow> 'p pstate \<Rightarrow> nat \<Rightarrow> 'p option" where
  "snapshot_squashed ops st s = do {
     a \<leftarrow> snapshot_version st s;
     pv \<leftarrow> pv_at st a;
     nxt \<leftarrow> next_of (mem st) a;
     vs \<leftarrow> elements_from (mem st) nxt;
     Some (foldl (\<lambda>r v. case pv_at st v of None \<Rightarrow> r | Some w \<Rightarrow> mp_merge ops r (partition w)) (partition pv) vs)
   }"

text \<open>Dropping one reference; the last one runs \<open>~partition_snapshot\<close> and then the destructor of its
  \<open>_version\<close> member.\<close>

definition destroy_snapshot :: "nat \<Rightarrow> 'p pstate \<Rightarrow> 'p pstate option" where
  "destroy_snapshot s st = do {
     sn \<leftarrow> snaps st s;
     st \<leftarrow> (case version_ptr (snap_version sn) of
              Some a \<Rightarrow> upd_pv a (snapshot_update (\<lambda>_. None)) st
            | None \<Rightarrow> (case snap_entry sn of
                         Null_entry \<Rightarrow> Some st
                       | This_entry \<Rightarrow> Some (st\<lparr>pe := (pe st)\<lparr>entry_snapshot := None\<rparr>\<rparr>)
                       | Uninitialised \<Rightarrow> None));
     st \<leftarrow> ref_destroy (snap_version sn) st;
     Some (st\<lparr>snaps := (snaps st)(s := None)\<rparr>)
   }"

definition release_snapshot :: "nat \<Rightarrow> 'p pstate \<Rightarrow> 'p pstate option" where
  "release_snapshot s st = do {
     sn \<leftarrow> snaps st s;
     if refcount sn > 1 then Some (st\<lparr>snaps := (snaps st)(s \<mapsto> sn\<lparr>refcount := refcount sn - 1\<rparr>)\<rparr>)
     else destroy_snapshot s st
   }"

section \<open>Destruction, relocation and merging of versions\<close>

text \<open>Writing the \<open>_version\<close> field of the reference a version points back to.\<close>

definition set_owner_version :: "ref_owner \<Rightarrow> addr option \<Rightarrow> 'p pstate \<Rightarrow> 'p pstate option" where
  "set_owner_version own p st =
     (case own of
        Entry_ref \<Rightarrow> Some (st\<lparr>pe := (pe st)\<lparr>entry_version := (entry_version (pe st))\<lparr>version_ptr := p\<rparr>\<rparr>\<rparr>)
      | Snapshot_ref s \<Rightarrow> do {
          sn \<leftarrow> snaps st s;
          Some (st\<lparr>snaps := (snaps st)(s \<mapsto> sn\<lparr>snap_version := (snap_version sn)\<lparr>version_ptr := p\<rparr>\<rparr>)\<rparr>)
        })"

definition mark_unique_owner :: "ref_owner \<Rightarrow> 'p pstate \<Rightarrow> 'p pstate option" where
  "mark_unique_owner own st =
     (case own of
        Entry_ref \<Rightarrow> Some (st\<lparr>pe := (pe st)\<lparr>entry_version := (entry_version (pe st))\<lparr>unique_owner := True\<rparr>\<rparr>\<rparr>)
      | Snapshot_ref s \<Rightarrow> do {
          sn \<leftarrow> snaps st s;
          Some (st\<lparr>snaps := (snaps st)(s \<mapsto> sn\<lparr>snap_version := (snap_version sn)\<lparr>unique_owner := True\<rparr>\<rparr>)\<rparr>)
        })"

text \<open>\<open>current_allocator().destroy(v)\<close>: \<open>~partition_version\<close>, the destructor of the hook, deallocation.\<close>

definition destroy_version :: "addr \<Rightarrow> 'p pstate \<Rightarrow> 'p pstate option" where
  "destroy_version a st = do {
     pv \<leftarrow> pv_at st a;
     st \<leftarrow> (case backref pv of None \<Rightarrow> Some st | Some own \<Rightarrow> set_owner_version own None st);
     m \<leftarrow> destroy_hook a (mem st);
     Some (st\<lparr>mem := free a m\<rparr>)
   }"

partial_function (option) remove_or_mark_as_unique_owner :: "addr option \<Rightarrow> 'p pstate \<Rightarrow> 'p pstate option" where
  [code]: "remove_or_mark_as_unique_owner current st =
     (case current of None \<Rightarrow> Some st
      | Some a \<Rightarrow> Option.bind (pv_at st a) (\<lambda>pv.
          case backref pv of
            Some own \<Rightarrow> mark_unique_owner own st
          | None \<Rightarrow> Option.bind (next_of (mem st) a) (\<lambda>nxt.
              Option.bind (destroy_version a st) (\<lambda>st.
                remove_or_mark_as_unique_owner nxt st))))"

text \<open>\<open>~partition_entry\<close>.\<close>

definition destroy_entry :: "'p pstate \<Rightarrow> 'p pstate option" where
  "destroy_entry st =
     (case version_ptr (entry_version (pe st)) of
        None \<Rightarrow> Some st
      | Some v \<Rightarrow> (case entry_snapshot (pe st) of
          Some s \<Rightarrow> do {
            st \<leftarrow> move_entry_ref_to_snapshot s st;
            mark_unique_owner (Snapshot_ref s) st
          }
        | None \<Rightarrow> do {
            st \<leftarrow> ref_destroy (entry_version (pe st)) st;
            let st = st\<lparr>pe := (pe st)\<lparr>entry_version := null_ref\<rparr>\<rparr>;
            remove_or_mark_as_unique_owner (Some v) st
          }))"

text \<open>\<open>partition_version(partition_version&&)\<close> into a new object, after which the allocator destroys the
  old one: what a compaction of the memory region does to a version.\<close>

definition relocate_version :: "addr \<Rightarrow> 'p pstate \<Rightarrow> (addr \<times> 'p pstate) option" where
  "relocate_version old st = do {
     pv \<leftarrow> pv_at st old;
     let (a, m) = construct \<lparr>backref = backref pv, partition = partition pv,
                             version_number = 0, snapshot = None\<rparr> (mem st);
     m \<leftarrow> move_hook a old m;
     let st = st\<lparr>mem := m\<rparr>;
     st \<leftarrow> (case backref pv of None \<Rightarrow> Some st | Some own \<Rightarrow> set_owner_version own (Some a) st);
     st \<leftarrow> upd_pv old (backref_update (\<lambda>_. None)) st;
     st \<leftarrow> destroy_version old st;
     Some (a, st)
   }"

text \<open>\<open>partition_entry(partition_entry&&)\<close>: the counters and \<open>last_version\<close> take their default values.\<close>

definition move_entry :: "'p pstate \<Rightarrow> 'p pstate option" where
  "move_entry st = do {
     let e = pe st;
     st \<leftarrow> (case version_ptr (entry_version e) of None \<Rightarrow> Some st
            | Some a \<Rightarrow> upd_pv a (backref_update (\<lambda>_. Some Entry_ref)) st);
     st \<leftarrow> (case entry_snapshot e of None \<Rightarrow> Some st
            | Some s \<Rightarrow> do { sn \<leftarrow> snaps st s; Some (st\<lparr>snaps := (snaps st)(s \<mapsto> sn\<lparr>snap_entry := This_entry\<rparr>)\<rparr>) });
     Some (st\<lparr>pe := \<lparr>entry_snapshot = entry_snapshot e,
                     entry_version = (entry_version e)\<lparr>unique_owner := False\<rparr>,
                     highest_version_read = 0, highest_version_written = 0,
                     num_versions = 0, last_version = None\<rparr>\<rparr>)
   }"

text \<open>\<open>partition_snapshot::merge_partition_versions\<close>.\<close>

partial_function (option) first_used_version :: "'p pstate \<Rightarrow> addr \<Rightarrow> addr option" where
  [code]: "first_used_version st a =
     Option.bind (prev_of (mem st) a) (\<lambda>prv.
       case prv of None \<Rightarrow> Some a
       | Some q \<Rightarrow> Option.bind (pv_at st a) (\<lambda>pv.
           if backref pv = None then first_used_version st q else Some a))"

partial_function (option) merge_following ::
    "('p, 'm) partition_ops \<Rightarrow> addr \<Rightarrow> addr option \<Rightarrow> 'p pstate \<Rightarrow> 'p pstate option" where
  [code]: "merge_following ops first_used current st =
     (case current of None \<Rightarrow> Some st
      | Some a \<Rightarrow> Option.bind (pv_at st a) (\<lambda>pv.
          if backref pv \<noteq> None then Some st
          else Option.bind (next_of (mem st) a) (\<lambda>nxt.
            Option.bind (upd_pv first_used (partition_update (\<lambda>p. mp_merge ops p (partition pv))) st) (\<lambda>st.
              Option.bind (destroy_version a st) (\<lambda>st.
                merge_following ops first_used nxt st)))))"

definition merge_partition_versions ::
    "('p, 'm) partition_ops \<Rightarrow> nat \<Rightarrow> 'p pstate \<Rightarrow> 'p pstate option" where
  "merge_partition_versions ops s st = do {
     sn \<leftarrow> snaps st s;
     (case version_ptr (snap_version sn) of
        None \<Rightarrow> Some st
      | Some v \<Rightarrow>
          if unique_owner (snap_version sn) then Some st
          else do {
            st \<leftarrow> ref_destroy (snap_version sn) st;
            let st = st\<lparr>snaps := (snaps st)(s \<mapsto> sn\<lparr>snap_version := null_ref\<rparr>)\<rparr>;
            first_used \<leftarrow> first_used_version st v;
            current \<leftarrow> next_of (mem st) first_used;
            merge_following ops first_used current st
          })
   }"

text \<open>\<open>partition_entry::squashed\<close>, \<open>upgrade\<close> and \<open>evict\<close>.\<close>

definition partitions_of :: "'p pstate \<Rightarrow> addr list \<Rightarrow> 'p list" where
  "partitions_of st vs = List.map_filter (\<lambda>a. map_option partition (pv_at st a)) vs"

definition entry_squashed :: "('p, 'm) partition_ops \<Rightarrow> 'p pstate \<Rightarrow> 'p option" where
  "entry_squashed ops st = do {
     v \<leftarrow> version_ptr (entry_version (pe st));
     pv \<leftarrow> pv_at st v;
     vs \<leftarrow> all_elements (mem st) v;
     Some (foldl (mp_merge ops)
             (set_static_row_continuous ops (mp_new ops) (static_row_continuous ops (partition pv)))
             (partitions_of st vs))
   }"

definition upgrade :: "('p, 'm) partition_ops \<Rightarrow> 'p pstate \<Rightarrow> 'p pstate option" where
  "upgrade ops st = do {
     v \<leftarrow> version_ptr (entry_version (pe st));
     mp \<leftarrow> entry_squashed ops st;
     let (a, m) = construct (pv_new mp) (mem st);
     st \<leftarrow> set_version a (st\<lparr>mem := m\<rparr>);
     remove_or_mark_as_unique_owner (Some v) st
   }"

definition owner_evictable :: "ref_owner \<Rightarrow> 'p pstate \<Rightarrow> bool option" where
  "owner_evictable own st =
     (case own of Entry_ref \<Rightarrow> Some (evictable (entry_version (pe st)))
      | Snapshot_ref s \<Rightarrow> map_option (\<lambda>sn. evictable (snap_version sn)) (snaps st s))"

fun evict_versions :: "('p, 'm) partition_ops \<Rightarrow> addr list \<Rightarrow> 'p pstate \<Rightarrow> 'p pstate option" where
  "evict_versions ops [] st = Some st"
| "evict_versions ops (a # as) st = do {
     pv \<leftarrow> pv_at st a;
     stop \<leftarrow> (case backref pv of None \<Rightarrow> Some False
              | Some own \<Rightarrow> map_option Not (owner_evictable own st));
     if stop then Some st
     else do { st \<leftarrow> upd_pv a (partition_update (mp_evict ops)) st; evict_versions ops as st }
   }"

definition evict :: "('p, 'm) partition_ops \<Rightarrow> 'p pstate \<Rightarrow> 'p pstate option" where
  "evict ops st =
     (case version_ptr (entry_version (pe st)) of
        None \<Rightarrow> Some st
      | Some v \<Rightarrow> do { vs \<leftarrow> elements_from (mem st) (Some v); evict_versions ops vs st })"

end
