(* ===== verification/Mvcc.thy ===== *)
theory Mvcc
  imports Partition_Version
begin

text \<open>
  Correctness of the multi-version list of a partition entry: the effect of every operation on the
  versions, the invariant that reads, writes and releases keep, what a read returns, and how long
  it stays readable.
\<close>

section \<open>Effect of the building blocks\<close>

lemma linked_cong: "next_of m' = next_of m \<Longrightarrow> prev_of m' = prev_of m \<Longrightarrow> linked m' xs = linked m xs"
  using segment_cong [of xs m' m] by (simp add: linked_def)

lemma upd_pv_effect:
  assumes "pv_at st a = Some pv"
  obtains st' where "upd_pv a f st = Some st'" "pv_at st' = (pv_at st)(a \<mapsto> f pv)"
    "next_of (mem st') = next_of (mem st)" "prev_of (mem st') = prev_of (mem st)"
    "brk (mem st') = brk (mem st)" "snaps st' = snaps st" "next_snap st' = next_snap st" "pe st' = pe st"
    "below_brk (mem st') = below_brk (mem st)"
proof -
  obtain nd where nd: "cells (mem st) a = Some nd" "obj nd = pv"
    using assms by (auto simp: pv_at_def payload_def)
  let ?st = "st\<lparr>mem := (mem st)\<lparr>cells := (cells (mem st))(a \<mapsto> obj_update f nd)\<rparr>\<rparr>"
  show ?thesis
  proof (rule that)
    show "upd_pv a f st = Some ?st" by (simp add: upd_pv_def upd_node_def nd)
    show "pv_at ?st = (pv_at st)(a \<mapsto> f pv)" using nd by (auto simp: pv_at_def payload_def fun_eq_iff)
    show "next_of (mem ?st) = next_of (mem st)" "prev_of (mem ?st) = prev_of (mem st)"
      using nd by (auto simp: next_of_def prev_of_def fun_eq_iff)
    show "below_brk (mem ?st) = below_brk (mem st)"
      using nd by (auto simp: below_brk_def)
  qed simp_all
qed

lemma new_version_effect:
  assumes "linked (mem st) as" "as \<noteq> []" "below_brk (mem st)"
    and "version_ptr (entry_version (pe st)) = Some (hd as)"
  obtains st' where "new_version_before_latest mp st = Some (brk (mem st), st')"
    "linked (mem st') (brk (mem st) # as)" "pv_at st' = (pv_at st)(brk (mem st) \<mapsto> pv_new mp)"
    "pv_at st (brk (mem st)) = None" "below_brk (mem st')" "brk (mem st') = Suc (brk (mem st))"
    "snaps st' = snaps st" "next_snap st' = next_snap st" "pe st' = pe st"
proof -
  obtain a m where c: "construct (pv_new mp) (mem st) = (a, m)" by (cases "construct (pv_new mp) (mem st)")
  note fr = construct_fresh [OF assms(3) c]
  obtain x xs where as: "as = x # xs" using assms(2) by (cases as) auto
  have l: "linked m (x # xs)" "a \<notin> set (x # xs)" using fr(5) [OF assms(1)] as by auto
  have det: "detached m a" using fr(1) .
  obtain m' where m': "insert_before a x m = Some m'" "linked m' (a # x # xs)"
    "payload m' = payload m" "brk m' = brk m"
    using linked_insert [of m "[]" x xs a] l det by auto
  have "below_brk m'" using fr(4) below_brk_cong [OF m'(3,4)] by simp
  moreover have "a = brk (mem st)" by (rule fr(7))
  moreover have "new_version_before_latest mp st = Some (a, st\<lparr>mem := m'\<rparr>)"
    using m'(1) as c assms(4) by (simp add: new_version_before_latest_def)
  moreover have "pv_at (st\<lparr>mem := m'\<rparr>) = (pv_at st)(a \<mapsto> pv_new mp)"
    using m'(3) fr(2) by (simp add: pv_at_def fun_eq_iff)
  moreover have "pv_at st a = None" using fr(3) by (simp add: pv_at_def)
  moreover have "brk m' = Suc (brk (mem st))" using m'(4) fr(6) by simp
  ultimately show ?thesis
    using m'(2) as that [of "st\<lparr>mem := m'\<rparr>"] by simp
qed

lemma set_version_effect:
  assumes "entry_snapshot (pe st) = None" "version_ptr (entry_version (pe st)) = Some h"
    and "pv_at st h = Some hpv" "pv_at st a = Some apv" "backref apv = None" "a \<noteq> h"
  obtains st' where "set_version a st = Some st'"
    "pv_at st' = (pv_at st)(h \<mapsto> hpv\<lparr>backref := None\<rparr>, a \<mapsto> apv\<lparr>backref := Some Entry_ref\<rparr>)"
    "next_of (mem st') = next_of (mem st)" "prev_of (mem st') = prev_of (mem st)"
    "brk (mem st') = brk (mem st)" "below_brk (mem st') = below_brk (mem st)"
    "snaps st' = snaps st" "next_snap st' = next_snap st"
    "pe st' = (pe st)\<lparr>entry_version := \<lparr>version_ptr = Some a, unique_owner = False,
       evictable = evictable (entry_version (pe st))\<rparr>\<rparr>"
proof -
  let ?st = "st\<lparr>pe := (pe st)\<lparr>entry_snapshot := None\<rparr>\<rparr>"
  have st: "?st = st" using assms(1) by simp
  obtain st1 where 1: "upd_pv h (backref_update (\<lambda>_. None)) st = Some st1"
    "pv_at st1 = (pv_at st)(h \<mapsto> hpv\<lparr>backref := None\<rparr>)"
    "next_of (mem st1) = next_of (mem st)" "prev_of (mem st1) = prev_of (mem st)"
    "brk (mem st1) = brk (mem st)" "snaps st1 = snaps st" "next_snap st1 = next_snap st" "pe st1 = pe st"
    "below_brk (mem st1) = below_brk (mem st)"
    using upd_pv_effect [OF assms(3)] by blast
  have a1: "pv_at st1 a = Some apv" using 1(2) assms(4,6) by simp
  obtain st2 where 2: "upd_pv a (backref_update (\<lambda>_. Some Entry_ref)) st1 = Some st2"
    "pv_at st2 = (pv_at st1)(a \<mapsto> apv\<lparr>backref := Some Entry_ref\<rparr>)"
    "next_of (mem st2) = next_of (mem st1)" "prev_of (mem st2) = prev_of (mem st1)"
    "brk (mem st2) = brk (mem st1)" "snaps st2 = snaps st1" "next_snap st2 = next_snap st1" "pe st2 = pe st1"
    "below_brk (mem st2) = below_brk (mem st1)"
    using upd_pv_effect [OF a1] by blast
  let ?st3 = "st2\<lparr>pe := (pe st2)\<lparr>entry_version := \<lparr>version_ptr = Some a, unique_owner = False,
     evictable = evictable (entry_version (pe st))\<rparr>\<rparr>\<rparr>"
  have "set_version a st = assign_entry_ref a (evictable (entry_version (pe st))) st"
    by (simp only: set_version_def Let_def assms(1) option.case Option.bind.simps st)
  then have "set_version a st = Some ?st3"
    using assms 1 2 by (simp add: assign_entry_ref_def ref_destroy_def)
  moreover have "pv_at ?st3 = pv_at st2" by (simp add: pv_at_def fun_eq_iff)
  ultimately show ?thesis
    using 1 2 by (intro that [of ?st3]) simp_all
qed

text \<open>The garbage collector: an unpinned oldest version is dropped; behind a pinned one the entry's
  initial empty version is dropped; with nothing behind a pinned one a null pointer is followed.\<close>

lemma gc_unpinned:
  assumes "linked (mem st) (ys @ [q, l] @ zs)" "last_version (pe st) = Some l"
    and "pv_at st l = Some lv" "snapshot lv = None"
  obtains m' where "gc_versions st = Some (st\<lparr>mem := m',
      pe := (pe st)\<lparr>last_version := Some q, num_versions := num_versions (pe st) - 1\<rparr>\<rparr>)"
    "linked m' (ys @ [q] @ zs)" "payload m' = payload (mem st)" "brk m' = brk (mem st)"
proof -
  obtain m' where m': "erase l (mem st) = Some m'" "linked m' (ys @ [q] @ zs)"
    "payload m' = payload (mem st)" "brk m' = brk (mem st)"
    using linked_erase [of "mem st" "ys @ [q]" l zs] assms(1) by auto
  show ?thesis
    using m' assms al.step_back_and_erase [OF assms(1)]
    by (intro that [of m']) (simp_all add: gc_versions_def pv_at_def)
qed

lemma gc_pinned:
  assumes "linked (mem st) (ys @ l # z # zs)" "last_version (pe st) = Some l"
    and "pv_at st l = Some lv" "snapshot lv = Some s"
  obtains m' where "gc_versions st = Some (st\<lparr>mem := m',
      pe := (pe st)\<lparr>num_versions := num_versions (pe st) - 1\<rparr>\<rparr>)"
    "linked m' (ys @ l # zs)" "payload m' = payload (mem st)" "brk m' = brk (mem st)"
proof -
  obtain m' where m': "erase z (mem st) = Some m'" "linked m' (ys @ l # zs)"
    "payload m' = payload (mem st)" "brk m' = brk (mem st)"
    using linked_erase [of "mem st" "ys @ [l]" z zs] assms(1) by auto
  show ?thesis
    using m' assms al.erase_next [OF assms(1)]
    by (intro that [of m']) (simp_all add: gc_versions_def pv_at_def)
qed

lemma gc_pinned_last_crash:
  assumes "linked (mem st) (ys @ [l])" "last_version (pe st) = Some l"
    and "pv_at st l = Some lv" "snapshot lv = Some s"
  shows "gc_versions st = None"
  using assms al.next_law [of "mem st" ys l "[]"] by (simp add: gc_versions_def pv_at_def)

section \<open>The invariant\<close>

definition vnum :: "'p pstate \<Rightarrow> addr \<Rightarrow> u32" where
  "vnum st a = (case pv_at st a of None \<Rightarrow> 0 | Some pv \<Rightarrow> version_number pv)"

text \<open>The entry points to the front of a well-formed list of versions.\<close>

definition chain_ok :: "'p pstate \<Rightarrow> addr list \<Rightarrow> bool" where
  "chain_ok st as \<longleftrightarrow> linked (mem st) as \<and> as \<noteq> [] \<and> below_brk (mem st) \<and>
     version_ptr (entry_version (pe st)) = Some (hd as) \<and> entry_snapshot (pe st) = None"

text \<open>Live snapshots and the versions they were opened on point to each other.\<close>

definition snaps_ok :: "'p pstate \<Rightarrow> bool" where
  "snaps_ok st \<longleftrightarrow>
     (\<forall>s sn. snaps st s = Some sn \<longrightarrow> s < next_snap st \<and> 0 < refcount sn \<and>
        (\<exists>a pv. version_ptr (snap_version sn) = Some a \<and> pv_at st a = Some pv \<and> snapshot pv = Some s)) \<and>
     (\<forall>a pv s. pv_at st a = Some pv \<longrightarrow> snapshot pv = Some s \<longrightarrow>
        (\<exists>sn. snaps st s = Some sn \<and> version_ptr (snap_version sn) = Some a))"

text \<open>Version numbers decrease strictly along the list and the front carries the highest one.\<close>

definition order_ok :: "'p pstate \<Rightarrow> addr list \<Rightarrow> bool" where
  "order_ok st as \<longleftrightarrow> sorted_wrt (\<lambda>a b. vnum st b < vnum st a) as \<and>
     vnum st (hd as) = highest_version_written (pe st)"

text \<open>The counter counts the versions behind the front, there are never more than 100 of them, and
  behind \<open>last_version\<close> there is at most the empty version the entry was created with.\<close>

definition gc_ok :: "'p pstate \<Rightarrow> addr list \<Rightarrow> bool" where
  "gc_ok st as \<longleftrightarrow> length as = Suc (unat (num_versions (pe st))) \<and> num_versions (pe st) \<le> 100 \<and>
     (\<forall>l. last_version (pe st) = Some l \<longrightarrow>
        (\<exists>ys zs. as = ys @ l # zs \<and> length zs \<le> 1 \<and> vnum st l \<noteq> 0 \<and> (\<forall>z \<in> set zs. vnum st z = 0)))"

definition mvcc_inv :: "'p pstate \<Rightarrow> addr list \<Rightarrow> bool" where
  "mvcc_inv st as \<longleftrightarrow> chain_ok st as \<and> snaps_ok st \<and> order_ok st as \<and> gc_ok st as"

lemma snaps_ok_snap:
  "snaps_ok st \<Longrightarrow> snaps st s = Some sn \<Longrightarrow> s < next_snap st \<and> 0 < refcount sn \<and>
     (\<exists>a pv. version_ptr (snap_version sn) = Some a \<and> pv_at st a = Some pv \<and> snapshot pv = Some s)"
  unfolding snaps_ok_def by blast

lemma snaps_ok_version:
  "snaps_ok st \<Longrightarrow> pv_at st a = Some pv \<Longrightarrow> snapshot pv = Some s \<Longrightarrow>
     \<exists>sn. snaps st s = Some sn \<and> version_ptr (snap_version sn) = Some a"
  unfolding snaps_ok_def by blast

lemmas mvcc_defs = chain_ok_def snaps_ok_def order_ok_def gc_ok_def mvcc_inv_def

lemma chain_allocated: "chain_ok st as \<Longrightarrow> a \<in> set as \<Longrightarrow> \<exists>pv. pv_at st a = Some pv"
  using linked_allocated [of "mem st" as a] by (auto simp: chain_ok_def pv_at_def payload_def)

lemma chain_head: "chain_ok st as \<Longrightarrow> \<exists>pv. pv_at st (hd as) = Some pv"
  by (rule chain_allocated) (auto simp: chain_ok_def)

text \<open>A write up to the garbage collection.\<close>

lemma pe_apply_push:
  assumes ch: "chain_ok st as" and hpv: "pv_at st (hd as) = Some hpv"
    and late: "\<not> (vtw \<noteq> 0 \<and> vtw \<le> highest_version_written (pe st))"
    and pr: "pr = promote vtw (pe st)"
    and mp: "(if vtw \<noteq> 0 \<or> is_data then mp_stamp ops pr (mp_apply_view ops (mp_new ops) mpv pr)
              else Some (mp_apply_view ops (mp_new ops) mpv pr)) = Some mp"
  obtains st' where
    "pe_apply ops is_data mpv cv vtw st =
       (if num_versions (pe st) \<ge> 100
        then (case gc_versions st' of None \<Rightarrow> None | Some st2 \<Rightarrow> Some (st2, write_ptr cv pr))
        else Some (st', write_ptr cv pr))"
    "linked (mem st') (brk (mem st) # as)" "below_brk (mem st')" "pv_at st (brk (mem st)) = None"
    "pv_at st' = (pv_at st)(hd as \<mapsto> hpv\<lparr>backref := None\<rparr>,
       brk (mem st) \<mapsto> \<lparr>backref = Some Entry_ref, partition = mp, version_number = pr, snapshot = None\<rparr>)"
    "snaps st' = snaps st" "next_snap st' = next_snap st"
    "pe st' = (pe st)\<lparr>entry_version := \<lparr>version_ptr = Some (brk (mem st)), unique_owner = False,
         evictable = evictable (entry_version (pe st))\<rparr>,
       last_version := (if pr = 1 then Some (brk (mem st)) else last_version (pe st)),
       highest_version_written := pr, num_versions := num_versions (pe st) + 1\<rparr>"
proof -
  let ?a = "brk (mem st)"
  have c: "linked (mem st) as" "as \<noteq> []" "below_brk (mem st)"
    "version_ptr (entry_version (pe st)) = Some (hd as)" "entry_snapshot (pe st) = None"
    using ch by (auto simp: chain_ok_def)
  obtain st1 where 1: "new_version_before_latest mp st = Some (?a, st1)" "linked (mem st1) (?a # as)"
    "pv_at st1 = (pv_at st)(?a \<mapsto> pv_new mp)" "pv_at st ?a = None" "below_brk (mem st1)"
    "brk (mem st1) = Suc ?a" "snaps st1 = snaps st" "next_snap st1 = next_snap st" "pe st1 = pe st"
    using new_version_effect [OF c(1-4), of mp] by blast
  have a1: "pv_at st1 ?a = Some (pv_new mp)" using 1(3) by simp
  obtain st2 where 2: "upd_pv ?a (version_number_update (\<lambda>_. pr)) st1 = Some st2"
    "pv_at st2 = (pv_at st1)(?a \<mapsto> (pv_new mp)\<lparr>version_number := pr\<rparr>)"
    "next_of (mem st2) = next_of (mem st1)" "prev_of (mem st2) = prev_of (mem st1)"
    "brk (mem st2) = brk (mem st1)" "snaps st2 = snaps st1" "next_snap st2 = next_snap st1" "pe st2 = pe st1"
    "below_brk (mem st2) = below_brk (mem st1)"
    using upd_pv_effect [OF a1] by blast
  have ne: "?a \<noteq> hd as" using 1(4) hpv by auto
  have s2: "entry_snapshot (pe st2) = None" "version_ptr (entry_version (pe st2)) = Some (hd as)"
    "pv_at st2 (hd as) = Some hpv" "pv_at st2 ?a = Some ((pv_new mp)\<lparr>version_number := pr\<rparr>)"
    "backref ((pv_new mp)\<lparr>version_number := pr\<rparr>) = None"
    using 1 2 c hpv ne by (simp_all add: pv_new_def)
  obtain st3 where 3: "set_version ?a st2 = Some st3"
    "pv_at st3 = (pv_at st2)(hd as \<mapsto> hpv\<lparr>backref := None\<rparr>,
       ?a \<mapsto> (pv_new mp)\<lparr>version_number := pr, backref := Some Entry_ref\<rparr>)"
    "next_of (mem st3) = next_of (mem st2)" "prev_of (mem st3) = prev_of (mem st2)"
    "below_brk (mem st3) = below_brk (mem st2)"
    "snaps st3 = snaps st2" "next_snap st3 = next_snap st2"
    "pe st3 = (pe st2)\<lparr>entry_version := \<lparr>version_ptr = Some ?a, unique_owner = False,
       evictable = evictable (entry_version (pe st2))\<rparr>\<rparr>"
    using set_version_effect [OF s2 ne] by blast
  let ?st = "st3\<lparr>pe := (pe st3)\<lparr>last_version := (if pr = 1 then Some ?a else last_version (pe st)),
      highest_version_written := pr, num_versions := num_versions (pe st) + 1\<rparr>\<rparr>"
  have eq: "pe_apply ops is_data mpv cv vtw st =
     (if num_versions (pe st) \<ge> 100
      then (case gc_versions ?st of None \<Rightarrow> None | Some st2 \<Rightarrow> Some (st2, write_ptr cv pr))
      else Some (?st, write_ptr cv pr))"
    unfolding pe_apply_def if_not_P [OF late] Let_def pr [symmetric] mp Option.bind.simps 1(1)
      prod.case 2(1) 3(1)
    using 1(9) 2(8) 3(8) by (cases "pr = 1"; simp split: option.split)
  have lk: "linked (mem ?st) (?a # as)"
    using 1(2) linked_cong [OF 2(3,4)] linked_cong [OF 3(3,4)] by simp
  show ?thesis
  proof (rule that [OF eq lk])
    show "pv_at ?st = (pv_at st)(hd as \<mapsto> hpv\<lparr>backref := None\<rparr>,
       ?a \<mapsto> \<lparr>backref = Some Entry_ref, partition = mp, version_number = pr, snapshot = None\<rparr>)"
      using 1(3) 2(2) 3(2) by (auto simp: pv_at_def fun_eq_iff pv_new_def)
  qed (use 1 2 3 in simp_all)
qed

section \<open>Writes keep the invariant\<close>

lemma word_succ_gt: "(x :: u32) \<noteq> - 1 \<Longrightarrow> x < x + 1"
proof -
  assume "x \<noteq> - 1"
  then have "x < - 1" by (simp add: word_order.not_eq_extremum)
  then have "unat x < 2 ^ 32 - 1" by (simp add: word_less_nat_alt unsigned_minus_1_eq_mask mask_eq_exp_minus_1)
  then show ?thesis by (simp add: word_less_nat_alt unat_word_ariths)
qed

text \<open>No version number is the largest \<open>uint32_t\<close>: the increments in \<open>apply\<close> do not wrap.\<close>

definition no_wrap :: "partition_entry \<Rightarrow> bool" where
  "no_wrap e \<longleftrightarrow> highest_version_written e \<noteq> - 1 \<and> highest_version_read e \<noteq> - 1"

lemma promote_bounds:
  assumes "no_wrap e" "\<not> (vtw \<noteq> 0 \<and> vtw \<le> highest_version_written e)"
  shows "highest_version_written e < promote vtw e"
    and "vtw \<noteq> 0 \<Longrightarrow> highest_version_read e < promote vtw e"
    and "vtw \<le> promote vtw e"
  using assms word_succ_gt [of "highest_version_written e"] word_succ_gt [of "highest_version_read e"]
  by (auto simp: promote_def no_wrap_def Let_def not_le)

lemma vnum_push:
  assumes "pv_at st' = (pv_at st)(h \<mapsto> hpv\<lparr>backref := None\<rparr>,
      a \<mapsto> \<lparr>backref = Some Entry_ref, partition = mp, version_number = pr, snapshot = None\<rparr>)"
    and "pv_at st h = Some hpv" "h \<noteq> a"
  shows "vnum st' x = (if x = a then pr else vnum st x)"
  using assms by (simp add: vnum_def)

lemma snaps_ok_push:
  assumes "snaps_ok st" "pv_at st h = Some hpv" "pv_at st a = None"
    and "pv_at st' = (pv_at st)(h \<mapsto> hpv\<lparr>backref := None\<rparr>,
      a \<mapsto> \<lparr>backref = Some Entry_ref, partition = mp, version_number = pr, snapshot = None\<rparr>)"
    and "snaps st' = snaps st" "next_snap st' = next_snap st"
  shows "snaps_ok st'"
proof -
  have h: "h \<noteq> a" using assms by auto
  have pv: "(\<exists>pv. pv_at st' x = Some pv \<and> snapshot pv = Some s) \<longleftrightarrow>
      (\<exists>pv. pv_at st x = Some pv \<and> snapshot pv = Some s)" for x s
    using assms(2-4) h by auto
  note p1 = snaps_ok_snap [OF assms(1)] and p2 = snaps_ok_version [OF assms(1)]
  show ?thesis
    unfolding snaps_ok_def assms(5,6)
  proof (intro conjI allI impI)
    fix s sn assume sn: "snaps st s = Some sn"
    show "s < next_snap st" "0 < refcount sn" using p1 [OF sn] by auto
    show "\<exists>a pv. version_ptr (snap_version sn) = Some a \<and> pv_at st' a = Some pv \<and> snapshot pv = Some s"
      using p1 [OF sn] pv by blast
  next
    fix x pv s assume "pv_at st' x = Some pv" "snapshot pv = Some s"
    then obtain pv0 where "pv_at st x = Some pv0" "snapshot pv0 = Some s" using pv by blast
    then show "\<exists>sn. snaps st s = Some sn \<and> version_ptr (snap_version sn) = Some x" by (rule p2)
  qed
qed

lemma order_ok_push:
  assumes "order_ok st as" "as \<noteq> []" "a \<notin> set as" "highest_version_written (pe st) < pr"
    and "\<And>x. vnum st' x = (if x = a then pr else vnum st x)" "highest_version_written (pe st') = pr"
  shows "order_ok st' (a # as)"
proof -
  have top: "vnum st x \<le> highest_version_written (pe st)" if "x \<in> set as" for x
    using that assms(1,2) by (cases as) (auto simp: order_ok_def)
  have same: "vnum st' x = vnum st x" if "x \<in> set as" for x
    using that assms(3,5) by auto
  have "sorted_wrt (\<lambda>x y. vnum st y < vnum st x) as" using assms(1) by (simp add: order_ok_def)
  then have "sorted_wrt (\<lambda>x y. vnum st' y < vnum st' x) as"
    by (rule sorted_wrt_mono_rel [rotated]) (simp add: same)
  moreover have "vnum st' x < vnum st' a" if "x \<in> set as" for x
    using top [OF that] assms(4) same [OF that] assms(5) [of a] by simp
  ultimately show ?thesis
    using assms(5) [of a] assms(6) by (simp add: order_ok_def)
qed

lemma sorted_only_last_zero:
  "sorted_wrt (\<lambda>a b. vnum st b < vnum st a) as \<Longrightarrow> vnum st (hd as) = 0 \<Longrightarrow> length as \<le> 1"
  by (cases as; cases "tl as") auto

lemma drop_version_inv:
  assumes "order_ok st (us @ x # vs)" "us \<noteq> []" "snaps_ok st" "below_brk (mem st)"
    and "version_ptr (entry_version (pe st)) = Some (hd us)" "entry_snapshot (pe st) = None"
    and "linked m (us @ vs)" "payload m = payload (mem st)" "brk m = brk (mem st)"
    and st': "st' = st\<lparr>mem := m, pe := (pe st)\<lparr>last_version := l, num_versions := n\<rparr>\<rparr>"
  shows "chain_ok st' (us @ vs)" "snaps_ok st'" "order_ok st' (us @ vs)" "pv_at st' = pv_at st"
    "vnum st' = vnum st"
proof -
  show pv: "pv_at st' = pv_at st" using assms(8) by (simp add: st' pv_at_def fun_eq_iff)
  show vn: "vnum st' = vnum st" by (simp add: vnum_def pv fun_eq_iff)
  show "chain_ok st' (us @ vs)"
    using assms below_brk_cong [OF assms(8,9)] by (simp add: chain_ok_def)
  show "snaps_ok st'" using assms(3) by (simp add: snaps_ok_def pv) (simp add: st')
  show "order_ok st' (us @ vs)"
    using assms(1,2) by (simp add: order_ok_def vn sorted_wrt_append) (simp add: st')
qed

lemma num_versions_unat: "n \<le> (100 :: u32) \<Longrightarrow> unat n \<le> 100"
  by (simp add: word_le_nat_alt)

lemma unat_succ_small: "n \<le> (100 :: u32) \<Longrightarrow> unat (n + 1) = Suc (unat n)"
  using num_versions_unat [of n] by (simp add: unat_word_ariths)

text \<open>What the write has pushed, as the garbage collector finds it.\<close>

lemma push_inv:
  assumes inv: "mvcc_inv st as" and gt: "highest_version_written (pe st) < pr"
    and a: "pv_at st a = None"
    and lk: "linked (mem st') (a # as)" "below_brk (mem st')"
    and hpv: "pv_at st (hd as) = Some hpv"
    and pv: "pv_at st' = (pv_at st)(hd as \<mapsto> hpv\<lparr>backref := None\<rparr>,
       a \<mapsto> \<lparr>backref = Some Entry_ref, partition = mp, version_number = pr, snapshot = None\<rparr>)"
    and sn: "snaps st' = snaps st" "next_snap st' = next_snap st"
    and pe: "pe st' = (pe st)\<lparr>entry_version := \<lparr>version_ptr = Some a, unique_owner = False, evictable = ev\<rparr>,
       last_version := (if pr = 1 then Some a else last_version (pe st)),
       highest_version_written := pr, num_versions := num_versions (pe st) + 1\<rparr>"
  shows "chain_ok st' (a # as)" "snaps_ok st'" "order_ok st' (a # as)"
    and "\<And>x. vnum st' x = (if x = a then pr else vnum st x)"
    and "\<And>l. last_version (pe st') = Some l \<Longrightarrow>
      \<exists>ys zs. a # as = ys @ l # zs \<and> length zs \<le> 1 \<and> vnum st' l \<noteq> 0 \<and> (\<forall>z \<in> set zs. vnum st' z = 0)"
proof -
  have as: "as \<noteq> []" "entry_snapshot (pe st) = None" and ord: "order_ok st as"
    using inv by (auto simp: mvcc_inv_def chain_ok_def)
  have a_notin: "a \<notin> set as" using lk by (auto simp: linked_def)
  have ne: "hd as \<noteq> a" using as a_notin hd_in_set by metis
  show "chain_ok st' (a # as)" using lk pe as by (simp add: chain_ok_def)
  have "snaps_ok st" using inv by (simp add: mvcc_inv_def)
  then show "snaps_ok st'" by (rule snaps_ok_push [OF _ hpv a pv sn])
  show vn: "\<And>x. vnum st' x = (if x = a then pr else vnum st x)"
    using vnum_push [OF pv hpv ne] .
  show "order_ok st' (a # as)"
    using order_ok_push [OF ord as(1) a_notin gt vn] pe by simp
  fix l assume l: "last_version (pe st') = Some l"
  show "\<exists>ys zs. a # as = ys @ l # zs \<and> length zs \<le> 1 \<and> vnum st' l \<noteq> 0 \<and> (\<forall>z \<in> set zs. vnum st' z = 0)"
  proof (cases "pr = 1")
    case True
    then have z: "highest_version_written (pe st) = 0" using gt by (simp add: word_less_nat_alt unat_eq_0)
    then have "length as \<le> 1" "vnum st (hd as) = 0"
      using ord sorted_only_last_zero [of st as] by (simp_all add: order_ok_def)
    then obtain h where "as = [h]" "vnum st h = 0" using as(1) by (cases as) auto
    moreover have "l = a" using l pe True by simp
    moreover have "h \<noteq> a" using ne \<open>as = [h]\<close> by simp
    ultimately show ?thesis
      using vn [of a] vn [of h] True by (intro exI [of _ "[]"] exI [of _ as]) simp
  next
    case False
    then have "last_version (pe st) = Some l" using l pe by simp
    then obtain ys zs where yz: "as = ys @ l # zs" "length zs \<le> 1" "vnum st l \<noteq> 0" "\<forall>z \<in> set zs. vnum st z = 0"
      using inv by (auto simp: mvcc_inv_def gc_ok_def)
    then have "l \<noteq> a" "a \<notin> set zs" using a_notin by auto
    then show ?thesis
      using yz vn by (intro exI [of _ "a # ys"] exI [of _ zs]) auto
  qed
qed

text \<open>What the garbage collector may do: drop one version that is not the newest, and that is either
  not read by anyone or the empty initial one; what it drops is older than everything that stays, but
  for the initial version.\<close>

definition oldest_dropped :: "(addr \<Rightarrow> u32) \<Rightarrow> addr list \<Rightarrow> (addr \<Rightarrow> u32) \<Rightarrow> addr list \<Rightarrow> bool" where
  "oldest_dropped num xs num' xs' \<longleftrightarrow>
     (\<forall>x \<in> set xs. x \<notin> set xs' \<longrightarrow> num x = 0 \<or> (\<forall>y \<in> set xs'. num' y = 0 \<or> num x < num' y))"

definition dropped_to :: "'p pstate \<Rightarrow> addr list \<Rightarrow> 'p pstate \<Rightarrow> addr list \<Rightarrow> bool" where
  "dropped_to st xs st' xs' \<longleftrightarrow> mvcc_inv st' xs' \<and> hd xs' = hd xs \<and> set xs' \<subseteq> set xs \<and>
     pv_at st' = pv_at st \<and> snaps st' = snaps st \<and> next_snap st' = next_snap st \<and>
     highest_version_read (pe st') = highest_version_read (pe st) \<and>
     highest_version_written (pe st') = highest_version_written (pe st) \<and>
     (\<forall>x \<in> set xs. x \<notin> set xs' \<longrightarrow> (\<exists>pv. pv_at st x = Some pv \<and> snapshot pv = None) \<or> vnum st x = 0) \<and>
     oldest_dropped (vnum st) xs (vnum st') xs'"

lemma gc_unpinned_dropped:
  assumes ch: "chain_ok st (us @ [q, l] @ zs)" and ok: "snaps_ok st" "order_ok st (us @ [q, l] @ zs)"
    and l: "last_version (pe st) = Some l" "length zs \<le> 1" "\<forall>z \<in> set zs. vnum st z = 0"
    and lv: "pv_at st l = Some lv" "snapshot lv = None"
    and n: "length (us @ [q, l] @ zs) = 102" "num_versions (pe st) = 101"
    and g: "gc_versions st = Some st'"
  shows "dropped_to st (us @ [q, l] @ zs) st' ((us @ [q]) @ zs)"
proof -
  have c: "linked (mem st) (us @ [q, l] @ zs)" "below_brk (mem st)" "entry_snapshot (pe st) = None"
    "version_ptr (entry_version (pe st)) = Some (hd (us @ [q]))"
    using ch by (cases us; simp add: chain_ok_def)+
  obtain m' where m': "gc_versions st = Some (st\<lparr>mem := m',
      pe := (pe st)\<lparr>last_version := Some q, num_versions := num_versions (pe st) - 1\<rparr>\<rparr>)"
    "linked m' ((us @ [q]) @ zs)" "payload m' = payload (mem st)" "brk m' = brk (mem st)"
    using gc_unpinned [OF c(1) l(1) lv] by auto
  have st': "st' = st\<lparr>mem := m', pe := (pe st)\<lparr>last_version := Some q, num_versions := 100\<rparr>\<rparr>"
    using g m'(1) n(2) by simp
  have o: "order_ok st ((us @ [q]) @ l # zs)" using ok(2) by simp
  note d = drop_version_inv [OF o _ ok(1) c(2) c(4) c(3) m'(2,3,4) st', simplified]
  have "vnum st l < vnum st q"
    using ok(2) by (simp add: order_ok_def sorted_wrt_append)
  then have "vnum st q \<noteq> 0" by auto
  moreover have "length us + length zs = 100" using n(1) by simp
  ultimately have "gc_ok st' (us @ q # zs)"
    using l(2,3) d(5) by (auto simp: gc_ok_def st')
  then have "mvcc_inv st' (us @ q # zs)" using d by (simp add: mvcc_inv_def)
  moreover have "hd (us @ q # zs) = hd (us @ q # l # zs)" by (cases us) simp_all
  moreover have "oldest_dropped (vnum st) (us @ q # l # zs) (vnum st) (us @ q # zs)"
    using ok(2) l(3) by (auto simp: oldest_dropped_def order_ok_def sorted_wrt_append)
  ultimately show ?thesis
    using d(4,5) lv by (simp add: dropped_to_def) (auto simp: st')
qed

lemma gc_pinned_dropped:
  assumes ch: "chain_ok st (us @ [l, z])" and ok: "snaps_ok st" "order_ok st (us @ [l, z])"
    and l: "last_version (pe st) = Some l" "vnum st l \<noteq> 0" "vnum st z = 0"
    and lv: "pv_at st l = Some lv" "snapshot lv = Some s"
    and n: "length (us @ [l, z]) = 102" "num_versions (pe st) = 101"
    and g: "gc_versions st = Some st'"
  shows "dropped_to st (us @ [l, z]) st' ((us @ [l]) @ [])"
proof -
  have c: "linked (mem st) (us @ l # z # [])" "below_brk (mem st)" "entry_snapshot (pe st) = None"
    "version_ptr (entry_version (pe st)) = Some (hd (us @ [l]))"
    using ch by (cases us; simp add: chain_ok_def)+
  obtain m' where m': "gc_versions st = Some (st\<lparr>mem := m',
      pe := (pe st)\<lparr>num_versions := num_versions (pe st) - 1\<rparr>\<rparr>)"
    "linked m' ((us @ [l]) @ [])" "payload m' = payload (mem st)" "brk m' = brk (mem st)"
    using gc_pinned [OF c(1) l(1) lv] by auto
  have st': "st' = st\<lparr>mem := m', pe := (pe st)\<lparr>last_version := Some l, num_versions := 100\<rparr>\<rparr>"
  proof -
    have "(pe st)\<lparr>last_version := Some l\<rparr> = pe st" using l(1) by (cases "pe st") simp
    moreover have "st' = st\<lparr>mem := m', pe := (pe st)\<lparr>num_versions := 100\<rparr>\<rparr>" using g m'(1) n(2) by simp
    ultimately show ?thesis by metis
  qed
  have o: "order_ok st ((us @ [l]) @ z # [])" using ok(2) by simp
  note d = drop_version_inv [OF o _ ok(1) c(2) c(4) c(3) m'(2,3,4) st', simplified]
  have "length us = 100" using n(1) by simp
  moreover have "\<exists>ys zs. us @ [l] = ys @ l # zs \<and> length zs \<le> 1 \<and> (\<forall>z \<in> set zs. vnum st z = 0)"
    by (intro exI [of _ us] exI [of _ "[]"]) simp
  ultimately have "gc_ok st' (us @ [l])"
    using l(2) d(5) by (auto simp: gc_ok_def st')
  then have "mvcc_inv st' (us @ [l])" using d by (simp add: mvcc_inv_def)
  moreover have "hd (us @ [l]) = hd (us @ [l, z])" by (cases us) simp_all
  moreover have "oldest_dropped (vnum st) (us @ [l, z]) (vnum st) (us @ [l])"
    using l(3) by (auto simp: oldest_dropped_def)
  ultimately show ?thesis
    using d(4,5) l(3) by (simp add: dropped_to_def) (auto simp: st')
qed

lemma gc_step:
  assumes ch: "chain_ok st xs" and ok: "snaps_ok st" "order_ok st xs"
    and l: "\<And>l. last_version (pe st) = Some l \<Longrightarrow>
      \<exists>ys zs. xs = ys @ l # zs \<and> length zs \<le> 1 \<and> vnum st l \<noteq> 0 \<and> (\<forall>z \<in> set zs. vnum st z = 0)"
    and n: "length xs = 102" "num_versions (pe st) = 101"
    and g: "gc_versions st = Some st'"
  shows "\<exists>xs'. dropped_to st xs st' xs'"
proof -
  obtain l where last: "last_version (pe st) = Some l"
    using g by (cases "last_version (pe st)") (auto simp: gc_versions_def)
  obtain ys zs where yz: "xs = ys @ l # zs" "length zs \<le> 1" "vnum st l \<noteq> 0" "\<forall>z \<in> set zs. vnum st z = 0"
    using l [OF last] by blast
  obtain lv where lv: "pv_at st l = Some lv"
    using chain_allocated [OF ch, of l] yz(1) by auto
  have "ys \<noteq> []" using yz n(1) by auto
  then obtain us q where us: "ys = us @ [q]" by (cases ys rule: rev_cases) auto
  show ?thesis
  proof (cases "snapshot lv")
    case None
    have "xs = us @ [q, l] @ zs" using yz us by simp
    then show ?thesis
      using gc_unpinned_dropped [of st us q l zs lv st'] ch ok last yz lv None n g by auto
  next
    case (Some s)
    have "zs \<noteq> []"
    proof
      assume "zs = []"
      then have "linked (mem st) (ys @ [l])" using ch yz(1) by (simp add: chain_ok_def)
      from gc_pinned_last_crash [OF this last lv Some] g show False by simp
    qed
    then obtain z where z: "zs = [z]" using yz(2) by (cases zs) auto
    have xs: "xs = ys @ [l, z]" using yz(1) z by simp
    show ?thesis
      using gc_pinned_dropped [of st ys l z lv s st'] ch ok last yz(3,4) lv Some n g
      unfolding xs z by auto
  qed
qed

text \<open>The outcome of a write that is not rejected: a version with the promoted number in front, and
  at most one old version dropped.\<close>

definition written :: "'p pstate \<Rightarrow> addr list \<Rightarrow> u32 \<Rightarrow> 'p \<Rightarrow> 'p pstate \<Rightarrow> addr list \<Rightarrow> bool" where
  "written st as pr mp st' as' \<longleftrightarrow>
     (\<exists>a hpv. pv_at st a = None \<and> hd as' = a \<and> pv_at st (hd as) = Some hpv \<and>
        pv_at st' = (pv_at st)(hd as \<mapsto> hpv\<lparr>backref := None\<rparr>,
          a \<mapsto> \<lparr>backref = Some Entry_ref, partition = mp, version_number = pr, snapshot = None\<rparr>) \<and>
        set as' \<subseteq> insert a (set as) \<and>
        (num_versions (pe st) < 100 \<longrightarrow> as' = a # as \<and> num_versions (pe st') = num_versions (pe st) + 1 \<and>
           last_version (pe st') = (if pr = 1 then Some a else last_version (pe st)))) \<and>
     mvcc_inv st' as' \<and> snaps st' = snaps st \<and> next_snap st' = next_snap st \<and>
     highest_version_read (pe st') = highest_version_read (pe st) \<and>
     highest_version_written (pe st') = pr \<and>
     (\<forall>x \<in> set as. x \<notin> set as' \<longrightarrow> (\<exists>pv. pv_at st x = Some pv \<and> snapshot pv = None) \<or> vnum st x = 0) \<and>
     oldest_dropped (vnum st) as (vnum st') as'"

definition new_partition ::
    "('p, 'm) partition_ops \<Rightarrow> bool \<Rightarrow> 'm \<Rightarrow> u32 \<Rightarrow> u32 \<Rightarrow> 'p option" where
  "new_partition ops is_data mpv vtw pr =
     (if vtw \<noteq> 0 \<or> is_data then mp_stamp ops pr (mp_apply_view ops (mp_new ops) mpv pr)
      else Some (mp_apply_view ops (mp_new ops) mpv pr))"

lemma pe_apply_effect:
  assumes inv: "mvcc_inv st as" and nw: "no_wrap (pe st)"
    and late: "\<not> (vtw \<noteq> 0 \<and> vtw \<le> highest_version_written (pe st))"
    and res: "pe_apply ops is_data mpv cv vtw st = Some (st', cv')"
    and pr: "pr = promote vtw (pe st)"
  shows "cv' = write_ptr cv pr \<and>
    (\<exists>mp as'. new_partition ops is_data mpv vtw pr = Some mp \<and> written st as pr mp st' as')"
proof -
  let ?a = "brk (mem st)"
  have ch: "chain_ok st as" and gc: "gc_ok st as" using inv by (auto simp: mvcc_inv_def)
  obtain hpv where hpv: "pv_at st (hd as) = Some hpv" using chain_head [OF ch] by blast
  obtain mp where mp: "new_partition ops is_data mpv vtw pr = Some mp"
    using res unfolding pe_apply_def Let_def if_not_P [OF late] pr [symmetric] new_partition_def [symmetric]
    by (cases "new_partition ops is_data mpv vtw pr") simp_all
  have gt: "highest_version_written (pe st) < pr" using promote_bounds(1) [OF nw late] by (simp add: pr)
  obtain st1 where eq: "pe_apply ops is_data mpv cv vtw st =
       (if num_versions (pe st) \<ge> 100
        then (case gc_versions st1 of None \<Rightarrow> None | Some st2 \<Rightarrow> Some (st2, write_ptr cv pr))
        else Some (st1, write_ptr cv pr))"
    and lk: "linked (mem st1) (?a # as)" "below_brk (mem st1)" and fresh: "pv_at st ?a = None"
    and pv: "pv_at st1 = (pv_at st)(hd as \<mapsto> hpv\<lparr>backref := None\<rparr>,
       ?a \<mapsto> \<lparr>backref = Some Entry_ref, partition = mp, version_number = pr, snapshot = None\<rparr>)"
    and sn: "snaps st1 = snaps st" "next_snap st1 = next_snap st"
    and pe: "pe st1 = (pe st)\<lparr>entry_version := \<lparr>version_ptr = Some ?a, unique_owner = False,
         evictable = evictable (entry_version (pe st))\<rparr>,
       last_version := (if pr = 1 then Some ?a else last_version (pe st)),
       highest_version_written := pr, num_versions := num_versions (pe st) + 1\<rparr>"
    using pe_apply_push [OF ch hpv late pr mp [unfolded new_partition_def]] by blast
  note pushed = push_inv [OF inv gt fresh lk hpv pv sn pe]
  have n: "num_versions (pe st) \<le> 100" "length as = Suc (unat (num_versions (pe st)))"
    using gc by (auto simp: gc_ok_def)
  have disj: "?a \<notin> set as" using lk by (auto simp: linked_def)
  show ?thesis
  proof (cases "num_versions (pe st) < 100")
    case True
    then have st': "st' = st1" "cv' = write_ptr cv pr" using res eq by (auto simp: linorder_not_le [symmetric])
    have "num_versions (pe st1) \<le> 100" "length (?a # as) = Suc (unat (num_versions (pe st1)))"
      using True n pe unat_succ_small [OF n(1)] by (auto simp: word_le_nat_alt word_less_nat_alt)
    then have "mvcc_inv st1 (?a # as)"
      using pushed by (simp add: mvcc_inv_def gc_ok_def)
    then have "written st as pr mp st1 (?a # as)"
      unfolding written_def oldest_dropped_def using fresh hpv pv sn pe by auto
    then show ?thesis using st' mp by blast
  next
    case False
    then have n100: "num_versions (pe st) = 100" using n by simp
    from False res eq have g: "gc_versions st1 = Some st'" "cv' = write_ptr cv pr"
      by (auto simp: not_less split: option.splits)
    obtain as' where d: "dropped_to st1 (?a # as) st' as'"
      using gc_step [OF pushed(1-3,5) _ _ g(1)] n n100 pe by auto
    have "(\<exists>pv. pv_at st x = Some pv \<and> snapshot pv = None) \<or> vnum st x = 0"
      if "x \<in> set as" "x \<notin> set as'" for x
    proof -
      have "(\<exists>pv. pv_at st1 x = Some pv \<and> snapshot pv = None) \<or> vnum st1 x = 0" "x \<noteq> ?a"
        using d that disj by (auto simp: dropped_to_def)
      then show ?thesis using pv hpv pushed(4) [of x] by (auto split: if_splits)
    qed
    moreover have "oldest_dropped (vnum st) as (vnum st') as'"
      using d disj pushed(4) unfolding dropped_to_def oldest_dropped_def by (metis list.set_intros(2))
    ultimately have "written st as pr mp st' as'"
      unfolding written_def using d fresh hpv pv sn pe False by (auto simp: dropped_to_def)
    then show ?thesis using g mp by blast
  qed
qed

section \<open>Reads and releases keep the invariant\<close>

text \<open>The version a read is served from: the first one on the list that is not newer than requested,
  but the front of the list if there is none or only the empty initial one.\<close>

definition target :: "'p pstate \<Rightarrow> addr list \<Rightarrow> u32 \<Rightarrow> addr" where
  "target st as v =
     (if v > 0 then case find (\<lambda>a. vnum st a \<le> v) as of None \<Rightarrow> hd as
                    | Some a \<Rightarrow> if vnum st a = 0 then hd as else a
      else hd as)"

lemma find_version_segment:
  "segment (mem st) p c xs None \<Longrightarrow> find_version (mem st) c v = Some (find (\<lambda>a. vnum st a \<le> v) xs)"
proof (induction xs arbitrary: p c)
  case Nil
  then show ?case by (subst find_version.simps) simp
next
  case (Cons x xs)
  then obtain nxt where nxt: "c = Some x" "next_of (mem st) x = Some nxt" "segment (mem st) (Some x) nxt xs None"
    by (auto split: option.splits)
  moreover obtain pv where "payload (mem st) x = Some pv"
    using nxt(2) by (auto simp: next_of_def payload_def)
  moreover from this have "vnum st x = version_number pv" by (simp add: vnum_def pv_at_def)
  ultimately show ?case
    using Cons.IH [OF nxt(3)] by (subst find_version.simps) simp
qed

lemma target_in: "as \<noteq> [] \<Longrightarrow> target st as v \<in> set as"
  by (auto simp: target_def find_Some_iff split: option.splits)

lemma target_allocated:
  assumes "mvcc_inv st as" shows "\<exists>pv. pv_at st (target st as v) = Some pv"
proof -
  have ch: "chain_ok st as" using assms by (simp add: mvcc_inv_def)
  then have "as \<noteq> []" by (simp add: chain_ok_def)
  then show ?thesis by (intro chain_allocated [OF ch] target_in)
qed

lemma select_version_chain:
  assumes "chain_ok st as"
  shows "select_version v st = Some (target st as v)"
proof -
  have c: "segment (mem st) None (Some (hd as)) as None" "as \<noteq> []"
    "version_ptr (entry_version (pe st)) = Some (hd as)"
    using assms by (cases as; simp add: chain_ok_def linked_def)+
  have "find_version (mem st) (Some (hd as)) v = Some (find (\<lambda>a. vnum st a \<le> v) as)"
    using find_version_segment [OF c(1)] .
  moreover have "\<exists>pv. pv_at st x = Some pv \<and> vnum st x = version_number pv"
    if "find (\<lambda>a. vnum st a \<le> v) as = Some x" for x
    using that chain_allocated [OF assms, of x] by (auto simp: find_Some_iff vnum_def)
  ultimately show ?thesis
    using c(3) by (auto simp: select_version_def target_def split: option.splits)
qed

text \<open>Changing only the snapshot and back reference of versions, and not the links, keeps the list
  and the order.\<close>

lemma chain_order_gc_cong:
  assumes "next_of (mem st') = next_of (mem st)" "prev_of (mem st') = prev_of (mem st)"
    and "below_brk (mem st') = below_brk (mem st)" "vnum st' = vnum st"
    and "entry_version (pe st') = entry_version (pe st)" "entry_snapshot (pe st') = entry_snapshot (pe st)"
    and "highest_version_written (pe st') = highest_version_written (pe st)"
    and "num_versions (pe st') = num_versions (pe st)" "last_version (pe st') = last_version (pe st)"
  shows "chain_ok st' as = chain_ok st as" "order_ok st' as = order_ok st as" "gc_ok st' as = gc_ok st as"
  using linked_cong [OF assms(1,2)] assms by (simp_all add: chain_ok_def order_ok_def gc_ok_def)

lemma vnum_upd_snapshot:
  "pv_at st' = (pv_at st)(x \<mapsto> pv') \<Longrightarrow> pv_at st x = Some pv \<Longrightarrow> version_number pv' = version_number pv \<Longrightarrow>
   vnum st' = vnum st"
  by (auto simp: vnum_def fun_eq_iff)

lemma snaps_ok_open:
  assumes ok: "snaps_ok st" and x: "pv_at st x = Some pv" "snapshot pv = None"
    and pv: "pv_at st' = (pv_at st)(x \<mapsto> pv\<lparr>snapshot := Some (next_snap st)\<rparr>)"
    and sn: "snaps st' = (snaps st)(next_snap st \<mapsto> sn)" "version_ptr (snap_version sn) = Some x" "refcount sn = 1"
    and ns: "next_snap st' = Suc (next_snap st)"
  shows "snaps_ok st'"
proof -
  note p1 = snaps_ok_snap [OF ok] and p2 = snaps_ok_version [OF ok]
  show ?thesis
    unfolding snaps_ok_def
  proof (intro conjI allI impI)
    fix s t assume t: "snaps st' s = Some t"
    show "s < next_snap st'" "0 < refcount t"
      using t sn ns p1 [of s t] by (auto split: if_splits)
    show "\<exists>a pv. version_ptr (snap_version t) = Some a \<and> pv_at st' a = Some pv \<and> snapshot pv = Some s"
      using t sn pv p1 [of s t] x by (cases "s = next_snap st") (auto, metis option.inject option.distinct(1))
  next
    fix a w s assume w: "pv_at st' a = Some w" "snapshot w = Some s"
    show "\<exists>t. snaps st' s = Some t \<and> version_ptr (snap_version t) = Some a"
    proof (cases "a = x")
      case False
      then have "pv_at st a = Some w" using w pv by simp
      from p2 [OF this w(2)] obtain t where t: "snaps st s = Some t" "version_ptr (snap_version t) = Some a"
        by blast
      with p1 [OF t(1)] show ?thesis using sn by auto
    qed (use w pv sn in auto)
  qed
qed

lemma snaps_ok_share:
  assumes ok: "snaps_ok st" and s: "snaps st s = Some sn" and pv: "pv_at st' = pv_at st"
    and ns: "next_snap st' = next_snap st" and sn: "snaps st' = (snaps st)(s \<mapsto> sn\<lparr>refcount := n\<rparr>)" "0 < n"
  shows "snaps_ok st'"
proof -
  note p1 = snaps_ok_snap [OF ok] and p2 = snaps_ok_version [OF ok]
  show ?thesis
    unfolding snaps_ok_def pv ns
  proof (intro conjI allI impI)
    fix r t assume t: "snaps st' r = Some t"
    show "r < next_snap st" "0 < refcount t"
      "\<exists>a pv. version_ptr (snap_version t) = Some a \<and> pv_at st a = Some pv \<and> snapshot pv = Some r"
      using t sn s p1 [of r t] p1 [OF s] by (auto split: if_splits)
  next
    fix a w r assume "pv_at st a = Some w" "snapshot w = Some r"
    from p2 [OF this] show "\<exists>t. snaps st' r = Some t \<and> version_ptr (snap_version t) = Some a"
      using sn s by auto
  qed
qed

lemma snaps_ok_close:
  assumes ok: "snaps_ok st" and s: "snaps st s = Some sn" "version_ptr (snap_version sn) = Some x"
    and x: "pv_at st x = Some pv"
    and pv: "pv_at st' = (pv_at st)(x \<mapsto> pv\<lparr>snapshot := None, backref := None\<rparr>)"
    and sn: "snaps st' = (snaps st)(s := None)" and ns: "next_snap st' = next_snap st"
  shows "snaps_ok st'"
proof -
  note p1 = snaps_ok_snap [OF ok] and p2 = snaps_ok_version [OF ok]
  have xs: "snapshot pv = Some s" using p1 [OF s(1)] s(2) x by auto
  show ?thesis
    unfolding snaps_ok_def ns
  proof (intro conjI allI impI)
    fix r t assume t: "snaps st' r = Some t"
    then have r: "r \<noteq> s" "snaps st r = Some t" using sn by (auto split: if_splits)
    show "r < next_snap st" "0 < refcount t" using p1 [OF r(2)] by auto
    obtain b w where w: "version_ptr (snap_version t) = Some b" "pv_at st b = Some w" "snapshot w = Some r"
      using p1 [OF r(2)] by blast
    then have "b \<noteq> x" using xs x r(1) by auto
    then show "\<exists>a pv. version_ptr (snap_version t) = Some a \<and> pv_at st' a = Some pv \<and> snapshot pv = Some r"
      using w pv by auto
  next
    fix b w r assume w: "pv_at st' b = Some w" "snapshot w = Some r"
    then have b: "b \<noteq> x" "pv_at st b = Some w" using pv by (auto split: if_splits)
    obtain t where t: "snaps st r = Some t" "version_ptr (snap_version t) = Some b"
      using p2 [OF b(2) w(2)] by blast
    then have "r \<noteq> s" using s b(1) by auto
    then show "\<exists>t. snaps st' r = Some t \<and> version_ptr (snap_version t) = Some b" using t sn by auto
  qed
qed

lemma snapshot_version_cong:
  assumes "map_option (\<lambda>sn. (snap_version sn, snap_entry sn)) (snaps st' r) =
      map_option (\<lambda>sn. (snap_version sn, snap_entry sn)) (snaps st r)"
    and "entry_version (pe st') = entry_version (pe st)"
  shows "snapshot_version st' r = snapshot_version st r"
  using assms
  by (cases "snaps st' r"; cases "snaps st r") (simp_all add: snapshot_version_def split: option.split)

text \<open>A read never fails, keeps the invariant, and opens or shares the snapshot of its target.\<close>

lemma pe_read_effect:
  assumes inv: "mvcc_inv st as" and x: "x = target st as v" and pv: "pv_at st x = Some pv"
  shows "\<exists>s st'. pe_read ops phase v st = Some (s, st') \<and> mvcc_inv st' as \<and>
    snapshot_version st' s = Some x \<and>
    pv_at st' = (pv_at st)(x \<mapsto> pv\<lparr>snapshot := Some s\<rparr>) \<and>
    (snapshot pv = None \<or> snapshot pv = Some s) \<and> next_snap st \<le> next_snap st' \<and>
    (\<forall>r. r < next_snap st \<longrightarrow> snapshot_version st' r = snapshot_version st r) \<and>
    highest_version_read (pe st') = max (highest_version_read (pe st)) v \<and>
    highest_version_written (pe st') = highest_version_written (pe st) \<and>
    last_version (pe st') = last_version (pe st)"
proof -
  define st0 where "st0 = (if v > highest_version_read (pe st)
     then st\<lparr>pe := (pe st)\<lparr>highest_version_read := v\<rparr>\<rparr> else st)"
  have ch: "chain_ok st as" and ok: "snaps_ok st" using inv by (auto simp: mvcc_inv_def)
  have open0: "open_version ops phase st = Some (hd as, st)"
    using ch by (simp add: open_version_def chain_ok_def)
  have m0: "mem st0 = mem st" "snaps st0 = snaps st" "next_snap st0 = next_snap st"
    "entry_version (pe st0) = entry_version (pe st)" "entry_snapshot (pe st0) = entry_snapshot (pe st)"
    "highest_version_written (pe st0) = highest_version_written (pe st)"
    "num_versions (pe st0) = num_versions (pe st)" "last_version (pe st0) = last_version (pe st)"
    "highest_version_read (pe st0) = max (highest_version_read (pe st)) v"
    by (auto simp: st0_def max_def not_less)
  have pv0: "pv_at st0 = pv_at st" by (simp add: pv_at_def m0 fun_eq_iff)
  have vn0: "vnum st0 = vnum st" by (simp add: vnum_def pv0 fun_eq_iff)
  have inv0: "mvcc_inv st0 as"
    using inv chain_order_gc_cong [of st0 st as] m0 vn0 by (simp add: mvcc_inv_def snaps_ok_def pv0)
  have "target st0 as v = x" unfolding target_def vn0 x ..
  then have sel: "select_version v st0 = Some x"
    using select_version_chain [of st0 as v] inv0 by (simp add: mvcc_inv_def)
  have rd: "pe_read ops phase v st =
     (case snapshot pv of
        Some s \<Rightarrow> Option.bind (snaps st0 s) (\<lambda>sn.
          Some (s, st0\<lparr>snaps := (snaps st0)(s \<mapsto> sn\<lparr>refcount := refcount sn + 1\<rparr>)\<rparr>))
      | None \<Rightarrow> Option.bind (upd_pv x (snapshot_update (\<lambda>_. Some (next_snap st0))) st0) (\<lambda>st1.
          Some (next_snap st0, st1\<lparr>snaps := (snaps st1)(next_snap st0 \<mapsto>
             \<lparr>snap_version = \<lparr>version_ptr = Some x, unique_owner = False, evictable = False\<rparr>,
              snap_entry = Uninitialised, snap_phase = phase, refcount = 1\<rparr>),
             next_snap := Suc (next_snap st0)\<rparr>)))"
  proof -
    have px: "pv_at st0 x = Some pv" using pv pv0 by simp
    show ?thesis
      unfolding pe_read_def open0 Option.bind.simps prod.case Let_def st0_def [symmetric] sel px ..
  qed
  show ?thesis
  proof (cases "snapshot pv")
    case (Some s)
    then obtain sn where sn: "snaps st s = Some sn" "version_ptr (snap_version sn) = Some x"
      using snaps_ok_version [OF ok pv] by blast
    let ?st = "st0\<lparr>snaps := (snaps st0)(s \<mapsto> sn\<lparr>refcount := refcount sn + 1\<rparr>)\<rparr>"
    have p: "pv_at ?st = pv_at st0" by (simp add: pv_at_def fun_eq_iff)
    then have "vnum ?st = vnum st0" by (simp add: vnum_def fun_eq_iff)
    then have "mvcc_inv ?st as"
      using inv0 chain_order_gc_cong [of ?st st0 as] snaps_ok_share [of st0 s sn ?st "refcount sn + 1"] p sn m0
      by (simp add: mvcc_inv_def)
    moreover have "pv\<lparr>snapshot := Some s\<rparr> = pv" using Some by simp
    moreover have "snapshot_version ?st r = snapshot_version st r" for r
      using sn m0 by (intro snapshot_version_cong) simp_all
    moreover have "snapshot_version st s = Some x" using sn by (simp add: snapshot_version_def)
    ultimately show ?thesis
      using rd Some sn m0 p pv0 pv by (simp add: fun_upd_idem)
  next
    case None
    let ?s = "next_snap st0"
    have px: "pv_at st0 x = Some pv" using pv pv0 by simp
    obtain st1 where 1: "upd_pv x (snapshot_update (\<lambda>_. Some ?s)) st0 = Some st1"
      "pv_at st1 = (pv_at st0)(x \<mapsto> pv\<lparr>snapshot := Some ?s\<rparr>)"
      "next_of (mem st1) = next_of (mem st0)" "prev_of (mem st1) = prev_of (mem st0)"
      "snaps st1 = snaps st0" "next_snap st1 = next_snap st0" "pe st1 = pe st0"
      "below_brk (mem st1) = below_brk (mem st0)"
      using upd_pv_effect [OF px] by blast
    let ?sn = "\<lparr>snap_version = \<lparr>version_ptr = Some x, unique_owner = False, evictable = False\<rparr>,
              snap_entry = Uninitialised, snap_phase = phase, refcount = 1\<rparr>"
    let ?st = "st1\<lparr>snaps := (snaps st1)(?s \<mapsto> ?sn), next_snap := Suc ?s\<rparr>"
    have p: "pv_at ?st = (pv_at st0)(x \<mapsto> pv\<lparr>snapshot := Some ?s\<rparr>)"
      using 1(2) by (simp add: pv_at_def fun_eq_iff)
    have vn: "vnum ?st = vnum st0" by (rule vnum_upd_snapshot [OF p px]) simp
    have so: "snaps_ok st0" using inv0 by (simp add: mvcc_inv_def)
    have "snaps_ok ?st"
      by (rule snaps_ok_open [OF so px None p, where sn = ?sn]) (simp_all add: 1)
    then have "mvcc_inv ?st as"
      using inv0 chain_order_gc_cong [of ?st st0 as] vn 1 by (simp add: mvcc_inv_def)
    moreover have "snapshot_version ?st r = snapshot_version st r" if "r < next_snap st" for r
      using that 1 m0 by (intro snapshot_version_cong) simp_all
    moreover have "snapshot_version ?st ?s = Some x" by (simp add: snapshot_version_def)
    ultimately show ?thesis
      using rd None 1 m0 p pv0 by simp
  qed
qed

lemma release_effect:
  assumes inv: "mvcc_inv st as" and sn: "snaps st s = Some sn" and x: "version_ptr (snap_version sn) = Some x"
    and pv: "pv_at st x = Some pv"
  shows "\<exists>st'. release_snapshot s st = Some st' \<and> mvcc_inv st' as \<and> pe st' = pe st \<and>
    next_snap st' = next_snap st \<and>
    (if refcount sn > 1
     then pv_at st' = pv_at st \<and> snaps st' = (snaps st)(s \<mapsto> sn\<lparr>refcount := refcount sn - 1\<rparr>)
     else pv_at st' = (pv_at st)(x \<mapsto> pv\<lparr>snapshot := None, backref := None\<rparr>) \<and> snaps st' = (snaps st)(s := None))"
proof (cases "refcount sn > 1")
  case True
  let ?st = "st\<lparr>snaps := (snaps st)(s \<mapsto> sn\<lparr>refcount := refcount sn - 1\<rparr>)\<rparr>"
  have p: "pv_at ?st = pv_at st" by (simp add: pv_at_def fun_eq_iff)
  then have "vnum ?st = vnum st" by (simp add: vnum_def fun_eq_iff)
  then have "mvcc_inv ?st as"
    using inv chain_order_gc_cong [of ?st st as] snaps_ok_share [of st s sn ?st "refcount sn - 1"] p sn True
    by (simp add: mvcc_inv_def)
  then show ?thesis using True sn p by (simp add: release_snapshot_def)
next
  case False
  obtain st1 where 1: "upd_pv x (snapshot_update (\<lambda>_. None)) st = Some st1"
    "pv_at st1 = (pv_at st)(x \<mapsto> pv\<lparr>snapshot := None\<rparr>)"
    "next_of (mem st1) = next_of (mem st)" "prev_of (mem st1) = prev_of (mem st)"
    "snaps st1 = snaps st" "next_snap st1 = next_snap st" "pe st1 = pe st"
    "below_brk (mem st1) = below_brk (mem st)"
    using upd_pv_effect [OF pv] by blast
  have px: "pv_at st1 x = Some (pv\<lparr>snapshot := None\<rparr>)" using 1(2) by simp
  obtain st2 where 2: "upd_pv x (backref_update (\<lambda>_. None)) st1 = Some st2"
    "pv_at st2 = (pv_at st1)(x \<mapsto> pv\<lparr>snapshot := None, backref := None\<rparr>)"
    "next_of (mem st2) = next_of (mem st1)" "prev_of (mem st2) = prev_of (mem st1)"
    "snaps st2 = snaps st1" "next_snap st2 = next_snap st1" "pe st2 = pe st1"
    "below_brk (mem st2) = below_brk (mem st1)"
    using upd_pv_effect [OF px] by blast
  let ?st = "st2\<lparr>snaps := (snaps st2)(s := None)\<rparr>"
  have rel: "release_snapshot s st = Some ?st"
    using False sn x 1(1) 2(1) by (simp add: release_snapshot_def destroy_snapshot_def ref_destroy_def)
  have p: "pv_at ?st = (pv_at st)(x \<mapsto> pv\<lparr>snapshot := None, backref := None\<rparr>)"
    using 1(2) 2(2) by (auto simp: pv_at_def fun_eq_iff)
  have vn: "vnum ?st = vnum st" by (rule vnum_upd_snapshot [OF p pv]) simp
  have so: "snaps_ok st" using inv by (simp add: mvcc_inv_def)
  have sn': "snaps ?st = (snaps st)(s := None)" "next_snap ?st = next_snap st" using 1 2 by simp_all
  have "snaps_ok ?st" by (rule snaps_ok_close [OF so sn x pv p sn'])
  then have "mvcc_inv ?st as"
    using inv chain_order_gc_cong [of ?st st as] vn 1 2 by (simp add: mvcc_inv_def)
  then show ?thesis using False rel p sn' 1(7) 2(7) by simp
qed

text \<open>The entry as it is created satisfies the invariant.\<close>

lemma partition_entry_of_inv:
  "\<exists>st. partition_entry_of mp = Some st \<and> mvcc_inv st [0] \<and> snaps st = Map.empty \<and>
     pe st = \<lparr>entry_snapshot = None, entry_version = \<lparr>version_ptr = Some 0, unique_owner = False, evictable = False\<rparr>,
       highest_version_read = 0, highest_version_written = 0, num_versions = 0, last_version = None\<rparr> \<and>
     pv_at st = [0 \<mapsto> \<lparr>backref = Some Entry_ref, partition = mp, version_number = 0, snapshot = None\<rparr>]"
  by (simp add: partition_entry_of_def construct_def assign_entry_ref_def pv_at_def payload_def pv_new_def
      ref_destroy_def null_ref_def upd_pv_def upd_node_def mvcc_defs linked_def prev_of_def next_of_def
      below_brk_def vnum_def fun_eq_iff)

section \<open>Executions\<close>

text \<open>The operations that run against a memtable's partition entry: a write with the pointer for its
  commit version and the proposed version, a read at a version, the release of a snapshot. A
  write step requires that the version counters are not exhausted.\<close>

datatype 'm event = Write 'm "u32 option" u32 | Read u64 u32 | Release nat

inductive mvcc_step :: "('p, 'm) partition_ops \<Rightarrow> bool \<Rightarrow> 'p pstate \<Rightarrow> 'm event \<Rightarrow> 'p pstate \<Rightarrow> bool"
  for ops :: "('p, 'm) partition_ops" and is_data :: bool where
  do_write: "no_wrap (pe st) \<Longrightarrow> pe_apply ops is_data mpv cv v st = Some (st', cv') \<Longrightarrow>
    mvcc_step ops is_data st (Write mpv cv v) st'"
| do_read: "pe_read ops phase v st = Some (s, st') \<Longrightarrow> mvcc_step ops is_data st (Read phase v) st'"
| do_release: "release_snapshot s st = Some st' \<Longrightarrow> mvcc_step ops is_data st (Release s) st'"

inductive mvcc_run :: "('p, 'm) partition_ops \<Rightarrow> bool \<Rightarrow> 'p pstate \<Rightarrow> 'm event list \<Rightarrow> 'p pstate \<Rightarrow> bool"
  for ops :: "('p, 'm) partition_ops" and is_data :: bool where
  refl: "mvcc_run ops is_data st [] st"
| step: "mvcc_run ops is_data st evs st' \<Longrightarrow> mvcc_step ops is_data st' e st'' \<Longrightarrow>
    mvcc_run ops is_data st (evs @ [e]) st''"

inductive_cases mvcc_writeE: "mvcc_step ops is_data st (Write mpv cv v) st'"
inductive_cases mvcc_readE: "mvcc_step ops is_data st (Read phase v) st'"
inductive_cases mvcc_releaseE: "mvcc_step ops is_data st (Release s) st'"

text \<open>The versions of the entry from the newest to the oldest.\<close>

definition entry_versions :: "'p pstate \<Rightarrow> addr list option" where
  "entry_versions st = elements_from (mem st) (version_ptr (entry_version (pe st)))"

lemma entry_versions_chain: "chain_ok st as \<Longrightarrow> entry_versions st = Some as"
  using elements_from_linked [of "mem st" as]
  by (cases as) (simp_all add: entry_versions_def chain_ok_def)

lemma mvcc_inv_versions: "mvcc_inv st as \<Longrightarrow> entry_versions st = Some as"
  by (simp add: mvcc_inv_def entry_versions_chain)

text \<open>An open snapshot is on the version that carries its number.\<close>

lemma open_snapshot:
  assumes "mvcc_inv st as" "snaps st s = Some sn"
  obtains x pv where "version_ptr (snap_version sn) = Some x" "pv_at st x = Some pv" "snapshot pv = Some s"
    "snapshot_version st s = Some x" "snapshot_partition st s = Some (partition pv)" "s < next_snap st"
  using assms snaps_ok_snap [of st s sn]
  by (auto simp: mvcc_inv_def snapshot_version_def snapshot_partition_def)

text \<open>What one step does to the versions: their numbers and contents never change, nothing becomes
  unallocated, and a snapshot that is open before and after the step is on the same version.\<close>

lemma mvcc_step_frame:
  assumes inv: "mvcc_inv st as" and step: "mvcc_step ops is_data st e st'"
  shows "\<exists>as'. mvcc_inv st' as' \<and> next_snap st \<le> next_snap st' \<and>
    (\<forall>x pv. pv_at st x = Some pv \<longrightarrow>
       (\<exists>pv'. pv_at st' x = Some pv' \<and> partition pv' = partition pv \<and> version_number pv' = version_number pv)) \<and>
    (\<forall>s. s < next_snap st \<longrightarrow> snaps st' s \<noteq> None \<longrightarrow> snapshot_version st' s = snapshot_version st s)"
  using step
proof cases
  case (do_write mpv cv v cv')
  show ?thesis
  proof (cases "v \<noteq> 0 \<and> v \<le> highest_version_written (pe st)")
    case True
    then have "st' = st" using do_write(3) by (simp add: pe_apply_def)
    then show ?thesis using inv by blast
  next
    case False
    obtain mp as' where w: "written st as (promote v (pe st)) mp st' as'"
      using pe_apply_effect [OF inv do_write(2) False do_write(3) HOL.refl] by blast
    then obtain a hpv where a: "pv_at st a = None" "pv_at st (hd as) = Some hpv"
      "pv_at st' = (pv_at st)(hd as \<mapsto> hpv\<lparr>backref := None\<rparr>, a \<mapsto> \<lparr>backref = Some Entry_ref,
         partition = mp, version_number = promote v (pe st), snapshot = None\<rparr>)"
      by (auto simp: written_def)
    have inv': "mvcc_inv st' as'" and sn: "snaps st' = snaps st" using w by (auto simp: written_def)
    have ns: "next_snap st' = next_snap st" using w by (simp add: written_def)
    have keep: "\<exists>pv'. pv_at st' x = Some pv' \<and> partition pv' = partition pv \<and> version_number pv' = version_number pv"
      if "pv_at st x = Some pv" for x pv
      using that a by auto
    have "snapshot_version st' s = snapshot_version st s" if live: "snaps st' s \<noteq> None" for s
    proof -
      obtain t where t: "snaps st s = Some t" "snaps st' s = Some t" using live sn by auto
      obtain x where "version_ptr (snap_version t) = Some x" using open_snapshot [OF inv t(1)] by blast
      then show ?thesis using t by (simp add: snapshot_version_def)
    qed
    then show ?thesis using inv' ns keep by auto
  qed
next
  case (do_read phase v s)
  define x where "x = target st as v"
  obtain pv where pv: "pv_at st x = Some pv" using target_allocated [OF inv] x_def by blast
  have r: "mvcc_inv st' as" "pv_at st' = (pv_at st)(x \<mapsto> pv\<lparr>snapshot := Some s\<rparr>)"
    "next_snap st \<le> next_snap st'" "\<forall>r. r < next_snap st \<longrightarrow> snapshot_version st' r = snapshot_version st r"
    using pe_read_effect [OF inv x_def pv, of ops phase] do_read(2) by auto
  have "\<exists>pv'. pv_at st' y = Some pv' \<and> partition pv' = partition q \<and> version_number pv' = version_number q"
    if "pv_at st y = Some q" for y q
    using that r(2) pv by auto
  then show ?thesis using r by blast
next
  case (do_release s)
  then obtain sn where sn: "snaps st s = Some sn"
    by (cases "snaps st s") (auto simp: release_snapshot_def)
  obtain x pv where x: "version_ptr (snap_version sn) = Some x" "pv_at st x = Some pv"
    using open_snapshot [OF inv sn] by blast
  have r: "mvcc_inv st' as" "pe st' = pe st" "next_snap st' = next_snap st"
    "if refcount sn > 1
     then pv_at st' = pv_at st \<and> snaps st' = (snaps st)(s \<mapsto> sn\<lparr>refcount := refcount sn - 1\<rparr>)
     else pv_at st' = (pv_at st)(x \<mapsto> pv\<lparr>snapshot := None, backref := None\<rparr>) \<and> snaps st' = (snaps st)(s := None)"
    using release_effect [OF inv sn x] do_release(2) by auto
  have "\<exists>pv'. pv_at st' y = Some pv' \<and> partition pv' = partition q \<and> version_number pv' = version_number q"
    if "pv_at st y = Some q" for y q
    using that r(4) x by (auto split: if_splits)
  moreover have "snapshot_version st' r = snapshot_version st r" if "snaps st' r \<noteq> None" for r
    using that r(2,4) sn by (intro snapshot_version_cong) (auto split: if_splits)
  ultimately show ?thesis using r by auto
qed

text \<open>Snapshot numbers are not reused.\<close>

lemma mvcc_step_snaps:
  assumes inv: "mvcc_inv st as" and step: "mvcc_step ops is_data st e st'"
    and s: "s < next_snap st" "snaps st' s \<noteq> None"
  shows "snaps st s \<noteq> None"
proof
  assume "snaps st s = None"
  then have "snapshot_version st' s = None"
    using mvcc_step_frame [OF inv step] s by (auto simp: snapshot_version_def)
  moreover obtain as' where "mvcc_inv st' as'" using mvcc_step_frame [OF inv step] by blast
  ultimately show False using s(2) by (metis open_snapshot option.distinct(1) option.exhaust)
qed

lemma mvcc_run_frame:
  assumes run: "mvcc_run ops is_data st evs st'" and inv: "mvcc_inv st as"
  shows "\<exists>as'. mvcc_inv st' as' \<and> next_snap st \<le> next_snap st' \<and>
    (\<forall>x pv. pv_at st x = Some pv \<longrightarrow>
       (\<exists>pv'. pv_at st' x = Some pv' \<and> partition pv' = partition pv \<and> version_number pv' = version_number pv)) \<and>
    (\<forall>s. s < next_snap st \<longrightarrow> snaps st' s \<noteq> None \<longrightarrow>
       snaps st s \<noteq> None \<and> snapshot_version st' s = snapshot_version st s)"
  using run inv
proof (induction rule: mvcc_run.induct)
  case (refl st)
  then show ?case by auto
next
  case (step st evs st' e st'')
  obtain as' where 1: "mvcc_inv st' as'" "next_snap st \<le> next_snap st'"
    "\<forall>x pv. pv_at st x = Some pv \<longrightarrow>
       (\<exists>pv'. pv_at st' x = Some pv' \<and> partition pv' = partition pv \<and> version_number pv' = version_number pv)"
    "\<forall>s. s < next_snap st \<longrightarrow> snaps st' s \<noteq> None \<longrightarrow>
       snaps st s \<noteq> None \<and> snapshot_version st' s = snapshot_version st s"
    using step.IH [OF step.prems] by blast
  obtain as'' where 2: "mvcc_inv st'' as''" "next_snap st' \<le> next_snap st''"
    "\<forall>x pv. pv_at st' x = Some pv \<longrightarrow>
       (\<exists>pv'. pv_at st'' x = Some pv' \<and> partition pv' = partition pv \<and> version_number pv' = version_number pv)"
    "\<forall>s. s < next_snap st' \<longrightarrow> snaps st'' s \<noteq> None \<longrightarrow> snapshot_version st'' s = snapshot_version st' s"
    using mvcc_step_frame [OF 1(1) step.hyps(2)] by blast
  have "\<exists>pv'. pv_at st'' x = Some pv' \<and> partition pv' = partition pv \<and> version_number pv' = version_number pv"
    if "pv_at st x = Some pv" for x pv
    using 1(3) 2(3) that by metis
  moreover have "snaps st s \<noteq> None \<and> snapshot_version st'' s = snapshot_version st s"
    if s: "s < next_snap st" "snaps st'' s \<noteq> None" for s
  proof -
    have s': "s < next_snap st'" using s(1) 1(2) by simp
    then have "snaps st' s \<noteq> None" using mvcc_step_snaps [OF 1(1) step.hyps(2)] s(2) by blast
    then show ?thesis using 1(4) 2(4) s s' by metis
  qed
  ultimately show ?case using 1(2) 2(1,2) by (meson order_trans)
qed

lemma find_descending:
  "sorted_wrt (\<lambda>a b. f b < (f a :: u32)) as \<Longrightarrow>
   find (\<lambda>a. f a \<le> v) as = Some x \<longleftrightarrow> x \<in> set as \<and> f x \<le> v \<and> (\<forall>y \<in> set as. f y \<le> v \<longrightarrow> f y \<le> f x)"
proof (induction as)
  case (Cons a as)
  show ?case
  proof (cases "f a \<le> v")
    case True
    have "f y \<le> f a" if "y \<in> set as" for y using Cons.prems that by auto
    moreover have "y = a" if "y \<in> set (a # as)" "f a \<le> f y" for y
      using Cons.prems that by auto
    ultimately show ?thesis using True by auto
  next
    case False
    then show ?thesis using Cons by auto
  qed
qed simp

end
