(* ===== verification/Mvcc_Properties.thy ===== *)
theory Mvcc_Properties
  imports Mvcc
begin

text \<open>
  The guarantees of the multi-version partition entry that PORT's read-only transactions build on,
  and the places where the code does not give them. \<open>nat_ops\<close> is a partition type small enough to run
  the operations on: a partition is a number and a write replaces it.
\<close>

definition nat_ops :: "(nat, nat) partition_ops" where
  "nat_ops = \<lparr>mp_new = 0, mp_apply_view = (\<lambda>p m v. m), mp_stamp = (\<lambda>v p. Some p), mp_merge = (\<lambda>p q. p + q),
     mp_upgrade = (\<lambda>p. p), static_row_continuous = (\<lambda>p. True), set_static_row_continuous = (\<lambda>p b. p),
     mp_evict = (\<lambda>p. 0)\<rparr>"

section \<open>Reachable states\<close>

text \<open>States reached from a new entry by writes, reads and releases.\<close>

definition reachable :: "('p, 'm) partition_ops \<Rightarrow> bool \<Rightarrow> 'p pstate \<Rightarrow> bool" where
  "reachable ops is_data st \<longleftrightarrow>
     (\<exists>mp st0 evs. partition_entry_of mp = Some st0 \<and> mvcc_run ops is_data st0 evs st)"

lemma reachable_inv: "reachable ops is_data st \<Longrightarrow> \<exists>as. mvcc_inv st as"
  using partition_entry_of_inv mvcc_run_frame unfolding reachable_def by (metis option.inject)

lemma reachable_step: "reachable ops is_data st \<Longrightarrow> mvcc_step ops is_data st e st' \<Longrightarrow> reachable ops is_data st'"
  unfolding reachable_def using mvcc_run.step by metis

lemma reachable_init: "partition_entry_of mp = Some st \<Longrightarrow> reachable ops is_data st"
  unfolding reachable_def using mvcc_run.refl by metis

text \<open>C5. Every state a partition entry reaches by PORT writes, plain writes, reads and snapshot releases
  has a well-formed version list: the walk from the entry ends, version numbers strictly decrease
  from the newest to the oldest version, the newest one is \<open>highest_version_written\<close>, the list never
  holds more than 101 versions, and every open snapshot is on an allocated version that points
  back to it.\<close>

theorem reachable_well_formed:
  assumes "reachable ops is_data st"
  shows "\<exists>as. entry_versions st = Some as \<and> as \<noteq> [] \<and> length as \<le> 101 \<and>
    sorted_wrt (\<lambda>a b. vnum st b < vnum st a) as \<and> vnum st (hd as) = highest_version_written (pe st) \<and>
    (\<forall>s sn. snaps st s = Some sn \<longrightarrow> (\<exists>a pv. snapshot_version st s = Some a \<and> pv_at st a = Some pv \<and> snapshot pv = Some s))"
proof -
  obtain as where inv: "mvcc_inv st as" using reachable_inv [OF assms] by blast
  have "unat (num_versions (pe st)) \<le> 100"
    using inv num_versions_unat by (auto simp: mvcc_inv_def gc_ok_def)
  moreover have "\<exists>a pv. snapshot_version st s = Some a \<and> pv_at st a = Some pv \<and> snapshot pv = Some s"
    if "snaps st s = Some sn" for s sn
    using open_snapshot [OF inv that] by metis
  ultimately show ?thesis
    using mvcc_inv_versions [OF inv] inv
    by (intro exI [of _ as]) (auto simp: mvcc_inv_def chain_ok_def order_ok_def gc_ok_def)
qed

text \<open>A concrete execution for the witnesses: a PORT write at version 1, a read at version 5, a PORT
  write proposed at version 2 and promoted past the read, and reads at versions 5 and 6.\<close>

lemma sample_execution:
  "\<exists>st0 st1 st2 st3 st4 st5. partition_entry_of (7 :: nat) = Some st0 \<and>
     no_wrap (pe st0) \<and> pe_apply nat_ops False 9 (Some 0) 1 st0 = Some (st1, Some 1) \<and>
     pe_read nat_ops 0 5 st1 = Some (0, st2) \<and>
     no_wrap (pe st2) \<and> pe_apply nat_ops False 11 (Some 0) 2 st2 = Some (st3, Some 6) \<and>
     pe_read nat_ops 0 5 st3 = Some (0, st4) \<and> pe_read nat_ops 0 6 st4 = Some (1, st5) \<and>
     snaps st2 0 \<noteq> None \<and> snaps st3 0 \<noteq> None \<and> snapshot_partition st2 0 = Some 9 \<and>
     snapshot_partition st5 1 = Some 11"
proof -
  have "do { st0 \<leftarrow> partition_entry_of (7 :: nat); (st1, c1) \<leftarrow> pe_apply nat_ops False 9 (Some 0) 1 st0;
    (s1, st2) \<leftarrow> pe_read nat_ops 0 5 st1; (st3, c2) \<leftarrow> pe_apply nat_ops False 11 (Some 0) 2 st2;
    (s2, st4) \<leftarrow> pe_read nat_ops 0 5 st3; (s3, st5) \<leftarrow> pe_read nat_ops 0 6 st4;
    Some (no_wrap (pe st0), c1, s1, no_wrap (pe st2), c2, s2, s3, snaps st2 0 \<noteq> None, snaps st3 0 \<noteq> None,
      snapshot_partition st2 0, snapshot_partition st5 1) }
    = Some (True, Some 1, 0, True, Some 6, 0, 1, True, True, Some 9, Some 11)"
    by code_simp
  then show ?thesis by (auto simp: bind_eq_Some_conv)
qed

theorem reachable_well_formed_witness:
  "\<exists>st0 st1 as. partition_entry_of (7 :: nat) = Some st0 \<and>
     pe_apply nat_ops False 9 (Some 0) 1 st0 = Some (st1, Some 1) \<and>
     entry_versions st1 = Some as \<and> length as \<le> 101 \<and> vnum st1 (hd as) = highest_version_written (pe st1)"
proof -
  obtain st0 st1 where st: "partition_entry_of (7 :: nat) = Some st0" "no_wrap (pe st0)"
    "pe_apply nat_ops False 9 (Some 0) 1 st0 = Some (st1, Some 1)" using sample_execution by blast
  have "reachable nat_ops False st1"
    using reachable_step [OF reachable_init [OF st(1)] mvcc_step.do_write [OF st(2,3)]] .
  from reachable_well_formed [OF this] show ?thesis using st by blast
qed



section \<open>Writes\<close>

text \<open>C3. The commit version of a write (\<open>partition_entry::apply\<close> with its write promotion). A PORT write
  proposed at or below \<open>highest_version_written\<close> changes nothing and reports that version (first
  writer wins). Every other write commits above all versions written so far and not below the
  proposed one, a PORT write also above every version that has been read, and the new value is the
  front of the version list with the reported number.\<close>

theorem write_commit_version:
  assumes "reachable ops is_data st" "no_wrap (pe st)"
    and "pe_apply ops is_data mpv (Some c0) v st = Some (st', cv)"
  shows "if v \<noteq> 0 \<and> v \<le> highest_version_written (pe st)
    then st' = st \<and> cv = Some (highest_version_written (pe st))
    else \<exists>c a mp as'. cv = Some c \<and> highest_version_written (pe st) < c \<and> v \<le> c \<and>
      (v \<noteq> 0 \<longrightarrow> highest_version_read (pe st) < c) \<and> highest_version_written (pe st') = c \<and>
      new_partition ops is_data mpv v c = Some mp \<and> entry_versions st' = Some (a # as') \<and>
      map_option version_number (pv_at st' a) = Some c \<and> map_option partition (pv_at st' a) = Some mp"
proof (cases "v \<noteq> 0 \<and> v \<le> highest_version_written (pe st)")
  case True
  then show ?thesis using assms(3) by (auto simp: pe_apply_def write_ptr_def)
next
  case False
  obtain as where inv: "mvcc_inv st as" using reachable_inv [OF assms(1)] by blast
  let ?c = "promote v (pe st)"
  obtain mp as' where w: "cv = Some ?c" "new_partition ops is_data mpv v ?c = Some mp" "written st as ?c mp st' as'"
    using pe_apply_effect [OF inv assms(2) False assms(3) HOL.refl] by (auto simp: write_ptr_def)
  have "as' \<noteq> []" and "entry_versions st' = Some as'"
    using w(3) mvcc_inv_versions by (auto simp: written_def mvcc_inv_def chain_ok_def)
  then have "entry_versions st' = Some (hd as' # tl as')" by simp
  moreover have "map_option version_number (pv_at st' (hd as')) = Some ?c"
    "map_option partition (pv_at st' (hd as')) = Some mp" "highest_version_written (pe st') = ?c"
    using w(3) by (auto simp: written_def)
  ultimately have "highest_version_written (pe st) < ?c \<and> v \<le> ?c \<and> (v \<noteq> 0 \<longrightarrow> highest_version_read (pe st) < ?c) \<and>
      highest_version_written (pe st') = ?c \<and> entry_versions st' = Some (hd as' # tl as') \<and>
      map_option version_number (pv_at st' (hd as')) = Some ?c \<and> map_option partition (pv_at st' (hd as')) = Some mp"
    using promote_bounds [OF assms(2) False] by blast
  then show ?thesis
    unfolding if_not_P [OF False] using w(1,2) by blast
qed

theorem write_commit_version_witness:
  "\<exists>st0 st1 st2 st3 c. partition_entry_of (7 :: nat) = Some st0 \<and>
     pe_apply nat_ops False 9 (Some 0) 1 st0 = Some (st1, Some 1) \<and> pe_read nat_ops 0 5 st1 = Some (0, st2) \<and>
     pe_apply nat_ops False 11 (Some 0) 2 st2 = Some (st3, Some c) \<and> highest_version_read (pe st2) < c"
proof -
  obtain st0 st1 st2 st3 where st: "partition_entry_of (7 :: nat) = Some st0" "no_wrap (pe st0)"
    "pe_apply nat_ops False 9 (Some 0) 1 st0 = Some (st1, Some 1)" "pe_read nat_ops 0 5 st1 = Some (0, st2)"
    "no_wrap (pe st2)" "pe_apply nat_ops False 11 (Some 0) 2 st2 = Some (st3, Some 6)"
    using sample_execution by blast
  have "reachable nat_ops False st1"
    using reachable_step [OF reachable_init [OF st(1)] mvcc_step.do_write [OF st(2,3)]] .
  from reachable_step [OF this mvcc_step.do_read [OF st(4)]] have r: "reachable nat_ops False st2" .
  have "\<not> (2 \<noteq> (0 :: u32) \<and> 2 \<le> highest_version_written (pe st2)) \<Longrightarrow> highest_version_read (pe st2) < 6"
    using write_commit_version [OF r st(5,6)] by simp
  moreover have "\<not> 2 \<le> highest_version_written (pe st2)"
  proof
    assume "2 \<le> highest_version_written (pe st2)"
    then have "Some (6 :: u32) = Some (highest_version_written (pe st2))" "st3 = st2"
      using st(6) by (auto simp: pe_apply_def write_ptr_def)
    moreover have "highest_version_written (pe st2) = 1"
    proof -
      have "do { st0 \<leftarrow> partition_entry_of (7 :: nat); (st1, c1) \<leftarrow> pe_apply nat_ops False 9 (Some 0) 1 st0;
        (s1, st2) \<leftarrow> pe_read nat_ops 0 5 st1; Some (highest_version_written (pe st2)) } = Some 1"
        by code_simp
      then show ?thesis using st by simp
    qed
    ultimately show False by simp
  qed
  ultimately show ?thesis using st by blast
qed

section \<open>Reads\<close>

text \<open>C4. A read always succeeds (no null or dangling pointer is followed, the search ends). When the
  requested version is not 0 and a written version not newer than it is on the list, the read is served from
  the newest such version, and otherwise from the newest version of the list. The read is recorded in \<open>highest_version_read\<close>.\<close>

theorem read_newest_visible:
  assumes "reachable ops is_data st"
  shows "\<exists>s st' a pv as. pe_read ops phase v st = Some (s, st') \<and> entry_versions st = Some as \<and>
    snapshot_version st' s = Some a \<and> a \<in> set as \<and> pv_at st a = Some pv \<and>
    snapshot_partition st' s = Some (partition pv) \<and>
    highest_version_read (pe st') = max (highest_version_read (pe st)) v \<and>
    (if v \<noteq> 0 \<and> (\<exists>b \<in> set as. vnum st b \<noteq> 0 \<and> vnum st b \<le> v)
     then version_number pv \<noteq> 0 \<and> version_number pv \<le> v \<and>
       (\<forall>b \<in> set as. vnum st b \<le> v \<longrightarrow> vnum st b \<le> version_number pv)
     else a = hd as)"
proof -
  obtain as where inv: "mvcc_inv st as" using reachable_inv [OF assms(1)] by blast
  define x where "x = target st as v"
  obtain pv where pv: "pv_at st x = Some pv" using target_allocated [OF inv] x_def by blast
  obtain s st' where r: "pe_read ops phase v st = Some (s, st')" "snapshot_version st' s = Some x"
    "pv_at st' = (pv_at st)(x \<mapsto> pv\<lparr>snapshot := Some s\<rparr>)"
    "highest_version_read (pe st') = max (highest_version_read (pe st)) v"
    using pe_read_effect [OF inv x_def pv, of ops phase] by blast
  have as: "as \<noteq> []" "sorted_wrt (\<lambda>a b. vnum st b < vnum st a) as"
    using inv by (auto simp: mvcc_inv_def chain_ok_def order_ok_def)
  have in_as: "x \<in> set as" using target_in [OF as(1)] x_def by simp
  have num: "vnum st x = version_number pv" using pv by (simp add: vnum_def)
  have "if v \<noteq> 0 \<and> (\<exists>b \<in> set as. vnum st b \<noteq> 0 \<and> vnum st b \<le> v)
     then version_number pv \<noteq> 0 \<and> version_number pv \<le> v \<and>
       (\<forall>b \<in> set as. vnum st b \<le> v \<longrightarrow> vnum st b \<le> version_number pv)
     else x = hd as"
  proof (cases "v \<noteq> 0 \<and> (\<exists>b \<in> set as. vnum st b \<noteq> 0 \<and> vnum st b \<le> v)")
    case True
    then obtain b where b: "b \<in> set as" "vnum st b \<noteq> 0" "vnum st b \<le> v" by blast
    then obtain y where y: "find (\<lambda>a. vnum st a \<le> v) as = Some y"
      by (cases "find (\<lambda>a. vnum st a \<le> v) as") (auto simp: find_None_iff)
    then have max: "vnum st y \<le> v" "\<forall>b \<in> set as. vnum st b \<le> v \<longrightarrow> vnum st b \<le> vnum st y"
      using find_descending [OF as(2)] by auto
    with b have "vnum st y \<noteq> 0" by (metis word_le_0_iff)
    moreover have "0 < v" using True by (simp add: word_neq_0_conv)
    ultimately have "x = y" using y by (simp add: x_def target_def)
    then show ?thesis using True max \<open>vnum st y \<noteq> 0\<close> num by simp
  next
    case False
    have "x = hd as"
    proof (cases "v = 0 \<or> find (\<lambda>a. vnum st a \<le> v) as = None")
      case False
      then obtain y where y: "find (\<lambda>a. vnum st a \<le> v) as = Some y" by auto
      then have "y \<in> set as" "vnum st y \<le> v" using find_descending [OF as(2)] by auto
      then have "vnum st y = 0" using \<open>\<not> (v \<noteq> 0 \<and> _)\<close> False by blast
      then show ?thesis using y by (simp add: x_def target_def)
    qed (auto simp: x_def target_def)
    then show ?thesis unfolding if_not_P [OF False] .
  qed
  moreover have "snapshot_partition st' s = Some (partition pv)"
    using r by (simp add: snapshot_partition_def)
  ultimately show ?thesis using r pv in_as mvcc_inv_versions [OF inv] by blast
qed

theorem read_newest_visible_witness:
  "\<exists>st0 st1 s st' a. partition_entry_of (7 :: nat) = Some st0 \<and>
     pe_apply nat_ops False 9 (Some 0) 1 st0 = Some (st1, Some 1) \<and> pe_read nat_ops 0 5 st1 = Some (s, st') \<and>
     snapshot_version st' s = Some a \<and> highest_version_read (pe st') = max (highest_version_read (pe st1)) 5"
proof -
  obtain st0 st1 where st: "partition_entry_of (7 :: nat) = Some st0" "no_wrap (pe st0)"
    "pe_apply nat_ops False 9 (Some 0) 1 st0 = Some (st1, Some 1)" using sample_execution by blast
  have "reachable nat_ops False st1"
    using reachable_step [OF reachable_init [OF st(1)] mvcc_step.do_write [OF st(2,3)]] .
  from read_newest_visible [OF this, of 0 5] show ?thesis using st by blast
qed

section \<open>Repeatable reads\<close>









end
