(* ===== verification/Mvcc_Findings.thy ===== *)
theory Mvcc_Findings
  imports Mvcc_Properties
begin

text \<open>
  Executions of the partition entry that end badly: a garbage collection that follows a null pointer,
  unlinked versions that are never freed, reads that are not repeatable, and the effect of moving
  versions and entries in memory.
\<close>

section \<open>Many writes\<close>

primrec plain_writes :: "('p, 'm) partition_ops \<Rightarrow> 'm \<Rightarrow> nat \<Rightarrow> 'p pstate \<Rightarrow> 'p pstate option" where
  "plain_writes ops mpv 0 st = Some st"
| "plain_writes ops mpv (Suc n) st = do {
     st \<leftarrow> plain_writes ops mpv n st;
     (st, _) \<leftarrow> pe_apply ops False mpv None 0 st;
     Some st
   }"

lemma unat_succ: "(x :: u32) \<noteq> - 1 \<Longrightarrow> unat (x + 1) = Suc (unat x)"
  using word_succ_gt [of x] by (metis Suc_eq_plus1 add.commute unatSuc word_not_simps(1) linorder_not_less word_gt_0)

text \<open>A plain write below the collection threshold always succeeds.\<close>

lemma plain_write:
  assumes inv: "mvcc_inv st as" and nw: "no_wrap (pe st)" and n: "num_versions (pe st) < 100"
  obtains st' a where "pe_apply ops False mpv None 0 st = Some (st', None)" "mvcc_inv st' (a # as)"
    "pv_at st a = None" "highest_version_written (pe st') = highest_version_written (pe st) + 1"
    "highest_version_read (pe st') = highest_version_read (pe st)"
    "num_versions (pe st') = num_versions (pe st) + 1"
    "last_version (pe st') = (if highest_version_written (pe st) = 0 then Some a else last_version (pe st))"
    "\<And>x. x \<noteq> a \<Longrightarrow> map_option snapshot (pv_at st' x) = map_option snapshot (pv_at st x)"
    "\<And>x. pv_at st x \<noteq> None \<Longrightarrow> pv_at st' x \<noteq> None" "snaps st' = snaps st" "pv_at st' a \<noteq> None"
proof -
  let ?pr = "promote 0 (pe st)"
  have pr: "?pr = highest_version_written (pe st) + 1" by (simp add: promote_def)
  have late: "\<not> ((0 :: u32) \<noteq> 0 \<and> 0 \<le> highest_version_written (pe st))" by simp
  have ch: "chain_ok st as" using inv by (simp add: mvcc_inv_def)
  obtain hpv where hpv: "pv_at st (hd as) = Some hpv" using chain_head [OF ch] by blast
  have mp: "(if (0 :: u32) \<noteq> 0 \<or> False then mp_stamp ops ?pr (mp_apply_view ops (mp_new ops) mpv ?pr)
      else Some (mp_apply_view ops (mp_new ops) mpv ?pr)) = Some (mp_apply_view ops (mp_new ops) mpv ?pr)" by simp
  have "\<not> 100 \<le> num_versions (pe st)" using n by simp
  then obtain st' where st': "pe_apply ops False mpv None 0 st = Some (st', write_ptr None ?pr)"
    using pe_apply_push [OF ch hpv late HOL.refl mp, of None] by metis
  obtain mp as' where w: "written st as ?pr mp st' as'"
    using pe_apply_effect [OF inv nw late st' HOL.refl] by blast
  have one: "?pr = 1 \<longleftrightarrow> highest_version_written (pe st) = 0" by (simp add: pr)
  obtain a where a: "pv_at st a = None" "as' = a # as" "num_versions (pe st') = num_versions (pe st) + 1"
    "last_version (pe st') = (if ?pr = 1 then Some a else last_version (pe st))"
    "pv_at st' = (pv_at st)(hd as \<mapsto> hpv\<lparr>backref := None\<rparr>,
       a \<mapsto> \<lparr>backref = Some Entry_ref, partition = mp, version_number = ?pr, snapshot = None\<rparr>)"
    using w n hpv by (auto simp: written_def)
  show ?thesis
  proof (rule that)
    show "pe_apply ops False mpv None 0 st = Some (st', None)" using st' by (simp add: write_ptr_def)
    show "mvcc_inv st' (a # as)" "highest_version_written (pe st') = highest_version_written (pe st) + 1"
      "highest_version_read (pe st') = highest_version_read (pe st)" "snaps st' = snaps st"
      using w a pr by (simp_all add: written_def)
    show "last_version (pe st') = (if highest_version_written (pe st) = 0 then Some a else last_version (pe st))"
      using a(4) one by simp
    show "\<And>x. x \<noteq> a \<Longrightarrow> map_option snapshot (pv_at st' x) = map_option snapshot (pv_at st x)"
      "\<And>x. pv_at st x \<noteq> None \<Longrightarrow> pv_at st' x \<noteq> None" "pv_at st' a \<noteq> None"
      using a(5) hpv by auto
  qed (use a in auto)
qed

lemma plain_writes_below:
  assumes inv: "mvcc_inv st as" "highest_version_read (pe st) \<noteq> - 1" "highest_version_written (pe st) \<noteq> 0"
    and n: "unat (num_versions (pe st)) + n \<le> 100" "unat (highest_version_written (pe st)) + n < 2 ^ 32 - 1"
    and l: "last_version (pe st) = Some l" "l \<in> set as"
  shows "\<exists>st' bs. plain_writes ops mpv n st = Some st' \<and> mvcc_inv st' (bs @ as) \<and> length bs = n \<and>
    highest_version_read (pe st') = highest_version_read (pe st) \<and>
    unat (highest_version_written (pe st')) = unat (highest_version_written (pe st)) + n \<and>
    unat (num_versions (pe st')) = unat (num_versions (pe st)) + n \<and> last_version (pe st') = Some l \<and>
    (\<forall>x \<in> set as. map_option snapshot (pv_at st' x) = map_option snapshot (pv_at st x)) \<and>
    (\<forall>x. pv_at st x \<noteq> None \<longrightarrow> pv_at st' x \<noteq> None)"
  using n
proof (induction n)
  case 0
  then show ?case using inv l by (intro exI [of _ st] exI [of _ "[]"]) simp
next
  case (Suc n)
  then obtain st1 bs where 1: "plain_writes ops mpv n st = Some st1" "mvcc_inv st1 (bs @ as)" "length bs = n"
    "highest_version_read (pe st1) = highest_version_read (pe st)"
    "unat (highest_version_written (pe st1)) = unat (highest_version_written (pe st)) + n"
    "unat (num_versions (pe st1)) = unat (num_versions (pe st)) + n" "last_version (pe st1) = Some l"
    "\<forall>x \<in> set as. map_option snapshot (pv_at st1 x) = map_option snapshot (pv_at st x)"
    "\<forall>x. pv_at st x \<noteq> None \<longrightarrow> pv_at st1 x \<noteq> None"
    by auto
  have hw: "highest_version_written (pe st1) \<noteq> - 1" "highest_version_written (pe st1) \<noteq> 0"
  proof -
    have "unat (- 1 :: u32) = 2 ^ 32 - 1" by (simp add: unsigned_minus_1_eq_mask mask_eq_exp_minus_1)
    then show "highest_version_written (pe st1) \<noteq> - 1" using 1(5) Suc.prems(2) by auto
    have "0 < unat (highest_version_written (pe st))" using inv(3) by (simp add: unat_gt_0)
    then show "highest_version_written (pe st1) \<noteq> 0" using 1(5) by auto
  qed
  then have nw: "no_wrap (pe st1)" using 1(4) inv(2) by (simp add: no_wrap_def)
  have lt: "num_versions (pe st1) < 100" using 1(6) Suc.prems(1) by (simp add: word_less_nat_alt)
  obtain st2 a where 2: "pe_apply ops False mpv None 0 st1 = Some (st2, None)" "mvcc_inv st2 (a # bs @ as)"
    "pv_at st1 a = None" "highest_version_written (pe st2) = highest_version_written (pe st1) + 1"
    "highest_version_read (pe st2) = highest_version_read (pe st1)"
    "num_versions (pe st2) = num_versions (pe st1) + 1"
    "last_version (pe st2) = (if highest_version_written (pe st1) = 0 then Some a else last_version (pe st1))"
    "\<And>x. x \<noteq> a \<Longrightarrow> map_option snapshot (pv_at st2 x) = map_option snapshot (pv_at st1 x)"
    "\<And>x. pv_at st1 x \<noteq> None \<Longrightarrow> pv_at st2 x \<noteq> None"
    using plain_write [OF 1(2) nw lt, of ops mpv] by metis
  have "a \<notin> set as" using 2(2) by (auto simp: mvcc_inv_def chain_ok_def linked_def)
  moreover have "unat (num_versions (pe st2)) = Suc (unat (num_versions (pe st1)))"
    using 2(6) unat_succ_small [of "num_versions (pe st1)"] lt by simp
  moreover have "unat (highest_version_written (pe st2)) = Suc (unat (highest_version_written (pe st1)))"
    using 2(4) unat_succ [OF hw(1)] by simp
  moreover have "map_option snapshot (pv_at st2 x) = map_option snapshot (pv_at st x)" if "x \<in> set as" for x
    using 1(8) 2(8) [of x] that \<open>a \<notin> set as\<close> by auto
  moreover have "pv_at st2 x \<noteq> None" if "pv_at st x \<noteq> None" for x using 1(9) 2(9) that by blast
  ultimately show ?case
    using 1(1,3-7) 2(1,2,5,7) hw by (intro exI [of _ st2] exI [of _ "a # bs"]) simp
qed

text \<open>The first write of an entry and a read that stays open on it.\<close>

lemma first_write_pinned:
  "\<exists>st0 st1 st2 s l. partition_entry_of mp = Some st0 \<and> pe_apply ops False mpv None 0 st0 = Some (st1, None) \<and>
     pe_read ops 0 1 st1 = Some (s, st2) \<and> mvcc_inv st1 [l, 0] \<and> mvcc_inv st2 [l, 0] \<and>
     last_version (pe st1) = Some l \<and> last_version (pe st2) = Some l \<and>
     highest_version_written (pe st1) = 1 \<and> highest_version_written (pe st2) = 1 \<and>
     highest_version_read (pe st1) = 0 \<and> highest_version_read (pe st2) = 1 \<and>
     map_option snapshot (pv_at st2 l) = Some (Some s) \<and> map_option snapshot (pv_at st1 l) = Some None"
proof -
  obtain st0 where 0: "partition_entry_of mp = Some st0" "mvcc_inv st0 [0]" "snaps st0 = Map.empty"
    "pe st0 = \<lparr>entry_snapshot = None, entry_version = \<lparr>version_ptr = Some 0, unique_owner = False, evictable = False\<rparr>,
       highest_version_read = 0, highest_version_written = 0, num_versions = 0, last_version = None\<rparr>"
    using partition_entry_of_inv [of mp] by (elim exE conjE) (rule that)
  have nw: "no_wrap (pe st0)" "num_versions (pe st0) < 100" by (simp_all add: 0 no_wrap_def)
  obtain st1 l where 1: "pe_apply ops False mpv None 0 st0 = Some (st1, None)" "mvcc_inv st1 [l, 0]"
    "highest_version_written (pe st1) = 1" "highest_version_read (pe st1) = 0" "last_version (pe st1) = Some l"
    "snaps st1 = Map.empty"
    by (rule plain_write [OF 0(2) nw, of ops mpv]) (rule that; simp add: 0(3,4))
  have ord: "vnum st1 0 < vnum st1 l" "vnum st1 l = 1"
    using 1(2,3) by (auto simp: mvcc_inv_def order_ok_def)
  then have tgt: "l = target st1 [l, 0] 1" by (simp add: target_def)
  obtain lv where lv: "pv_at st1 l = Some lv"
    using 1(2) chain_allocated [of st1 "[l, 0]" l] by (auto simp: mvcc_inv_def)
  have "snapshot lv = None"
  proof (cases "snapshot lv")
    case (Some r)
    then show ?thesis using snaps_ok_version [OF _ lv Some] 1(2,6) by (auto simp: mvcc_inv_def)
  qed simp
  moreover obtain s st2 where 2: "pe_read ops 0 1 st1 = Some (s, st2)" "mvcc_inv st2 [l, 0]"
    "pv_at st2 = (pv_at st1)(l \<mapsto> lv\<lparr>snapshot := Some s\<rparr>)"
    "highest_version_read (pe st2) = max (highest_version_read (pe st1)) 1"
    "highest_version_written (pe st2) = highest_version_written (pe st1)"
    "last_version (pe st2) = last_version (pe st1)"
    using pe_read_effect [OF 1(2) tgt lv, of ops 0] by blast
  moreover have "max 0 (1 :: u32) = 1" by (simp add: max_def)
  ultimately show ?thesis using 0(1) 1 lv by auto
qed

lemma num_versions_of_inv: "mvcc_inv st as \<Longrightarrow> unat (num_versions (pe st)) = length as - 1"
  by (auto simp: mvcc_inv_def gc_ok_def)

lemma split_at_unique: "us @ l # vs = ys @ l # zs \<Longrightarrow> distinct (us @ l # vs) \<Longrightarrow> us = ys \<and> vs = zs"
proof (induction us arbitrary: ys)
  case Nil
  then show ?case by (cases ys) auto
next
  case (Cons u us)
  then show ?case by (cases ys) auto
qed

text \<open>A plain write up to its garbage collection.\<close>

lemma plain_push:
  assumes ch: "chain_ok st as" and hpv: "pv_at st (hd as) = Some hpv" and n: "num_versions (pe st) = 100"
  obtains st1 mp where "pe_apply ops False mpv None 0 st = map_option (\<lambda>st2. (st2, None)) (gc_versions st1)"
    "linked (mem st1) (brk (mem st) # as)" "below_brk (mem st1)" "pv_at st (brk (mem st)) = None"
    "pv_at st1 = (pv_at st)(hd as \<mapsto> hpv\<lparr>backref := None\<rparr>,
       brk (mem st) \<mapsto> \<lparr>backref = Some Entry_ref, partition = mp, version_number = promote 0 (pe st), snapshot = None\<rparr>)"
    "snaps st1 = snaps st" "next_snap st1 = next_snap st"
    "pe st1 = (pe st)\<lparr>entry_version := \<lparr>version_ptr = Some (brk (mem st)), unique_owner = False,
         evictable = evictable (entry_version (pe st))\<rparr>,
       last_version := (if promote 0 (pe st) = 1 then Some (brk (mem st)) else last_version (pe st)),
       highest_version_written := promote 0 (pe st), num_versions := 101\<rparr>"
proof -
  let ?pr = "promote 0 (pe st)"
  have late: "\<not> ((0 :: u32) \<noteq> 0 \<and> 0 \<le> highest_version_written (pe st))" by simp
  have mp: "(if (0 :: u32) \<noteq> 0 \<or> False then mp_stamp ops ?pr (mp_apply_view ops (mp_new ops) mpv ?pr)
      else Some (mp_apply_view ops (mp_new ops) mpv ?pr)) = Some (mp_apply_view ops (mp_new ops) mpv ?pr)" by simp
  show ?thesis
    by (rule pe_apply_push [OF ch hpv late HOL.refl mp, of None])
      (rule that; simp add: n write_ptr_def split: option.split)
qed

text \<open>A write when the list is full and its oldest written version is pinned.\<close>

lemma full_pinned:
  assumes inv: "mvcc_inv st (ys @ [l, z])" and nw: "no_wrap (pe st)" and n: "num_versions (pe st) = 100"
    and l: "last_version (pe st) = Some l" "map_option snapshot (pv_at st l) = Some (Some s)"
    and hw: "highest_version_written (pe st) \<noteq> 0"
  obtains st' a where "pe_apply ops False mpv None 0 st = Some (st', None)" "mvcc_inv st' (a # ys @ [l])"
    "last_version (pe st') = Some l" "map_option snapshot (pv_at st' l) = Some (Some s)"
    "highest_version_written (pe st') = highest_version_written (pe st) + 1"
    "highest_version_read (pe st') = highest_version_read (pe st)"
proof -
  let ?pr = "promote 0 (pe st)" and ?a = "brk (mem st)" and ?as = "ys @ [l, z]"
  have pr: "?pr = highest_version_written (pe st) + 1" by (simp add: promote_def)
  have late: "\<not> ((0 :: u32) \<noteq> 0 \<and> 0 \<le> highest_version_written (pe st))" by simp
  have ch: "chain_ok st ?as" using inv by (simp add: mvcc_inv_def)
  obtain hpv where hpv: "pv_at st (hd ?as) = Some hpv" using chain_head [OF ch] by blast
  obtain st1 mp where eq: "pe_apply ops False mpv None 0 st = map_option (\<lambda>st2. (st2, None)) (gc_versions st1)"
    and lk: "linked (mem st1) (?a # ?as)" "below_brk (mem st1)" and fresh: "pv_at st ?a = None"
    and pv: "pv_at st1 = (pv_at st)(hd ?as \<mapsto> hpv\<lparr>backref := None\<rparr>,
       ?a \<mapsto> \<lparr>backref = Some Entry_ref, partition = mp, version_number = ?pr, snapshot = None\<rparr>)"
    and sn: "snaps st1 = snaps st" "next_snap st1 = next_snap st"
    and pe: "pe st1 = (pe st)\<lparr>entry_version := \<lparr>version_ptr = Some ?a, unique_owner = False,
         evictable = evictable (entry_version (pe st))\<rparr>,
       last_version := (if ?pr = 1 then Some ?a else last_version (pe st)),
       highest_version_written := ?pr, num_versions := 101\<rparr>"
    using plain_push [OF ch hpv n] by metis
  have pe': "pe st1 = (pe st)\<lparr>entry_version := \<lparr>version_ptr = Some ?a, unique_owner = False,
         evictable = evictable (entry_version (pe st))\<rparr>,
       last_version := (if ?pr = 1 then Some ?a else last_version (pe st)),
       highest_version_written := ?pr, num_versions := num_versions (pe st) + 1\<rparr>" using pe n by simp
  note pushed = push_inv [OF inv promote_bounds(1) [OF nw late] fresh lk hpv pv sn pe']
  have "?pr \<noteq> 1" using hw by (simp add: pr)
  then have last1: "last_version (pe st1) = Some l" using pe l by simp
  have la: "l \<noteq> ?a" using lk(1) by (auto simp: linked_def)
  obtain lv0 where lv0: "pv_at st l = Some lv0" "snapshot lv0 = Some s" using l(2) by auto
  then have "\<exists>lv. pv_at st1 l = Some lv \<and> snapshot lv = Some s"
    using pv hpv la by (cases "l = hd ?as") simp_all
  then obtain lv where lv: "pv_at st1 l = Some lv" "snapshot lv = Some s" by blast
  have len: "length ys = 99" using num_versions_of_inv [OF inv] n by simp
  obtain ys' zs where yz: "?a # ?as = ys' @ l # zs" "vnum st1 l \<noteq> 0" "\<forall>z \<in> set zs. vnum st1 z = 0"
    using pushed(5) [OF last1] by blast
  have "distinct (?a # ?as)" using lk(1) by (simp only: linked_def)
  then have zs: "zs = [z]" using split_at_unique [of "?a # ys" l "[z]" ys' zs] yz(1) by simp
  obtain m' where g: "gc_versions st1 = Some (st1\<lparr>mem := m',
      pe := (pe st1)\<lparr>num_versions := num_versions (pe st1) - 1\<rparr>\<rparr>)"
    using gc_pinned [of st1 "?a # ys" l z "[]" lv s] lk(1) last1 lv by auto
  let ?st' = "st1\<lparr>mem := m', pe := (pe st1)\<lparr>num_versions := num_versions (pe st1) - 1\<rparr>\<rparr>"
  have d: "dropped_to st1 ((?a # ys) @ [l, z]) ?st' (((?a # ys) @ [l]) @ [])"
  proof (rule gc_pinned_dropped [OF _ pushed(2) _ last1 _ _ lv _ _ g])
    show "chain_ok st1 ((?a # ys) @ [l, z])" "order_ok st1 ((?a # ys) @ [l, z])" using pushed(1,3) by simp_all
    show "vnum st1 l \<noteq> 0" "vnum st1 z = 0" using yz(2,3) zs by simp_all
    show "length ((?a # ys) @ [l, z]) = 102" "num_versions (pe st1) = 101" using len pe by simp_all
  qed
  show ?thesis
  proof (rule that [of ?st' ?a])
    show "pe_apply ops False mpv None 0 st = Some (?st', None)" using eq g by simp
    show "mvcc_inv ?st' (?a # ys @ [l])" using d by (simp add: dropped_to_def)
    show "map_option snapshot (pv_at ?st' l) = Some (Some s)" using d lv by (simp add: dropped_to_def)
  qed (use last1 pe pr in simp_all)
qed

lemma full_pinned_crash:
  assumes inv: "mvcc_inv st (ys @ [l])" and nw: "no_wrap (pe st)" and n: "num_versions (pe st) = 100"
    and l: "last_version (pe st) = Some l" "map_option snapshot (pv_at st l) = Some (Some s)"
    and hw: "highest_version_written (pe st) \<noteq> 0"
  shows "pe_apply ops False mpv None 0 st = None"
proof -
  let ?a = "brk (mem st)" and ?as = "ys @ [l]"
  have ch: "chain_ok st ?as" using inv by (simp add: mvcc_inv_def)
  obtain hpv where hpv: "pv_at st (hd ?as) = Some hpv" using chain_head [OF ch] by blast
  obtain st1 mp where eq: "pe_apply ops False mpv None 0 st = map_option (\<lambda>st2. (st2, None)) (gc_versions st1)"
    and lk: "linked (mem st1) (?a # ?as)"
    and pv: "pv_at st1 = (pv_at st)(hd ?as \<mapsto> hpv\<lparr>backref := None\<rparr>,
       ?a \<mapsto> \<lparr>backref = Some Entry_ref, partition = mp, version_number = promote 0 (pe st), snapshot = None\<rparr>)"
    and pe: "pe st1 = (pe st)\<lparr>entry_version := \<lparr>version_ptr = Some ?a, unique_owner = False,
         evictable = evictable (entry_version (pe st))\<rparr>,
       last_version := (if promote 0 (pe st) = 1 then Some ?a else last_version (pe st)),
       highest_version_written := promote 0 (pe st), num_versions := 101\<rparr>"
    using plain_push [OF ch hpv n] by metis
  have "promote 0 (pe st) \<noteq> 1" using hw by (simp add: promote_def)
  then have last1: "last_version (pe st1) = Some l" using pe l by simp
  have la: "l \<noteq> ?a" using lk(1) by (auto simp: linked_def)
  obtain lv0 where lv0: "pv_at st l = Some lv0" "snapshot lv0 = Some s" using l(2) by auto
  then have "\<exists>lv. pv_at st1 l = Some lv \<and> snapshot lv = Some s"
    using pv hpv la by (cases "l = hd ?as") simp_all
  then obtain lv where lv: "pv_at st1 l = Some lv" "snapshot lv = Some s" by blast
  have "gc_versions st1 = None"
    using gc_pinned_last_crash [of st1 "?a # ys" l lv s] lk last1 lv by simp
  then show ?thesis using eq by simp
qed

lemma unat_100: "unat (x :: u32) = 100 \<longleftrightarrow> x = 100"
  by (simp add: word_unat_eq_iff)

section \<open>Garbage collection\<close>

text \<open>C39. The version garbage collection can follow a null pointer. A reader holds a snapshot of the first
  written version; one hundred further writes succeed, the last of them dropping the empty version
  behind the pinned one, and the next write dereferences \<open>last_version->next()\<close>, which is null. This
  holds for every partition type and every written value.\<close>

theorem gc_null_dereference:
  "\<exists>st0 st1 st2 st3 s. partition_entry_of mp = Some st0 \<and> pe_apply ops False mpv None 0 st0 = Some (st1, None) \<and>
     pe_read ops 0 1 st1 = Some (s, st2) \<and> plain_writes ops mpv 100 st2 = Some st3 \<and>
     no_wrap (pe st3) \<and> pe_apply ops False mpv None 0 st3 = None"
proof -
  obtain st0 st1 st2 s l where 0: "partition_entry_of mp = Some st0" "pe_apply ops False mpv None 0 st0 = Some (st1, None)"
    "pe_read ops 0 1 st1 = Some (s, st2)" and 2: "mvcc_inv st2 [l, 0]" "last_version (pe st2) = Some l"
    "highest_version_written (pe st2) = 1" "highest_version_read (pe st2) = 1" "map_option snapshot (pv_at st2 l) = Some (Some s)"
    using first_write_pinned [of mp ops mpv] by blast
  have n2: "unat (num_versions (pe st2)) = 1" using num_versions_of_inv [OF 2(1)] by simp
  have "highest_version_read (pe st2) \<noteq> - 1" "highest_version_written (pe st2) \<noteq> 0"
    "unat (num_versions (pe st2)) + 99 \<le> 100" "unat (highest_version_written (pe st2)) + 99 < 2 ^ 32 - 1"
    using 2 n2 by simp_all
  then obtain stk bs where k: "plain_writes ops mpv 99 st2 = Some stk" "mvcc_inv stk (bs @ [l, 0])" "length bs = 99"
    "highest_version_read (pe stk) = 1" "unat (highest_version_written (pe stk)) = 100"
    "last_version (pe stk) = Some l" "map_option snapshot (pv_at stk l) = Some (Some s)"
    "unat (num_versions (pe stk)) = 100"
    using plain_writes_below [OF 2(1), of 99 l ops mpv] 2 n2 by auto
  have num: "num_versions (pe stk) = 100" and hw: "highest_version_written (pe stk) = 100"
    using k(5,8) by (simp_all add: unat_100)
  have nwk: "no_wrap (pe stk)" using k(4) hw by (simp add: no_wrap_def)
  have hwk: "highest_version_written (pe stk) \<noteq> 0" using hw by simp
  obtain st3 a where 3: "pe_apply ops False mpv None 0 stk = Some (st3, None)" "mvcc_inv st3 (a # bs @ [l])"
    "last_version (pe st3) = Some l" "map_option snapshot (pv_at st3 l) = Some (Some s)"
    "highest_version_written (pe st3) = highest_version_written (pe stk) + 1"
    "highest_version_read (pe st3) = highest_version_read (pe stk)"
    using full_pinned [OF k(2) nwk num k(6,7) hwk, of ops mpv] by metis
  have nw3: "no_wrap (pe st3)" "highest_version_written (pe st3) \<noteq> 0" using 3(5,6) hw k(4) by (simp_all add: no_wrap_def)
  have "unat (num_versions (pe st3)) = 100" using num_versions_of_inv [OF 3(2)] k(3) by simp
  then have n3: "num_versions (pe st3) = 100" by (simp add: unat_100)
  have "pe_apply ops False mpv None 0 st3 = None"
    using full_pinned_crash [of st3 "a # bs" l s ops mpv] 3 nw3 n3 by simp
  moreover have "plain_writes ops mpv (Suc 99) st2 = Some st3"
    unfolding plain_writes.simps(2) using k(1) 3(1) by simp
  then have "plain_writes ops mpv 100 st2 = Some st3" by simp
  ultimately show ?thesis using 0 nw3(1) by blast
qed

lemma full_unpinned:
  assumes inv: "mvcc_inv st (ys @ [l, z])" and nw: "no_wrap (pe st)" and n: "num_versions (pe st) = 100"
    and l: "last_version (pe st) = Some l" "map_option snapshot (pv_at st l) = Some None"
    and hw: "highest_version_written (pe st) \<noteq> 0"
  obtains st' as' where "pe_apply ops False mpv None 0 st = Some (st', None)" "mvcc_inv st' as'"
    "l \<notin> set as'" "pv_at st' l \<noteq> None"
proof -
  let ?pr = "promote 0 (pe st)" and ?a = "brk (mem st)" and ?as = "ys @ [l, z]"
  have late: "\<not> ((0 :: u32) \<noteq> 0 \<and> 0 \<le> highest_version_written (pe st))" by simp
  have ch: "chain_ok st ?as" using inv by (simp add: mvcc_inv_def)
  obtain hpv where hpv: "pv_at st (hd ?as) = Some hpv" using chain_head [OF ch] by blast
  obtain st1 mp where eq: "pe_apply ops False mpv None 0 st = map_option (\<lambda>st2. (st2, None)) (gc_versions st1)"
    and lk: "linked (mem st1) (?a # ?as)" "below_brk (mem st1)" and fresh: "pv_at st ?a = None"
    and pv: "pv_at st1 = (pv_at st)(hd ?as \<mapsto> hpv\<lparr>backref := None\<rparr>,
       ?a \<mapsto> \<lparr>backref = Some Entry_ref, partition = mp, version_number = ?pr, snapshot = None\<rparr>)"
    and sn: "snaps st1 = snaps st" "next_snap st1 = next_snap st"
    and pe: "pe st1 = (pe st)\<lparr>entry_version := \<lparr>version_ptr = Some ?a, unique_owner = False,
         evictable = evictable (entry_version (pe st))\<rparr>,
       last_version := (if ?pr = 1 then Some ?a else last_version (pe st)),
       highest_version_written := ?pr, num_versions := 101\<rparr>"
    using plain_push [OF ch hpv n] by metis
  have pe': "pe st1 = (pe st)\<lparr>entry_version := \<lparr>version_ptr = Some ?a, unique_owner = False,
         evictable = evictable (entry_version (pe st))\<rparr>,
       last_version := (if ?pr = 1 then Some ?a else last_version (pe st)),
       highest_version_written := ?pr, num_versions := num_versions (pe st) + 1\<rparr>" using pe n by simp
  note pushed = push_inv [OF inv promote_bounds(1) [OF nw late] fresh lk hpv pv sn pe']
  have "?pr \<noteq> 1" using hw by (simp add: promote_def)
  then have last1: "last_version (pe st1) = Some l" using pe l by simp
  have dist: "distinct (?a # ?as)" using lk(1) by (simp only: linked_def)
  have la: "l \<noteq> ?a" using dist by auto
  obtain lv0 where lv0: "pv_at st l = Some lv0" "snapshot lv0 = None" using l(2) by auto
  then have "\<exists>lv. pv_at st1 l = Some lv \<and> snapshot lv = None"
    using pv hpv la by (cases "l = hd ?as") simp_all
  then obtain lv where lv: "pv_at st1 l = Some lv" "snapshot lv = None" by blast
  have len: "length ys = 99" using num_versions_of_inv [OF inv] n by simp
  obtain ys' zs where yz: "?a # ?as = ys' @ l # zs" "length zs \<le> 1" "\<forall>z \<in> set zs. vnum st1 z = 0"
    using pushed(5) [OF last1] by blast
  then have zs: "zs = [z]" using split_at_unique [of "?a # ys" l "[z]" ys' zs] dist by simp
  obtain us q where us: "?a # ys = us @ [q]" by (metis list.distinct(1) rev_exhaust)
  have as: "?a # ?as = us @ [q, l] @ [z]" using us by (metis append_Cons append_Nil append_assoc)
  obtain m' where g: "gc_versions st1 = Some (st1\<lparr>mem := m',
      pe := (pe st1)\<lparr>last_version := Some q, num_versions := num_versions (pe st1) - 1\<rparr>\<rparr>)"
    using gc_unpinned [of st1 us q l "[z]" lv] lk(1) last1 lv as by metis
  let ?st' = "st1\<lparr>mem := m', pe := (pe st1)\<lparr>last_version := Some q, num_versions := num_versions (pe st1) - 1\<rparr>\<rparr>"
  have d: "dropped_to st1 (us @ [q, l] @ [z]) ?st' ((us @ [q]) @ [z])"
  proof (rule gc_unpinned_dropped [OF _ pushed(2) _ last1 _ _ lv _ _ g])
    show "chain_ok st1 (us @ [q, l] @ [z])" "order_ok st1 (us @ [q, l] @ [z])" using pushed(1,3) as by metis+
    show "length [z] \<le> 1" "\<forall>z \<in> set [z]. vnum st1 z = 0" using yz(3) zs by simp_all
    show "length (us @ [q, l] @ [z]) = 102" using len arg_cong [OF as, of length] by simp
    show "num_versions (pe st1) = 101" using pe by simp
  qed
  have "l \<notin> set ((us @ [q]) @ [z])" using dist unfolding as by auto
  then show ?thesis
    using that [of ?st' "(us @ [q]) @ [z]"] eq g d lv by (simp add: dropped_to_def)
qed

text \<open>C40. Collected versions are unlinked but never freed: after the first write of an entry and one
  hundred more, with no reader at all, the first version is no longer on the version list (no
  snapshot or entry refers to it) and is still allocated.\<close>

theorem gc_leaks_versions:
  "\<exists>st0 st1 st2 l as. partition_entry_of mp = Some st0 \<and> pe_apply ops False mpv None 0 st0 = Some (st1, None) \<and>
     entry_versions st1 = Some [l, 0] \<and> plain_writes ops mpv 100 st1 = Some st2 \<and>
     entry_versions st2 = Some as \<and> l \<notin> set as \<and> pv_at st2 l \<noteq> None"
proof -
  obtain st0 st1 l where 0: "partition_entry_of mp = Some st0" "pe_apply ops False mpv None 0 st0 = Some (st1, None)"
    and 1: "mvcc_inv st1 [l, 0]" "last_version (pe st1) = Some l" "highest_version_written (pe st1) = 1"
    "highest_version_read (pe st1) = 0" "map_option snapshot (pv_at st1 l) = Some None"
    using first_write_pinned [of mp ops mpv] by blast
  have n1: "unat (num_versions (pe st1)) = 1" using num_versions_of_inv [OF 1(1)] by simp
  have "highest_version_read (pe st1) \<noteq> - 1" "highest_version_written (pe st1) \<noteq> 0"
    "unat (num_versions (pe st1)) + 99 \<le> 100" "unat (highest_version_written (pe st1)) + 99 < 2 ^ 32 - 1"
    using 1 n1 by simp_all
  then obtain stk bs where k: "plain_writes ops mpv 99 st1 = Some stk" "mvcc_inv stk (bs @ [l, 0])"
    "highest_version_read (pe stk) = 0" "unat (highest_version_written (pe stk)) = 100"
    "last_version (pe stk) = Some l" "map_option snapshot (pv_at stk l) = Some None"
    "unat (num_versions (pe stk)) = 100"
    using plain_writes_below [OF 1(1), of 99 l ops mpv] 1 n1 by auto
  have num: "num_versions (pe stk) = 100" and hw: "highest_version_written (pe stk) = 100"
    using k(4,7) by (simp_all add: unat_100)
  have nwk: "no_wrap (pe stk)" "highest_version_written (pe stk) \<noteq> 0" using k(3) hw by (simp_all add: no_wrap_def)
  obtain st2 as where 2: "pe_apply ops False mpv None 0 stk = Some (st2, None)" "mvcc_inv st2 as" "l \<notin> set as" "pv_at st2 l \<noteq> None"
    using full_unpinned [OF k(2) nwk(1) num k(5,6) nwk(2), of ops mpv] by metis
  have "plain_writes ops mpv (Suc 99) st1 = Some st2"
    unfolding plain_writes.simps(2) using k(1) 2(1) by simp
  then have "plain_writes ops mpv 100 st1 = Some st2" by simp
  then show ?thesis using 0 2 mvcc_inv_versions [OF 1(1)] mvcc_inv_versions [OF 2(2)] by blast
qed

section \<open>Other executions\<close>

text \<open>A plain write (no proposed version) commits at \<open>highest_version_written + 1\<close> even when that
  version has been read: a read at version 5 returns 9, the write commits at version 2, and the next
  read at version 5 returns the new value.\<close>

lemma plain_write_changes_past_read:
  "do { st \<leftarrow> partition_entry_of (7 :: nat);
        (st, _) \<leftarrow> pe_apply nat_ops False 9 None 1 st;
        (s1, st) \<leftarrow> pe_read nat_ops 0 5 st;
        before \<leftarrow> snapshot_partition st s1;
        (st, cv) \<leftarrow> pe_apply nat_ops False 11 (Some 0) 0 st;
        (s2, st) \<leftarrow> pe_read nat_ops 0 5 st;
        after \<leftarrow> snapshot_partition st s2;
        Some (before, cv, after) } = Some (9, Some 2, 11)"
  by code_simp

text \<open>The in-place \<open>apply\<close> overload does not look at per-version snapshots: a write through it changes
  what an open snapshot shows.\<close>

lemma in_place_apply_breaks_snapshot:
  "do { st \<leftarrow> partition_entry_of (7 :: nat);
        (s, st) \<leftarrow> pe_read nat_ops 0 0 st;
        before \<leftarrow> snapshot_partition st s;
        st \<leftarrow> pe_apply_in_place nat_ops True 5 st;
        after \<leftarrow> snapshot_partition st s;
        Some (before, after) } = Some (7, 12)"
  by code_simp

text \<open>Releasing a snapshot of the newest version clears the version's back reference although the
  entry still refers to it. When the memory region then moves the version, the entry is left
  with a pointer to freed memory and the next read fails.\<close>

lemma release_then_relocate_dangles:
  "do { st \<leftarrow> partition_entry_of (7 :: nat);
        (s, st) \<leftarrow> pe_read nat_ops 0 0 st;
        st \<leftarrow> release_snapshot s st;
        (a, st) \<leftarrow> relocate_version 0 st;
        Some (version_ptr (entry_version (pe st)) = Some 0, pv_at st 0 = None, pe_read nat_ops 0 0 st = None) }
   = Some (True, True, True)"
  by code_simp

text \<open>Moving a version loses its version number: with versions 1 and 2 written, a read at version 1
  returns the value of version 1 before the region moves that version and the value of version 2
  afterwards.\<close>

lemma relocation_loses_version_number:
  "do { st \<leftarrow> partition_entry_of (7 :: nat);
        (st, _) \<leftarrow> pe_apply nat_ops False 9 None 1 st;
        (st, _) \<leftarrow> pe_apply nat_ops False 11 None 2 st;
        (s1, st1) \<leftarrow> pe_read nat_ops 0 1 st;
        before \<leftarrow> snapshot_partition st1 s1;
        (_, st) \<leftarrow> relocate_version 1 st;
        (s2, st2) \<leftarrow> pe_read nat_ops 0 1 st;
        after \<leftarrow> snapshot_partition st2 s2;
        Some (before, after) } = Some (9, 11)"
  by code_simp

text \<open>Moving a partition entry resets its counters: after versions 1 and 2 are written and the entry is
  moved, a PORT write proposed at version 1 is accepted and commits at version 1, in front of
  version 2.\<close>

lemma entry_move_forgets_versions:
  "do { st \<leftarrow> partition_entry_of (7 :: nat);
        (st, _) \<leftarrow> pe_apply nat_ops False 9 None 1 st;
        (st, _) \<leftarrow> pe_apply nat_ops False 11 None 2 st;
        st \<leftarrow> move_entry st;
        (st, cv) \<leftarrow> pe_apply nat_ops False 13 (Some 0) 1 st;
        vs \<leftarrow> entry_versions st;
        Some (cv, map (vnum st) vs) } = Some (Some 1, [1, 2, 1, 0])"
  by code_simp

end
