(* ===== verification/Memtable.thy ===== *)
theory Memtable
  imports Mvcc_Properties
begin

text \<open>
  Memtables (\<open>class memtable\<close> and \<open>class memtable_entry\<close> in \<open>src/Scylla-moon/memtable.hh\<close> and \<open>.cc\<close>) as
  far as PORT's reads and writes of single partitions go: a memtable maps partition keys to partition
  entries, a write creates the entry if there is none, a read of an absent key creates nothing. The
  entries are those of \<open>Partition_Version\<close>; the schema does not change, so \<open>upgrade_entry\<close> has no
  work. Flushing, the scanning reader and memory accounting are not modelled.

  The lemmas show what survives the garbage collection of versions: once a version number has been
  committed, a read at or above it is served from that version or a newer one.
\<close>

section \<open>Operations\<close>

type_synonym ('key, 'p) memtable = "'key \<rightharpoonup> 'p pstate"

definition find_or_create_partition :: "('p, 'm) partition_ops \<Rightarrow> 'key \<Rightarrow> ('key, 'p) memtable \<Rightarrow> 'p pstate option" where
  "find_or_create_partition ops key mt =
     (case mt key of Some st \<Rightarrow> Some st | None \<Rightarrow> partition_entry_of (mp_new ops))"

text \<open>\<open>apply\<close> of a frozen mutation; the result is the memtable and what the commit version pointer
  holds.\<close>

definition memtable_apply :: "('p, 'm) partition_ops \<Rightarrow> bool \<Rightarrow> 'key \<Rightarrow> 'm \<Rightarrow> u32 option \<Rightarrow> u32 \<Rightarrow> ('key, 'p) memtable \<Rightarrow>
    (('key, 'p) memtable \<times> u32 option) option" where
  "memtable_apply ops is_data key mpv cv version_to_write mt = do {
     st \<leftarrow> find_or_create_partition ops key mt;
     (st, cv) \<leftarrow> pe_apply ops is_data mpv cv version_to_write st;
     Some (mt(key \<mapsto> st), cv)
   }"

definition default_phase :: u64 where
  "default_phase = 0"

definition memtable_entry_snapshot :: "('p, 'm) partition_ops \<Rightarrow> u32 \<Rightarrow> 'p pstate \<Rightarrow> (nat \<times> 'p pstate) option" where
  "memtable_entry_snapshot ops version_to_read st = pe_read ops default_phase version_to_read st"

text \<open>\<open>make_flat_reader\<close> of a single partition: the snapshot the reader holds, none for the empty
  reader.\<close>

definition memtable_read :: "('p, 'm) partition_ops \<Rightarrow> 'key \<Rightarrow> u32 \<Rightarrow> ('key, 'p) memtable \<Rightarrow>
    (nat option \<times> ('key, 'p) memtable) option" where
  "memtable_read ops key version_to_read mt =
     (case mt key of
        None \<Rightarrow> Some (None, mt)
      | Some st \<Rightarrow> do {
          (s, st) \<leftarrow> memtable_entry_snapshot ops version_to_read st;
          Some (Some s, mt(key \<mapsto> st))
        })"

definition has_partition :: "'key \<Rightarrow> ('key, 'p) memtable \<Rightarrow> bool" where
  "has_partition key mt \<longleftrightarrow> mt key \<noteq> None"

text \<open>The reader gives up its snapshot.\<close>

definition memtable_release :: "'key \<Rightarrow> nat \<Rightarrow> ('key, 'p) memtable \<Rightarrow> ('key, 'p) memtable option" where
  "memtable_release key s mt = do {
     st \<leftarrow> mt key;
     st \<leftarrow> release_snapshot s st;
     Some (mt(key \<mapsto> st))
   }"

section \<open>Versions that stay readable\<close>

text \<open>A version number is retained if it has been reached and is on the list, or everything on the
  list but the initial version is newer.\<close>

definition retained :: "'p pstate \<Rightarrow> addr list \<Rightarrow> u32 \<Rightarrow> bool" where
  "retained st as c \<longleftrightarrow> c \<le> highest_version_written (pe st) \<and>
     ((\<exists>x \<in> set as. vnum st x = c) \<or> (\<forall>x \<in> set as. vnum st x = 0 \<or> c < vnum st x))"

lemma retained_front:
  assumes "mvcc_inv st as" shows "retained st as (highest_version_written (pe st))"
proof -
  have "hd as \<in> set as" "vnum st (hd as) = highest_version_written (pe st)"
    using assms by (auto simp: mvcc_inv_def chain_ok_def order_ok_def)
  then show ?thesis by (auto simp: retained_def)
qed

lemma retained_cong:
  "retained st as c \<Longrightarrow> vnum st' = vnum st \<Longrightarrow> highest_version_written (pe st') = highest_version_written (pe st) \<Longrightarrow>
   retained st' as c"
  by (simp add: retained_def)

lemma written_vnum:
  assumes "written st as pr mp st' as'" "mvcc_inv st as"
  shows "\<And>x. x \<in> set as' \<Longrightarrow> x \<in> set as \<and> vnum st' x = vnum st x \<or> vnum st' x = pr"
    and "\<And>x. x \<in> set as \<Longrightarrow> vnum st' x = vnum st x"
proof -
  obtain a hpv where a: "pv_at st a = None" "pv_at st (hd as) = Some hpv" "set as' \<subseteq> insert a (set as)"
    "pv_at st' = (pv_at st)(hd as \<mapsto> hpv\<lparr>backref := None\<rparr>,
       a \<mapsto> \<lparr>backref = Some Entry_ref, partition = mp, version_number = pr, snapshot = None\<rparr>)"
    using assms(1) unfolding written_def by blast
  show old: "vnum st' x = vnum st x" if "x \<in> set as" for x
  proof -
    have "pv_at st x \<noteq> None" using chain_allocated [of st as x] that assms(2) by (auto simp: mvcc_inv_def)
    then have "x \<noteq> a" using a(1) by auto
    then show ?thesis using a(2,4) by (simp add: vnum_def)
  qed
  show "x \<in> set as \<and> vnum st' x = vnum st x \<or> vnum st' x = pr" if "x \<in> set as'" for x
    using that a(3) old [of x] by (cases "x = a") (auto simp: vnum_def a(4))
qed

lemma retained_written:
  assumes w: "written st as pr mp st' as'" and inv: "mvcc_inv st as" and gt: "highest_version_written (pe st) < pr"
    and c: "retained st as c" "c \<noteq> 0"
  shows "retained st' as' c"
proof -
  have le: "c \<le> highest_version_written (pe st)" and less: "c < pr" using c(1) gt by (auto simp: retained_def)
  have hw: "highest_version_written (pe st') = pr" and od: "oldest_dropped (vnum st) as (vnum st') as'"
    using w by (auto simp: written_def)
  note new = written_vnum(1) [OF w inv] and old = written_vnum(2) [OF w inv]
  show ?thesis
  proof (cases "\<exists>x \<in> set as. vnum st x = c")
    case True
    then obtain x where x: "x \<in> set as" "vnum st x = c" by blast
    show ?thesis
    proof (cases "x \<in> set as'")
      case True
      then show ?thesis using x old less hw by (auto simp: retained_def)
    next
      case False
      then have "\<forall>y \<in> set as'. vnum st' y = 0 \<or> c < vnum st' y"
        using od x c(2) by (auto simp: oldest_dropped_def)
      then show ?thesis using less hw by (auto simp: retained_def)
    qed
  next
    case False
    then have "\<forall>x \<in> set as. vnum st x = 0 \<or> c < vnum st x" using c(1) by (auto simp: retained_def)
    then have "vnum st' y = 0 \<or> c < vnum st' y" if "y \<in> set as'" for y
      using new [OF that] less by auto
    then show ?thesis using less hw by (auto simp: retained_def)
  qed
qed

text \<open>A read at or above a retained number is served from that version or a newer one.\<close>

lemma retained_target:
  assumes inv: "mvcc_inv st as" and c: "retained st as c" "c \<noteq> 0" "c \<le> v"
  shows "c \<le> vnum st (target st as v)"
proof -
  have so: "sorted_wrt (\<lambda>a b. vnum st b < vnum st a) as" and hd: "vnum st (hd as) = highest_version_written (pe st)"
    using inv by (auto simp: mvcc_inv_def order_ok_def)
  have front: "c \<le> vnum st (hd as)" using c(1) hd by (simp add: retained_def)
  have v: "v > 0" using c by (auto simp: word_neq_0_conv intro: le_less_trans)
  show ?thesis
  proof (cases "find (\<lambda>a. vnum st a \<le> v) as")
    case None
    then show ?thesis using front by (simp add: target_def)
  next
    case (Some a)
    then have a: "a \<in> set as" "vnum st a \<le> v" "\<forall>y \<in> set as. vnum st y \<le> v \<longrightarrow> vnum st y \<le> vnum st a"
      using find_descending [OF so, of v a] by auto
    have "vnum st a = 0 \<or> c \<le> vnum st a" using c(1,3) a by (auto simp: retained_def)
    then show ?thesis using Some front v by (auto simp: target_def)
  qed
qed

section \<open>Operations on bounded entries\<close>

text \<open>Entries whose versions are written up to a cap and read below it, and the version numbers they
  keep readable.\<close>

definition entry_ok :: "u32 \<Rightarrow> 'p pstate \<Rightarrow> bool" where
  "entry_ok cap st \<longleftrightarrow> (\<exists>as. mvcc_inv st as) \<and> highest_version_written (pe st) \<le> cap \<and> highest_version_read (pe st) < cap"

definition keeps :: "'p pstate \<Rightarrow> u32 \<Rightarrow> bool" where
  "keeps st c \<longleftrightarrow> (\<exists>as. mvcc_inv st as \<and> retained st as c)"

lemma keepsI: "mvcc_inv st as \<Longrightarrow> retained st as c \<Longrightarrow> keeps st c"
  by (auto simp: keeps_def)

lemma keepsD: "keeps st c \<Longrightarrow> mvcc_inv st as \<Longrightarrow> retained st as c"
  unfolding keeps_def by (metis mvcc_inv_versions option.inject)

lemma promote_le_cap:
  assumes "highest_version_read e < cap" "vtw \<noteq> 0" "vtw \<le> cap"
  shows "promote vtw e \<le> cap"
  using assms inc_le [of "highest_version_read e" cap] by (simp add: promote_def Let_def)

lemma entry_no_wrap:
  assumes "entry_ok cap st" "cap \<noteq> - 1" shows "no_wrap (pe st)"
  using assms word_order.extremum_unique [of cap]
  by (auto simp: entry_ok_def no_wrap_def word_order.extremum_strict)

lemma entry_write:
  assumes ok: "entry_ok cap st" and cap: "cap \<noteq> - 1" and v: "vtw \<noteq> 0" "vtw \<le> cap"
    and res: "pe_apply ops is_data mpv cv vtw st = Some (st', cv')"
  shows "entry_ok cap st'" "cv' = write_ptr cv (highest_version_written (pe st'))" "vtw \<le> highest_version_written (pe st')"
    "highest_version_written (pe st) \<le> highest_version_written (pe st')"
    "keeps st' (highest_version_written (pe st'))" "\<And>c. keeps st c \<Longrightarrow> c \<noteq> 0 \<Longrightarrow> keeps st' c"
proof -
  obtain as where inv: "mvcc_inv st as" using ok by (auto simp: entry_ok_def)
  have b: "highest_version_written (pe st) \<le> cap" "highest_version_read (pe st) < cap" using ok by (auto simp: entry_ok_def)
  note nw = entry_no_wrap [OF ok cap]
  have "entry_ok cap st' \<and> cv' = write_ptr cv (highest_version_written (pe st')) \<and> vtw \<le> highest_version_written (pe st') \<and>
    highest_version_written (pe st) \<le> highest_version_written (pe st') \<and>
    keeps st' (highest_version_written (pe st')) \<and> (\<forall>c. keeps st c \<longrightarrow> c \<noteq> 0 \<longrightarrow> keeps st' c)"
  proof (cases "vtw \<le> highest_version_written (pe st)")
    case True
    then have "st' = st" "cv' = write_ptr cv (highest_version_written (pe st))" using res v by (auto simp: pe_apply_def)
    then show ?thesis using ok True keepsI [OF inv retained_front [OF inv]] by simp
  next
    case False
    then have late: "\<not> (vtw \<noteq> 0 \<and> vtw \<le> highest_version_written (pe st))" by simp
    obtain mp as' where w: "cv' = write_ptr cv (promote vtw (pe st))" "written st as (promote vtw (pe st)) mp st' as'"
      using pe_apply_effect [OF inv nw late res HOL.refl] by blast
    then have s: "mvcc_inv st' as'" "highest_version_read (pe st') = highest_version_read (pe st)"
      "highest_version_written (pe st') = promote vtw (pe st)"
      by (auto simp: written_def)
    note gt = promote_bounds [OF nw late]
    have "keeps st' c" if "keeps st c" "c \<noteq> 0" for c
      using retained_written [OF w(2) inv gt(1) keepsD [OF that(1) inv] that(2)] s(1) by (rule keepsI [rotated])
    then show ?thesis
      using s b gt v w(1) promote_le_cap [OF b(2) v] keepsI [OF s(1) retained_front [OF s(1)]]
      by (auto simp: entry_ok_def)
  qed
  then show "entry_ok cap st'" "cv' = write_ptr cv (highest_version_written (pe st'))" "vtw \<le> highest_version_written (pe st')"
    "highest_version_written (pe st) \<le> highest_version_written (pe st')"
    "keeps st' (highest_version_written (pe st'))" "\<And>c. keeps st c \<Longrightarrow> c \<noteq> 0 \<Longrightarrow> keeps st' c"
    by blast+
qed

text \<open>The number of the version a snapshot is on.\<close>

definition snapshot_number :: "'p pstate \<Rightarrow> nat \<Rightarrow> u32 option" where
  "snapshot_number st s = do { a \<leftarrow> snapshot_version st s; pv \<leftarrow> pv_at st a; Some (version_number pv) }"

lemma entry_read:
  assumes ok: "entry_ok cap st" and v: "v < cap" and res: "pe_read ops phase v st = Some (s, st')"
  shows "entry_ok cap st'" "\<And>c. keeps st c \<Longrightarrow> keeps st' c"
    "\<exists>n. snapshot_number st' s = Some n \<and> (\<forall>c. keeps st c \<longrightarrow> c \<noteq> 0 \<longrightarrow> c \<le> v \<longrightarrow> c \<le> n)"
proof -
  obtain as where inv: "mvcc_inv st as" using ok by (auto simp: entry_ok_def)
  define x where "x = target st as v"
  obtain pv where pv: "pv_at st x = Some pv" using target_allocated [OF inv] x_def by blast
  have r: "mvcc_inv st' as" "snapshot_version st' s = Some x" "pv_at st' = (pv_at st)(x \<mapsto> pv\<lparr>snapshot := Some s\<rparr>)"
    "highest_version_read (pe st') = max (highest_version_read (pe st)) v"
    "highest_version_written (pe st') = highest_version_written (pe st)"
    using pe_read_effect [OF inv x_def pv, of ops phase] res by auto
  then have vn: "vnum st' = vnum st" using pv by (auto simp: vnum_def fun_eq_iff)
  show "entry_ok cap st'" using ok r v by (auto simp: entry_ok_def)
  show "keeps st' c" if "keeps st c" for c
    using keepsI [OF r(1) retained_cong [OF keepsD [OF that inv] vn r(5)]] .
  have "snapshot_number st' s = Some (vnum st x)" using r(2,3) pv by (simp add: snapshot_number_def vnum_def)
  moreover have "c \<le> vnum st x" if "keeps st c" "c \<noteq> 0" "c \<le> v" for c
    using retained_target [OF inv keepsD [OF that(1) inv] that(2,3)] by (simp add: x_def)
  ultimately show "\<exists>n. snapshot_number st' s = Some n \<and> (\<forall>c. keeps st c \<longrightarrow> c \<noteq> 0 \<longrightarrow> c \<le> v \<longrightarrow> c \<le> n)" by blast
qed

lemma entry_release:
  assumes ok: "entry_ok cap st" and res: "release_snapshot s st = Some st'"
  shows "entry_ok cap st'" "\<And>c. keeps st c \<Longrightarrow> keeps st' c"
proof -
  obtain as where inv: "mvcc_inv st as" using ok by (auto simp: entry_ok_def)
  obtain sn where sn: "snaps st s = Some sn" using res by (cases "snaps st s") (auto simp: release_snapshot_def)
  obtain x pv where x: "version_ptr (snap_version sn) = Some x" "pv_at st x = Some pv" using open_snapshot [OF inv sn] by blast
  have r: "mvcc_inv st' as" "pe st' = pe st"
    "if refcount sn > 1
     then pv_at st' = pv_at st \<and> snaps st' = (snaps st)(s \<mapsto> sn\<lparr>refcount := refcount sn - 1\<rparr>)
     else pv_at st' = (pv_at st)(x \<mapsto> pv\<lparr>snapshot := None, backref := None\<rparr>) \<and> snaps st' = (snaps st)(s := None)"
    using release_effect [OF inv sn x] res by auto
  then have vn: "vnum st' = vnum st" using x by (auto simp: vnum_def fun_eq_iff split: if_splits)
  show "entry_ok cap st'" using ok r by (auto simp: entry_ok_def)
  show "keeps st' c" if "keeps st c" for c
    using keepsI [OF r(1) retained_cong [OF keepsD [OF that inv] vn]] r(2) by simp
qed

lemma entry_new:
  assumes "cap \<noteq> 0" shows "\<exists>st. partition_entry_of mp = Some st \<and> entry_ok cap st"
proof -
  obtain st where st: "partition_entry_of mp = Some st" "mvcc_inv st [0]"
    "highest_version_read (pe st) = 0" "highest_version_written (pe st) = 0"
    using partition_entry_of_inv [of mp] by auto
  then show ?thesis using assms by (auto simp: entry_ok_def word_neq_0_conv)
qed

section \<open>Operations on bounded memtables\<close>

definition table_ok :: "u32 \<Rightarrow> ('key, 'p) memtable \<Rightarrow> bool" where
  "table_ok cap mt \<longleftrightarrow> (\<forall>key st. mt key = Some st \<longrightarrow> entry_ok cap st)"

definition table_keeps :: "('key, 'p) memtable \<Rightarrow> 'key \<Rightarrow> u32 \<Rightarrow> bool" where
  "table_keeps mt key c \<longleftrightarrow> (\<exists>st. mt key = Some st \<and> keeps st c)"

lemma memtable_write:
  assumes ok: "table_ok cap mt" and cap: "cap \<noteq> - 1" "cap \<noteq> 0" and v: "vtw \<noteq> 0" "vtw \<le> cap"
    and res: "memtable_apply ops is_data key mpv (Some cv) vtw mt = Some (mt', cv')"
  shows "table_ok cap mt'" "\<exists>c. cv' = Some c \<and> c \<noteq> 0 \<and> vtw \<le> c \<and> c \<le> cap \<and> table_keeps mt' key c"
    "\<And>k c. table_keeps mt k c \<Longrightarrow> c \<noteq> 0 \<Longrightarrow> table_keeps mt' k c"
proof -
  obtain st where st: "find_or_create_partition ops key mt = Some st" "entry_ok cap st"
    "mt key = Some st \<or> mt key = None"
    using ok entry_new [OF cap(2), of "mp_new ops"]
    by (cases "mt key") (auto simp: find_or_create_partition_def table_ok_def)
  obtain st' where st': "pe_apply ops is_data mpv (Some cv) vtw st = Some (st', cv')" "mt' = mt(key \<mapsto> st')"
    using res st(1) by (auto simp: memtable_apply_def split: bind_splits)
  note w = entry_write [OF st(2) cap(1) v st'(1)]
  show "table_ok cap mt'" using ok w(1) st'(2) by (simp add: table_ok_def)
  show "\<exists>c. cv' = Some c \<and> c \<noteq> 0 \<and> vtw \<le> c \<and> c \<le> cap \<and> table_keeps mt' key c"
    using w(1,2,3,5) v(1) st'(2) by (auto simp: write_ptr_def entry_ok_def table_keeps_def)
  show "table_keeps mt' k c" if "table_keeps mt k c" "c \<noteq> 0" for k c
    using that w(6) st(3) st'(2) by (auto simp: table_keeps_def)
qed

lemma memtable_read_effect:
  assumes ok: "table_ok cap mt" and v: "v < cap" and res: "memtable_read ops key v mt = Some (snap, mt')"
  shows "table_ok cap mt'" "\<And>k c. table_keeps mt k c \<Longrightarrow> table_keeps mt' k c"
    "case snap of None \<Rightarrow> mt key = None
     | Some s \<Rightarrow> \<exists>st n. mt' key = Some st \<and> snapshot_number st s = Some n \<and>
         (\<forall>c. table_keeps mt key c \<longrightarrow> c \<noteq> 0 \<longrightarrow> c \<le> v \<longrightarrow> c \<le> n)"
proof -
  have "table_ok cap mt' \<and> (\<forall>k c. table_keeps mt k c \<longrightarrow> table_keeps mt' k c) \<and>
    (case snap of None \<Rightarrow> mt key = None
     | Some s \<Rightarrow> \<exists>st n. mt' key = Some st \<and> snapshot_number st s = Some n \<and>
         (\<forall>c. table_keeps mt key c \<longrightarrow> c \<noteq> 0 \<longrightarrow> c \<le> v \<longrightarrow> c \<le> n))"
  proof (cases "mt key")
    case None
    then show ?thesis using ok res by (auto simp: memtable_read_def)
  next
    case (Some st)
    then have "entry_ok cap st" using ok by (simp add: table_ok_def)
    moreover obtain s st' where s: "pe_read ops default_phase v st = Some (s, st')" "snap = Some s" "mt' = mt(key \<mapsto> st')"
      using res Some by (auto simp: memtable_read_def memtable_entry_snapshot_def split: bind_splits)
    ultimately show ?thesis
      using entry_read [OF _ v s(1)] ok Some by (auto simp: table_ok_def table_keeps_def)
  qed
  then show "table_ok cap mt'" "\<And>k c. table_keeps mt k c \<Longrightarrow> table_keeps mt' k c"
    "case snap of None \<Rightarrow> mt key = None
     | Some s \<Rightarrow> \<exists>st n. mt' key = Some st \<and> snapshot_number st s = Some n \<and>
         (\<forall>c. table_keeps mt key c \<longrightarrow> c \<noteq> 0 \<longrightarrow> c \<le> v \<longrightarrow> c \<le> n)"
    by blast+
qed

lemma memtable_release_effect:
  assumes ok: "table_ok cap mt" and res: "memtable_release key s mt = Some mt'"
  shows "table_ok cap mt'" "\<And>k c. table_keeps mt k c \<Longrightarrow> table_keeps mt' k c"
proof -
  obtain st st' where st: "mt key = Some st" "release_snapshot s st = Some st'" "mt' = mt(key \<mapsto> st')"
    using res by (auto simp: memtable_release_def split: bind_splits)
  have ok': "entry_ok cap st" using ok st(1) by (simp add: table_ok_def)
  note r = entry_release [OF ok' st(2)]
  show "table_ok cap mt'" using ok r(1) st(3) by (simp add: table_ok_def)
  show "table_keeps mt' k c" if "table_keeps mt k c" for k c
    using that r(2) st by (auto simp: table_keeps_def)
qed

end
