(* ===== verification/Tombstones.thy ===== *)
theory Tombstones
  imports Prelude
begin

text \<open>
  Deletion markers and row liveness: \<open>struct tombstone\<close> (\<open>src/Scylla-moon/tombstone.hh\<close>), and
  \<open>class row_marker\<close>, \<open>class shadowable_tombstone\<close> and \<open>class row_tombstone\<close>
  (\<open>src/Scylla-moon/mutation_partition.hh\<close>, \<open>mutation_partition.cc\<close>). Timestamps are
  \<open>int64_t\<close>; \<open>gc_clock\<close> time points and durations are \<open>int32_t\<close> seconds. Expressions on
  \<open>int32_t\<close> that C++ leaves undefined on overflow wrap in the model.
\<close>

section \<open>Tombstones\<close>

definition missing_timestamp :: i64 where
  "missing_timestamp = 0x8000000000000000"

datatype tombstone = Tombstone (timestamp: i64) (deletion_time: i32)

definition tombstone_none :: tombstone where
  "tombstone_none = Tombstone missing_timestamp 0"

definition tomb_compare :: "tombstone \<Rightarrow> tombstone \<Rightarrow> int" where
  "tomb_compare a b =
     (if sint (timestamp a) < sint (timestamp b) then -1
      else if sint (timestamp a) > sint (timestamp b) then 1
      else if sint (deletion_time a) < sint (deletion_time b) then -1
      else if sint (deletion_time a) > sint (deletion_time b) then 1
      else 0)"

definition tomb_present :: "tombstone \<Rightarrow> bool" where
  "tomb_present t \<longleftrightarrow> timestamp t \<noteq> missing_timestamp"

text \<open>\<open>with_relational_operators\<close> derives the order from \<open>compare\<close>.\<close>

instantiation tombstone :: linorder
begin

definition less_tombstone :: "tombstone \<Rightarrow> tombstone \<Rightarrow> bool" where
  "a < b \<longleftrightarrow> tomb_compare a b < 0"

definition less_eq_tombstone :: "tombstone \<Rightarrow> tombstone \<Rightarrow> bool" where
  "a \<le> b \<longleftrightarrow> tomb_compare a b \<le> 0"

instance
proof
  fix x y z :: tombstone
  show "(x < y) = (x \<le> y \<and> \<not> y \<le> x)"
    by (auto simp: less_tombstone_def less_eq_tombstone_def tomb_compare_def)
  show "x \<le> x"
    by (simp add: less_eq_tombstone_def tomb_compare_def)
  show "x \<le> z" if "x \<le> y" "y \<le> z"
    using that by (auto simp: less_eq_tombstone_def tomb_compare_def split: if_splits)
  show "x = y" if "x \<le> y" "y \<le> x"
    using that by (cases x; cases y) (auto simp: less_eq_tombstone_def tomb_compare_def not_less
        simp flip: sint_eq_iff split: if_splits)
  show "x \<le> y \<or> y \<le> x"
    by (auto simp: less_eq_tombstone_def tomb_compare_def)
qed

end

definition tomb_apply :: "tombstone \<Rightarrow> tombstone \<Rightarrow> tombstone" where
  "tomb_apply self t = (if self < t then t else self)"

definition tomb_apply_reversibly :: "tombstone \<Rightarrow> tombstone \<Rightarrow> tombstone \<times> tombstone" where
  "tomb_apply_reversibly self t = (tomb_apply t self, self)"

definition tomb_revert :: "tombstone \<Rightarrow> tombstone \<Rightarrow> tombstone \<times> tombstone" where
  "tomb_revert self t = (t, self)"

lemma tomb_apply_max [merge_simps]: "tomb_apply a b = max a b"
  by (auto simp: tomb_apply_def max_def)

lemma tomb_less_timestamp: "a < b \<Longrightarrow> sint (timestamp a) \<le> sint (timestamp b)"
  by (auto simp: less_tombstone_def tomb_compare_def split: if_splits)

lemma tomb_le_timestamp: "a \<le> b \<Longrightarrow> sint (timestamp a) \<le> sint (timestamp b)"
  using tomb_less_timestamp by (auto simp: le_less)

lemma timestamp_max: "sint (timestamp (max a b)) = max (sint (timestamp a)) (sint (timestamp b))"
  using tomb_le_timestamp [of a b] tomb_le_timestamp [of b a] by (auto simp: max_def)

lemma missing_timestamp_least: "sint missing_timestamp \<le> sint (x :: i64)"
proof -
  have "- (2 ^ 63) \<le> sint x"
    using sint_greater_eq [of x] by simp
  then show ?thesis by (simp add: missing_timestamp_def)
qed

interpretation tomb: mergeable tomb_apply "(=)" "\<lambda>_. True"
  by unfold_locales (auto simp: merge_simps max.assoc max.commute max.left_commute)

interpretation tomb: reversibly_mergeable tomb_apply tomb_apply_reversibly tomb_revert "\<lambda>_. True"
  by unfold_locales
    (auto simp: merge_simps tomb_apply_reversibly_def tomb_revert_def max.commute)

section \<open>Row markers\<close>

record row_marker =
  rm_timestamp :: i64
  rm_ttl :: i32
  rm_expiry :: i32

definition no_ttl :: i32 where "no_ttl = 0"

definition dead_ttl :: i32 where "dead_ttl = -1"

definition row_marker_missing :: row_marker where
  "row_marker_missing = \<lparr>rm_timestamp = missing_timestamp, rm_ttl = no_ttl, rm_expiry = 0\<rparr>"

definition row_marker_at :: "i64 \<Rightarrow> row_marker" where
  "row_marker_at created_at = \<lparr>rm_timestamp = created_at, rm_ttl = no_ttl, rm_expiry = 0\<rparr>"

definition row_marker_dead :: "tombstone \<Rightarrow> row_marker" where
  "row_marker_dead deleted_at =
     \<lparr>rm_timestamp = timestamp deleted_at, rm_ttl = dead_ttl, rm_expiry = deletion_time deleted_at\<rparr>"

definition is_missing :: "row_marker \<Rightarrow> bool" where
  "is_missing m \<longleftrightarrow> rm_timestamp m = missing_timestamp"

definition marker_is_live :: "row_marker \<Rightarrow> bool" where
  "marker_is_live m \<longleftrightarrow> \<not> is_missing m \<and> rm_ttl m \<noteq> dead_ttl"

definition marker_is_live_at :: "row_marker \<Rightarrow> tombstone \<Rightarrow> i32 \<Rightarrow> bool" where
  "marker_is_live_at m t now =
     (if is_missing m \<or> rm_ttl m = dead_ttl then False
      else if rm_ttl m \<noteq> no_ttl \<and> sint (rm_expiry m) < sint now then False
      else sint (rm_timestamp m) > sint (timestamp t))"

definition marker_is_dead :: "row_marker \<Rightarrow> i32 \<Rightarrow> bool" where
  "marker_is_dead m now =
     (if rm_ttl m = dead_ttl then True
      else rm_ttl m \<noteq> no_ttl \<and> sint (rm_expiry m) < sint now)"

definition is_expiring :: "row_marker \<Rightarrow> bool" where
  "is_expiring m \<longleftrightarrow> rm_ttl m \<noteq> no_ttl"

definition marker_deletion_time :: "row_marker \<Rightarrow> i32" where
  "marker_deletion_time m =
     (if rm_ttl m = dead_ttl then rm_expiry m else rm_expiry m - rm_ttl m)"

text \<open>Both markers deleted: the deletion times are compared after a cast to \<open>uint32_t\<close>, which is
  the order of the words themselves.\<close>

definition compare_row_marker_for_merge :: "row_marker \<Rightarrow> row_marker \<Rightarrow> int" where
  "compare_row_marker_for_merge left right =
     (if rm_timestamp left \<noteq> rm_timestamp right
      then (if sint (rm_timestamp left) > sint (rm_timestamp right) then 1 else -1)
      else if marker_is_live left \<noteq> marker_is_live right
      then (if marker_is_live left then -1 else 1)
      else if marker_is_live left
      then (if is_expiring left \<noteq> is_expiring right
            then (if is_expiring left then 1 else -1)
            else if is_expiring left \<and> rm_expiry left \<noteq> rm_expiry right
            then (if sint (rm_expiry left) < sint (rm_expiry right) then -1 else 1)
            else 0)
      else (if marker_deletion_time left \<noteq> marker_deletion_time right
            then (if marker_deletion_time left < marker_deletion_time right then -1 else 1)
            else 0))"

definition marker_apply :: "row_marker \<Rightarrow> row_marker \<Rightarrow> row_marker" where
  "marker_apply self rm = (if compare_row_marker_for_merge self rm < 0 then rm else self)"

definition marker_apply_reversibly :: "row_marker \<Rightarrow> row_marker \<Rightarrow> row_marker \<times> row_marker" where
  "marker_apply_reversibly self rm =
     (if compare_row_marker_for_merge self rm < 0 then (rm, self) else (self, self))"

definition marker_revert :: "row_marker \<Rightarrow> row_marker \<Rightarrow> row_marker \<times> row_marker" where
  "marker_revert self rm = (rm, self)"

text \<open>\<open>compact_and_expire\<close> returns the compacted marker and whether it is live. \<open>can_gc\<close> is the
  caller's predicate on tombstones.\<close>

definition marker_compact_and_expire ::
    "(tombstone \<Rightarrow> bool) \<Rightarrow> tombstone \<Rightarrow> i32 \<Rightarrow> i32 \<Rightarrow> row_marker \<Rightarrow> row_marker \<times> bool" where
  "marker_compact_and_expire can_gc tomb now gc_before m =
     (if is_missing m then (m, False)
      else if sint (rm_timestamp m) \<le> sint (timestamp tomb)
      then (m\<lparr>rm_timestamp := missing_timestamp\<rparr>, False)
      else
        let m1 = (if sint (rm_ttl m) > sint no_ttl \<and> sint (rm_expiry m) < sint now
                  then m\<lparr>rm_expiry := rm_expiry m - rm_ttl m, rm_ttl := dead_ttl\<rparr> else m);
            m2 = (if rm_ttl m1 = dead_ttl \<and> sint (rm_expiry m1) < sint gc_before
                     \<and> can_gc (Tombstone (rm_timestamp m1) (rm_expiry m1))
                  then m1\<lparr>rm_timestamp := missing_timestamp\<rparr> else m1)
        in (m2, \<not> is_missing m2 \<and> rm_ttl m2 \<noteq> dead_ttl))"

definition marker_eq :: "row_marker \<Rightarrow> row_marker \<Rightarrow> bool" where
  "marker_eq a b =
     (if rm_timestamp a \<noteq> rm_timestamp b then False
      else if is_missing a then True
      else if rm_ttl a \<noteq> rm_ttl b then False
      else rm_ttl a = no_ttl \<or> rm_expiry a = rm_expiry b)"

lemma marker_apply_keep_max [merge_simps]:
  "marker_apply = keep_max compare_row_marker_for_merge"
  by (intro ext) (simp add: marker_apply_def keep_max_def)

text \<open>The key that \<open>compare_row_marker_for_merge\<close> orders markers by.\<close>

definition marker_key :: "row_marker \<Rightarrow> int \<times> bool \<times> int \<times> int" where
  "marker_key m =
     (sint (rm_timestamp m), \<not> marker_is_live m,
      if marker_is_live m then (if is_expiring m then 1 else 0) else uint (marker_deletion_time m),
      if marker_is_live m \<and> is_expiring m then sint (rm_expiry m) else 0)"

lemma compare_row_marker_key:
  "compare_row_marker_for_merge a b < 0 \<longleftrightarrow> marker_key a < marker_key b"
  "0 < compare_row_marker_for_merge a b \<longleftrightarrow> marker_key b < marker_key a"
proof -
  have "(compare_row_marker_for_merge a b < 0 \<longleftrightarrow> marker_key a < marker_key b) \<and>
        (0 < compare_row_marker_for_merge a b \<longleftrightarrow> marker_key b < marker_key a)"
  proof (cases "rm_timestamp a = rm_timestamp b \<and> marker_is_live a = marker_is_live b")
    case False
    then show ?thesis
      using linorder_neq_iff [of "sint (rm_timestamp a)" "sint (rm_timestamp b)"]
      unfolding compare_row_marker_for_merge_def marker_key_def by auto
  next
    case True
    then show ?thesis
      using linorder_neq_iff [of "sint (rm_expiry a)" "sint (rm_expiry b)"]
        linorder_neq_iff [of "marker_deletion_time a" "marker_deletion_time b"]
      unfolding compare_row_marker_for_merge_def marker_key_def by (auto simp: word_less_def)
  qed
  then show "compare_row_marker_for_merge a b < 0 \<longleftrightarrow> marker_key a < marker_key b"
    "0 < compare_row_marker_for_merge a b \<longleftrightarrow> marker_key b < marker_key a" by auto
qed

interpretation marker: tri_preorder compare_row_marker_for_merge "\<lambda>_. True"
  by (rule tri_preorder_by_key [of _ _ marker_key]) (simp_all add: compare_row_marker_key)

interpretation marker: reversibly_mergeable marker_apply marker_apply_reversibly marker_revert
  "\<lambda>_. True"
  by unfold_locales
    (auto simp: marker_apply_def marker_apply_reversibly_def marker_revert_def
      marker.cmp_refl)

section \<open>Shadowable and row tombstones\<close>

datatype shadowable_tombstone = Shadowable (tomb: tombstone)

definition shadowable_none :: shadowable_tombstone where
  "shadowable_none = Shadowable tombstone_none"

definition is_shadowed_by :: "shadowable_tombstone \<Rightarrow> row_marker \<Rightarrow> bool" where
  "is_shadowed_by s marker \<longleftrightarrow>
     marker_is_live marker \<and> sint (rm_timestamp marker) > sint (timestamp (tomb s))"

definition shadowable_maybe_shadow ::
    "shadowable_tombstone \<Rightarrow> tombstone \<Rightarrow> row_marker \<Rightarrow> shadowable_tombstone" where
  "shadowable_maybe_shadow s t marker = (if is_shadowed_by s marker then Shadowable t else s)"

definition shadowable_apply_tomb :: "shadowable_tombstone \<Rightarrow> tombstone \<Rightarrow> shadowable_tombstone" where
  "shadowable_apply_tomb s t = Shadowable (tomb_apply (tomb s) t)"

definition shadowable_apply ::
    "shadowable_tombstone \<Rightarrow> shadowable_tombstone \<Rightarrow> shadowable_tombstone" where
  "shadowable_apply s t = Shadowable (tomb_apply (tomb s) (tomb t))"

record row_tombstone =
  regular :: tombstone
  shadowable :: shadowable_tombstone

definition row_tombstone_none :: row_tombstone where
  "row_tombstone_none = \<lparr>regular = tombstone_none, shadowable = shadowable_none\<rparr>"

definition row_tombstone_of :: "tombstone \<Rightarrow> row_tombstone" where
  "row_tombstone_of t = \<lparr>regular = t, shadowable = Shadowable t\<rparr>"

definition rt_compare :: "row_tombstone \<Rightarrow> row_tombstone \<Rightarrow> int" where
  "rt_compare a b = tomb_compare (tomb (shadowable a)) (tomb (shadowable b))"

definition rt_present :: "row_tombstone \<Rightarrow> bool" where
  "rt_present t = tomb_present (tomb (shadowable t))"

definition rt_tomb :: "row_tombstone \<Rightarrow> tombstone" where
  "rt_tomb t = tomb (shadowable t)"

definition rt_max_deletion_time :: "row_tombstone \<Rightarrow> i32" where
  "rt_max_deletion_time t =
     (if sint (deletion_time (regular t)) < sint (deletion_time (tomb (shadowable t)))
      then deletion_time (tomb (shadowable t)) else deletion_time (regular t))"

definition is_shadowable :: "row_tombstone \<Rightarrow> bool" where
  "is_shadowable t \<longleftrightarrow> tomb (shadowable t) > regular t"

definition rt_maybe_shadow :: "row_tombstone \<Rightarrow> row_marker \<Rightarrow> row_tombstone" where
  "rt_maybe_shadow t marker =
     t\<lparr>shadowable := shadowable_maybe_shadow (shadowable t) (regular t) marker\<rparr>"

definition rt_apply_regular :: "row_tombstone \<Rightarrow> tombstone \<Rightarrow> row_tombstone" where
  "rt_apply_regular t r =
     (let t1 = t\<lparr>shadowable := shadowable_apply_tomb (shadowable t) r\<rparr>
      in t1\<lparr>regular := tomb_apply (regular t1) r\<rparr>)"

definition rt_apply_shadowable ::
    "row_tombstone \<Rightarrow> shadowable_tombstone \<Rightarrow> row_marker \<Rightarrow> row_tombstone" where
  "rt_apply_shadowable t s marker =
     (let t1 = t\<lparr>shadowable := shadowable_apply_tomb (shadowable t) (tomb s)\<rparr>
      in t1\<lparr>shadowable := shadowable_maybe_shadow (shadowable t1) (regular t1) marker\<rparr>)"

definition rt_apply :: "row_tombstone \<Rightarrow> row_tombstone \<Rightarrow> row_marker \<Rightarrow> row_tombstone" where
  "rt_apply self t marker =
     (let t1 = self\<lparr>regular := tomb_apply (regular self) (regular t)\<rparr>;
          t2 = t1\<lparr>shadowable := shadowable_apply (shadowable t1) (shadowable t)\<rparr>
      in t2\<lparr>shadowable := shadowable_maybe_shadow (shadowable t2) (regular t2) marker\<rparr>)"

definition rt_apply_reversibly ::
    "row_marker \<Rightarrow> row_tombstone \<Rightarrow> row_tombstone \<Rightarrow> row_tombstone \<times> row_tombstone" where
  "rt_apply_reversibly marker self t = (rt_apply t self marker, self)"

definition rt_revert :: "row_tombstone \<Rightarrow> row_tombstone \<Rightarrow> row_tombstone \<times> row_tombstone" where
  "rt_revert self t = (t, self)"

text \<open>The class invariant: "_shadowable is always >= _regular".\<close>

definition rt_ok :: "row_tombstone \<Rightarrow> bool" where
  "rt_ok t \<longleftrightarrow> regular t \<le> tomb (shadowable t)"

lemmas rt_defs = rt_apply_def rt_apply_regular_def rt_apply_shadowable_def rt_maybe_shadow_def
  shadowable_apply_def shadowable_apply_tomb_def shadowable_maybe_shadow_def is_shadowed_by_def

lemma shadowable_eq_iff: "s = t \<longleftrightarrow> tomb s = tomb t"
  by (cases s; cases t) simp

lemma row_tombstone_eq_iff:
  "(a :: row_tombstone) = b \<longleftrightarrow> regular a = regular b \<and> tomb (shadowable a) = tomb (shadowable b)"
  by (cases a; cases b) (simp add: shadowable_eq_iff)

lemma rt_apply_regular_simp [simp]: "regular (rt_apply a b m) = max (regular a) (regular b)"
  by (simp add: rt_defs merge_simps Let_def)

lemma rt_apply_shadowable_simp:
  "tomb (shadowable (rt_apply a b m)) =
     (let s = max (tomb (shadowable a)) (tomb (shadowable b)) in
      if marker_is_live m \<and> sint (timestamp s) < sint (rm_timestamp m)
      then max (regular a) (regular b) else s)"
  by (simp add: rt_defs merge_simps Let_def)

lemma rt_ok_none [simp]: "rt_ok row_tombstone_none" "rt_ok (row_tombstone_of t)"
  by (simp_all add: rt_ok_def row_tombstone_none_def row_tombstone_of_def shadowable_none_def)

lemma rt_ok_apply [intro]: "rt_ok a \<Longrightarrow> rt_ok b \<Longrightarrow> rt_ok (rt_apply a b m)"
  by (auto simp: rt_ok_def rt_apply_shadowable_simp Let_def le_max_iff_disj)

lemma rt_ok_maybe_shadow [intro]: "rt_ok t \<Longrightarrow> rt_ok (rt_maybe_shadow t m)"
  by (simp add: rt_ok_def rt_defs)

lemma rt_apply_comm: "rt_apply a b m = rt_apply b a m"
  by (simp add: row_tombstone_eq_iff rt_apply_shadowable_simp Let_def
      max.commute [of "regular b" "regular a"]
      max.commute [of "tomb (shadowable b)" "tomb (shadowable a)"])

lemma rt_apply_absorb:
  assumes "rt_ok a" "rt_ok b"
  shows "rt_apply a (rt_apply a b m) m = rt_apply a b m"
proof -
  have "regular a \<le> tomb (shadowable a)" "regular b \<le> tomb (shadowable b)"
    using assms by (simp_all add: rt_ok_def)
  then have "sint (timestamp (regular a)) \<le> sint (timestamp (tomb (shadowable a)))"
    "sint (timestamp (regular b)) \<le> sint (timestamp (tomb (shadowable b)))"
    by (auto dest: tomb_le_timestamp)
  then show ?thesis
    unfolding row_tombstone_eq_iff
    by (simp add: rt_apply_shadowable_simp Let_def timestamp_max)
qed

interpretation row_tomb: reversibly_mergeable "\<lambda>a b. rt_apply a b m" "rt_apply_reversibly m"
  rt_revert rt_ok for m
proof
  fix a b :: row_tombstone
  show "fst (rt_apply_reversibly m a b) = rt_apply a b m"
    by (simp add: rt_apply_reversibly_def rt_apply_comm [of b a])
  show "fst (case_prod rt_revert (rt_apply_reversibly m a b)) = a"
    by (simp add: rt_apply_reversibly_def rt_revert_def)
  show "(case case_prod rt_revert (rt_apply_reversibly m a b) of (a, b) \<Rightarrow> rt_apply a b m) =
    rt_apply a b m" if "rt_ok a" "rt_ok b"
    using that
    by (simp add: rt_apply_reversibly_def rt_revert_def rt_apply_comm [of b a] rt_apply_absorb)
qed

section \<open>Properties\<close>

text \<open>\<open>row_marker::compact_and_expire\<close> agrees with \<open>row_marker::is_live(tombstone, now)\<close>: for a
  marker whose ttl is non-negative or the \<open>dead\<close> sentinel, compaction reports the row marker as
  live exactly when a reader at the same instant, under the same tombstone, would see it live,
  whatever \<open>gc_before\<close> and the purge predicate are.\<close>

lemma marker_compact_reports_liveness:
  assumes "0 \<le> sint (rm_ttl m) \<or> rm_ttl m = dead_ttl"
  shows "snd (marker_compact_and_expire can_gc t now gc_before m) = marker_is_live_at m t now"
proof -
  have "rm_ttl m = no_ttl" if "sint (rm_ttl m) = 0"
    using that by (simp add: no_ttl_def flip: sint_eq_iff [where b = "0"])
  moreover have "\<not> 0 < sint dead_ttl" "no_ttl \<noteq> dead_ttl"
    by (simp_all add: dead_ttl_def no_ttl_def)
  ultimately show ?thesis
    using assms
    by (auto simp: marker_compact_and_expire_def marker_is_live_at_def Let_def is_missing_def
        no_ttl_def)
qed

lemma marker_compact_reports_liveness_witness:
  "snd (marker_compact_and_expire (\<lambda>_. True) tombstone_none 50 10 \<lparr>rm_timestamp = 7, rm_ttl = 20, rm_expiry = 40\<rparr>) =
   marker_is_live_at \<lparr>rm_timestamp = 7, rm_ttl = 20, rm_expiry = 40\<rparr> tombstone_none 50"
  by (rule marker_compact_reports_liveness) simp

text \<open>The class invariant of \<open>row_tombstone\<close>: every operation that writes it keeps the shadowable
  tombstone at least as new as the regular one, whatever the row marker is.\<close>

lemma row_tombstone_invariant:
  assumes "rt_ok t" "rt_ok u"
  shows "rt_ok (rt_apply_regular t r) \<and> rt_ok (rt_apply_shadowable t s m) \<and> rt_ok (rt_apply t u m)
    \<and> rt_ok (rt_maybe_shadow t m) \<and> rt_ok (fst (rt_apply_reversibly m t u))
    \<and> rt_ok (snd (rt_apply_reversibly m t u))"
  using assms
  by (auto simp: rt_apply_reversibly_def rt_ok_def rt_apply_regular_def rt_apply_shadowable_def
      shadowable_apply_tomb_def shadowable_maybe_shadow_def merge_simps Let_def le_max_iff_disj
      rt_apply_shadowable_simp rt_maybe_shadow_def)

lemma row_tombstone_invariant_witness:
  "rt_ok (rt_apply (row_tombstone_of (Tombstone 5 1)) row_tombstone_none (row_marker_at 9))"
  using row_tombstone_invariant [of "row_tombstone_of (Tombstone 5 1)" row_tombstone_none] by simp

text \<open>The markers a row receives can be merged in any order: the results compare equal for
  merging, so every replica keeps the same timestamp and agrees on whether the row is dead.\<close>

lemma marker_merge_order_irrelevant:
  assumes "mset xs = mset ys"
  shows "compare_row_marker_for_merge (foldl marker_apply m xs) (foldl marker_apply m ys) = 0"
  using marker.keep.fold_merge_perm [where s = m and xs = xs and ys = ys] assms by (simp add: merge_simps)

lemma marker_merge_order_irrelevant_witness:
  "compare_row_marker_for_merge
     (foldl marker_apply row_marker_missing [row_marker_at 3, row_marker_dead (Tombstone 4 1)])
     (foldl marker_apply row_marker_missing [row_marker_dead (Tombstone 4 1), row_marker_at 3]) = 0"
  by (rule marker_merge_order_irrelevant) simp

text \<open>What the comparison leaves open: two expiring markers with the same timestamp and expiry but
  different ttls compare equal for merging although \<open>operator==\<close> tells them apart, so the merge
  keeps whichever was there first and is not commutative with respect to \<open>operator==\<close>.\<close>

lemma marker_ttl_tie_not_commutative:
  "\<exists>a b. compare_row_marker_for_merge a b = 0 \<and>
     \<not> marker_eq (marker_apply a b) (marker_apply b a)"
proof (intro exI conjI)
  let ?a = "\<lparr>rm_timestamp = 1, rm_ttl = 5, rm_expiry = 100\<rparr>"
  let ?b = "\<lparr>rm_timestamp = 1, rm_ttl = 10, rm_expiry = 100\<rparr>"
  have c: "compare_row_marker_for_merge ?a ?b = 0" "compare_row_marker_for_merge ?b ?a = 0"
    by (simp_all add: compare_row_marker_for_merge_def marker_is_live_def is_missing_def
        is_expiring_def missing_timestamp_def dead_ttl_def no_ttl_def)
  then show "compare_row_marker_for_merge ?a ?b = 0" by simp
  from c show "\<not> marker_eq (marker_apply ?a ?b) (marker_apply ?b ?a)"
    by (simp add: marker_apply_def marker_eq_def is_missing_def missing_timestamp_def no_ttl_def)
qed

end
