(* ===== verification/Atomic_Cell.thy ===== *)
theory Atomic_Cell
  imports Tombstones "HOL-Library.List_Lexorder"
begin

unbundle bit_operations_syntax

text \<open>
  Cells in their serialized form: \<open>class atomic_cell_type\<close> and \<open>class atomic_cell_base\<close>
  (\<open>src/Scylla-moon/atomic_cell.hh\<close>), the three-way comparison used to reconcile two versions of
  a cell (\<open>compare_atomic_cell_for_merge\<close> in \<open>database.cc\<close>, \<open>compare_unsigned\<close> in \<open>types.hh\<close>) and
  \<open>class atomic_cell_or_collection\<close> (\<open>atomic_cell_or_collection.hh\<close>).

  A cell is a list of bytes. Reading a field past the end of a cell is undefined in C++; here
  \<^const>\<open>take\<close> and \<^const>\<open>drop\<close> give a shorter field, and the round-trip lemmas are about cells
  produced by the constructors, where it does not happen. An \<open>assert\<close> of an accessor is a
  precondition of the accessor.
\<close>

section \<open>Big-endian fields\<close>

type_synonym bytes = "u8 list"

text \<open>\<open>net::hton\<close> and \<open>net::ntoh\<close> on an integer of \<open>n\<close> bytes.\<close>

definition hton :: "nat \<Rightarrow> 'a::len word \<Rightarrow> bytes" where
  "hton n w = map (\<lambda>i. word_of_int (uint w div 256 ^ i)) (rev [0..<n])"

definition ntoh :: "bytes \<Rightarrow> 'a::len word" where
  "ntoh bs = word_of_int (foldl (\<lambda>acc b. acc * 256 + uint b) 0 bs)"

definition set_field :: "nat \<Rightarrow> bytes \<Rightarrow> nat \<Rightarrow> 'a::len word \<Rightarrow> bytes" where
  "set_field n v off val = take off v @ hton n val @ drop (off + n) v"

definition get_field :: "nat \<Rightarrow> bytes \<Rightarrow> nat \<Rightarrow> 'a::len word" where
  "get_field n v off = ntoh (take n (drop off v))"

section \<open>The cell layout\<close>

definition LIVE_FLAG :: u8 where "LIVE_FLAG = 0x01"
definition EXPIRY_FLAG :: u8 where "EXPIRY_FLAG = 0x02"
definition REVERT_FLAG :: u8 where "REVERT_FLAG = 0x04"
definition COUNTER_UPDATE_FLAG :: u8 where "COUNTER_UPDATE_FLAG = 0x08"
definition COUNTER_IN_PLACE_REVERT :: u8 where "COUNTER_IN_PLACE_REVERT = 0x10"

definition flags_size :: nat where "flags_size = 1"
definition timestamp_offset :: nat where "timestamp_offset = flags_size"
definition timestamp_size :: nat where "timestamp_size = 8"
definition expiry_offset :: nat where "expiry_offset = timestamp_offset + timestamp_size"
definition expiry_size :: nat where "expiry_size = 4"
definition deletion_time_offset :: nat where "deletion_time_offset = timestamp_offset + timestamp_size"
definition deletion_time_size :: nat where "deletion_time_size = 4"
definition ttl_offset :: nat where "ttl_offset = expiry_offset + expiry_size"
definition ttl_size :: nat where "ttl_size = 4"

lemmas flag_defs = LIVE_FLAG_def EXPIRY_FLAG_def REVERT_FLAG_def COUNTER_UPDATE_FLAG_def
  COUNTER_IN_PLACE_REVERT_def
lemmas layout_defs = flags_size_def timestamp_offset_def timestamp_size_def expiry_offset_def
  expiry_size_def deletion_time_offset_def deletion_time_size_def ttl_offset_def ttl_size_def

text \<open>\<open>cell[0]\<close>.\<close>

definition cell_flags :: "bytes \<Rightarrow> u8" where
  "cell_flags cell = (case cell of [] \<Rightarrow> 0 | b # _ \<Rightarrow> b)"

definition set_flags :: "bytes \<Rightarrow> u8 \<Rightarrow> bytes" where
  "set_flags cell f = cell[0 := f]"

definition is_counter_update :: "bytes \<Rightarrow> bool" where
  "is_counter_update cell \<longleftrightarrow> cell_flags cell AND COUNTER_UPDATE_FLAG \<noteq> 0"

definition is_revert_set :: "bytes \<Rightarrow> bool" where
  "is_revert_set cell \<longleftrightarrow> cell_flags cell AND REVERT_FLAG \<noteq> 0"

definition is_counter_in_place_revert_set :: "bytes \<Rightarrow> bool" where
  "is_counter_in_place_revert_set cell \<longleftrightarrow> cell_flags cell AND COUNTER_IN_PLACE_REVERT \<noteq> 0"

definition set_revert :: "bytes \<Rightarrow> bool \<Rightarrow> bytes" where
  "set_revert cell revert =
     set_flags cell ((cell_flags cell AND NOT REVERT_FLAG) OR (if revert then REVERT_FLAG else 0))"

definition set_counter_in_place_revert :: "bytes \<Rightarrow> bool \<Rightarrow> bytes" where
  "set_counter_in_place_revert cell flag =
     set_flags cell ((cell_flags cell AND NOT COUNTER_IN_PLACE_REVERT)
                     OR (if flag then COUNTER_IN_PLACE_REVERT else 0))"

definition cell_is_live :: "bytes \<Rightarrow> bool" where
  "cell_is_live cell \<longleftrightarrow> cell_flags cell AND LIVE_FLAG \<noteq> 0"

definition is_live_and_has_ttl :: "bytes \<Rightarrow> bool" where
  "is_live_and_has_ttl cell \<longleftrightarrow> cell_flags cell AND EXPIRY_FLAG \<noteq> 0"

definition cell_timestamp :: "bytes \<Rightarrow> i64" where
  "cell_timestamp cell = get_field timestamp_size cell timestamp_offset"

definition set_timestamp :: "bytes \<Rightarrow> i64 \<Rightarrow> bytes" where
  "set_timestamp cell ts = set_field timestamp_size cell timestamp_offset ts"

definition do_get_value :: "bytes \<Rightarrow> bytes" where
  "do_get_value cell =
     (let expiry_field_size = (if cell_flags cell AND EXPIRY_FLAG \<noteq> 0 then expiry_size + ttl_size else 0);
          value_offset = flags_size + timestamp_size + expiry_field_size
      in drop value_offset cell)"

definition counter_update_value :: "bytes \<Rightarrow> i64" where
  "counter_update_value cell = get_field 8 cell (flags_size + timestamp_size)"

definition dead_deletion_time :: "bytes \<Rightarrow> i32" where
  "dead_deletion_time cell = get_field 4 cell deletion_time_offset"

definition cell_expiry :: "bytes \<Rightarrow> i32" where
  "cell_expiry cell = get_field 4 cell expiry_offset"

definition cell_ttl :: "bytes \<Rightarrow> i32" where
  "cell_ttl cell = get_field 4 cell ttl_offset"

text \<open>The constructors write every byte of an uninitialised buffer.\<close>

definition make_dead :: "i64 \<Rightarrow> i32 \<Rightarrow> bytes" where
  "make_dead ts del =
     (let b = replicate (flags_size + timestamp_size + deletion_time_size) 0;
          b = set_flags b 0;
          b = set_field timestamp_size b timestamp_offset ts
      in set_field deletion_time_size b deletion_time_offset del)"

definition make_live :: "i64 \<Rightarrow> bytes \<Rightarrow> bytes" where
  "make_live ts val =
     (let value_offset = flags_size + timestamp_size;
          b = replicate (value_offset + length val) 0;
          b = set_flags b LIVE_FLAG;
          b = set_field timestamp_size b timestamp_offset ts
      in take value_offset b @ val @ drop (value_offset + length val) b)"

definition make_live_counter_update :: "i64 \<Rightarrow> i64 \<Rightarrow> bytes" where
  "make_live_counter_update ts val =
     (let value_offset = flags_size + timestamp_size;
          b = replicate (value_offset + 8) 0;
          b = set_flags b (LIVE_FLAG OR COUNTER_UPDATE_FLAG);
          b = set_field timestamp_size b timestamp_offset ts
      in set_field 8 b value_offset val)"

definition make_live_expiring :: "i64 \<Rightarrow> bytes \<Rightarrow> i32 \<Rightarrow> i32 \<Rightarrow> bytes" where
  "make_live_expiring ts val expiry ttl =
     (let value_offset = flags_size + timestamp_size + expiry_size + ttl_size;
          b = replicate (value_offset + length val) 0;
          b = set_flags b (EXPIRY_FLAG OR LIVE_FLAG);
          b = set_field timestamp_size b timestamp_offset ts;
          b = set_field expiry_size b expiry_offset expiry;
          b = set_field ttl_size b ttl_offset ttl
      in take value_offset b @ val @ drop (value_offset + length val) b)"

section \<open>Cell accessors\<close>

definition is_covered_by :: "bytes \<Rightarrow> tombstone \<Rightarrow> bool \<Rightarrow> bool" where
  "is_covered_by cell t is_counter \<longleftrightarrow>
     sint (cell_timestamp cell) \<le> sint (timestamp t)
     \<or> (is_counter \<and> timestamp t \<noteq> missing_timestamp)"

definition has_expired :: "bytes \<Rightarrow> i32 \<Rightarrow> bool" where
  "has_expired cell now \<longleftrightarrow> is_live_and_has_ttl cell \<and> sint (cell_expiry cell) \<le> sint now"

definition cell_is_live_under :: "bytes \<Rightarrow> tombstone \<Rightarrow> bool \<Rightarrow> bool" where
  "cell_is_live_under cell t is_counter \<longleftrightarrow> cell_is_live cell \<and> \<not> is_covered_by cell t is_counter"

definition cell_is_live_at :: "bytes \<Rightarrow> tombstone \<Rightarrow> i32 \<Rightarrow> bool \<Rightarrow> bool" where
  "cell_is_live_at cell t now is_counter \<longleftrightarrow>
     cell_is_live cell \<and> \<not> is_covered_by cell t is_counter \<and> \<not> has_expired cell now"

definition cell_is_dead :: "bytes \<Rightarrow> i32 \<Rightarrow> bool" where
  "cell_is_dead cell now \<longleftrightarrow> \<not> cell_is_live cell \<or> has_expired cell now"

definition cell_deletion_time :: "bytes \<Rightarrow> i32" where
  "cell_deletion_time cell =
     (if \<not> cell_is_live cell then dead_deletion_time cell else cell_expiry cell - cell_ttl cell)"

section \<open>Reconciliation order\<close>

text \<open>\<open>memcmp\<close> over the common prefix; only the sign of its result is specified by C.\<close>

fun memcmp :: "bytes \<Rightarrow> bytes \<Rightarrow> int" where
  "memcmp (x # xs) (y # ys) = (if x < y then -1 else if y < x then 1 else memcmp xs ys)"
| "memcmp _ _ = 0"

text \<open>The difference of the \<open>size_t\<close> lengths is cast to \<open>int32_t\<close>.\<close>

definition compare_unsigned :: "bytes \<Rightarrow> bytes \<Rightarrow> int" where
  "compare_unsigned v1 v2 =
     (let n = memcmp v1 v2 in
      if n \<noteq> 0 then n
      else sint (ucast (of_nat (length v1) - of_nat (length v2) :: u64) :: i32))"

definition compare_atomic_cell_for_merge :: "bytes \<Rightarrow> bytes \<Rightarrow> int" where
  "compare_atomic_cell_for_merge left right =
     (if cell_timestamp left \<noteq> cell_timestamp right
      then (if sint (cell_timestamp left) > sint (cell_timestamp right) then 1 else -1)
      else if cell_is_live left \<noteq> cell_is_live right
      then (if cell_is_live left then -1 else 1)
      else if cell_is_live left
      then let c = compare_unsigned (do_get_value left) (do_get_value right) in
           if c \<noteq> 0 then c
           else if is_live_and_has_ttl left \<noteq> is_live_and_has_ttl right
           then (if is_live_and_has_ttl left then 1 else -1)
           else if is_live_and_has_ttl left \<and> cell_expiry left \<noteq> cell_expiry right
           then (if sint (cell_expiry left) < sint (cell_expiry right) then -1 else 1)
           else 0
      else if cell_deletion_time left \<noteq> cell_deletion_time right
      then (if cell_deletion_time left < cell_deletion_time right then -1 else 1)
      else 0)"

section \<open>Cells and collections of a row\<close>

text \<open>\<open>class atomic_cell_or_collection\<close>; \<open>most_recent_version\<close> is the field PORT adds to carry the
  commit version of the value back to the client. A cell without data is empty.\<close>

record cell =
  cell_data :: bytes
  most_recent_version :: u32

definition cell_empty :: cell where
  "cell_empty = \<lparr>cell_data = [], most_recent_version = 0\<rparr>"

definition cell_of :: "bytes \<Rightarrow> cell" where
  "cell_of d = \<lparr>cell_data = d, most_recent_version = 0\<rparr>"

definition cell_present :: "cell \<Rightarrow> bool" where
  "cell_present c \<longleftrightarrow> cell_data c \<noteq> []"

definition cell_eq :: "cell \<Rightarrow> cell \<Rightarrow> bool" where
  "cell_eq a b \<longleftrightarrow> cell_data a = cell_data b"

section \<open>Field round trips\<close>

lemma foldl_be_shift:
  "foldl (\<lambda>acc b. acc * 256 + uint b) a (bs :: bytes) =
   a * 256 ^ length bs + foldl (\<lambda>acc b. acc * 256 + uint b) 0 bs"
proof (induction bs arbitrary: a)
  case (Cons b bs)
  show ?case
    using Cons [of "a * 256 + uint b"] Cons [of "uint b"]
    by (simp add: algebra_simps)
qed simp

lemma length_hton [simp]: "length (hton n w) = n"
  by (simp add: hton_def)

lemma hton_Suc: "hton (Suc n) w = word_of_int (uint w div 256 ^ n) # hton n w"
  by (simp add: hton_def)

lemma foldl_hton:
  "foldl (\<lambda>acc b. acc * 256 + uint b) 0 (hton n w) = uint w mod 256 ^ n"
proof (induction n)
  case 0
  then show ?case by (simp add: hton_def)
next
  case (Suc n)
  have "uint (word_of_int (uint w div 256 ^ n) :: u8) = uint w div 256 ^ n mod 256"
    by (simp add: uint_word_of_int)
  moreover have "uint w mod 256 ^ Suc n = uint w div 256 ^ n mod 256 * 256 ^ n + uint w mod 256 ^ n"
    using mod_mult2_eq' [of "uint w" "256 ^ n" 256]
    by (simp add: mult.commute mod_mult2_eq)
  ultimately show ?case
    using Suc by (simp add: hton_Suc foldl_be_shift [of "_ mod 256"])
qed

lemma ntoh_hton:
  assumes "LENGTH('a::len) = 8 * n"
  shows "ntoh (hton n (w :: 'a word)) = w"
proof -
  have "(256 :: int) ^ n = 2 ^ LENGTH('a)"
    using assms by (simp add: power_mult)
  then have "uint w mod 256 ^ n = uint w"
    using uint_lt2p [of w] by simp
  then show ?thesis
    by (simp add: ntoh_def foldl_hton)
qed

lemma ntoh_hton_64 [simp]: "ntoh (hton 8 (w :: i64)) = w"
  and ntoh_hton_32 [simp]: "ntoh (hton 4 (x :: i32)) = x"
  by (rule ntoh_hton, simp)+

text \<open>The constructors lay the fields out one after the other.\<close>

lemma set_flags_Cons [simp]: "set_flags (b # bs) f = f # bs"
  by (simp add: set_flags_def)

lemma make_dead_layout: "make_dead ts del = 0 # hton 8 ts @ hton 4 del"
  by (simp add: make_dead_def Let_def set_field_def layout_defs numeral_eq_Suc)

lemma make_live_layout: "make_live ts val = LIVE_FLAG # hton 8 ts @ val"
  by (simp add: make_live_def Let_def set_field_def layout_defs numeral_eq_Suc)

lemma make_live_counter_update_layout:
  "make_live_counter_update ts val = (LIVE_FLAG OR COUNTER_UPDATE_FLAG) # hton 8 ts @ hton 8 val"
  by (simp add: make_live_counter_update_def Let_def set_field_def layout_defs numeral_eq_Suc)

lemma make_live_expiring_layout:
  "make_live_expiring ts val expiry ttl =
     (EXPIRY_FLAG OR LIVE_FLAG) # hton 8 ts @ hton 4 expiry @ hton 4 ttl @ val"
  by (simp add: make_live_expiring_def Let_def set_field_def layout_defs numeral_eq_Suc)

lemmas cell_access_defs = cell_flags_def cell_is_live_def is_live_and_has_ttl_def is_revert_set_def
  is_counter_update_def is_counter_in_place_revert_set_def cell_timestamp_def do_get_value_def
  counter_update_value_def dead_deletion_time_def cell_expiry_def cell_ttl_def get_field_def

lemmas cell_make_layouts = make_dead_layout make_live_layout make_live_counter_update_layout
  make_live_expiring_layout

text \<open>\<open>set_revert\<close> and \<open>set_counter_in_place_revert\<close> touch one bit of the flags byte only.\<close>

lemma cell_flags_Cons [simp]: "cell_flags (b # bs) = b"
  by (simp add: cell_flags_def)

lemma cell_flags_set_flags: "cell \<noteq> [] \<Longrightarrow> cell_flags (set_flags cell f) = f"
  by (cases cell) simp_all

lemma length_set_revert [simp]: "length (set_revert c r) = length c"
  by (simp add: set_revert_def set_flags_def)

lemma set_revert_eq_Nil [simp]: "set_revert c r = [] \<longleftrightarrow> c = []"
  by (metis length_0_conv length_set_revert)

text \<open>A flag test reads one bit.\<close>

lemma flags_exp: "LIVE_FLAG = 2 ^ 0" "EXPIRY_FLAG = 2 ^ 1" "REVERT_FLAG = 2 ^ 2"
  "COUNTER_UPDATE_FLAG = 2 ^ 3" "COUNTER_IN_PLACE_REVERT = 2 ^ 4"
  by (simp_all add: flag_defs)

lemma flags_nonzero [simp]: "LIVE_FLAG \<noteq> 0" "EXPIRY_FLAG \<noteq> 0" "REVERT_FLAG \<noteq> 0"
  "COUNTER_UPDATE_FLAG \<noteq> 0" "COUNTER_IN_PLACE_REVERT \<noteq> 0"
  by (simp_all add: flag_defs)

lemma flag_test: "(f :: u8) AND LIVE_FLAG \<noteq> 0 \<longleftrightarrow> bit f 0"
  "f AND EXPIRY_FLAG \<noteq> 0 \<longleftrightarrow> bit f 1"
  "f AND REVERT_FLAG \<noteq> 0 \<longleftrightarrow> bit f 2"
  "f AND COUNTER_UPDATE_FLAG \<noteq> 0 \<longleftrightarrow> bit f 3"
  "f AND COUNTER_IN_PLACE_REVERT \<noteq> 0 \<longleftrightarrow> bit f 4"
  by (simp_all only: flags_exp and_exp_eq_0_iff_not_bit not_not)

lemma flag_bits: "bit LIVE_FLAG k \<longleftrightarrow> k = 0" "bit EXPIRY_FLAG k \<longleftrightarrow> k = 1"
  "bit REVERT_FLAG k \<longleftrightarrow> k = 2" "bit COUNTER_UPDATE_FLAG k \<longleftrightarrow> k = 3"
  "bit COUNTER_IN_PLACE_REVERT k \<longleftrightarrow> k = 4"
  unfolding flags_exp bit_exp_iff by auto

lemma bit_set_revert:
  "c \<noteq> [] \<Longrightarrow> k < 8 \<Longrightarrow> bit (cell_flags (set_revert c r)) k = (if k = 2 then r else bit (cell_flags c) k)"
  by (simp add: set_revert_def cell_flags_set_flags bit_simps flag_bits)

lemma drop_set_flags: "drop (Suc n) (set_flags c f) = drop (Suc n) c"
  by (simp add: set_flags_def)

lemma bit_set_revert_other:
  "k < 8 \<Longrightarrow> k \<noteq> 2 \<Longrightarrow> bit (cell_flags (set_revert c r)) k = bit (cell_flags c) k"
  by (cases "c = []") (simp add: set_revert_def set_flags_def, simp add: bit_set_revert)

lemma get_field_set_revert: "0 < k \<Longrightarrow> get_field n (set_revert c r) k = get_field n c k"
  by (cases k) (simp_all add: get_field_def set_revert_def drop_set_flags)

lemma set_revert_frame [simp]:
  "cell_is_live (set_revert c r) = cell_is_live c"
  "is_live_and_has_ttl (set_revert c r) = is_live_and_has_ttl c"
  "is_counter_update (set_revert c r) = is_counter_update c"
  "is_counter_in_place_revert_set (set_revert c r) = is_counter_in_place_revert_set c"
  "cell_timestamp (set_revert c r) = cell_timestamp c"
  "counter_update_value (set_revert c r) = counter_update_value c"
  "dead_deletion_time (set_revert c r) = dead_deletion_time c"
  "cell_expiry (set_revert c r) = cell_expiry c"
  "cell_ttl (set_revert c r) = cell_ttl c"
  by (simp_all add: cell_is_live_def is_live_and_has_ttl_def is_counter_update_def
      is_counter_in_place_revert_set_def flag_test bit_set_revert_other cell_timestamp_def
      counter_update_value_def dead_deletion_time_def cell_expiry_def cell_ttl_def
      get_field_set_revert layout_defs)

lemma do_get_value_set_revert [simp]: "do_get_value (set_revert c r) = do_get_value c"
  by (simp add: do_get_value_def flag_test bit_set_revert_other Let_def layout_defs)
    (simp add: set_revert_def drop_set_flags numeral_eq_Suc)

lemma is_revert_set_set_revert [simp]: "c \<noteq> [] \<Longrightarrow> is_revert_set (set_revert c r) = r"
  by (simp add: is_revert_set_def flag_test bit_set_revert)

lemma set_revert_idle: "is_revert_set c = r \<Longrightarrow> set_revert c r = c"
proof (cases c)
  case (Cons b bs)
  assume "is_revert_set c = r"
  then have "bit b 2 = r" by (simp add: is_revert_set_def flag_test Cons)
  then have "(b AND NOT REVERT_FLAG) OR (if r then REVERT_FLAG else 0) = b"
    by (intro bit_word_eqI) (auto simp: bit_simps flag_bits)
  then show ?thesis by (simp add: set_revert_def Cons)
qed (simp add: set_revert_def set_flags_def)

lemma set_revert_twice [simp]: "set_revert (set_revert c q) r = set_revert c r"
proof (cases c)
  case (Cons b bs)
  have "((b AND NOT REVERT_FLAG) OR (if q then REVERT_FLAG else 0)) AND NOT REVERT_FLAG
    = b AND NOT REVERT_FLAG"
    by (intro bit_word_eqI) (auto simp: bit_simps flag_bits)
  then show ?thesis by (simp add: set_revert_def Cons)
qed (simp add: set_revert_def set_flags_def)

text \<open>What the accessors read from a constructed cell.\<close>

lemma flag_or_bits: "bit (LIVE_FLAG OR COUNTER_UPDATE_FLAG) k \<longleftrightarrow> k = 0 \<or> k = 3"
  "bit (EXPIRY_FLAG OR LIVE_FLAG) k \<longleftrightarrow> k = 1 \<or> k = 0"
  by (simp_all add: bit_simps flag_bits)

lemmas cell_flag_simps = cell_is_live_def is_live_and_has_ttl_def is_revert_set_def
  is_counter_update_def is_counter_in_place_revert_set_def flag_test

lemma make_dead_access [simp]:
  "\<not> cell_is_live (make_dead ts del)" "\<not> is_live_and_has_ttl (make_dead ts del)"
  "\<not> is_revert_set (make_dead ts del)" "\<not> is_counter_update (make_dead ts del)"
  "cell_timestamp (make_dead ts del) = ts" "dead_deletion_time (make_dead ts del) = del"
  "make_dead ts del \<noteq> []"
  by (simp_all add: make_dead_layout cell_flag_simps cell_timestamp_def dead_deletion_time_def
      get_field_def layout_defs)

lemma make_live_access [simp]:
  "cell_is_live (make_live ts val)" "\<not> is_live_and_has_ttl (make_live ts val)"
  "\<not> is_revert_set (make_live ts val)" "\<not> is_counter_update (make_live ts val)"
  "cell_timestamp (make_live ts val) = ts" "do_get_value (make_live ts val) = val"
  "make_live ts val \<noteq> []"
  by (simp_all add: make_live_layout cell_flag_simps cell_timestamp_def do_get_value_def
      get_field_def layout_defs flag_bits)

lemma make_live_counter_update_access [simp]:
  "cell_is_live (make_live_counter_update ts val)"
  "\<not> is_live_and_has_ttl (make_live_counter_update ts val)"
  "\<not> is_revert_set (make_live_counter_update ts val)"
  "is_counter_update (make_live_counter_update ts val)"
  "cell_timestamp (make_live_counter_update ts val) = ts"
  "counter_update_value (make_live_counter_update ts val) = val"
  "make_live_counter_update ts val \<noteq> []"
  by (simp_all add: make_live_counter_update_layout cell_flag_simps cell_timestamp_def
      counter_update_value_def get_field_def layout_defs flag_or_bits)

lemma make_live_expiring_access [simp]:
  "cell_is_live (make_live_expiring ts val expiry ttl)"
  "is_live_and_has_ttl (make_live_expiring ts val expiry ttl)"
  "\<not> is_revert_set (make_live_expiring ts val expiry ttl)"
  "\<not> is_counter_update (make_live_expiring ts val expiry ttl)"
  "cell_timestamp (make_live_expiring ts val expiry ttl) = ts"
  "do_get_value (make_live_expiring ts val expiry ttl) = val"
  "cell_expiry (make_live_expiring ts val expiry ttl) = expiry"
  "cell_ttl (make_live_expiring ts val expiry ttl) = ttl"
  "make_live_expiring ts val expiry ttl \<noteq> []"
  by (simp_all add: make_live_expiring_layout cell_flag_simps cell_timestamp_def do_get_value_def
      cell_expiry_def cell_ttl_def get_field_def layout_defs flag_or_bits)

section \<open>The reconciliation order is a total preorder\<close>

lemma memcmp_key:
  "memcmp a b < 0 \<Longrightarrow> a < b" "0 < memcmp a b \<Longrightarrow> b < a"
  "memcmp a b = 0 \<Longrightarrow> length a < length b \<Longrightarrow> a < b"
  "memcmp a b = 0 \<Longrightarrow> length b < length a \<Longrightarrow> b < a"
  "memcmp a b = 0 \<Longrightarrow> length a = length b \<Longrightarrow> a = b"
  by (induction a b rule: memcmp.induct) (auto split: if_splits simp: neq_Nil_conv)

lemma sint_size_difference:
  assumes "a < 2 ^ 31" "b < 2 ^ 31"
  shows "sint (ucast (of_nat a - of_nat b :: u64) :: i32) = int a - int b"
proof -
  have "ucast (word_of_int k :: u64) = (word_of_int k :: i32)" for k
    by transfer (simp add: take_bit_take_bit)
  moreover have "of_nat a - of_nat b = (word_of_int (int a - int b) :: u64)"
    by simp
  ultimately have "ucast (of_nat a - of_nat b :: u64) = (word_of_int (int a - int b) :: i32)"
    by (simp only:)
  moreover have "signed_take_bit 31 (int a - int b) = int a - int b"
    using assms by (intro signed_take_bit_int_eq_self) auto
  moreover have "sint (word_of_int k :: i32) = signed_take_bit 31 k" for k
    by transfer simp
  ultimately show ?thesis
    by (simp only:)
qed

lemma compare_unsigned_key:
  assumes "length a < 2 ^ 31" "length b < 2 ^ 31"
  shows "compare_unsigned a b < 0 \<longleftrightarrow> a < b" "0 < compare_unsigned a b \<longleftrightarrow> b < a"
proof -
  have "(compare_unsigned a b < 0 \<longleftrightarrow> a < b) \<and> (0 < compare_unsigned a b \<longleftrightarrow> b < a)"
    using memcmp_key [of a b] sint_size_difference [OF assms] less_asym [of a b]
    by (cases "memcmp a b" "0 :: int" rule: linorder_cases; cases "length a" "length b" rule: linorder_cases)
      (simp_all add: compare_unsigned_def)
  then show "compare_unsigned a b < 0 \<longleftrightarrow> a < b" "0 < compare_unsigned a b \<longleftrightarrow> b < a" by auto
qed

text \<open>The key the comparison orders cells by, and the sizes for which it does:
  \<open>managed_bytes\<close> holds less than \<open>2 ^ 31\<close> bytes, so the truncated difference keeps its sign.\<close>

definition cell_key :: "bytes \<Rightarrow> int \<times> bool \<times> bytes \<times> int \<times> int" where
  "cell_key c =
     (sint (cell_timestamp c), \<not> cell_is_live c,
      if cell_is_live c then do_get_value c else [],
      if cell_is_live c then (if is_live_and_has_ttl c then 1 else 0) else uint (cell_deletion_time c),
      if cell_is_live c \<and> is_live_and_has_ttl c then sint (cell_expiry c) else 0)"

definition cell_sized :: "bytes \<Rightarrow> bool" where
  "cell_sized c \<longleftrightarrow> length c < 2 ^ 31"

lemma cell_sized_value: "cell_sized c \<Longrightarrow> length (do_get_value c) < 2 ^ 31"
  by (simp add: cell_sized_def do_get_value_def Let_def)

lemma compare_atomic_cell_key:
  assumes "cell_sized a" "cell_sized b"
  shows "compare_atomic_cell_for_merge a b < 0 \<longleftrightarrow> cell_key a < cell_key b"
    and "0 < compare_atomic_cell_for_merge a b \<longleftrightarrow> cell_key b < cell_key a"
proof -
  have "(compare_atomic_cell_for_merge a b < 0 \<longleftrightarrow> cell_key a < cell_key b) \<and>
        (0 < compare_atomic_cell_for_merge a b \<longleftrightarrow> cell_key b < cell_key a)"
  proof (cases "cell_timestamp a = cell_timestamp b \<and> cell_is_live a = cell_is_live b")
    case False
    then show ?thesis
      using linorder_neq_iff [of "sint (cell_timestamp a)" "sint (cell_timestamp b)"]
      unfolding compare_atomic_cell_for_merge_def cell_key_def by auto
  next
    case True
    show ?thesis
    proof (cases "cell_is_live a")
      case live: True
      let ?c = "compare_unsigned (do_get_value a) (do_get_value b)"
      have c: "?c < 0 \<longleftrightarrow> do_get_value a < do_get_value b"
        "0 < ?c \<longleftrightarrow> do_get_value b < do_get_value a"
        using compare_unsigned_key [OF assms [THEN cell_sized_value]] by simp_all
      show ?thesis
      proof (cases "?c = 0")
        case False
        then show ?thesis
          using True live c unfolding compare_atomic_cell_for_merge_def cell_key_def
          by (cases "?c < 0") (auto simp: Let_def)
      next
        case eq: True
        then have "do_get_value a = do_get_value b" using c by auto
        then show ?thesis
          using True live eq linorder_neq_iff [of "sint (cell_expiry a)" "sint (cell_expiry b)"]
          unfolding compare_atomic_cell_for_merge_def cell_key_def by (auto simp: Let_def)
      qed
    next
      case False
      then show ?thesis
        using True linorder_neq_iff [of "cell_deletion_time a" "cell_deletion_time b"]
        unfolding compare_atomic_cell_for_merge_def cell_key_def by (auto simp: word_less_def)
    qed
  qed
  then show "compare_atomic_cell_for_merge a b < 0 \<longleftrightarrow> cell_key a < cell_key b"
    and "0 < compare_atomic_cell_for_merge a b \<longleftrightarrow> cell_key b < cell_key a" by auto
qed

interpretation cell: tri_preorder compare_atomic_cell_for_merge cell_sized
  by (rule tri_preorder_by_key [of _ _ cell_key]) (simp_all add: compare_atomic_cell_key)

section \<open>Properties\<close>

text \<open>C26. The cell layout round-trips: whatever timestamp, value, expiry, ttl, deletion time or
  counter delta a cell is made from is what the accessors read back from its bytes, and each
  constructor produces a cell of its own kind.\<close>

theorem cell_layout_round_trip:
  "cell_timestamp (make_live ts val) = ts \<and> do_get_value (make_live ts val) = val \<and>
   cell_is_live (make_live ts val) \<and> \<not> is_live_and_has_ttl (make_live ts val) \<and>
   cell_timestamp (make_live_expiring ts val e t) = ts \<and>
   do_get_value (make_live_expiring ts val e t) = val \<and>
   cell_expiry (make_live_expiring ts val e t) = e \<and> cell_ttl (make_live_expiring ts val e t) = t \<and>
   cell_is_live (make_live_expiring ts val e t) \<and>
   is_live_and_has_ttl (make_live_expiring ts val e t) \<and>
   cell_timestamp (make_dead ts d) = ts \<and> cell_deletion_time (make_dead ts d) = d \<and>
   \<not> cell_is_live (make_dead ts d) \<and>
   cell_timestamp (make_live_counter_update ts n) = ts \<and>
   counter_update_value (make_live_counter_update ts n) = n \<and>
   is_counter_update (make_live_counter_update ts n)"
  by (simp add: cell_deletion_time_def)

text \<open>At the instant a row expires its marker and its cells disagree: a cell whose expiry is
  \<open>now\<close> has expired (\<open>expiry() <= now\<close>) while a row marker written with the same timestamp, ttl and
  expiry is still live (\<open>_expiry < now\<close> is required).\<close>

lemma expiry_boundary_disagreement:
  "\<exists>m c now. rm_timestamp m = cell_timestamp c \<and> rm_ttl m = cell_ttl c \<and> rm_expiry m = cell_expiry c \<and>
     marker_is_live_at m tombstone_none now \<and> \<not> cell_is_live_at c tombstone_none now False"
proof (intro exI conjI)
  let ?m = "\<lparr>rm_timestamp = 1, rm_ttl = 5, rm_expiry = 100\<rparr>" and ?c = "make_live_expiring 1 [7] 100 5"
  show "marker_is_live_at ?m tombstone_none 100"
    by (simp add: marker_is_live_at_def is_missing_def missing_timestamp_def dead_ttl_def no_ttl_def
        tombstone_none_def)
  show "\<not> cell_is_live_at ?c tombstone_none 100 False"
    by (simp add: cell_is_live_at_def has_expired_def)
qed simp_all

end
