(* ===== verification/Client.thy ===== *)
theory Client
  imports Atomic_Cell "HOL-Library.Signed_Division"
begin

text \<open>
  The client library of PORT in the YCSB driver
  (\<open>src/Scylla-moon/ycsb-moon/cassandra/src/main/java/com/yahoo/ycsb/db\<close>): \<open>ClientView\<close>, the versions a
  client has seen, and the operations of \<open>CassandraClient10\<close>, which send the version to read or to write
  with each request and learn new versions from the replies. Java's \<open>int\<close> is a 32-bit word that is
  compared and divided as a signed number.

  The Thrift client is generated code; it is a parameter that maps a request and the state of the world
  to the reply, \<open>None\<close> for an exception, and the next state.
\<close>

section \<open>Buckets of keys\<close>

definition KEY_BUCKET_SIZE :: i32 where "KEY_BUCKET_SIZE = 1000"
definition VERSION_CAP :: i32 where "VERSION_CAP = 10000000"
definition MAX_VALUE :: i32 where "MAX_VALUE = 0x7FFFFFFF"

text \<open>\<open>java.nio.ByteBuffer.hashCode\<close> runs from the last byte to the first; \<open>%\<close> has the sign of the
  dividend.\<close>

definition byte_buffer_hash :: "bytes \<Rightarrow> i32" where
  "byte_buffer_hash bs = foldr (\<lambda>b h. 31 * h + scast b) bs 1"

definition bucket :: "bytes \<Rightarrow> i32" where
  "bucket key = word_of_int (sint (byte_buffer_hash key) smod sint KEY_BUCKET_SIZE)"

section \<open>ClientView\<close>

record client_view =
  view :: "i32 \<rightharpoonup> i32"
  current_version_to_read :: i32

definition client_view_new :: client_view where
  "client_view_new = \<lparr>view = Map.empty, current_version_to_read = 1\<rparr>"

definition update_view :: "bytes \<Rightarrow> i32 \<Rightarrow> client_view \<Rightarrow> client_view" where
  "update_view key version cv =
     (let index = bucket key in
      case view cv index of
        Some v \<Rightarrow> if sint version \<le> sint v then cv else cv\<lparr>view := (view cv)(index \<mapsto> version)\<rparr>
      | None \<Rightarrow> cv\<lparr>view := (view cv)(index \<mapsto> version)\<rparr>)"

definition set_current_version_to_read :: "i32 \<Rightarrow> client_view \<Rightarrow> client_view" where
  "set_current_version_to_read new_ts cv =
     (if new_ts = MAX_VALUE \<or> sint VERSION_CAP \<le> sint new_ts then cv
      else if sint (current_version_to_read cv) < sint new_ts then cv\<lparr>current_version_to_read := new_ts\<rparr>
      else cv)"

text \<open>The loop over the keys: the smallest version in the view, \<open>None\<close> for the early return at a key
  whose bucket is not in the view.\<close>

fun view_minimum :: "(i32 \<rightharpoonup> i32) \<Rightarrow> bytes list \<Rightarrow> i32 \<Rightarrow> i32 option" where
  "view_minimum m [] version_to_read = Some version_to_read"
| "view_minimum m (key # keys) version_to_read =
     (case m (bucket key) of
        None \<Rightarrow> None
      | Some v \<Rightarrow> view_minimum m keys (if sint v < sint version_to_read then v else version_to_read))"

definition get_version_to_read :: "bytes list \<Rightarrow> client_view \<Rightarrow> i32 \<times> client_view" where
  "get_version_to_read keys cv =
     (case view_minimum (view cv) keys MAX_VALUE of
        None \<Rightarrow> (current_version_to_read cv, cv)
      | Some v \<Rightarrow> let cv = set_current_version_to_read v cv in (current_version_to_read cv, cv))"

definition get_current_read_version :: "bool \<Rightarrow> client_view \<Rightarrow> i32" where
  "get_current_read_version isLoading cv = (if isLoading then 0 else current_version_to_read cv)"

section \<open>Values\<close>

text \<open>\<open>ByteArrayByteIterator\<close>: an array, a position and the end; \<open>toArray\<close> consumes what is left.\<close>

record byte_iterator =
  str :: bytes
  off :: nat
  len :: nat

definition bytes_left :: "byte_iterator \<Rightarrow> nat" where
  "bytes_left it = len it - off it"

definition to_array :: "byte_iterator \<Rightarrow> bytes \<times> byte_iterator" where
  "to_array it = (take (bytes_left it) (drop (off it) (str it)), it\<lparr>off := off it + bytes_left it\<rparr>)"

record column =
  col_name :: bytes
  col_value :: bytes
  col_most_recent_version :: i32

record mutation =
  mut_name :: bytes
  mut_value :: bytes
  mut_timestamp :: i64

section \<open>CassandraClient10\<close>

datatype status = OK | ERROR | BAD_REQUEST

datatype slice_predicate = Slice_range | Column_names "bytes list"

text \<open>The Thrift client and the clock. A reply to \<open>multiget_slice\<close> lists keys with columns; the \<open>column\<close>
  of a reply may be null. A batch maps each key to its mutations of the column family.\<close>

record 's thrift =
  set_keyspace :: "string \<Rightarrow> 's \<Rightarrow> bool \<times> 's"
  multiget_slice :: "bytes list \<Rightarrow> slice_predicate \<Rightarrow> i32 \<Rightarrow> 's \<Rightarrow> (bytes \<times> column option list) list option \<times> 's"
  batch_mutate :: "(bytes \<rightharpoonup> string \<times> mutation list) \<Rightarrow> i32 \<Rightarrow> 's \<Rightarrow> i32 option \<times> 's"
  current_time_millis :: "'s \<Rightarrow> i64 \<times> 's"

record client =
  operationRetries :: nat
  columnFamily :: string
  tableName :: string
  errorexception :: bool
  client_cv :: client_view

text \<open>Switching the keyspace at the start of an operation; \<open>None\<close> if it fails.\<close>

definition use_table :: "'s thrift \<Rightarrow> string \<Rightarrow> client \<Rightarrow> 's \<Rightarrow> client option \<times> 's" where
  "use_table tc table cl s =
     (if tableName cl = table then (Some cl, s)
      else let (ok, s) = set_keyspace tc table s in (if ok then Some (cl\<lparr>tableName := table\<rparr>) else None, s))"

text \<open>After the last attempt the recorded exception is printed; without one that is itself a null
  dereference, \<open>None\<close>.\<close>

definition attempts_exhausted :: "client \<Rightarrow> status option" where
  "attempts_exhausted cl = (if errorexception cl then Some ERROR else None)"

text \<open>The columns of one key: whether all could be read, their largest version, and the values.\<close>

fun read_columns :: "column option list \<Rightarrow> i32 \<Rightarrow> (bytes \<rightharpoonup> bytes) \<Rightarrow> bool \<times> i32 \<times> (bytes \<rightharpoonup> bytes)" where
  "read_columns [] mrv values = (True, mrv, values)"
| "read_columns (None # columns) mrv values = (False, mrv, values)"
| "read_columns (Some c # columns) mrv values =
     read_columns columns (if sint mrv < sint (col_most_recent_version c) then col_most_recent_version c else mrv)
       (values(col_name c \<mapsto> col_value c))"

type_synonym read_result = "bytes \<rightharpoonup> bytes \<rightharpoonup> bytes"

fun read_entries :: "(bytes \<times> column option list) list \<Rightarrow> client_view \<Rightarrow> read_result \<Rightarrow> bool \<times> client_view \<times> read_result" where
  "read_entries [] v result = (True, v, result)"
| "read_entries ((key, columns) # entries) v result =
     (let (ok, mrv, values) = read_columns columns 0 Map.empty; result = result(key \<mapsto> values) in
      if ok then read_entries entries (update_view key mrv v) result else (False, v, result))"

text \<open>The attempts of \<open>read\<close> and \<open>insert\<close>, at most \<open>n\<close> of them.\<close>

fun read_attempts :: "'s thrift \<Rightarrow> slice_predicate \<Rightarrow> bytes list \<Rightarrow> nat \<Rightarrow> client \<Rightarrow> read_result \<Rightarrow> 's \<Rightarrow>
    status option \<times> client \<times> read_result \<times> 's" where
  "read_attempts tc predicate keys 0 cl result s = (attempts_exhausted cl, cl, result, s)"
| "read_attempts tc predicate keys (Suc n) cl result s =
     (let (version, v) = get_version_to_read keys (client_cv cl);
          cl = cl\<lparr>client_cv := v\<rparr>;
          (reply, s) = multiget_slice tc keys predicate version s in
      case reply of
        None \<Rightarrow> read_attempts tc predicate keys n (cl\<lparr>errorexception := True\<rparr>) result s
      | Some entries \<Rightarrow>
          let (ok, v, result) = read_entries entries v result; cl = cl\<lparr>client_cv := v\<rparr> in
          if ok then (Some OK, cl, result, s)
          else read_attempts tc predicate keys n (cl\<lparr>errorexception := True\<rparr>) result s)"

definition client_read :: "'s thrift \<Rightarrow> string \<Rightarrow> bytes list \<Rightarrow> bytes list option \<Rightarrow> client \<Rightarrow> read_result \<Rightarrow> 's \<Rightarrow>
    status option \<times> client \<times> read_result \<times> 's" where
  "client_read tc table keys field_names cl result s =
     (let predicate = (case field_names of None \<Rightarrow> Slice_range | Some names \<Rightarrow> Column_names names) in
      case use_table tc table cl s of
        (None, s) \<Rightarrow> (Some ERROR, cl, result, s)
      | (Some cl, s) \<Rightarrow> read_attempts tc predicate keys (operationRetries cl) cl result s)"

text \<open>Building the mutations consumes the iterators of the values.\<close>

fun build_mutations :: "'s thrift \<Rightarrow> (bytes \<times> byte_iterator) list \<Rightarrow> 's \<Rightarrow>
    mutation list \<times> (bytes \<times> byte_iterator) list \<times> 's" where
  "build_mutations tc [] s = ([], [], s)"
| "build_mutations tc ((name, it) # values) s =
     (let (value, it) = to_array it;
          (now, s) = current_time_millis tc s;
          (muts, values, s) = build_mutations tc values s
      in (\<lparr>mut_name = name, mut_value = value, mut_timestamp = now\<rparr> # muts, (name, it) # values, s))"

definition batch_record :: "string \<Rightarrow> bytes list \<Rightarrow> mutation list \<Rightarrow> bytes \<rightharpoonup> string \<times> mutation list" where
  "batch_record family keys muts = (\<lambda>key. if key \<in> set keys then Some (family, muts) else None)"

fun insert_attempts :: "'s thrift \<Rightarrow> bytes list \<Rightarrow> bool \<Rightarrow> nat \<Rightarrow> (bytes \<times> byte_iterator) list \<Rightarrow> client \<Rightarrow> 's \<Rightarrow>
    status option \<times> client \<times> 's" where
  "insert_attempts tc keys isLoading 0 values cl s = (attempts_exhausted cl, cl, s)"
| "insert_attempts tc keys isLoading (Suc n) values cl s =
     (let (muts, values, s) = build_mutations tc values s;
          (reply, s) = batch_mutate tc (batch_record (columnFamily cl) keys muts)
            (get_current_read_version isLoading (client_cv cl) + 1) s in
      case reply of
        None \<Rightarrow> insert_attempts tc keys isLoading n values (cl\<lparr>errorexception := True\<rparr>) s
      | Some commit_version \<Rightarrow> (Some OK, cl\<lparr>client_cv := set_current_version_to_read commit_version (client_cv cl)\<rparr>, s))"

definition client_insert :: "'s thrift \<Rightarrow> string \<Rightarrow> bytes list \<Rightarrow> (bytes \<times> byte_iterator) list \<Rightarrow> bool \<Rightarrow> client \<Rightarrow> 's \<Rightarrow>
    status option \<times> client \<times> 's" where
  "client_insert tc table keys values isLoading cl s =
     (case use_table tc table cl s of
        (None, s) \<Rightarrow> (Some ERROR, cl, s)
      | (Some cl, s) \<Rightarrow> insert_attempts tc keys isLoading (operationRetries cl) values cl s)"

definition client_update :: "'s thrift \<Rightarrow> string \<Rightarrow> bytes list \<Rightarrow> (bytes \<times> byte_iterator) list \<Rightarrow> client \<Rightarrow> 's \<Rightarrow>
    status option \<times> client \<times> 's" where
  "client_update tc table keys values cl s = client_insert tc table keys values False cl s"

definition client_scan :: "status" where "client_scan = BAD_REQUEST"
definition client_delete :: "status" where "client_delete = BAD_REQUEST"

section \<open>Versions of a session\<close>

text \<open>The version a client reads at starts at 1 and stays below the cap.\<close>

definition view_ok :: "client_view \<Rightarrow> bool" where
  "view_ok v \<longleftrightarrow> 1 \<le> sint (current_version_to_read v) \<and> sint (current_version_to_read v) < sint VERSION_CAP"

lemma sint_cap [simp]: "sint VERSION_CAP = 10000000"
  by (simp add: VERSION_CAP_def)

lemma current_update_view [simp]: "current_version_to_read (update_view key version v) = current_version_to_read v"
  by (simp add: update_view_def Let_def split: option.split)

lemma set_current_bounds:
  assumes "view_ok v"
  shows "view_ok (set_current_version_to_read ts v)"
    and "sint (current_version_to_read v) \<le> sint (current_version_to_read (set_current_version_to_read ts v))"
    and "sint ts < 10000000 \<Longrightarrow> sint ts \<le> sint (current_version_to_read (set_current_version_to_read ts v))"
  using assms by (auto simp: set_current_version_to_read_def view_ok_def MAX_VALUE_def)

lemma get_version_bounds:
  assumes "view_ok v" "get_version_to_read keys v = (version, v')"
  shows "view_ok v'" "version = current_version_to_read v'"
    "sint (current_version_to_read v) \<le> sint (current_version_to_read v')"
  using assms set_current_bounds [OF assms(1)]
  by (auto simp: get_version_to_read_def Let_def split: option.splits)

text \<open>The proposed version of a write does not overflow and passes the server's assertion.\<close>

lemma proposed_bounds:
  assumes "view_ok v"
  shows "sint (get_current_read_version loading v + 1) = (if loading then 1 else sint (current_version_to_read v) + 1)"
  using assms by (simp add: get_current_read_version_def view_ok_def sint_word_ariths signed_take_bit_int_eq_self)

lemma read_entries_current:
  "read_entries entries v result = (ok, v', result') \<Longrightarrow> current_version_to_read v' = current_version_to_read v"
  by (induction entries v result rule: read_entries.induct) (auto simp: Let_def split: prod.splits if_splits)

lemma view_ok_current: "current_version_to_read v' = current_version_to_read v \<Longrightarrow> view_ok v' = view_ok v"
  by (simp add: view_ok_def)

text \<open>A Thrift client that also notes the versions it is asked to send.\<close>

definition recording :: "'s thrift \<Rightarrow> ('s \<times> i32 list) thrift" where
  "recording tc =
     \<lparr>set_keyspace = (\<lambda>table (s, sent). let (ok, s) = set_keyspace tc table s in (ok, s, sent)),
      multiget_slice = (\<lambda>keys predicate v (s, sent). let (reply, s) = multiget_slice tc keys predicate v s in (reply, s, sent @ [v])),
      batch_mutate = (\<lambda>batch v (s, sent). let (reply, s) = batch_mutate tc batch v s in (reply, s, sent @ [v])),
      current_time_millis = (\<lambda>(s, sent). let (now, s) = current_time_millis tc s in (now, s, sent))\<rparr>"

lemma recording_build:
  "build_mutations (recording tc) vals (s, sent) =
     (case build_mutations tc vals s of (muts, vals', s') \<Rightarrow> (muts, vals', s', sent))"
  by (induction tc vals s rule: build_mutations.induct)
    (auto simp: recording_def Let_def split: prod.splits)

lemma insert_attempts_sent:
  assumes "insert_attempts (recording tc) keys loading n vals cl (s, sent) = (status, cl', s', sent')"
  shows "\<exists>k \<le> n. sent' = sent @ replicate k (get_current_read_version loading (client_cv cl) + 1) \<and>
    (client_cv cl' = client_cv cl \<or> (\<exists>ts. client_cv cl' = set_current_version_to_read ts (client_cv cl)))"
  using assms
proof (induction n arbitrary: vals cl s sent)
  case 0
  then show ?case by simp
next
  case (Suc n)
  let ?v = "get_current_read_version loading (client_cv cl) + 1"
  obtain muts vals' s1 where b: "build_mutations tc vals s = (muts, vals', s1)" by (cases "build_mutations tc vals s")
  obtain reply s2 where r: "batch_mutate tc (batch_record (columnFamily cl) keys muts) ?v s1 = (reply, s2)"
    by (cases "batch_mutate tc (batch_record (columnFamily cl) keys muts) ?v s1")
  have m: "batch_mutate (recording tc) (batch_record (columnFamily cl) keys muts) ?v (s1, sent) = (reply, s2, sent @ [?v])"
    using r by (simp add: recording_def)
  show ?case
  proof (cases reply)
    case None
    then have "insert_attempts (recording tc) keys loading n vals' (cl\<lparr>errorexception := True\<rparr>) (s2, sent @ [?v]) =
        (status, cl', s', sent')"
      using Suc.prems b m by (simp add: recording_build)
    from Suc.IH [OF this] obtain k where "k \<le> n" "sent' = sent @ replicate (Suc k) ?v"
      "client_cv cl' = client_cv cl \<or> (\<exists>ts. client_cv cl' = set_current_version_to_read ts (client_cv cl))"
      by auto
    then show ?thesis by (intro exI [of _ "Suc k"]) simp
  next
    case (Some ts)
    then have "sent' = sent @ replicate 1 ?v" "client_cv cl' = set_current_version_to_read ts (client_cv cl)"
      using Suc.prems b m by (auto simp: recording_build)
    then show ?thesis by (intro exI [of _ 1]) auto
  qed
qed

lemma use_table_recording:
  "use_table (recording tc) table cl (s, sent) = (case use_table tc table cl s of (cl', s') \<Rightarrow> (cl', s', sent))"
  by (auto simp: use_table_def recording_def Let_def split: prod.splits)

lemma use_table_fields:
  "use_table tc table cl s = (Some cl', s') \<Longrightarrow> client_cv cl' = client_cv cl \<and> operationRetries cl' = operationRetries cl"
  by (auto simp: use_table_def Let_def split: prod.splits if_splits)

text \<open>C25. Whatever the server answers, and however many attempts fail, an \<open>insert\<close> proposes one and the same
  version in every attempt: the version after the one the client reads at, or version 1 while loading. The
  addition does not overflow and the version passes the assertion of \<open>batch_mutate\<close> in the server. The
  version the client reads at stays between 1 and the cap and never goes back.\<close>

theorem insert_proposes_one_version:
  assumes "view_ok (client_cv cl)"
    and "client_insert (recording tc) table keys vals loading cl (s, []) = (status, cl', s', sent)"
  shows "(\<exists>k \<le> operationRetries cl. sent = replicate k (get_current_read_version loading (client_cv cl) + 1)) \<and>
    sint (get_current_read_version loading (client_cv cl) + 1) =
      (if loading then 1 else sint (current_version_to_read (client_cv cl)) + 1) \<and>
    view_ok (client_cv cl') \<and>
    sint (current_version_to_read (client_cv cl)) \<le> sint (current_version_to_read (client_cv cl'))"
proof (cases "use_table tc table cl s")
  case (Pair c s1)
  show ?thesis
  proof (cases c)
    case None
    then show ?thesis using assms Pair by (auto simp: client_insert_def use_table_recording proposed_bounds)
  next
    case (Some cl1)
    note f = use_table_fields [OF Pair [unfolded Some]]
    have "insert_attempts (recording tc) keys loading (operationRetries cl) vals cl1 (s1, []) = (status, cl', s', sent)"
      using assms(2) Pair Some f by (simp add: client_insert_def use_table_recording)
    from insert_attempts_sent [OF this] show ?thesis
      using f proposed_bounds [OF assms(1)] set_current_bounds [OF assms(1)] assms(1) by auto
  qed
qed

definition failing_server :: "nat thrift" where
  "failing_server =
     \<lparr>set_keyspace = (\<lambda>_ s. (True, s)), multiget_slice = (\<lambda>_ _ _ s. (None, s)),
      batch_mutate = (\<lambda>_ v n. if n = 0 then (Some (v + 4), 0) else (None, n - 1)), current_time_millis = (\<lambda>s. (0, s))\<rparr>"

theorem insert_proposes_one_version_witness:
  "\<exists>cl'. client_insert (recording failing_server) ''usertable'' [[1], [2]] [([7], \<lparr>str = [1, 2, 3], off = 0, len = 3\<rparr>)] False
     \<lparr>operationRetries = 5, columnFamily = ''data'', tableName = ''usertable'', errorexception = False,
      client_cv = client_view_new\<rparr> (2, []) = (Some OK, cl', 0, [2, 2, 2]) \<and> view_ok (client_cv cl')"
proof -
  let ?cl = "\<lparr>operationRetries = 5, columnFamily = ''data'', tableName = ''usertable'', errorexception = False,
    client_cv = client_view_new\<rparr>"
  have v: "view_ok (client_cv ?cl)" by (simp add: view_ok_def client_view_new_def)
  obtain cl' where r: "client_insert (recording failing_server) ''usertable'' [[1], [2]]
      [([7], \<lparr>str = [1, 2, 3], off = 0, len = 3\<rparr>)] False ?cl (2, []) = (Some OK, cl', 0, [2, 2, 2])"
    by (simp add: client_insert_def use_table_def recording_def failing_server_def numeral_eq_Suc to_array_def
        get_current_read_version_def client_view_new_def)
  then show ?thesis using insert_proposes_one_version [OF v r] by blast
qed

text \<open>The versions that reads are sent with.\<close>

lemma read_attempts_sent:
  assumes "read_attempts (recording tc) predicate keys n cl result (s, sent) = (status, cl', result', s', sent')"
    and "view_ok (client_cv cl)"
  shows "view_ok (client_cv cl') \<and>
    sint (current_version_to_read (client_cv cl)) \<le> sint (current_version_to_read (client_cv cl')) \<and>
    (\<exists>vs. sent' = sent @ vs \<and> (\<forall>v \<in> set vs. sint (current_version_to_read (client_cv cl)) \<le> sint v \<and> sint v < 10000000))"
  using assms
proof (induction n arbitrary: cl result s sent)
  case 0
  then show ?case by simp
next
  case (Suc n)
  obtain version w where g: "get_version_to_read keys (client_cv cl) = (version, w)"
    by (cases "get_version_to_read keys (client_cv cl)")
  note b = get_version_bounds [OF Suc.prems(2) g]
  obtain reply s2 where r: "multiget_slice tc keys predicate version s = (reply, s2)"
    by (cases "multiget_slice tc keys predicate version s")
  have m: "multiget_slice (recording tc) keys predicate version (s, sent) = (reply, s2, sent @ [version])"
    using r by (simp add: recording_def)
  have again: ?case
    if att: "read_attempts (recording tc) predicate keys n cl1 res (s2, sent @ [version]) = (status, cl', result', s', sent')"
      and cl1: "current_version_to_read (client_cv cl1) = current_version_to_read w" for cl1 res
  proof -
    obtain vs where vs: "sent' = sent @ [version] @ vs"
      "\<forall>v \<in> set vs. sint (current_version_to_read (client_cv cl1)) \<le> sint v \<and> sint v < 10000000"
      "view_ok (client_cv cl')" "sint (current_version_to_read (client_cv cl1)) \<le> sint (current_version_to_read (client_cv cl'))"
      using Suc.IH [OF att] view_ok_current [OF cl1] b(1) by auto
    have "\<forall>v \<in> set (version # vs). sint (current_version_to_read (client_cv cl)) \<le> sint v \<and> sint v < 10000000"
      using vs(2) cl1 b by (auto simp: view_ok_def)
    then show ?thesis using vs cl1 b(3) by (intro conjI exI [of _ "version # vs"]) auto
  qed
  show ?case
  proof (cases reply)
    case None
    then show ?thesis using Suc.prems(1) g m by (intro again) (auto simp: Let_def)
  next
    case (Some entries)
    obtain ok w' res where e: "read_entries entries w result = (ok, w', res)" by (cases "read_entries entries w result")
    note c = read_entries_current [OF e]
    show ?thesis
    proof (cases ok)
      case True
      then have "client_cv cl' = w'" "sent' = sent @ [version]" using Suc.prems(1) g m Some e by (auto simp: Let_def)
      then show ?thesis using b c view_ok_current [OF c] by (auto simp: view_ok_def)
    next
      case False
      then show ?thesis using Suc.prems(1) g m Some e c by (intro again) (auto simp: Let_def)
    qed
  qed
qed

section \<open>Defects\<close>

text \<open>The remainder of a negative hash is negative, so the view has up to 1999 buckets and not
  \<open>KEY_BUCKET_SIZE\<close>.\<close>

lemma negative_bucket: "sint (bucket [255, 255, 255, 255, 255, 255, 0, 0]) < 0"
  by (simp add: bucket_def byte_buffer_hash_def KEY_BUCKET_SIZE_def)

text \<open>The attempts of an insert share the iterators of the values, which the first attempt has
  consumed: every retry writes empty values.\<close>

lemma to_array_twice: "fst (to_array (snd (to_array it))) = []"
  by (simp add: to_array_def bytes_left_def)

lemma build_mutations_twice:
  "build_mutations tc vals s = (muts, vals', s') \<Longrightarrow> build_mutations tc vals' t = (muts', vals'', t') \<Longrightarrow>
   map mut_name muts' = map mut_name muts \<and> (\<forall>m \<in> set muts'. mut_value m = [])"
proof (induction tc vals s arbitrary: muts vals' s' t muts' vals'' t' rule: build_mutations.induct)
  case (2 tc name it vals s)
  then show ?case by (auto simp: Let_def to_array_def bytes_left_def split: prod.splits)
qed simp

lemma retried_insert_writes_empty_values:
  assumes "build_mutations tc vals s = (muts, vals', s1)"
    and "batch_mutate tc (batch_record (columnFamily cl) keys muts) (get_current_read_version loading (client_cv cl) + 1) s1 = (None, s2)"
    and "build_mutations tc vals' s2 = (muts', vals'', s3)"
    and "batch_mutate tc (batch_record (columnFamily cl) keys muts') (get_current_read_version loading (client_cv cl) + 1) s3 = (Some ts, s4)"
  shows "fst (insert_attempts tc keys loading (Suc (Suc n)) vals cl s) = Some OK \<and> (\<forall>m \<in> set muts'. mut_value m = [])"
  using assms build_mutations_twice [OF assms(1,3)] by simp

end
