(* ===== verification/Heat_Load_Balance.thy ===== *)
theory Heat_Load_Balance
  imports Complex_Main Prelude "HOL-Library.Monad_Syntax"
begin

text \<open>
  The choice of replicas by cache hit rate (\<open>src/Scylla-moon/db/heat_load_balance.hh\<close> and \<open>.cc\<close>): the
  probabilities that equalise the misses of the nodes, their clipping and redistribution, and the systematic
  sampling of a combination of nodes.

  A \<open>float\<close> is a rational number here, so rounding is not modelled, and the random numbers are arguments. The
  vectors are lists; undefined behaviour and failed assertions are \<^const>\<open>None\<close>. The divisions are
  by nonzero numbers if the hit rates are below 1, as \<open>filter_for_query\<close> makes them, and at least one node is
  asked for; where the C++ code would divide by zero, the quotient here is zero and not an infinity. The theorems: the loop of
  \<open>clip_probabilities\<close> ends after at most two passes and keeps the sum; the sampling returns different nodes if
  no probability is above the limit; and it can return one node twice after the clipping, which misses
  probabilities that its own scaling lifts above the limit.
\<close>

section \<open>Sampling\<close>

text \<open>\<open>randone\<close>; the vector is not empty where it is called.\<close>

fun randone_loop :: "rat list \<Rightarrow> rat \<Rightarrow> nat \<Rightarrow> nat" where
  "randone_loop [] rnd i = i"
| "randone_loop [x] rnd i = i"
| "randone_loop (x # y # p) rnd i =
     (let rnd = rnd - x in if rnd < 0 then i else randone_loop (y # p) rnd (Suc i))"

definition randone :: "rat list \<Rightarrow> rat \<Rightarrow> nat" where
  "randone p rnd = randone_loop p rnd 0"

fun ssample_loop :: "nat \<Rightarrow> rat list \<Rightarrow> rat \<Rightarrow> rat \<Rightarrow> rat \<Rightarrow> nat list" where
  "ssample_loop 0 p interval rnd offset = []"
| "ssample_loop (Suc k) p interval rnd offset =
     randone p (rnd + offset) # ssample_loop k p interval rnd (offset + interval)"

definition ssample :: "nat \<Rightarrow> rat list \<Rightarrow> rat \<Rightarrow> nat list" where
  "ssample k p rand_float = (let interval = 1 / of_nat k in ssample_loop k p interval (rand_float * interval) 0)"

section \<open>Probabilities\<close>

definition miss_equalizing_probablities :: "rat list \<Rightarrow> rat list" where
  "miss_equalizing_probablities hit_rates =
     (let ret = map (\<lambda>h. 1 / (1 - h)) hit_rates; r_sum = sum_list ret in map (\<lambda>r. r / r_sum) ret)"

text \<open>One pass of \<open>clip_probabilities\<close>: what was clipped, the sum of the rest and the new vector.\<close>

fun clip_pass :: "rat \<Rightarrow> rat \<Rightarrow> rat list \<Rightarrow> rat \<times> rat \<times> rat list" where
  "clip_pass limit ratio [] = (0, 0, [])"
| "clip_pass limit ratio (x # p) =
     (let (clipped, sum_unclipped, p) = clip_pass limit ratio p in
      if x \<ge> limit then (clipped + (x - limit), sum_unclipped, limit # p)
      else (clipped, sum_unclipped + x * ratio, x * ratio # p))"

partial_function (option) clip_loop :: "rat \<Rightarrow> rat \<Rightarrow> rat list \<Rightarrow> rat list option" where
  [code]: "clip_loop limit ratio p =
     (case clip_pass limit ratio p of (clipped, sum_unclipped, p) \<Rightarrow>
        if clipped = 0 then Some p else clip_loop limit ((sum_unclipped + clipped) / sum_unclipped) p)"

definition clip_probabilities :: "rat list \<Rightarrow> rat \<Rightarrow> rat list option" where
  "clip_probabilities p limit = clip_loop limit 1 p"

section \<open>Redistribution\<close>

text \<open>The loops \<open>for (unsigned i = 0; i < rf; i++) if (...) pp[i] += ...\<close>.\<close>

definition add_where :: "(nat \<Rightarrow> bool) \<Rightarrow> (nat \<Rightarrow> rat) \<Rightarrow> rat list \<Rightarrow> rat list" where
  "add_where P f pp = map (\<lambda>i. if P i then pp ! i + f i else pp ! i) [0..<length pp]"

fun insert_deficit :: "nat \<times> rat \<Rightarrow> (nat \<times> rat) list \<Rightarrow> (nat \<times> rat) list" where
  "insert_deficit d [] = [d]"
| "insert_deficit d (e # ds) = (if snd e < snd d then e # insert_deficit d ds else d # e # ds)"

definition sort_deficits :: "nat \<Rightarrow> rat \<Rightarrow> rat list \<Rightarrow> (nat \<times> rat) list" where
  "sort_deficits me mixed_surplus deficit =
     foldl (\<lambda>ds i. if deficit ! i \<noteq> 0 \<and> deficit ! i \<le> deficit ! me \<and> deficit ! i < mixed_surplus
                   then insert_deficit (i, deficit ! i) ds else ds) [] [0..<length deficit]"

fun distribute_deficits :: "nat \<Rightarrow> rat list \<Rightarrow> (nat \<times> rat) list \<Rightarrow> rat \<Rightarrow> int \<Rightarrow> rat list \<Rightarrow> int \<times> rat list" where
  "distribute_deficits me deficit [] s cnt pp = (cnt, pp)"
| "distribute_deficits me deficit ((j, d) # ds) s cnt pp =
     (let diff = d - s; cnt = cnt - 1 in
      if cnt = 0 then (cnt, pp)
      else let pp = add_where (\<lambda>i. i \<noteq> me \<and> deficit ! i \<ge> d) (\<lambda>_. diff / of_int cnt) pp in
           if j = me then (cnt, pp) else distribute_deficits me deficit ds d cnt pp)"

text \<open>The part for a mixed node \<open>me\<close>. \<open>back()\<close> of an empty list is undefined.\<close>

definition redistribute_mixed :: "nat \<Rightarrow> rat \<Rightarrow> int \<Rightarrow> rat list \<Rightarrow> rat list \<Rightarrow> rat list option" where
  "redistribute_mixed me mixed_surplus mixed_count deficit pp =
     (let rf = length deficit;
          sorted_deficits = sort_deficits me mixed_surplus deficit;
          (cnt, pp) = distribute_deficits me deficit sorted_deficits 0 mixed_count pp
      in if deficit ! me > mixed_surplus
         then if sorted_deficits = [] then None
              else let last_deficit = snd (last sorted_deficits); diff = mixed_surplus - last_deficit in
                   if cnt > 1
                   then Some (add_where (\<lambda>i. i \<noteq> me \<and> deficit ! i > last_deficit) (\<lambda>_. diff / of_int (cnt - 1)) pp)
                   else Some (add_where (\<lambda>i. i \<noteq> me) (\<lambda>_. diff / of_int (mixed_count - 1)) pp)
         else let converted = filter (\<lambda>i. deficit ! i > mixed_surplus) [0..<rf];
                  last_deficit = foldl max 0 (map (\<lambda>i. deficit ! i) (filter (\<lambda>i. \<not> deficit ! i > mixed_surplus) [0..<rf]))
              in if length converted = 1
                 then let mix_i = last converted;
                          diff = mixed_surplus - last_deficit;
                          pp = add_where (\<lambda>i. i = mix_i) (\<lambda>_. diff / of_int (mixed_count - 1)) pp
                      in Some (add_where (\<lambda>i. deficit ! i > 0 \<and> i \<noteq> mix_i \<and> i \<noteq> me)
                                 (\<lambda>_. - (diff / of_int (mixed_count - 1) / of_int (mixed_count - 2))) pp)
                 else Some pp)"

definition distribute_surplus :: "rat \<Rightarrow> rat \<Rightarrow> rat list \<Rightarrow> rat list \<Rightarrow> rat list" where
  "distribute_surplus my_surplus mixed_surplus deficit pp =
     (let deficit = map (\<lambda>d. if d > mixed_surplus then d - mixed_surplus else 0) deficit;
          new_total_deficit = sum_list deficit
      in add_where (\<lambda>j. deficit ! j > 0) (\<lambda>j. deficit ! j / new_total_deficit * my_surplus) pp)"

definition redistribute :: "rat list \<Rightarrow> nat \<Rightarrow> nat \<Rightarrow> rat list option" where
  "redistribute p me k =
     (let rf = length p;
          pp = (replicate rf 0)[me := min (of_nat rf * p ! me) (1 / of_nat k)];
          deficits = map (\<lambda>x. of_nat rf * x - 1 / of_nat k) p;
          mixed_count = int (length (filter (\<lambda>d. d \<ge> 0) deficits));
          deficit = map (\<lambda>d. if d \<ge> 0 then d else 0) deficits;
          mixed_surplus = 1 - 1 / of_nat k;
          my_surplus = (if deficit ! me = 0 then 1 - of_nat rf * p ! me
                        else if deficit ! me \<le> mixed_surplus then mixed_surplus - deficit ! me else 0)
      in do {
           pp \<leftarrow> (if deficit ! me \<noteq> 0 then redistribute_mixed me mixed_surplus mixed_count deficit pp else Some pp);
           Some (if my_surplus \<noteq> 0 then distribute_surplus my_surplus mixed_surplus deficit pp else pp)
         })"

section \<open>Combinations\<close>

definition combination_get :: "rat list \<Rightarrow> 'n list \<Rightarrow> nat \<Rightarrow> bool \<Rightarrow> rat \<Rightarrow> rat \<Rightarrow> 'n list option" where
  "combination_get pp nodes k extra rand1 rand2 =
     (let n = length pp; ke = k + of_bool extra in
      if \<not> ke \<le> n then None
      else let r = ssample k pp rand1;
               ret = map (\<lambda>i. nodes ! i) r;
               unused = filter (\<lambda>i. i \<notin> set r) [0..<n];
               m = nat \<lfloor>rand2 * of_nat (n - k)\<rfloor>;
               ret = (if extra \<and> m < length unused then ret @ [nodes ! (unused ! m)] else ret)
           in if length ret = ke then Some ret else None)"

definition miss_equalizing_combination :: "('n \<times> rat) list \<Rightarrow> nat \<Rightarrow> nat \<Rightarrow> bool \<Rightarrow> rat \<Rightarrow> rat \<Rightarrow> 'n list option" where
  "miss_equalizing_combination node_hit_rate me bf extra rand1 rand2 = do {
     let p = miss_equalizing_probablities (map snd node_hit_rate);
     p \<leftarrow> clip_probabilities p (1 / of_nat bf);
     p \<leftarrow> (if me < length node_hit_rate then redistribute p me bf else Some p);
     combination_get p (map fst node_hit_rate) bf extra rand1 rand2
   }"

section \<open>Clipping\<close>

lemma clip_pass_eq:
  "clip_pass limit ratio p =
     (sum_list (map (\<lambda>x. if x \<ge> limit then x - limit else 0) p), sum_list (map (\<lambda>x. if x \<ge> limit then 0 else x * ratio) p),
      map (\<lambda>x. if x \<ge> limit then limit else x * ratio) p)"
  by (induction p) (auto simp: Let_def)

lemma sum_list_zero:
  fixes f :: "'a \<Rightarrow> rat"
  assumes "\<And>x. x \<in> set xs \<Longrightarrow> 0 \<le> f x"
  shows "sum_list (map f xs) = 0 \<longleftrightarrow> (\<forall>x \<in> set xs. f x = 0)"
  using sum_list_nonneg_eq_0_iff [of "map f xs"] assms by auto

lemma clip_loop_none_above: "\<forall>x \<in> set p. x \<le> limit \<Longrightarrow> clip_loop limit ratio p = Some (map (\<lambda>x. if x < limit then x * ratio else x) p)"
  by (subst clip_loop.simps) (auto simp: clip_pass_eq sum_list_zero)

text \<open>The loop ends after at most two passes: the first pass leaves nothing above the limit, so that the second
  one clips nothing, whatever its scaling does.\<close>

lemma clip_probabilities_eq:
  "clip_probabilities p limit =
     Some (if \<forall>x \<in> set p. x \<le> limit then p
           else let clipped = sum_list (map (\<lambda>x. if x \<ge> limit then x - limit else 0) p);
                    rest = sum_list (map (\<lambda>x. if x \<ge> limit then 0 else x) p)
                in map (\<lambda>x. if x < limit then x * ((rest + clipped) / rest) else limit) p)"
proof (cases "\<forall>x \<in> set p. x \<le> limit")
  case True
  then show ?thesis
    using clip_loop_none_above [OF True, of 1] by (simp add: clip_probabilities_def) (rule map_idI, simp)
next
  case False
  let ?q = "map (\<lambda>x. if x \<ge> limit then limit else x) p"
  let ?clipped = "sum_list (map (\<lambda>x. if x \<ge> limit then x - limit else 0) p)"
  have "?clipped \<noteq> 0" using False by (subst sum_list_zero) auto
  then have "clip_probabilities p limit =
      clip_loop limit ((sum_list (map (\<lambda>x. if x \<ge> limit then 0 else x) p) + ?clipped) / sum_list (map (\<lambda>x. if x \<ge> limit then 0 else x) p)) ?q"
    unfolding clip_probabilities_def by (subst clip_loop.simps) (simp add: clip_pass_eq cong: if_cong)
  also have "\<dots> = Some (map (\<lambda>x. if x < limit then x *
      ((sum_list (map (\<lambda>x. if x \<ge> limit then 0 else x) p) + ?clipped) / sum_list (map (\<lambda>x. if x \<ge> limit then 0 else x) p)) else limit) p)"
    by (subst clip_loop_none_above) (auto simp: not_le)
  finally show ?thesis unfolding Let_def if_not_P [OF False] .
qed

text \<open>The result is again a distribution, of the same length.\<close>

lemma clip_probabilities_sum:
  assumes "\<exists>x \<in> set p. 0 < x \<and> x < limit" "\<forall>x \<in> set p. 0 \<le> x"
  shows "\<exists>q. clip_probabilities p limit = Some q \<and> sum_list q = sum_list p \<and> length q = length p"
proof -
  let ?c = "\<lambda>p. sum_list (map (\<lambda>x. if x \<ge> limit then x - limit else 0) p)"
  let ?r = "\<lambda>p. sum_list (map (\<lambda>x. if x \<ge> limit then 0 else x) p)"
  have split: "sum_list (map (\<lambda>x. if x < limit then x * f else limit) q) + ?c q = f * ?r q + (sum_list q - ?r q)" for f q
    by (induction q) (auto simp: algebra_simps)
  have "?r p > 0"
  proof -
    obtain x where x: "x \<in> set p" "0 < x" "x < limit" using assms(1) by blast
    have "?r p \<noteq> 0"
      using x assms(2) by (subst sum_list_zero) (auto intro!: bexI [of _ x])
    moreover have "?r p \<ge> 0" using assms(2) by (intro sum_list_nonneg) auto
    ultimately show ?thesis by simp
  qed
  then have "sum_list (map (\<lambda>x. if x < limit then x * ((?r p + ?c p) / ?r p) else limit) p) = sum_list p"
    using split [of "(?r p + ?c p) / ?r p" p] by simp
  then show ?thesis by (simp add: clip_probabilities_eq Let_def)
qed

section \<open>The sample\<close>

lemma randone_loop_bounds:
  assumes "p \<noteq> []" "0 \<le> rnd" "rnd < sum_list p"
  shows "i \<le> randone_loop p rnd i \<and> randone_loop p rnd i < i + length p \<and>
    sum_list (take (randone_loop p rnd i - i) p) \<le> rnd \<and> rnd < sum_list (take (Suc (randone_loop p rnd i - i)) p)"
  using assms
proof (induction p rnd i rule: randone_loop.induct)
  case (3 x y p rnd i)
  show ?case
  proof (cases "rnd - x < 0")
    case True
    then show ?thesis using 3 by (simp add: Let_def)
  next
    case False
    then have step: "randone_loop (x # y # p) rnd i = randone_loop (y # p) (rnd - x) (Suc i)" by (simp add: Let_def)
    note IH = "3.IH" [OF refl False]
    obtain n where n: "randone_loop (y # p) (rnd - x) (Suc i) = Suc i + n"
      using IH "3.prems" False by (auto simp: le_iff_add)
    have "randone_loop (x # y # p) rnd i - i = Suc n" "randone_loop (x # y # p) rnd i = Suc i + n"
      using step n by simp_all
    then show ?thesis using IH "3.prems" False unfolding n by auto
  qed
qed simp_all

lemma randone_bounds:
  assumes "p \<noteq> []" "0 \<le> rnd" "rnd < sum_list p"
  shows "randone p rnd < length p" "sum_list (take (randone p rnd) p) \<le> rnd"
    "rnd < sum_list (take (randone p rnd) p) + p ! randone p rnd"
  using randone_loop_bounds [OF assms, of 0] by (auto simp: randone_def take_Suc_conv_app_nth)

lemma ssample_loop_eq: "ssample_loop k p d rnd offset = map (\<lambda>j. randone p (rnd + (offset + of_nat j * d))) [0..<k]"
proof (induction k arbitrary: offset)
  case (Suc k)
  have "map (\<lambda>j. randone p (rnd + (offset + of_nat j * d))) [0..<Suc k] =
      randone p (rnd + offset) # map (\<lambda>j. randone p (rnd + (offset + of_nat (Suc j) * d))) [0..<k]"
    by (subst upt_conv_Cons) (simp_all only: map_Suc_upt [symmetric] map_map comp_def list.map, simp_all)
  then show ?case unfolding ssample_loop.simps Suc.IH by (simp add: algebra_simps)
qed simp

text \<open>Systematic sampling of a distribution returns indices of it, and different ones if no probability is above
  the limit \<open>1 / k\<close>.\<close>

lemma ssample_distinct:
  assumes "0 < k" "p \<noteq> []" "sum_list p = 1" "0 \<le> r" "r < 1"
  shows "length (ssample k p r) = k" "\<forall>i \<in> set (ssample k p r). i < length p"
    and "\<forall>x \<in> set p. x \<le> 1 / of_nat k \<Longrightarrow> distinct (ssample k p r)"
proof -
  define f where "f j = (r * (1 / of_nat k) + (0 + of_nat j * (1 / of_nat k)) :: rat)" for j :: nat
  have s: "ssample k p r = map (\<lambda>j. randone p (f j)) [0..<k]"
    unfolding ssample_def Let_def ssample_loop_eq f_def ..
  have f: "0 \<le> f j" "f j < 1" if "j < k" for j
  proof -
    show "0 \<le> f j" using assms(4) by (simp add: f_def)
    have "r + of_nat j < (of_nat k :: rat)"
    proof -
      have "of_nat j + 1 \<le> (of_nat k :: rat)" using that by (metis Suc_eq_plus1 Suc_leI of_nat_1 of_nat_add of_nat_le_iff)
      then show ?thesis using assms(5) by simp
    qed
    then show "f j < 1" using assms(1) by (simp add: f_def field_simps)
  qed
  note b = randone_bounds [OF assms(2) f(1), unfolded assms(3), OF _ f(2)]
  show "length (ssample k p r) = k" "\<forall>i \<in> set (ssample k p r). i < length p" using b(1) by (auto simp: s)
  assume limit: "\<forall>x \<in> set p. x \<le> 1 / of_nat k"
  have apart: "randone p (f i) \<noteq> randone p (f j)" if "i < j" "j < k" for i j
  proof
    assume same: "randone p (f i) = randone p (f j)"
    have "f i + 1 / of_nat k \<le> f j"
    proof -
      have "of_nat i + 1 \<le> (of_nat j :: rat)" using that(1) by (metis Suc_eq_plus1 Suc_leI of_nat_1 of_nat_add of_nat_le_iff)
      then have "(of_nat i + 1) * (1 / of_nat k) \<le> of_nat j * (1 / of_nat k :: rat)" by (intro mult_right_mono) simp_all
      then show ?thesis by (simp add: f_def add_divide_distrib)
    qed
    moreover have "p ! randone p (f j) \<le> 1 / of_nat k" using limit b(1) [OF that(2) that(2)] by simp
    moreover have "i < k" using that by simp
    ultimately show False using b(2) [of i] b(3) [of j] that(2) unfolding same by fastforce
  qed
  show "distinct (ssample k p r)"
    unfolding s by (auto simp: distinct_map inj_on_def) (metis apart linorder_neqE_nat)
qed

text \<open>So the combination has \<open>k\<close> different nodes, and the extra one is different from them.\<close>

lemma combination_get_distinct:
  assumes "0 < k" "k + of_bool extra \<le> length pp" "sum_list pp = 1" "\<forall>x \<in> set pp. x \<le> 1 / of_nat k"
    and "0 \<le> r1" "r1 < 1" "0 \<le> r2" "r2 < 1" "distinct nodes" "length nodes = length pp"
  shows "\<exists>ret. combination_get pp nodes k extra r1 r2 = Some ret \<and> distinct ret \<and> set ret \<subseteq> set nodes \<and>
    length ret = k + of_bool extra"
proof -
  define r where "r = ssample k pp r1"
  have "pp \<noteq> []" using assms(1,2) by auto
  note s = ssample_distinct [OF assms(1) this assms(3,5,6), folded r_def]
  have dist: "distinct r" using s(3) assms(4) by blast
  define unused where "unused = filter (\<lambda>i. i \<notin> set r) [0..<length pp]"
  have "set unused = {0..<length pp} - set r" by (auto simp: unused_def)
  moreover have "card ({0..<length pp} - set r) = length pp - k"
    using s(1,2) dist by (subst card_Diff_subset) (auto simp: distinct_card)
  ultimately have lu: "length unused = length pp - k"
    by (metis distinct_card distinct_filter distinct_upt unused_def)
  define m where "m = nat \<lfloor>r2 * of_nat (length pp - k)\<rfloor>"
  have m: "m < length unused" if extra
  proof -
    have "0 < length pp - k" using that assms(2) by simp
    then have "r2 * of_nat (length pp - k) < of_nat (length pp - k)" using assms(8) by simp
    then have "\<lfloor>r2 * of_nat (length pp - k)\<rfloor> < int (length pp - k)" by (simp only: floor_less_iff of_int_of_nat_eq)
    then show ?thesis using \<open>0 < length pp - k\<close> by (simp add: m_def lu nat_less_iff)
  qed
  define ret where "ret = (if extra \<and> m < length unused then map ((!) nodes) r @ [nodes ! (unused ! m)] else map ((!) nodes) r)"
  have "combination_get pp nodes k extra r1 r2 = (if length ret = k + of_bool extra then Some ret else None)"
    using assms(2) by (simp add: combination_get_def Let_def r_def unused_def m_def ret_def cong: if_cong)
  moreover have "length ret = k + of_bool extra" using m s(1) by (simp add: ret_def)
  moreover have "distinct (map ((!) nodes) q)" if "distinct q" "\<forall>i \<in> set q. i < length pp" for q
    using that assms(9,10) by (auto simp: distinct_map inj_on_def nth_eq_iff_index_eq)
  then have "distinct (map ((!) nodes) r)" "extra \<Longrightarrow> distinct (map ((!) nodes) (r @ [unused ! m]))"
    using dist s(2) m nth_mem [of m unused] by (auto simp: unused_def simp del: map_append)
  then have "distinct ret" by (auto simp: ret_def simp del: distinct_append)
  moreover have "set ret \<subseteq> set nodes"
    using s(2) assms(10) m nth_mem [of m unused] by (auto simp: ret_def unused_def)
  ultimately show ?thesis by simp
qed

section \<open>The chosen nodes\<close>

lemma sum_list_divide: "sum_list (map (\<lambda>x. f x / c) xs) = sum_list (map f xs) / (c :: rat)"
  by (induction xs) (simp_all add: add_divide_distrib)

lemma randone_less: "p \<noteq> [] \<Longrightarrow> randone p rnd < length p"
proof -
  have "p \<noteq> [] \<Longrightarrow> randone_loop p rnd i < i + length p" for i
    by (induction p rnd i rule: randone_loop.induct) (auto simp: Let_def)
  from this [of 0] show "p \<noteq> [] \<Longrightarrow> ?thesis" by (simp add: randone_def)
qed

text \<open>Whatever the probabilities are, the combination has the number of nodes that was asked for, and the extra
  node is not one of the others.\<close>

lemma combination_get_nodes:
  assumes "combination_get pp nodes k extra r1 r2 = Some ret" "length nodes = length pp" "distinct nodes"
  shows "set ret \<subseteq> set nodes" "length ret = k + of_bool extra" "extra \<Longrightarrow> ret ! k \<notin> set (take k ret)"
proof -
  define r where "r = ssample k pp r1"
  define unused where "unused = filter (\<lambda>i. i \<notin> set r) [0..<length pp]"
  define m where "m = nat \<lfloor>r2 * of_nat (length pp - k)\<rfloor>"
  have lr: "length r = k" by (simp add: r_def ssample_def Let_def ssample_loop_eq)
  have "k = 0 \<or> pp \<noteq> []" using assms(1) by (auto simp: combination_get_def Let_def split: if_splits)
  then have r: "\<forall>i \<in> set r. i < length pp"
    by (auto simp: r_def ssample_def Let_def ssample_loop_eq randone_less)
  have ret: "ret = (if extra \<and> m < length unused then map ((!) nodes) r @ [nodes ! (unused ! m)] else map ((!) nodes) r)"
    and len: "length ret = k + of_bool extra"
    using assms(1) by (auto simp: combination_get_def Let_def r_def unused_def m_def split: if_splits)
  have u: "unused ! m < length pp \<and> unused ! m \<notin> set r" if "m < length unused"
    using nth_mem [OF that] by (auto simp: unused_def)
  show "set ret \<subseteq> set nodes" using r u assms(2) by (auto simp: ret)
  show "length ret = k + of_bool extra" by (rule len)
  assume extra
  then have "ret = map ((!) nodes) r @ [nodes ! (unused ! m)]" "m < length unused"
    using ret len lr by (auto split: if_splits)
  then show "ret ! k \<notin> set (take k ret)"
    using u r lr assms(2,3) by (auto simp: nth_append nth_eq_iff_index_eq)
qed

lemma length_add_where [simp]: "length (add_where P f pp) = length pp"
  by (simp add: add_where_def)

lemma length_distribute_deficits: "length (snd (distribute_deficits me deficit ds s cnt pp)) = length pp"
  by (induction me deficit ds s cnt pp rule: distribute_deficits.induct) (simp_all add: Let_def)

lemma length_redistribute: "redistribute p me k = Some q \<Longrightarrow> length q = length p"
proof -
  have mixed: "length q = length pp" if "redistribute_mixed me ms mc deficit pp = Some q" for ms mc deficit pp q
    using that length_distribute_deficits [of me deficit "sort_deficits me ms deficit" 0 mc pp]
    by (auto simp: redistribute_mixed_def Let_def split: prod.splits if_splits)
  show "redistribute p me k = Some q \<Longrightarrow> ?thesis"
    by (auto simp: redistribute_def Let_def distribute_surplus_def split: if_splits bind_splits dest!: mixed)
qed

lemma length_clip_probabilities: "clip_probabilities p limit = Some q \<Longrightarrow> length q = length p"
  by (auto simp: clip_probabilities_eq Let_def)

lemma miss_equalizing_combination_nodes:
  assumes "miss_equalizing_combination nhr me bf extra r1 r2 = Some ret" "distinct (map fst nhr)"
  shows "set ret \<subseteq> fst ` set nhr" "length ret = bf + of_bool extra" "extra \<Longrightarrow> ret ! bf \<notin> set (take bf ret)"
proof -
  obtain p q where p: "clip_probabilities (miss_equalizing_probablities (map snd nhr)) (1 / of_nat bf) = Some p"
      "(if me < length nhr then redistribute p me bf else Some p) = Some q"
    and get: "combination_get q (map fst nhr) bf extra r1 r2 = Some ret"
    using assms(1) by (auto simp: miss_equalizing_combination_def Let_def split: bind_splits)
  have "length q = length nhr"
    using p length_clip_probabilities [OF p(1)] length_redistribute [of p me bf q]
    by (auto simp: miss_equalizing_probablities_def Let_def split: if_splits)
  then show "set ret \<subseteq> fst ` set nhr" "length ret = bf + of_bool extra" "extra \<Longrightarrow> ret ! bf \<notin> set (take bf ret)"
    using combination_get_nodes [OF get _ assms(2)] by auto
qed

text \<open>On a coordinator that is no replica, the nodes are all different if no equalised probability is above the
  limit.\<close>

lemma miss_equalizing_combination_distinct:
  assumes "0 < bf" "bf + of_bool extra \<le> length nhr" "distinct (map fst nhr)" "\<not> me < length nhr"
    and "\<forall>h \<in> snd ` set nhr. h < 1"
    and "\<forall>x \<in> set (miss_equalizing_probablities (map snd nhr)). x \<le> 1 / of_nat bf"
    and "0 \<le> r1" "r1 < 1" "0 \<le> r2" "r2 < 1"
  shows "\<exists>ret. miss_equalizing_combination nhr me bf extra r1 r2 = Some ret \<and> distinct ret \<and> length ret = bf + of_bool extra"
proof -
  let ?p = "miss_equalizing_probablities (map snd nhr)"
  have "nhr \<noteq> []" using assms(1,2) by auto
  moreover have "sum_list (map (\<lambda>h. 1 / (1 - h)) (map snd nhr)) \<noteq> 0"
    using assms(5) \<open>nhr \<noteq> []\<close> by (subst sum_list_zero) (force simp: neq_Nil_conv)+
  then have "sum_list ?p = 1"
    unfolding miss_equalizing_probablities_def Let_def sum_list_divide by simp
  then show ?thesis
    using assms combination_get_distinct [of bf extra ?p r1 r2 "map fst nhr"]
    by (auto simp: miss_equalizing_combination_def clip_probabilities_eq Let_def miss_equalizing_probablities_def)
qed

section \<open>What the clipping misses\<close>

text \<open>The loop of \<open>clip_probabilities\<close> is there because scaling can lift a probability over the limit, but the
  pass that scales has nothing left to clip and returns. With hit rates 0.98, 0.96 and three times 0.8, three
  nodes asked for and a coordinator that is no replica, the second probability becomes 5/12, above 1/3, and the
  combination can have the second node twice.\<close>

lemma clip_above_limit:
  "clip_probabilities (miss_equalizing_probablities [49/50, 24/25, 4/5, 4/5, 4/5]) (1/3) = Some [1/3, 5/12, 1/12, 1/12, 1/12]"
  by (simp add: clip_probabilities_eq miss_equalizing_probablities_def Let_def)

lemma combination_repeats_node:
  "5 \<le> me \<Longrightarrow> miss_equalizing_combination [(n1, 49/50), (n2, 24/25), (n3, 4/5), (n4, 4/5), (n5, 4/5)] me 3 False (1/10) 0 =
     Some [n1, n2, n2]"
  by (simp add: miss_equalizing_combination_def clip_above_limit combination_get_def ssample_def randone_def
      numeral_3_eq_3 Let_def)

text \<open>\<open>redistribute\<close> reads the last element of an empty list if no node has a deficit between zero and the
  surplus of a mixed node, as with hit rates 0.98, 44/45 and 0.8, two nodes asked for and the first one the
  coordinator.\<close>

lemma redistribute_back_of_empty:
  "miss_equalizing_probablities [49/50, 44/45, 4/5] = [1/2, 9/20, 1/20]"
  "clip_probabilities [1/2, 9/20, 1/20] (1/2) = Some [1/2, 9/20, 1/20]"
  "redistribute [1/2, 9/20, 1/20] 0 2 = None"
  by (simp_all add: miss_equalizing_probablities_def clip_probabilities_eq redistribute_def redistribute_mixed_def
      sort_deficits_def Let_def upt_rec)

end
