(* ===== verification/Consistency_Level.thy ===== *)
theory Consistency_Level
  imports Prelude Heat_Load_Balance
begin

text \<open>
  Consistency levels (\<open>src/Scylla-moon/db/consistency_level.hh\<close> and \<open>.cc\<close>): how many replicas a
  request blocks for, which live endpoints a read contacts, and the availability checks made before
  a request starts.

  The replication strategy is reduced to what these functions read of it
  (\<open>locator/network_topology_strategy.hh\<close>): its type and its replication factors. The snitch
  (\<open>get_datacenter\<close>) and the broadcast address are fields of the record \<open>cluster\<close>. The result of
  \<open>count_per_dc_endpoints\<close> is an \<open>unordered_map\<close>; it is a list of entries here, and what is proved of
  its users does not depend on its order. \<open>filter_for_query\<close> takes the hit-rate part of the
  \<open>column_family\<close> (\<open>src/Scylla-moon/database.cc\<close>), which it updates, the time and two random numbers; what
  the gossiper knows of the hit rates of a node is a field of that state.
\<close>

section \<open>Levels, strategies and errors\<close>

datatype consistency_level =
    ANY | ONE | TWO | THREE | QUORUM | CL_ALL | LOCAL_QUORUM | EACH_QUORUM | SERIAL | LOCAL_SERIAL | LOCAL_ONE

type_synonym endpoint = u32
type_synonym datacenter = string

datatype replication_strategy =
    Plain_strategy nat
  | Network_topology "(datacenter \<times> nat) list"

fun get_replication_factor :: "replication_strategy \<Rightarrow> nat" where
  "get_replication_factor (Plain_strategy n) = n"
| "get_replication_factor (Network_topology dc_rep_factor) = sum_list (map snd dc_rep_factor)"

definition get_replication_factor_dc :: "(datacenter \<times> nat) list \<Rightarrow> datacenter \<Rightarrow> nat" where
  "get_replication_factor_dc dc_rep_factor dc = (case map_of dc_rep_factor dc of None \<Rightarrow> 0 | Some n \<Rightarrow> n)"

definition get_datacenters :: "(datacenter \<times> nat) list \<Rightarrow> datacenter list" where
  "get_datacenters dc_rep_factor = map fst dc_rep_factor"

record cluster =
  strategy :: replication_strategy
  get_datacenter :: "endpoint \<Rightarrow> datacenter"
  local_addr :: endpoint

datatype request_error =
    Unavailable consistency_level nat nat
  | Write_timeout consistency_level nat nat
  | Invalid_request
  | No_such_keyspace
  | Overloaded
  | Broken_promise
  | Other_error

section \<open>How many replicas to wait for\<close>

definition quorum_for :: "cluster \<Rightarrow> nat" where
  "quorum_for ks = get_replication_factor (strategy ks) div 2 + 1"

definition local_quorum_for :: "cluster \<Rightarrow> datacenter \<Rightarrow> nat" where
  "local_quorum_for ks dc =
     (case strategy ks of
        Network_topology nrs \<Rightarrow> get_replication_factor_dc nrs dc div 2 + 1
      | Plain_strategy _ \<Rightarrow> quorum_for ks)"

definition block_for_local_serial :: "cluster \<Rightarrow> nat" where
  "block_for_local_serial ks = local_quorum_for ks (get_datacenter ks (local_addr ks))"

definition block_for_each_quorum :: "cluster \<Rightarrow> nat" where
  "block_for_each_quorum ks =
     (case strategy ks of
        Network_topology nrs \<Rightarrow> foldl (\<lambda>n dc. n + local_quorum_for ks dc) 0 (get_datacenters nrs)
      | Plain_strategy _ \<Rightarrow> quorum_for ks)"

fun block_for :: "cluster \<Rightarrow> consistency_level \<Rightarrow> nat" where
  "block_for ks ONE = 1"
| "block_for ks LOCAL_ONE = 1"
| "block_for ks ANY = 1"
| "block_for ks TWO = 2"
| "block_for ks THREE = 3"
| "block_for ks QUORUM = quorum_for ks"
| "block_for ks SERIAL = quorum_for ks"
| "block_for ks CL_ALL = get_replication_factor (strategy ks)"
| "block_for ks LOCAL_QUORUM = block_for_local_serial ks"
| "block_for ks LOCAL_SERIAL = block_for_local_serial ks"
| "block_for ks EACH_QUORUM = block_for_each_quorum ks"

definition is_datacenter_local :: "consistency_level \<Rightarrow> bool" where
  "is_datacenter_local l \<longleftrightarrow> l = LOCAL_ONE \<or> l = LOCAL_QUORUM"

definition is_local :: "cluster \<Rightarrow> endpoint \<Rightarrow> bool" where
  "is_local ks ep \<longleftrightarrow> get_datacenter ks (local_addr ks) = get_datacenter ks ep"

definition count_local_endpoints :: "cluster \<Rightarrow> endpoint list \<Rightarrow> nat" where
  "count_local_endpoints ks eps = length (filter (is_local ks) eps)"

section \<open>Which replicas to read from\<close>

datatype read_repair_decision = RRD_NONE | RRD_GLOBAL | RRD_DC_LOCAL

text \<open>The cache hit rates a \<open>column_family\<close> keeps. The last field is what the gossiper has for a node: the value of
  its application state \<open>CACHE_HITRATES\<close> for this table, if there is one (zero if the table is not in it).\<close>

record cache_hit_rate =
  rate :: rat
  last_updated :: int

record column_family =
  global_cache_hit_rate :: rat
  cluster_cache_hit_rates :: "endpoint \<rightharpoonup> cache_hit_rate"
  gossip_hit_rates :: "endpoint \<Rightarrow> rat option"

definition set_hit_rate :: "int \<Rightarrow> endpoint \<Rightarrow> rat \<Rightarrow> column_family \<Rightarrow> column_family" where
  "set_hit_rate now addr r cf =
     cf\<lparr>cluster_cache_hit_rates := (cluster_cache_hit_rates cf)(addr \<mapsto> \<lparr>rate = r, last_updated = now\<rparr>)\<rparr>"

definition get_hit_rate :: "cluster \<Rightarrow> int \<Rightarrow> endpoint \<Rightarrow> column_family \<Rightarrow> cache_hit_rate \<times> column_family" where
  "get_hit_rate ks now addr cf =
     (if local_addr ks = addr then (\<lparr>rate = global_cache_hit_rate cf, last_updated = now\<rparr>, cf)
      else case cluster_cache_hit_rates cf addr of
             None \<Rightarrow>
               (case gossip_hit_rates cf addr of
                  Some f \<Rightarrow> (\<lparr>rate = f, last_updated = now\<rparr>, set_hit_rate now addr f cf)
                | None \<Rightarrow> (\<lparr>rate = 0, last_updated = now\<rparr>, cf))
           | Some e \<Rightarrow> (e, cf))"

definition drop_hit_rate :: "endpoint \<Rightarrow> column_family \<Rightarrow> column_family" where
  "drop_hit_rate addr cf = cf\<lparr>cluster_cache_hit_rates := (cluster_cache_hit_rates cf)(addr := None)\<rparr>"

definition max_hit_rate :: rat where
  "max_hit_rate = 999 / 1000"

text \<open>The local function \<open>get_hit_rate\<close> of \<open>filter_for_query\<close>, and its calls for all live endpoints.\<close>

definition hit_rate_of :: "cluster \<Rightarrow> int \<Rightarrow> endpoint \<Rightarrow> column_family \<Rightarrow> rat \<times> column_family" where
  "hit_rate_of ks now ep cf =
     (let (ht, cf) = get_hit_rate ks now ep cf in
      if rate ht < 0 then (rate ht, cf)
      else if now - last_updated ht > 1000 then (max_hit_rate, set_hit_rate now ep (rate ht) cf)
      else (min (rate ht) max_hit_rate, cf))"

fun hit_rates_of :: "cluster \<Rightarrow> int \<Rightarrow> endpoint list \<Rightarrow> column_family \<Rightarrow> (endpoint \<times> rat) list \<times> column_family" where
  "hit_rates_of ks now [] cf = ([], cf)"
| "hit_rates_of ks now (ep # eps) cf =
     (let (ht, cf) = hit_rate_of ks now ep cf; (epi, cf) = hit_rates_of ks now eps cf in ((ep, ht) # epi, cf))"

definition choose_by_hit_rate :: "cluster \<Rightarrow> int \<Rightarrow> rat \<Rightarrow> rat \<Rightarrow> nat \<Rightarrow> bool \<Rightarrow> endpoint list \<Rightarrow> column_family \<Rightarrow>
    (endpoint list \<times> column_family) option" where
  "choose_by_hit_rate ks now rand1 rand2 bf want_extra live cf =
     (let (epi, cf) = hit_rates_of ks now live cf;
          old_node = list_ex (\<lambda>(_, ht). ht < 0) epi;
          ht_max = foldl max 0 (map snd epi);
          ht_min = foldl min 1 (map snd epi)
      in if \<not> old_node \<and> ht_max - ht_min > 1 / 100
         then let local_idx = (if fst (epi ! 0) = local_addr ks then 0 else length epi + 1) in
              map_option (\<lambda>live. (live, cf)) (miss_equalizing_combination epi local_idx bf want_extra rand1 rand2)
         else Some (live, cf))"

text \<open>The endpoints to contact, and the replica kept in reserve for speculation when one is asked
  for. \<^const>\<open>None\<close> is undefined behaviour in the choice by hit rate.\<close>

definition filter_for_query :: "consistency_level \<Rightarrow> cluster \<Rightarrow> endpoint list \<Rightarrow> read_repair_decision \<Rightarrow> bool \<Rightarrow>
    column_family option \<Rightarrow> int \<Rightarrow> rat \<Rightarrow> rat \<Rightarrow> (endpoint list \<times> endpoint option \<times> column_family option) option" where
  "filter_for_query cl ks live read_repair want_extra cf now rand1 rand2 =
     (if read_repair = RRD_GLOBAL then Some (live, None, cf)
      else
        let local_first = (read_repair = RRD_DC_LOCAL \<or> is_datacenter_local cl);
            local_count = length (filter (is_local ks) live);
            partitioned = filter (is_local ks) live @ filter (\<lambda>ep. \<not> is_local ks ep) live;
            live = (if local_first
                    then (if is_datacenter_local cl then take local_count partitioned else partitioned)
                    else live);
            bf = (if read_repair = RRD_DC_LOCAL then max (block_for ks cl) local_count else block_for ks cl)
        in if bf \<ge> length live then Some (live, None, cf)
           else do {
             (live, cf) \<leftarrow> (case cf of
                 None \<Rightarrow> Some (live, None)
               | Some cf \<Rightarrow> map_option (map_prod id Some) (choose_by_hit_rate ks now rand1 rand2 bf want_extra live cf));
             Some (take bf live, if want_extra then Some (live ! bf) else None, cf)
           })"

section \<open>Availability\<close>

record dc_node_count =
  live_count :: nat
  pending_count :: nat

text \<open>\<open>operator[]\<close> of the map adds a data center that is not there.\<close>

fun dc_update :: "(dc_node_count \<Rightarrow> dc_node_count) \<Rightarrow> datacenter \<Rightarrow> (datacenter \<times> dc_node_count) list \<Rightarrow>
    (datacenter \<times> dc_node_count) list" where
  "dc_update f dc [] = [(dc, f \<lparr>live_count = 0, pending_count = 0\<rparr>)]"
| "dc_update f dc ((d, c) # es) = (if d = dc then (d, f c) # es else (d, c) # dc_update f dc es)"

definition count_per_dc_endpoints :: "cluster \<Rightarrow> (datacenter \<times> nat) list \<Rightarrow> endpoint list \<Rightarrow> endpoint list \<Rightarrow>
    (datacenter \<times> dc_node_count) list" where
  "count_per_dc_endpoints ks nrs live pending =
     (let dcs = map (\<lambda>dc. (dc, \<lparr>live_count = 0, pending_count = 0\<rparr>)) (get_datacenters nrs);
          dcs = foldl (\<lambda>dcs ep. dc_update (live_count_update Suc) (get_datacenter ks ep) dcs) dcs live
      in foldl (\<lambda>dcs ep. dc_update (pending_count_update Suc) (get_datacenter ks ep) dcs) dcs pending)"

definition is_sufficient_live_nodes :: "consistency_level \<Rightarrow> cluster \<Rightarrow> endpoint list \<Rightarrow> bool" where
  "is_sufficient_live_nodes cl ks live =
     (case cl of
        ANY \<Rightarrow> True
      | LOCAL_ONE \<Rightarrow> count_local_endpoints ks live \<ge> 1
      | LOCAL_QUORUM \<Rightarrow> count_local_endpoints ks live \<ge> block_for ks cl
      | EACH_QUORUM \<Rightarrow>
          (case strategy ks of
             Network_topology nrs \<Rightarrow>
               list_all (\<lambda>(dc, c). \<not> live_count c < local_quorum_for ks dc) (count_per_dc_endpoints ks nrs live [])
           | Plain_strategy _ \<Rightarrow> length live \<ge> block_for ks cl)
      | _ \<Rightarrow> length live \<ge> block_for ks cl)"

fun first_unavailable :: "consistency_level \<Rightarrow> cluster \<Rightarrow> (datacenter \<times> dc_node_count) list \<Rightarrow> request_error option" where
  "first_unavailable cl ks [] = None"
| "first_unavailable cl ks ((dc, c) # es) =
     (if live_count c < local_quorum_for ks dc + pending_count c
      then Some (Unavailable cl (local_quorum_for ks dc) (live_count c))
      else first_unavailable cl ks es)"

text \<open>The value tells whether the strategy is a network topology (and all data centers suffice).\<close>

definition assure_sufficient_live_nodes_each_quorum :: "consistency_level \<Rightarrow> cluster \<Rightarrow> endpoint list \<Rightarrow>
    endpoint list \<Rightarrow> request_error + bool" where
  "assure_sufficient_live_nodes_each_quorum cl ks live pending =
     (case strategy ks of
        Network_topology nrs \<Rightarrow>
          (case first_unavailable cl ks (count_per_dc_endpoints ks nrs live pending) of
             Some e \<Rightarrow> Inl e
           | None \<Rightarrow> Inr True)
      | Plain_strategy _ \<Rightarrow> Inr False)"

definition adjust_live_for_error :: "nat \<Rightarrow> nat \<Rightarrow> nat" where
  "adjust_live_for_error live pending = (if pending \<le> live then live - pending else 0)"

definition assure_default :: "consistency_level \<Rightarrow> cluster \<Rightarrow> endpoint list \<Rightarrow> endpoint list \<Rightarrow> request_error + unit" where
  "assure_default cl ks live pending =
     (if length live < block_for ks cl + length pending
      then Inl (Unavailable cl (block_for ks cl) (adjust_live_for_error (length live) (length pending)))
      else Inr ())"

definition assure_sufficient_live_nodes :: "consistency_level \<Rightarrow> cluster \<Rightarrow> endpoint list \<Rightarrow> endpoint list \<Rightarrow>
    request_error + unit" where
  "assure_sufficient_live_nodes cl ks live pending =
     (case cl of
        ANY \<Rightarrow> Inr ()
      | LOCAL_ONE \<Rightarrow>
          if count_local_endpoints ks live < count_local_endpoints ks pending + 1
          then Inl (Unavailable cl 1 0) else Inr ()
      | LOCAL_QUORUM \<Rightarrow>
          (let local_live = count_local_endpoints ks live; local_pending = count_local_endpoints ks pending in
           if local_live < block_for ks cl + local_pending
           then Inl (Unavailable cl (block_for ks cl) (adjust_live_for_error local_live local_pending))
           else Inr ())
      | EACH_QUORUM \<Rightarrow>
          (case assure_sufficient_live_nodes_each_quorum cl ks live pending of
             Inl e \<Rightarrow> Inl e
           | Inr True \<Rightarrow> Inr ()
           | Inr False \<Rightarrow> assure_default cl ks live pending)
      | _ \<Rightarrow> assure_default cl ks live pending)"

section \<open>Validation of requests\<close>

definition validate_for_read :: "consistency_level \<Rightarrow> request_error + unit" where
  "validate_for_read cl = (if cl = ANY \<or> cl = EACH_QUORUM then Inl Invalid_request else Inr ())"

definition validate_for_write :: "consistency_level \<Rightarrow> request_error + unit" where
  "validate_for_write cl = (if cl = SERIAL \<or> cl = LOCAL_SERIAL then Inl Invalid_request else Inr ())"

definition is_serial_consistency :: "consistency_level \<Rightarrow> bool" where
  "is_serial_consistency cl \<longleftrightarrow> cl = SERIAL \<or> cl = LOCAL_SERIAL"

definition validate_counter_for_write :: "consistency_level \<Rightarrow> request_error + unit" where
  "validate_counter_for_write cl =
     (if cl = ANY then Inl Invalid_request
      else if is_serial_consistency cl then Inl Invalid_request else Inr ())"

section \<open>Counting per data center\<close>

abbreviation in_dc :: "cluster \<Rightarrow> datacenter \<Rightarrow> endpoint list \<Rightarrow> nat" where
  "in_dc ks dc eps \<equiv> length (filter (\<lambda>ep. get_datacenter ks ep = dc) eps)"

abbreviation no_nodes :: dc_node_count where
  "no_nodes \<equiv> \<lparr>live_count = 0, pending_count = 0\<rparr>"

definition count_of :: "(datacenter \<times> dc_node_count) list \<Rightarrow> datacenter \<Rightarrow> dc_node_count" where
  "count_of es dc = (case map_of es dc of None \<Rightarrow> no_nodes | Some c \<Rightarrow> c)"

lemma count_of_dc_update: "count_of (dc_update f dc es) d = (if d = dc then f (count_of es d) else count_of es d)"
  by (induction f dc es rule: dc_update.induct) (auto simp: count_of_def)

lemma keys_dc_update: "fst ` set (dc_update f dc es) = insert dc (fst ` set es)"
  by (induction f dc es rule: dc_update.induct) auto

lemma distinct_dc_update: "distinct (map fst es) \<Longrightarrow> distinct (map fst (dc_update f dc es))"
proof (induction f dc es rule: dc_update.induct)
  case (2 f dc d c es)
  have "fst ` set (dc_update f dc es) = insert dc (fst ` set es)" by (rule keys_dc_update)
  with 2 show ?case by auto
qed simp

lemma count_of_fold_live:
  "live_count (count_of (foldl (\<lambda>dcs ep. dc_update (live_count_update Suc) (get_datacenter ks ep) dcs) es eps) d) =
     live_count (count_of es d) + in_dc ks d eps"
  "pending_count (count_of (foldl (\<lambda>dcs ep. dc_update (live_count_update Suc) (get_datacenter ks ep) dcs) es eps) d) =
     pending_count (count_of es d)"
  by (induction eps arbitrary: es) (simp_all add: count_of_dc_update)

lemma count_of_fold_pending:
  "pending_count (count_of (foldl (\<lambda>dcs ep. dc_update (pending_count_update Suc) (get_datacenter ks ep) dcs) es eps) d) =
     pending_count (count_of es d) + in_dc ks d eps"
  "live_count (count_of (foldl (\<lambda>dcs ep. dc_update (pending_count_update Suc) (get_datacenter ks ep) dcs) es eps) d) =
     live_count (count_of es d)"
  by (induction eps arbitrary: es) (simp_all add: count_of_dc_update)

lemma keys_fold: "fst ` set (foldl (\<lambda>dcs ep. dc_update f (get_datacenter ks ep) dcs) es eps) =
    fst ` set es \<union> get_datacenter ks ` set eps"
  by (induction eps arbitrary: es) (auto simp: keys_dc_update)

lemma distinct_fold:
  "distinct (map fst es) \<Longrightarrow> distinct (map fst (foldl (\<lambda>dcs ep. dc_update f (get_datacenter ks ep) dcs) es eps))"
  by (induction eps arbitrary: es) (simp_all add: distinct_dc_update)

text \<open>What \<open>count_per_dc_endpoints\<close> computes, for a configuration without duplicate data centers.\<close>

lemma count_per_dc:
  assumes "distinct (get_datacenters nrs)"
  shows "(dc, c) \<in> set (count_per_dc_endpoints ks nrs live pending) \<longleftrightarrow>
    (dc \<in> set (get_datacenters nrs) \<or> dc \<in> get_datacenter ks ` (set live \<union> set pending)) \<and>
    c = \<lparr>live_count = in_dc ks dc live, pending_count = in_dc ks dc pending\<rparr>"
proof -
  let ?init = "map (\<lambda>dc. (dc, no_nodes)) (get_datacenters nrs)"
  let ?es = "count_per_dc_endpoints ks nrs live pending"
  have init: "count_of ?init d = no_nodes" for d
    by (auto simp: count_of_def map_of_map_restrict restrict_map_def map_of_eq_None_iff split: option.splits)
  have count: "count_of ?es dc = \<lparr>live_count = in_dc ks dc live, pending_count = in_dc ks dc pending\<rparr>"
    unfolding count_per_dc_endpoints_def Let_def
    by (rule dc_node_count.equality) (simp_all only: count_of_fold_live count_of_fold_pending init, simp_all)
  have keys: "fst ` set ?es = set (get_datacenters nrs) \<union> get_datacenter ks ` (set live \<union> set pending)"
    unfolding count_per_dc_endpoints_def Let_def keys_fold by (auto simp: image_iff)
  have d: "distinct (map fst ?es)"
    unfolding count_per_dc_endpoints_def Let_def
    by (intro distinct_fold) (use assms in \<open>simp add: comp_def\<close>)
  have "(dc, c) \<in> set ?es \<longleftrightarrow> map_of ?es dc = Some c" using d by simp
  also have "\<dots> \<longleftrightarrow> dc \<in> fst ` set ?es \<and> c = count_of ?es dc"
    using dom_map_of_conv_image_fst [of ?es] by (auto simp: count_of_def split: option.splits)
  finally show ?thesis unfolding keys count by blast
qed

lemma block_for_each_quorum_sum:
  "strategy ks = Network_topology nrs \<Longrightarrow>
    block_for_each_quorum ks = sum_list (map (local_quorum_for ks) (get_datacenters nrs))"
proof -
  have "foldl (\<lambda>n dc. n + local_quorum_for ks dc) k dcs = k + sum_list (map (local_quorum_for ks) dcs)" for k dcs
    by (induction dcs arbitrary: k) simp_all
  then show "strategy ks = Network_topology nrs \<Longrightarrow> ?thesis" by (simp add: block_for_each_quorum_def)
qed

lemma first_unavailable_None:
  "first_unavailable cl ks es = None \<longleftrightarrow>
     (\<forall>(dc, c) \<in> set es. local_quorum_for ks dc + pending_count c \<le> live_count c)"
  by (induction cl ks es rule: first_unavailable.induct) auto

lemma assure_each_quorum:
  assumes "strategy ks = Network_topology nrs" "distinct (get_datacenters nrs)"
    "assure_sufficient_live_nodes EACH_QUORUM ks live pending = Inr ()"
    "dc \<in> set (get_datacenters nrs) \<or> dc \<in> get_datacenter ks ` (set live \<union> set pending)"
  shows "local_quorum_for ks dc + in_dc ks dc pending \<le> in_dc ks dc live"
proof -
  have "first_unavailable EACH_QUORUM ks (count_per_dc_endpoints ks nrs live pending) = None"
    using assms(1,3)
    by (auto simp: assure_sufficient_live_nodes_def assure_sufficient_live_nodes_each_quorum_def split: option.splits)
  then have "\<forall>(dc, c) \<in> set (count_per_dc_endpoints ks nrs live pending).
      local_quorum_for ks dc + pending_count c \<le> live_count c"
    by (simp only: first_unavailable_None)
  moreover have "(dc, \<lparr>live_count = in_dc ks dc live, pending_count = in_dc ks dc pending\<rparr>)
      \<in> set (count_per_dc_endpoints ks nrs live pending)"
    using assms(4) unfolding count_per_dc [OF assms(2)] by simp
  ultimately show ?thesis by fastforce
qed

section \<open>Properties\<close>

text \<open>C38. The two availability checks agree: without pending endpoints,
  \<open>assure_sufficient_live_nodes\<close> throws exactly if \<open>is_sufficient_live_nodes\<close> is false, at every level
  and under every strategy whose data centers are distinct.\<close>

theorem availability_checks_agree:
  assumes "\<And>nrs. strategy ks = Network_topology nrs \<Longrightarrow> distinct (get_datacenters nrs)"
  shows "assure_sufficient_live_nodes cl ks live [] = Inr () \<longleftrightarrow> is_sufficient_live_nodes cl ks live"
proof (cases "cl = EACH_QUORUM \<and> (\<exists>nrs. strategy ks = Network_topology nrs)")
  case True
  then obtain nrs where nrs: "strategy ks = Network_topology nrs" and cl: "cl = EACH_QUORUM" by blast
  have "assure_sufficient_live_nodes cl ks live [] = Inr () \<longleftrightarrow>
      first_unavailable cl ks (count_per_dc_endpoints ks nrs live []) = None"
    unfolding assure_sufficient_live_nodes_def assure_sufficient_live_nodes_each_quorum_def nrs cl
    by (simp split: option.splits)
  also have "\<dots> \<longleftrightarrow> is_sufficient_live_nodes cl ks live"
    unfolding first_unavailable_None is_sufficient_live_nodes_def nrs cl list_all_iff
    by (auto simp: count_per_dc [OF assms [OF nrs]])
  finally show ?thesis .
next
  case False
  then show ?thesis
    by (cases cl; cases "strategy ks")
      (auto simp: assure_sufficient_live_nodes_def assure_sufficient_live_nodes_each_quorum_def
        is_sufficient_live_nodes_def assure_default_def count_local_endpoints_def Let_def not_less
        Suc_le_eq)
qed

theorem availability_checks_agree_witness:
  "assure_sufficient_live_nodes EACH_QUORUM
     \<lparr>strategy = Network_topology [(''a'', 3), (''b'', 1)], get_datacenter = (\<lambda>e. if e < 4 then ''a'' else ''b''),
      local_addr = 1\<rparr> [1, 2, 7] [] = Inr () \<longleftrightarrow>
   is_sufficient_live_nodes EACH_QUORUM
     \<lparr>strategy = Network_topology [(''a'', 3), (''b'', 1)], get_datacenter = (\<lambda>e. if e < 4 then ''a'' else ''b''),
      local_addr = 1\<rparr> [1, 2, 7]"
  by (rule availability_checks_agree) (auto simp: get_datacenters_def)

text \<open>A node for which the gossiper has no hit rates is not treated as an old node, whose rate would be
  negative: its rate is zero.\<close>

lemma missing_state_is_no_old_node:
  "cluster_cache_hit_rates cf addr = None \<Longrightarrow> gossip_hit_rates cf addr = None \<Longrightarrow> local_addr ks \<noteq> addr \<Longrightarrow>
    hit_rate_of ks now addr cf = (0, cf)"
  by (simp add: hit_rate_of_def get_hit_rate_def max_hit_rate_def)

text \<open>The hit rates the calculation works with are at most 0.999, so that it never divides by zero.\<close>

lemma hit_rates_below_one: "\<forall>(ep, ht) \<in> set (fst (hit_rates_of ks now live cf)). ht \<le> max_hit_rate"
proof (induction ks now live cf rule: hit_rates_of.induct)
  case (2 ks now ep eps cf)
  have "fst (hit_rate_of ks now ep cf) \<le> max_hit_rate"
    by (auto simp: hit_rate_of_def max_hit_rate_def Let_def split: prod.splits)
  with 2 show ?case by (auto simp: Let_def split: prod.splits)
qed simp

lemma hit_rates_of_endpoints: "map fst (fst (hit_rates_of ks now live cf)) = live"
  by (induction ks now live cf rule: hit_rates_of.induct) (auto simp: Let_def split: prod.splits)

lemma choose_by_hit_rate_endpoints:
  assumes "choose_by_hit_rate ks now r1 r2 bf want_extra live cf = Some (eps, cf')" "distinct live" "bf < length live"
  shows "set eps \<subseteq> set live \<and> bf + of_bool want_extra \<le> length eps \<and> (want_extra \<longrightarrow> eps ! bf \<notin> set (take bf eps))"
proof -
  obtain epi cf1 where epi: "hit_rates_of ks now live cf = (epi, cf1)" by fastforce
  have fst: "map fst epi = live" using hit_rates_of_endpoints [of ks now live cf] epi by simp
  consider "eps = live"
    | me where "miss_equalizing_combination epi me bf want_extra r1 r2 = Some eps"
    using assms(1) by (auto simp: choose_by_hit_rate_def Let_def epi split: if_splits)
  then show ?thesis
  proof cases
    case 1
    then show ?thesis
      using assms(2,3) by (auto simp: in_set_conv_nth nth_eq_iff_index_eq of_bool_def)
  next
    case 2
    have "set live = fst ` set epi" using fst by (metis set_map)
    then show ?thesis using miss_equalizing_combination_nodes [OF 2] fst assms(2) by simp
  qed
qed

text \<open>The last steps of \<open>filter_for_query\<close>, with \<open>lv\<close> the candidates and \<open>bf\<close> the number to contact.\<close>

lemma chosen_endpoints:
  assumes "(if bf \<ge> length lv then Some (lv, None, cf)
      else (case cf of None \<Rightarrow> Some (lv, None)
            | Some cf \<Rightarrow> map_option (map_prod id Some) (choose_by_hit_rate ks now r1 r2 bf want_extra lv cf)) \<bind>
        (\<lambda>(lv, cf). Some (take bf lv, if want_extra then Some (lv ! bf) else None, cf))) = Some (eps, extra, cf')"
    and "distinct lv"
  shows "(cf = None \<longrightarrow> distinct eps) \<and> set eps \<subseteq> set lv \<and> min bf (length lv) \<le> length eps \<and>
    (\<forall>ep. extra = Some ep \<longrightarrow> ep \<in> set lv - set eps)"
proof (cases "bf \<ge> length lv")
  case False
  obtain chosen where ch: "set chosen \<subseteq> set lv" "bf + of_bool want_extra \<le> length chosen" "eps = take bf chosen"
    "extra = (if want_extra then Some (chosen ! bf) else None)" "want_extra \<longrightarrow> chosen ! bf \<notin> set (take bf chosen)"
    "cf = None \<longrightarrow> chosen = lv"
  proof (cases cf)
    case None
    have "lv ! bf \<notin> set (take bf lv)"
      using assms(2) False by (auto simp: in_set_conv_nth nth_eq_iff_index_eq)
    then show thesis using that [of lv] assms(1) None False by (simp add: of_bool_def)
  next
    case (Some c)
    then obtain chosen c' where ch: "choose_by_hit_rate ks now r1 r2 bf want_extra lv c = Some (chosen, c')"
        "eps = take bf chosen" "extra = (if want_extra then Some (chosen ! bf) else None)"
      using assms(1) False by (auto split: bind_splits)
    show thesis
      using that [of chosen] choose_by_hit_rate_endpoints [OF ch(1) assms(2)] ch(2,3) False Some by simp
  qed
  have "ep \<in> set lv - set eps" if "extra = Some ep" for ep
    using that ch nth_mem [of bf chosen] by (auto split: if_splits)
  then show ?thesis using ch(1,2,3,6) assms(2) by (auto dest: in_set_takeD)
qed (use assms in auto)

text \<open>A read contacts enough replicas: at a level valid for reads, if the live nodes suffice, then
  \<open>filter_for_query\<close> picks live endpoints, at least as many as the level blocks for, all in
  the local data center at a local level unless a global read repair was decided, and the reserve
  replica is a live endpoint that is not contacted. Without the choice by hit rate the endpoints are different.\<close>

lemma filter_for_query_sufficient:
  assumes "distinct live" "validate_for_read cl = Inr ()" "is_sufficient_live_nodes cl ks live"
    and "filter_for_query cl ks live rr want_extra cf now r1 r2 = Some (eps, extra, cf')"
  shows "(cf = None \<longrightarrow> distinct eps) \<and> set eps \<subseteq> set live \<and> block_for ks cl \<le> length eps \<and>
    (is_datacenter_local cl \<and> rr \<noteq> RRD_GLOBAL \<longrightarrow> (\<forall>ep \<in> set eps. is_local ks ep)) \<and>
    (\<forall>ep. extra = Some ep \<longrightarrow> ep \<in> set live - set eps)"
proof -
  let ?loc = "filter (is_local ks) live" and ?rem = "filter (\<lambda>ep. \<not> is_local ks ep) live"
  have part: "distinct (?loc @ ?rem)" "set (?loc @ ?rem) = set live" "length (?loc @ ?rem) = length live"
    using assms(1) sum_length_filter_compl [of "is_local ks" live] by auto
  have enough: "block_for ks cl \<le> length live"
    using assms(2,3) sum_length_filter_compl [of "is_local ks" live]
    by (cases cl) (auto simp: validate_for_read_def is_sufficient_live_nodes_def count_local_endpoints_def)
  have local: "block_for ks cl \<le> length ?loc" if "is_datacenter_local cl"
    using that assms(3) by (auto simp: is_datacenter_local_def is_sufficient_live_nodes_def count_local_endpoints_def)
  show ?thesis
  proof (cases "rr = RRD_GLOBAL")
    case True
    with assms(1,4) enough show ?thesis by (auto simp: filter_for_query_def)
  next
    case False
    define lv where "lv = (if rr = RRD_DC_LOCAL \<or> is_datacenter_local cl
      then (if is_datacenter_local cl then ?loc else ?loc @ ?rem) else live)"
    define bf where "bf = (if rr = RRD_DC_LOCAL then max (block_for ks cl) (length ?loc) else block_for ks cl)"
    have lv: "distinct lv" "set lv \<subseteq> set live" "block_for ks cl \<le> length lv"
      "is_datacenter_local cl \<Longrightarrow> \<forall>ep \<in> set lv. is_local ks ep"
      using part assms(1) enough local by (auto simp: lv_def)
    have bf: "block_for ks cl \<le> bf" by (simp add: bf_def)
    have "(if bf \<ge> length lv then Some (lv, None, cf)
        else (case cf of None \<Rightarrow> Some (lv, None)
              | Some cf \<Rightarrow> map_option (map_prod id Some) (choose_by_hit_rate ks now r1 r2 bf want_extra lv cf)) \<bind>
          (\<lambda>(lv, cf). Some (take bf lv, if want_extra then Some (lv ! bf) else None, cf))) = Some (eps, extra, cf')"
      using False assms(4) by (simp add: filter_for_query_def Let_def lv_def bf_def cong: if_cong option.case_cong)
    from chosen_endpoints [OF this lv(1)] show ?thesis using lv bf by auto
  qed
qed

text \<open>A quorum read of five replicas, on a coordinator that is none of them, that asks two replicas, one of them
  twice.\<close>

lemma quorum_read_repeats_replica:
  defines "ks \<equiv> \<lparr>strategy = Plain_strategy 5, get_datacenter = (\<lambda>_. ''dc''), local_addr = 9\<rparr>"
    and "cf \<equiv> \<lparr>global_cache_hit_rate = 0, cluster_cache_hit_rates = Map.empty,
      gossip_hit_rates = (\<lambda>ep. Some (if ep = 1 then 49/50 else if ep = 2 then 24/25 else 4/5))\<rparr>"
  shows "\<exists>cf'. filter_for_query QUORUM ks [1, 2, 3, 4, 5] RRD_NONE False (Some cf) 0 (1/10) 0 =
    Some ([1, 2, 2], None, Some cf')"
proof -
  have "fst (hit_rates_of ks 0 [1, 2, 3, 4, 5] cf) = [(1, 49/50), (2, 24/25), (3, 4/5), (4, 4/5), (5, 4/5)]"
    by (simp add: hit_rate_of_def get_hit_rate_def set_hit_rate_def max_hit_rate_def ks_def cf_def)
  then obtain cf' where h: "hit_rates_of ks 0 [1, 2, 3, 4, 5] cf =
      ([(1, 49/50), (2, 24/25), (3, 4/5), (4, 4/5), (5, 4/5)], cf')"
    by (metis surjective_pairing)
  have "choose_by_hit_rate ks 0 (1/10) 0 3 False [1, 2, 3, 4, 5] cf = Some ([1, 2, 2], cf')"
    unfolding choose_by_hit_rate_def h by (simp add: combination_repeats_node Let_def ks_def)
  moreover have "block_for ks QUORUM = 3" by (simp add: quorum_for_def ks_def)
  ultimately show ?thesis by (simp add: filter_for_query_def is_datacenter_local_def Let_def del: block_for.simps)
qed

end
