(* ===== verification/Storage_Proxy.thy ===== *)
theory Storage_Proxy
  imports Consistency_Level "HOL-Library.AList"
begin

text \<open>
  The write path of the coordinator (\<open>src/Scylla-moon/service/storage_proxy.hh\<close> and \<open>.cc\<close>): the
  write response handlers that count acknowledgements and fulfil the promise the client waits on,
  throttling, the expiry timer, the preparation and the sending of writes; and the parts added for
  commit versions: \<open>moon_parallel_for_each\<close> (\<open>seastar/core/future-util.hh\<close>), which collects the
  versions of several writes, and \<open>moon_mutate_end\<close>, which hands the result to the client.

  A handler is owned by the map \<open>_response_handlers\<close> and by the continuations of running sends. The
  record \<open>proxy\<close> holds the handlers of the map, the handlers erased from it that a send still refers
  to (\<open>detached\<close>), the number of such references, and the values the promises were set to
  (\<open>ready\<close>, in the order they were set). Failed assertions and dereferences of \<open>end()\<close> are
  \<^const>\<open>None\<close>. The counters of handlers, answers and bytes are natural numbers: that no
  subtraction goes below zero is proved, and that they stay below the width of \<open>size_t\<close> is not modelled. Metrics
  other than the counters used for throttling, tracing and logging are left out.
\<close>

section \<open>Write response handlers\<close>

datatype handler_kind =
    Write_response_handler
  | Datacenter_write_response_handler
  | Datacenter_sync_write_response_handler "(datacenter \<times> nat) list"

record write_handler =
  handler_cl :: consistency_level
  total_block_for :: nat
  is_counter_write :: bool
  mutation_size :: nat
  targets :: "endpoint list"
  pending_endpoints :: nat
  dead_endpoints :: "endpoint list"
  cl_acks :: nat
  cl_achieved :: bool
  timedout :: bool
  throttled :: bool
  commit_version :: u32
  kind :: handler_kind

datatype outcome =
    Ready u32
  | Failed request_error

type_synonym response_id = nat

record proxy =
  next_response_id :: response_id
  response_handlers :: "response_id \<rightharpoonup> write_handler"
  detached :: "response_id \<rightharpoonup> write_handler"
  references :: "response_id \<Rightarrow> nat"
  throttled_writes :: "response_id list"
  writes :: nat
  background_writes :: nat
  background_write_bytes :: nat
  queued_write_bytes :: nat
  total_memory :: nat
  ready :: "(response_id \<times> outcome) list"

definition need_throttle_writes :: "proxy \<Rightarrow> bool" where
  "need_throttle_writes p \<longleftrightarrow>
     background_write_bytes p > total_memory p div 10 \<or> queued_write_bytes p > 6 * 1024 * 1024"

definition set_ready :: "response_id \<Rightarrow> outcome \<Rightarrow> proxy \<Rightarrow> proxy" where
  "set_ready i out p = p\<lparr>ready := ready p @ [(i, out)]\<rparr>"

definition handler_unthrottle :: "response_id \<Rightarrow> write_handler \<Rightarrow> proxy \<Rightarrow> write_handler \<times> proxy" where
  "handler_unthrottle i h p =
     (h\<lparr>throttled := False\<rparr>,
      set_ready i (Ready (commit_version h))
        (p\<lparr>background_writes := background_writes p + 1,
           background_write_bytes := background_write_bytes p + mutation_size h\<rparr>))"

definition signal_nr :: "nat \<Rightarrow> response_id \<Rightarrow> write_handler \<Rightarrow> proxy \<Rightarrow> write_handler \<times> proxy" where
  "signal_nr nr i h p =
     (let h = h\<lparr>cl_acks := cl_acks h + nr\<rparr> in
      if \<not> cl_achieved h \<and> cl_acks h \<ge> total_block_for h
      then let h = h\<lparr>cl_achieved := True\<rparr> in
           if need_throttle_writes p
           then (h\<lparr>throttled := True\<rparr>, p\<lparr>throttled_writes := throttled_writes p @ [i]\<rparr>)
           else handler_unthrottle i h p
      else (h, p))"

text \<open>The virtual \<open>signal(from)\<close> of the three handler classes.\<close>

definition handler_signal :: "cluster \<Rightarrow> endpoint \<Rightarrow> response_id \<Rightarrow> write_handler \<Rightarrow> proxy \<Rightarrow>
    (write_handler \<times> proxy) option" where
  "handler_signal ks from i h p =
     (case kind h of
        Write_response_handler \<Rightarrow> Some (signal_nr 1 i h p)
      | Datacenter_write_response_handler \<Rightarrow>
          Some (if from = local_addr ks \<or> is_local ks from then signal_nr 1 i h p else (h, p))
      | Datacenter_sync_write_response_handler dc_responses \<Rightarrow>
          (case map_of dc_responses (get_datacenter ks from) of
             None \<Rightarrow> None
           | Some n \<Rightarrow>
               Some (if n > 0
                     then signal_nr 1 i
                            (h\<lparr>kind := Datacenter_sync_write_response_handler
                                 (AList.update (get_datacenter ks from) (n - 1) dc_responses)\<rparr>) p
                     else (h, p))))"

definition on_timeout :: "write_handler \<Rightarrow> write_handler" where
  "on_timeout h = h\<lparr>timedout := True\<rparr>"

definition handler_response :: "cluster \<Rightarrow> endpoint \<Rightarrow> response_id \<Rightarrow> write_handler \<Rightarrow> proxy \<Rightarrow>
    (bool \<times> write_handler \<times> proxy) option" where
  "handler_response ks from i h p =
     (case handler_signal ks from i h p of
        None \<Rightarrow> None
      | Some (h, p) \<Rightarrow>
          if from \<notin> set (targets h) then None
          else let h = h\<lparr>targets := remove1 from (targets h)\<rparr> in Some (targets h = [], h, p))"

section \<open>The table of handlers\<close>

fun unthrottle_loop :: "response_id list \<Rightarrow> proxy \<Rightarrow> proxy" where
  "unthrottle_loop [] p = p\<lparr>throttled_writes := []\<rparr>"
| "unthrottle_loop (i # ids) p =
     (if need_throttle_writes p then p\<lparr>throttled_writes := i # ids\<rparr>
      else unthrottle_loop ids
             (case response_handlers p i of
                None \<Rightarrow> p
              | Some h \<Rightarrow> (case handler_unthrottle i h p of
                            (h, p) \<Rightarrow> p\<lparr>response_handlers := (response_handlers p)(i \<mapsto> h)\<rparr>)))"

definition proxy_unthrottle :: "proxy \<Rightarrow> proxy" where
  "proxy_unthrottle p = unthrottle_loop (throttled_writes p) p"

text \<open>The destructor of a handler; a promise that was never set is broken.\<close>

definition destroy_handler :: "response_id \<Rightarrow> write_handler \<Rightarrow> proxy \<Rightarrow> proxy" where
  "destroy_handler i h p =
     (let p = p\<lparr>writes := writes p - 1\<rparr> in
      if cl_achieved h
      then if throttled h then set_ready i (Ready (commit_version h)) p
           else proxy_unthrottle
                  (p\<lparr>background_writes := background_writes p - 1,
                     background_write_bytes := background_write_bytes p - mutation_size h\<rparr>)
      else if timedout h
      then set_ready i (Failed (Write_timeout (handler_cl h) (cl_acks h) (total_block_for h))) p
      else set_ready i (Failed Broken_promise) p)"

definition remove_response_handler :: "response_id \<Rightarrow> proxy \<Rightarrow> proxy" where
  "remove_response_handler i p =
     (case response_handlers p i of
        None \<Rightarrow> p
      | Some h \<Rightarrow>
          let p = p\<lparr>response_handlers := (response_handlers p)(i := None)\<rparr> in
          if references p i = 0 then destroy_handler i h p
          else p\<lparr>detached := (detached p)(i \<mapsto> h)\<rparr>)"

definition release_reference :: "response_id \<Rightarrow> proxy \<Rightarrow> proxy" where
  "release_reference i p =
     (let p = p\<lparr>references := (references p)(i := references p i - 1)\<rparr> in
      case detached p i of
        Some h \<Rightarrow> if references p i = 0
                  then destroy_handler i h (p\<lparr>detached := (detached p)(i := None)\<rparr>) else p
      | None \<Rightarrow> p)"

definition got_response :: "cluster \<Rightarrow> response_id \<Rightarrow> endpoint \<Rightarrow> u32 \<Rightarrow> proxy \<Rightarrow> proxy option" where
  "got_response ks i from version p =
     (case response_handlers p i of
        None \<Rightarrow> Some p
      | Some h \<Rightarrow>
          (case handler_response ks from i (h\<lparr>commit_version := version\<rparr>) p of
             None \<Rightarrow> None
           | Some (is_last, h, p) \<Rightarrow>
               let p = p\<lparr>response_handlers := (response_handlers p)(i \<mapsto> h)\<rparr> in
               Some (if is_last then remove_response_handler i p else p)))"

text \<open>Hints are switched off in \<open>should_hint\<close>.\<close>

definition should_hint :: "cluster \<Rightarrow> endpoint \<Rightarrow> bool" where
  "should_hint ks ep = (if ep = local_addr ks then False else False)"

definition submit_hint :: "cluster \<Rightarrow> endpoint \<Rightarrow> bool option" where
  "submit_hint ks target = (if target = local_addr ks then Some False else None)"

fun count_hints :: "cluster \<Rightarrow> endpoint list \<Rightarrow> nat option" where
  "count_hints ks [] = Some 0"
| "count_hints ks (ep # eps) =
     (case submit_hint ks ep of
        None \<Rightarrow> None
      | Some b \<Rightarrow> map_option (\<lambda>n. if b then Suc n else n) (count_hints ks eps))"

definition hint_to_dead_endpoints :: "cluster \<Rightarrow> endpoint list \<Rightarrow> nat option" where
  "hint_to_dead_endpoints ks eps = count_hints ks (filter (should_hint ks) eps)"

definition hint_handler :: "cluster \<Rightarrow> response_id \<Rightarrow> consistency_level \<Rightarrow> proxy \<Rightarrow> proxy option" where
  "hint_handler ks i cl p =
     (case response_handlers p i of
        None \<Rightarrow> None
      | Some h \<Rightarrow>
          map_option (\<lambda>hints.
            if cl = ANY
            then (case signal_nr hints i h p of (h, p) \<Rightarrow> p\<lparr>response_handlers := (response_handlers p)(i \<mapsto> h)\<rparr>)
            else p) (hint_to_dead_endpoints ks (dead_endpoints h)))"

text \<open>The callback of the expiry timer.\<close>

definition expire_handler :: "cluster \<Rightarrow> response_id \<Rightarrow> proxy \<Rightarrow> proxy option" where
  "expire_handler ks i p =
     (case response_handlers p i of
        None \<Rightarrow> None
      | Some h \<Rightarrow>
          map_option (\<lambda>(h, p).
            remove_response_handler i (p\<lparr>response_handlers := (response_handlers p)(i \<mapsto> on_timeout h)\<rparr>))
            (if cl_achieved h \<or> handler_cl h = ANY
             then map_option (\<lambda>hints. signal_nr hints i h p) (hint_to_dead_endpoints ks (targets h))
             else Some (h, p)))"

section \<open>Creating handlers\<close>

fun dc_response_loop :: "cluster \<Rightarrow> endpoint list \<Rightarrow> endpoint list \<Rightarrow> (datacenter \<times> nat) list \<Rightarrow> nat \<Rightarrow>
    (datacenter \<times> nat) list \<times> nat" where
  "dc_response_loop ks pending [] dc_responses n = (dc_responses, n)"
| "dc_response_loop ks pending (target # ts) dc_responses n =
     (let dc = get_datacenter ks target in
      case map_of dc_responses dc of
        Some _ \<Rightarrow> dc_response_loop ks pending ts dc_responses n
      | None \<Rightarrow>
          let pending_for_dc = length (filter (\<lambda>ep. get_datacenter ks ep = dc) pending) in
          dc_response_loop ks pending ts (dc_responses @ [(dc, local_quorum_for ks dc + pending_for_dc)])
            (n + pending_for_dc))"

definition abstract_handler :: "cluster \<Rightarrow> consistency_level \<Rightarrow> bool \<Rightarrow> nat \<Rightarrow> endpoint list \<Rightarrow> nat \<Rightarrow> endpoint list \<Rightarrow>
    handler_kind \<Rightarrow> write_handler" where
  "abstract_handler ks cl is_counter msize ts pending dead k =
     \<lparr>handler_cl = cl, total_block_for = block_for ks cl + pending, is_counter_write = is_counter,
      mutation_size = msize, targets = ts, pending_endpoints = pending, dead_endpoints = dead, cl_acks = 0,
      cl_achieved = False, timedout = False, throttled = False, commit_version = 0, kind = k\<rparr>"

definition new_handler :: "cluster \<Rightarrow> consistency_level \<Rightarrow> bool \<Rightarrow> nat \<Rightarrow> endpoint list \<Rightarrow> endpoint list \<Rightarrow>
    endpoint list \<Rightarrow> write_handler" where
  "new_handler ks cl is_counter msize ts pending dead =
     (if is_datacenter_local cl
      then abstract_handler ks cl is_counter msize ts (count_local_endpoints ks pending) dead
             Datacenter_write_response_handler
      else case (cl, strategy ks) of
        (EACH_QUORUM, Network_topology _) \<Rightarrow>
          (case dc_response_loop ks pending ts [] 0 of
             (dc_responses, n) \<Rightarrow>
               (abstract_handler ks cl is_counter msize ts 0 dead
                  (Datacenter_sync_write_response_handler dc_responses))\<lparr>pending_endpoints := n\<rparr>)
      | _ \<Rightarrow> abstract_handler ks cl is_counter msize ts (length pending) dead Write_response_handler)"

definition register_response_handler :: "write_handler \<Rightarrow> proxy \<Rightarrow> response_id \<times> proxy" where
  "register_response_handler h p =
     (next_response_id p,
      p\<lparr>next_response_id := next_response_id p + 1, writes := writes p + 1,
        response_handlers := (response_handlers p)(next_response_id p \<mapsto> h)\<rparr>)"

text \<open>What a write knows of its token: the natural and pending endpoints and which nodes are alive.\<close>

record write_request =
  natural_endpoints :: "endpoint list"
  pending_for_token :: "endpoint list"
  is_alive :: "endpoint \<Rightarrow> bool"
  request_size :: nat

definition cannot_hint :: "cluster \<Rightarrow> nat \<Rightarrow> nat \<Rightarrow> (endpoint \<Rightarrow> nat) \<Rightarrow> endpoint \<Rightarrow> bool" where
  "cannot_hint ks total_hints max_hints in_progress target \<longleftrightarrow>
     total_hints > max_hints \<and> (in_progress target > 0 \<and> should_hint ks target)"

definition create_write_response_handler :: "cluster \<Rightarrow> nat \<Rightarrow> nat \<Rightarrow> (endpoint \<Rightarrow> nat) \<Rightarrow> consistency_level \<Rightarrow> bool \<Rightarrow>
    write_request \<Rightarrow> proxy \<Rightarrow> request_error + (response_id \<times> proxy)" where
  "create_write_response_handler ks total_hints max_hints in_progress cl is_counter w p =
     (let pend = filter (\<lambda>ep. ep \<notin> set (natural_endpoints w)) (pending_for_token w);
          all_eps = natural_endpoints w @ pend in
      if \<exists>ep \<in> set all_eps. cannot_hint ks total_hints max_hints in_progress ep then Inl Overloaded
      else
        let live = remdups (filter (is_alive w) all_eps); dead = filter (\<lambda>ep. \<not> is_alive w ep) all_eps in
        case assure_sufficient_live_nodes cl ks live pend of
          Inl e \<Rightarrow> Inl e
        | Inr _ \<Rightarrow> Inr (register_response_handler (new_handler ks cl is_counter (request_size w) live pend dead) p))"

text \<open>\<open>mutate_prepare\<close>: if a handler cannot be created, the destructors of the
  \<open>unique_response_handler\<close> objects remove those already registered.\<close>

fun mutate_prepare :: "(write_request \<Rightarrow> proxy \<Rightarrow> request_error + (response_id \<times> proxy)) \<Rightarrow> write_request list \<Rightarrow>
    response_id list \<Rightarrow> proxy \<Rightarrow> (request_error + response_id list) \<times> proxy" where
  "mutate_prepare create_handler [] ids p = (Inr ids, p)"
| "mutate_prepare create_handler (w # ws) ids p =
     (case create_handler w p of
        Inl e \<Rightarrow> (Inl e, fold remove_response_handler ids p)
      | Inr (i, p) \<Rightarrow> mutate_prepare create_handler ws (ids @ [i]) p)"

section \<open>Sending\<close>

datatype send =
    Local_write
  | Remote_write endpoint "endpoint list"

fun add_to_group :: "datacenter \<Rightarrow> endpoint \<Rightarrow> (datacenter \<times> endpoint list) list \<Rightarrow> (datacenter \<times> endpoint list) list" where
  "add_to_group dc ep [] = [(dc, [ep])]"
| "add_to_group dc ep ((d, eps) # gs) = (if d = dc then (d, eps @ [ep]) # gs else (d, eps) # add_to_group dc ep gs)"

definition dc_groups :: "cluster \<Rightarrow> bool \<Rightarrow> endpoint list \<Rightarrow> endpoint list list" where
  "dc_groups ks read_repair_write ts =
     (let is_single = (\<lambda>ep. read_repair_write \<or> is_local ks ep) in
      map (\<lambda>ep. [ep]) (filter is_single ts) @
      map snd (foldl (\<lambda>gs ep. add_to_group (get_datacenter ks ep) ep gs) [] (filter (\<lambda>ep. \<not> is_single ep) ts)))"

text \<open>One group: the last endpoint coordinates and forwards to the others. A write without a mutation
  for it, or a counter write that the local node already made, is answered at once.\<close>

definition send_to_group :: "cluster \<Rightarrow> (endpoint \<Rightarrow> bool) \<Rightarrow> response_id \<Rightarrow> write_handler \<Rightarrow> endpoint list \<Rightarrow>
    proxy \<Rightarrow> (send list \<times> proxy) option" where
  "send_to_group ks has_mutation i h grp p =
     (let coordinator = last grp in
      if \<not> has_mutation coordinator \<or> (is_counter_write h \<and> coordinator = local_addr ks)
      then map_option (Pair []) (got_response ks i coordinator 0 p)
      else let p = p\<lparr>references := (references p)(i := references p i + 1)\<rparr> in
           if coordinator = local_addr ks then Some ([Local_write], p)
           else Some ([Remote_write coordinator (butlast grp)],
                  p\<lparr>queued_write_bytes := queued_write_bytes p + mutation_size h\<rparr>))"

fun send_loop :: "cluster \<Rightarrow> (endpoint \<Rightarrow> bool) \<Rightarrow> response_id \<Rightarrow> write_handler \<Rightarrow> endpoint list list \<Rightarrow> proxy \<Rightarrow>
    (send list \<times> proxy) option" where
  "send_loop ks has_mutation i h [] p = Some ([], p)"
| "send_loop ks has_mutation i h (g # gs) p =
     (case send_to_group ks has_mutation i h g p of
        None \<Rightarrow> None
      | Some (sent, p) \<Rightarrow> map_option (\<lambda>(s, p). (sent @ s, p)) (send_loop ks has_mutation i h gs p))"

definition send_to_live_endpoints :: "cluster \<Rightarrow> bool \<Rightarrow> (endpoint \<Rightarrow> bool) \<Rightarrow> response_id \<Rightarrow> proxy \<Rightarrow>
    (send list \<times> proxy) option" where
  "send_to_live_endpoints ks read_repair_write has_mutation i p =
     (case response_handlers p i of
        None \<Rightarrow> None
      | Some h \<Rightarrow>
          map_option (\<lambda>(sent, p). (sent, release_reference i p))
            (send_loop ks has_mutation i h (dc_groups ks read_repair_write (targets h))
               (p\<lparr>references := (references p)(i := references p i + 1)\<rparr>)))"

text \<open>The loop of \<open>moon_mutate_begin\<close>: hints first, then the sends; it yields the messages sent.\<close>

fun moon_mutate_begin :: "cluster \<Rightarrow> consistency_level \<Rightarrow> bool \<Rightarrow> (response_id \<Rightarrow> endpoint \<Rightarrow> bool) \<Rightarrow> response_id list \<Rightarrow>
    proxy \<Rightarrow> (send list \<times> proxy) option" where
  "moon_mutate_begin ks cl read_repair_write has_mutation [] p = Some ([], p)"
| "moon_mutate_begin ks cl read_repair_write has_mutation (i # ids) p =
     (case hint_handler ks i cl p of
        None \<Rightarrow> None
      | Some p \<Rightarrow>
          (case send_to_live_endpoints ks read_repair_write (has_mutation i) i p of
             None \<Rightarrow> None
           | Some (sent, p) \<Rightarrow>
               map_option (\<lambda>(s, p). (sent @ s, p)) (moon_mutate_begin ks cl read_repair_write has_mutation ids p)))"

text \<open>The end of a remote send (the \<open>finally\<close> continuation) and of the local write.\<close>

definition remote_write_done :: "response_id \<Rightarrow> nat \<Rightarrow> proxy \<Rightarrow> proxy" where
  "remote_write_done i msize p =
     release_reference i (proxy_unthrottle (p\<lparr>queued_write_bytes := queued_write_bytes p - msize\<rparr>))"

definition local_write_done :: "cluster \<Rightarrow> response_id \<Rightarrow> u32 \<Rightarrow> proxy \<Rightarrow> proxy option" where
  "local_write_done ks i version p = map_option (release_reference i) (got_response ks i (local_addr ks) version p)"

section \<open>Collecting commit versions\<close>

record moon_parallel_for_each_state =
  ex :: "request_error option"
  waiting :: nat
  max_commit_version :: u32
  pr :: "outcome list"

definition pfe_init :: moon_parallel_for_each_state where
  "pfe_init = \<lparr>ex = None, waiting = 0, max_commit_version = 0, pr = []\<rparr>"

definition pfe_complete :: "u32 \<Rightarrow> moon_parallel_for_each_state \<Rightarrow> moon_parallel_for_each_state" where
  "pfe_complete v s =
     (let s = (if max_commit_version s < v then s\<lparr>max_commit_version := v\<rparr> else s);
          s = s\<lparr>waiting := waiting s - 1\<rparr>
      in if waiting s = 0
         then s\<lparr>pr := pr s @ [case ex s of Some e \<Rightarrow> Failed e | None \<Rightarrow> Ready (max_commit_version s)]\<rparr>
         else s)"

text \<open>The continuation of one call of the function, with its result.\<close>

definition pfe_result :: "request_error + u32 \<Rightarrow> moon_parallel_for_each_state \<Rightarrow> moon_parallel_for_each_state" where
  "pfe_result r s =
     (case r of
        Inl e \<Rightarrow> pfe_complete 0 (if ex s = None then s\<lparr>ex := Some e\<rparr> else s)
      | Inr v \<Rightarrow> pfe_complete v s)"

text \<open>What happens to the state: the loop starts a call, a call completes (at once or later), the loop ends.\<close>

datatype pfe_event = Launch | Complete "request_error + u32" | Loop_end

fun pfe_step :: "pfe_event \<Rightarrow> moon_parallel_for_each_state \<Rightarrow> moon_parallel_for_each_state" where
  "pfe_step Launch s = s\<lparr>waiting := waiting s + 1\<rparr>"
| "pfe_step (Complete r) s = pfe_result r s"
| "pfe_step Loop_end s = pfe_complete 0 s"

definition moon_parallel_for_each :: "pfe_event list \<Rightarrow> moon_parallel_for_each_state" where
  "moon_parallel_for_each events = fold pfe_step events (pfe_init\<lparr>waiting := 1\<rparr>)"

text \<open>\<open>moon_mutate_end\<close>: the commit version written for the caller and the future's value.\<close>

definition moon_mutate_end :: "outcome \<Rightarrow> u32 \<times> (request_error + unit)" where
  "moon_mutate_end result =
     (case result of
        Ready v \<Rightarrow> (v, Inr ())
      | Failed e \<Rightarrow> (1, Inl e))"

text \<open>\<open>moon_mutate_internal\<close> and \<open>do_moon_mutate\<close> after the writes have ended, with the outcome of the
  plain mutations (none if there are none) and of the counter mutations. The version is read from a
  variable without initial value, \<^const>\<open>None\<close>.\<close>

definition moon_mutate_internal :: "u32 option \<Rightarrow> outcome option \<Rightarrow> u32 option \<times> (request_error + unit)" where
  "moon_mutate_internal version result =
     (case result of
        None \<Rightarrow> (version, Inr ())
      | Some r \<Rightarrow> (case moon_mutate_end r of (v, f) \<Rightarrow> (Some v, f)))"

definition do_moon_mutate :: "request_error + unit \<Rightarrow> outcome option \<Rightarrow> request_error + u32 option" where
  "do_moon_mutate counters result =
     (case moon_mutate_internal None result of
        (version, f) \<Rightarrow>
          (case counters of
             Inl e \<Rightarrow> Inl e
           | Inr _ \<Rightarrow> (case f of Inl e \<Rightarrow> Inl e | Inr _ \<Rightarrow> Inr version)))"

section \<open>Reachable states\<close>

definition proxy_start :: "nat \<Rightarrow> proxy" where
  "proxy_start mem =
     \<lparr>next_response_id = 1, response_handlers = Map.empty, detached = Map.empty, references = (\<lambda>_. 0),
      throttled_writes = [], writes = 0, background_writes = 0, background_write_bytes = 0,
      queued_write_bytes = 0, total_memory = mem, ready = []\<rparr>"

text \<open>The states the coordinator can reach, together with the endpoints that answered each write and
  the handler each write started with.\<close>

inductive reach :: "cluster \<Rightarrow> proxy \<Rightarrow> (response_id \<Rightarrow> endpoint set) \<Rightarrow> (response_id \<rightharpoonup> write_handler) \<Rightarrow> bool"
  for ks where
  reach_start: "reach ks (proxy_start mem) (\<lambda>_. {}) Map.empty"
| reach_create: "\<lbrakk>reach ks p acked started;
    create_write_response_handler ks total_hints max_hints in_progress cl is_counter w p = Inr (i, p')\<rbrakk> \<Longrightarrow>
    reach ks p' acked (started(i := response_handlers p' i))"
| reach_response: "\<lbrakk>reach ks p acked started; i < next_response_id p; got_response ks i ep v p = Some p'\<rbrakk> \<Longrightarrow>
    reach ks p' (acked(i := insert ep (acked i))) started"
| reach_hint: "\<lbrakk>reach ks p acked started; hint_handler ks i cl p = Some p'\<rbrakk> \<Longrightarrow> reach ks p' acked started"
| reach_expire: "\<lbrakk>reach ks p acked started; expire_handler ks i p = Some p'\<rbrakk> \<Longrightarrow> reach ks p' acked started"
| reach_remove: "reach ks p acked started \<Longrightarrow> reach ks (remove_response_handler i p) acked started"
| reach_reference: "\<lbrakk>reach ks p acked started; response_handlers p i \<noteq> None\<rbrakk> \<Longrightarrow>
    reach ks (p\<lparr>references := (references p)(i := references p i + 1)\<rparr>) acked started"
| reach_release: "\<lbrakk>reach ks p acked started; references p i > 0\<rbrakk> \<Longrightarrow>
    reach ks (release_reference i p) acked started"
| reach_queue: "reach ks p acked started \<Longrightarrow> reach ks (p\<lparr>queued_write_bytes := q\<rparr>) acked started"
| reach_unthrottle: "reach ks p acked started \<Longrightarrow> reach ks (proxy_unthrottle p) acked started"

section \<open>The invariant of the table\<close>

definition live :: "proxy \<Rightarrow> response_id \<rightharpoonup> write_handler" where
  "live p = detached p ++ response_handlers p"

lemma live_update [simp]:
  "live (p\<lparr>next_response_id := n\<rparr>) = live p" "live (p\<lparr>references := rf\<rparr>) = live p"
  "live (p\<lparr>throttled_writes := ids\<rparr>) = live p" "live (p\<lparr>writes := n\<rparr>) = live p"
  "live (p\<lparr>background_writes := n\<rparr>) = live p" "live (p\<lparr>background_write_bytes := n\<rparr>) = live p"
  "live (p\<lparr>queued_write_bytes := n\<rparr>) = live p" "live (p\<lparr>ready := rs\<rparr>) = live p"
  "live (p\<lparr>response_handlers := m(i \<mapsto> h)\<rparr>) = (live (p\<lparr>response_handlers := m\<rparr>))(i \<mapsto> h)"
  by (simp_all add: live_def)

lemma live_registered [simp]: "response_handlers p i = Some h \<Longrightarrow> live p i = Some h"
  by (simp add: live_def map_add_def)

lemma live_None_iff: "live p i = None \<longleftrightarrow> response_handlers p i = None \<and> detached p i = None"
  by (auto simp: live_def)

lemma live_Some_iff:
  "live p i = Some h \<longleftrightarrow> response_handlers p i = Some h \<or> response_handlers p i = None \<and> detached p i = Some h"
  by (auto simp: live_def map_add_Some_iff)

abbreviation in_background :: "write_handler \<Rightarrow> bool" where
  "in_background h \<equiv> cl_achieved h \<and> \<not> throttled h"

definition over :: "(write_handler \<Rightarrow> nat) \<Rightarrow> proxy \<Rightarrow> nat" where
  "over f p = (\<Sum>i < next_response_id p. case live p i of None \<Rightarrow> 0 | Some h \<Rightarrow> f h)"

abbreviation background_size :: "write_handler \<Rightarrow> nat" where
  "background_size h \<equiv> if in_background h then mutation_size h else 0"

definition counters_ok :: "proxy \<Rightarrow> bool" where
  "counters_ok p \<longleftrightarrow>
     writes p = over (\<lambda>_. 1) p \<and> background_writes p = over (\<lambda>h. of_bool (in_background h)) p \<and>
     background_write_bytes p = over background_size p"

text \<open>The endpoints whose answer counts towards the consistency level.\<close>

definition counts :: "cluster \<Rightarrow> write_handler \<Rightarrow> endpoint \<Rightarrow> bool" where
  "counts ks h ep \<longleftrightarrow> (kind h = Datacenter_write_response_handler \<longrightarrow> is_local ks ep)"

definition enough_acks :: "cluster \<Rightarrow> endpoint set \<Rightarrow> write_handler \<Rightarrow> bool" where
  "enough_acks ks eps h \<longleftrightarrow> total_block_for h \<le> card {ep \<in> set (targets h). ep \<in> eps \<and> counts ks h ep}"

definition handler_ok :: "cluster \<Rightarrow> endpoint set \<Rightarrow> write_handler \<Rightarrow> write_handler \<Rightarrow> bool" where
  "handler_ok ks eps h0 h \<longleftrightarrow>
     total_block_for h = total_block_for h0 \<and> distinct (targets h) \<and> set (targets h) \<subseteq> set (targets h0) \<and>
     set (targets h0) - set (targets h) \<subseteq> eps \<and>
     (kind h = Datacenter_write_response_handler \<longleftrightarrow> kind h0 = Datacenter_write_response_handler) \<and>
     cl_acks h \<le> card {ep \<in> set (targets h0) - set (targets h). counts ks h0 ep} \<and>
     (throttled h \<longrightarrow> cl_achieved h) \<and> (cl_achieved h \<longrightarrow> total_block_for h \<le> cl_acks h)"

definition id_ok :: "cluster \<Rightarrow> proxy \<Rightarrow> (response_id \<Rightarrow> endpoint set) \<Rightarrow> (response_id \<rightharpoonup> write_handler) \<Rightarrow>
    response_id \<Rightarrow> bool" where
  "id_ok ks p acked started i \<longleftrightarrow>
     (started i \<noteq> None \<longrightarrow> i < next_response_id p) \<and>
     (started i = None \<longrightarrow> live p i = None \<and> count_list (map fst (ready p)) i = 0 \<and>
        count_list (throttled_writes p) i = 0) \<and>
     (response_handlers p i = None \<or> detached p i = None) \<and> (detached p i \<noteq> None \<longrightarrow> references p i > 0) \<and>
     count_list (throttled_writes p) i \<le> 1 \<and>
     (\<forall>h. response_handlers p i = Some h \<longrightarrow> count_list (throttled_writes p) i = of_bool (throttled h)) \<and>
     (\<forall>h. live p i = Some h \<longrightarrow> handler_ok ks (acked i) (the (started i)) h \<and>
        count_list (map fst (ready p)) i = of_bool (in_background h)) \<and>
     (started i \<noteq> None \<and> live p i = None \<longrightarrow> count_list (map fst (ready p)) i = 1) \<and>
     (\<forall>v. (i, Ready v) \<in> set (ready p) \<longrightarrow> enough_acks ks (acked i) (the (started i)))"

definition proxy_ok :: "cluster \<Rightarrow> proxy \<Rightarrow> (response_id \<Rightarrow> endpoint set) \<Rightarrow> (response_id \<rightharpoonup> write_handler) \<Rightarrow> bool" where
  "proxy_ok ks p acked started \<longleftrightarrow> counters_ok p \<and> (\<forall>i. id_ok ks p acked started i)"

lemma handler_ok_enough:
  assumes "handler_ok ks eps h0 h" "cl_achieved h"
  shows "enough_acks ks eps h0"
proof -
  have "card {ep \<in> set (targets h0) - set (targets h). counts ks h0 ep} \<le>
      card {ep \<in> set (targets h0). ep \<in> eps \<and> counts ks h0 ep}"
    using assms(1) by (intro card_mono) (auto simp: handler_ok_def)
  with assms show ?thesis by (simp add: handler_ok_def enough_acks_def)
qed

lemma over_update:
  assumes "next_response_id q = next_response_id p" "live q = (live p)(i := x)" "i < next_response_id p"
  shows "over f q + (case live p i of None \<Rightarrow> 0 | Some h \<Rightarrow> f h) = over f p + (case x of None \<Rightarrow> 0 | Some h \<Rightarrow> f h)"
proof -
  let ?g = "\<lambda>m j. case m j of None \<Rightarrow> 0 | Some h \<Rightarrow> f h"
  have split: "(\<Sum>j < next_response_id p. ?g m j) = ?g m i + (\<Sum>j \<in> {..<next_response_id p} - {i}. ?g m j)" for m
    using assms(3) by (intro sum.remove) auto
  have "(\<Sum>j \<in> {..<next_response_id p} - {i}. ?g (live q) j) = (\<Sum>j \<in> {..<next_response_id p} - {i}. ?g (live p) j)"
    unfolding assms(2) by (intro sum.cong) auto
  then show ?thesis
    unfolding over_def assms(1) split [of "live q"] split [of "live p"] by (simp add: assms(2))
qed

abbreviation weight :: "(write_handler \<Rightarrow> nat) \<Rightarrow> write_handler option \<Rightarrow> nat" where
  "weight f x \<equiv> case x of None \<Rightarrow> 0 | Some h \<Rightarrow> f h"

text \<open>Two states agree on a write.\<close>

definition same_at :: "proxy \<Rightarrow> proxy \<Rightarrow> response_id \<Rightarrow> bool" where
  "same_at p q j \<longleftrightarrow>
     response_handlers q j = response_handlers p j \<and> detached q j = detached p j \<and> references q j = references p j \<and>
     count_list (throttled_writes q) j = count_list (throttled_writes p) j \<and>
     count_list (map fst (ready q)) j = count_list (map fst (ready p)) j \<and>
     (\<forall>v. (j, Ready v) \<in> set (ready q) \<longrightarrow> (j, Ready v) \<in> set (ready p))"

lemma id_ok_same_at:
  assumes "id_ok ks p acked started j" "same_at p q j" "next_response_id p \<le> next_response_id q"
    "acked' j = acked j" "started' j = started j"
  shows "id_ok ks q acked' started' j"
proof -
  have "live q j = live p j" using assms(2) by (cases "response_handlers p j") (auto simp: live_def map_add_def same_at_def)
  with assms show ?thesis unfolding id_ok_def same_at_def by force
qed

lemma proxy_ok_update:
  assumes ok: "proxy_ok ks p acked started"
    and i: "i < next_response_id p" "next_response_id q = next_response_id p" "live q = (live p)(i := x)"
    and other: "\<And>j. j \<noteq> i \<Longrightarrow> same_at p q j \<and> acked' j = acked j"
    and here: "id_ok ks q acked' started i"
    and sums: "writes q + weight (\<lambda>_. 1) (live p i) = writes p + weight (\<lambda>_. 1) x"
      "background_writes q + weight (\<lambda>h. of_bool (in_background h)) (live p i) =
         background_writes p + weight (\<lambda>h. of_bool (in_background h)) x"
      "background_write_bytes q + weight background_size (live p i) = background_write_bytes p + weight background_size x"
  shows "proxy_ok ks q acked' started"
proof -
  have "counters_ok p" using ok by (simp add: proxy_ok_def)
  then have "counters_ok q"
    using sums over_update [OF i(2,3,1), of "\<lambda>_. 1"] over_update [OF i(2,3,1), of "\<lambda>h. of_bool (in_background h)"]
      over_update [OF i(2,3,1), of background_size]
    unfolding counters_ok_def by linarith
  moreover have "id_ok ks q acked' started j" for j
  proof (cases "j = i")
    case True
    with here show ?thesis by simp
  next
    case False
    have "id_ok ks p acked started j" using ok by (simp add: proxy_ok_def)
    then show ?thesis using id_ok_same_at [of ks p acked started j q acked' started] other [OF False] i(2) by simp
  qed
  ultimately show ?thesis by (simp add: proxy_ok_def)
qed

lemma proxy_ok_id: "proxy_ok ks p acked started \<Longrightarrow> id_ok ks p acked started i"
  by (simp add: proxy_ok_def)

lemma id_ok_started: "id_ok ks p acked started i \<Longrightarrow> live p i = Some h \<Longrightarrow> started i \<noteq> None \<and> i < next_response_id p"
  by (cases "started i") (auto simp: id_ok_def)

lemmas proxy_defs = set_ready_def handler_unthrottle_def same_at_def

lemma handler_unthrottle_ok:
  assumes "proxy_ok ks (p\<lparr>throttled_writes := i # ids\<rparr>) acked started" "response_handlers p i = Some h"
    "handler_unthrottle i h p = (h', p')"
  shows "proxy_ok ks (p'\<lparr>response_handlers := (response_handlers p')(i \<mapsto> h'), throttled_writes := ids\<rparr>) acked started"
proof -
  let ?p = "p\<lparr>throttled_writes := i # ids\<rparr>"
  have ok: "id_ok ks ?p acked started i" using assms(1) by (rule proxy_ok_id)
  have lv: "live ?p i = Some h" using assms(2) by simp
  have s: "started i \<noteq> None" "i < next_response_id p" using id_ok_started [OF ok lv] by simp_all
  have tc: "count_list (i # ids) i \<le> 1" "count_list (i # ids) i = of_bool (throttled h)"
    using ok assms(2) by (simp_all add: id_ok_def)
  have h: "throttled h" "handler_ok ks (acked i) (the (started i)) h" "count_list ids i = 0"
    "count_list (map fst (ready p)) i = of_bool (in_background h)" "detached p i = None"
    using ok lv assms(2) tc by (cases "throttled h"; simp add: id_ok_def)+
  have ach: "cl_achieved h" using h(1,2) by (simp add: handler_ok_def)
  have enough: "enough_acks ks (acked i) (the (started i))" using handler_ok_enough [OF h(2) ach] .
  have eq: "h' = h\<lparr>throttled := False\<rparr>"
    "p' = p\<lparr>background_writes := background_writes p + 1,
        background_write_bytes := background_write_bytes p + mutation_size h, ready := ready p @ [(i, Ready (commit_version h))]\<rparr>"
    using assms(3) by (simp_all add: proxy_defs)
  show ?thesis
  proof (rule proxy_ok_update [OF assms(1), where i = i and x = "Some h'"])
    let ?q = "p'\<lparr>response_handlers := (response_handlers p')(i \<mapsto> h'), throttled_writes := ids\<rparr>"
    show "live ?q = (live ?p)(i := Some h')" by (simp add: eq)
    have "handler_ok ks (acked i) (the (started i)) h'" using h(2) ach by (simp add: eq handler_ok_def)
    then show "id_ok ks ?q acked started i"
      using s h ach enough by (simp add: id_ok_def eq)
  qed (use s lv h(1) ach in \<open>auto simp: eq same_at_def\<close>)
qed

lemma unthrottle_loop_ok:
  "proxy_ok ks (p\<lparr>throttled_writes := ids\<rparr>) acked started \<Longrightarrow> proxy_ok ks (unthrottle_loop ids p) acked started"
proof (induction ids p rule: unthrottle_loop.induct)
  case (2 i ids p)
  show ?case
  proof (cases "need_throttle_writes p")
    case True
    with 2(2) show ?thesis by simp
  next
    case False
    show ?thesis
    proof (cases "response_handlers p i")
      case None
      let ?p = "p\<lparr>throttled_writes := i # ids\<rparr>" and ?q = "p\<lparr>throttled_writes := ids\<rparr>"
      have ok: "id_ok ks ?p acked started i" using 2(2) by (rule proxy_ok_id)
      then have tc: "count_list (i # ids) i \<le> 1" "started i \<noteq> None" by (auto simp: id_ok_def)
      then have "i < next_response_id p" using ok by (simp add: id_ok_def)
      moreover have "live ?q = (live ?p)(i := live ?p i)" by simp
      moreover have "id_ok ks ?q acked started i"
        using ok None tc by (auto simp: id_ok_def)
      ultimately have "proxy_ok ks ?q acked started"
        by (intro proxy_ok_update [OF 2(2)]) (auto simp: same_at_def)
      with 2(1) [OF False] None False show ?thesis by simp
    next
      case (Some h)
      obtain h' p' where u: "handler_unthrottle i h p = (h', p')" by fastforce
      show ?thesis
        using 2(1) [OF False] handler_unthrottle_ok [OF 2(2) Some u] Some u False by simp
    qed
  qed
qed simp

lemma proxy_unthrottle_ok: "proxy_ok ks p acked started \<Longrightarrow> proxy_ok ks (proxy_unthrottle p) acked started"
  unfolding proxy_unthrottle_def by (rule unthrottle_loop_ok) simp

lemma over_ge: "live p i = Some h \<Longrightarrow> i < next_response_id p \<Longrightarrow> f h \<le> over f p"
  using member_le_sum [of i "{..<next_response_id p}" "\<lambda>i. weight f (live p i)"] by (simp add: over_def)

text \<open>Destroying a live handler that was taken out of the table.\<close>

lemma destroy_handler_ok:
  assumes ok: "proxy_ok ks p acked started" and lv: "live p i = Some h"
    and gone: "response_handlers q i = None" "detached q i = None" "live q = (live p)(i := None)"
    and other: "\<And>j. j \<noteq> i \<Longrightarrow> same_at p q j"
    and eq: "next_response_id q = next_response_id p" "throttled_writes q = throttled_writes p" "ready q = ready p"
      "writes q = writes p" "background_writes q = background_writes p"
      "background_write_bytes q = background_write_bytes p"
  shows "proxy_ok ks (destroy_handler i h q) acked started"
proof -
  have id: "id_ok ks p acked started i" using ok by (rule proxy_ok_id)
  have s: "started i \<noteq> None" "i < next_response_id p" using id_ok_started [OF id lv] by simp_all
  have h: "handler_ok ks (acked i) (the (started i)) h"
    "count_list (map fst (ready p)) i = of_bool (in_background h)" "count_list (throttled_writes p) i \<le> 1"
    "\<forall>v. (i, Ready v) \<in> set (ready p) \<longrightarrow> enough_acks ks (acked i) (the (started i))"
    using id lv by (simp_all add: id_ok_def)
  have "counters_ok p" using ok by (simp add: proxy_ok_def)
  then have ge: "1 \<le> writes p" "of_bool (in_background h) \<le> background_writes p" "background_size h \<le> background_write_bytes p"
    using over_ge [OF lv s(2), of "\<lambda>_. 1"] over_ge [OF lv s(2), of "\<lambda>h. of_bool (in_background h)"]
      over_ge [OF lv s(2), of background_size]
    by (simp_all add: counters_ok_def)
  have lvq: "live q i = None" using gone(3) by simp
  show ?thesis
  proof (cases "in_background h")
    case True
    let ?r = "q\<lparr>writes := writes q - 1, background_writes := background_writes q - 1,
        background_write_bytes := background_write_bytes q - mutation_size h\<rparr>"
    have "proxy_ok ks ?r acked started"
    proof (rule proxy_ok_update [OF ok s(2), where x = None])
      show "id_ok ks ?r acked started i"
        using s h gone lvq True eq by (auto simp: id_ok_def)
    qed (use eq gone(3) other ge lv True in \<open>auto simp: same_at_def\<close>)
    then show ?thesis using True by (simp add: destroy_handler_def Let_def proxy_unthrottle_ok)
  next
    case False
    define out where "out = (if cl_achieved h then Ready (commit_version h)
      else if timedout h then Failed (Write_timeout (handler_cl h) (cl_acks h) (total_block_for h))
      else Failed Broken_promise)"
    let ?r = "q\<lparr>writes := writes q - 1, ready := ready q @ [(i, out)]\<rparr>"
    have enough: "enough_acks ks (acked i) (the (started i))" if "out = Ready v" for v
      using that handler_ok_enough [OF h(1)] by (auto simp: out_def split: if_splits)
    have "proxy_ok ks ?r acked started"
    proof (rule proxy_ok_update [OF ok s(2), where x = None])
      show "id_ok ks ?r acked started i"
        using s h gone lvq False eq enough by (auto simp: id_ok_def)
    qed (use eq gone(3) other ge lv False in \<open>auto simp: same_at_def\<close>)
    moreover have "destroy_handler i h q = ?r"
      using False by (auto simp: destroy_handler_def Let_def set_ready_def out_def)
    ultimately show ?thesis by simp
  qed
qed

lemma remove_response_handler_ok:
  assumes "proxy_ok ks p acked started"
  shows "proxy_ok ks (remove_response_handler i p) acked started"
proof (cases "response_handlers p i")
  case None
  with assms show ?thesis by (simp add: remove_response_handler_def)
next
  case (Some h)
  have id: "id_ok ks p acked started i" using assms by (rule proxy_ok_id)
  have lv: "live p i = Some h" using Some by simp
  have s: "started i \<noteq> None" "i < next_response_id p" using id_ok_started [OF id lv] by simp_all
  have dt: "detached p i = None" using id Some by (auto simp: id_ok_def)
  let ?q = "p\<lparr>response_handlers := (response_handlers p)(i := None)\<rparr>"
  have gone: "live ?q = (live p)(i := None)" using dt by (auto simp: live_def map_add_def fun_eq_iff split: option.splits)
  show ?thesis
  proof (cases "references p i = 0")
    case True
    have "proxy_ok ks (destroy_handler i h ?q) acked started"
      by (rule destroy_handler_ok [OF assms lv]) (use dt gone in \<open>auto simp: same_at_def\<close>)
    with Some True show ?thesis by (simp add: remove_response_handler_def Let_def)
  next
    case False
    let ?r = "?q\<lparr>detached := (detached p)(i \<mapsto> h)\<rparr>"
    have lvr: "live ?r = (live p)(i := Some h)" by (auto simp: live_def map_add_def fun_eq_iff split: option.splits)
    have "proxy_ok ks ?r acked started"
    proof (rule proxy_ok_update [OF assms s(2), where x = "Some h"])
      show "id_ok ks ?r acked started i"
        using id lv s False unfolding id_ok_def lvr by simp
    qed (use lvr lv in \<open>auto simp: same_at_def\<close>)
    with Some False show ?thesis by (simp add: remove_response_handler_def Let_def)
  qed
qed

lemma references_ok:
  assumes "proxy_ok ks p acked started" "detached p i \<noteq> None \<longrightarrow> rf i > 0" "\<And>j. j \<noteq> i \<Longrightarrow> rf j = references p j"
  shows "proxy_ok ks (p\<lparr>references := rf\<rparr>) acked started"
proof -
  have "id_ok ks (p\<lparr>references := rf\<rparr>) acked started j" for j
    using proxy_ok_id [OF assms(1), of j] assms(2,3) by (cases "j = i") (simp_all add: id_ok_def)
  moreover have "counters_ok (p\<lparr>references := rf\<rparr>)"
    using assms(1) by (simp add: proxy_ok_def counters_ok_def over_def)
  ultimately show ?thesis by (simp add: proxy_ok_def)
qed

lemma release_reference_ok:
  assumes "proxy_ok ks p acked started"
  shows "proxy_ok ks (release_reference i p) acked started"
proof (cases "detached p i")
  case None
  then show ?thesis
    using references_ok [OF assms, of i] by (simp add: release_reference_def Let_def)
next
  case (Some h)
  let ?p = "p\<lparr>references := (references p)(i := references p i - 1)\<rparr>"
  have rh: "response_handlers p i = None" using proxy_ok_id [OF assms, of i] Some by (auto simp: id_ok_def)
  show ?thesis
  proof (cases "references p i - 1 = 0")
    case True
    let ?q = "?p\<lparr>detached := (detached p)(i := None)\<rparr>"
    have gone: "live ?q = (live p)(i := None)" using rh by (auto simp: live_def map_add_def fun_eq_iff split: option.splits)
    have "proxy_ok ks (destroy_handler i h ?q) acked started"
      by (rule destroy_handler_ok [OF assms]) (use Some rh gone in \<open>auto simp: same_at_def live_Some_iff\<close>)
    with Some True show ?thesis by (simp add: release_reference_def Let_def)
  next
    case False
    then show ?thesis
      using references_ok [OF assms, of i] Some by (simp add: release_reference_def Let_def)
  qed
qed

section \<open>Answers, timers and new writes\<close>

lemma handler_ok_mono: "handler_ok ks eps h0 h \<Longrightarrow> eps \<subseteq> eps' \<Longrightarrow> handler_ok ks eps' h0 h"
  by (auto simp: handler_ok_def)

lemma enough_acks_mono:
  assumes "enough_acks ks eps h" "eps \<subseteq> eps'"
  shows "enough_acks ks eps' h"
proof -
  have "card {ep \<in> set (targets h). ep \<in> eps \<and> counts ks h ep} \<le> card {ep \<in> set (targets h). ep \<in> eps' \<and> counts ks h ep}"
    using assms(2) by (intro card_mono) auto
  with assms(1) show ?thesis by (simp add: enough_acks_def)
qed

lemma id_ok_mono: "id_ok ks p acked started i \<Longrightarrow> acked i \<subseteq> acked' i \<Longrightarrow> id_ok ks p acked' started i"
  by (auto simp: id_ok_def elim: handler_ok_mono enough_acks_mono)

text \<open>Replacing a handler of the table by one that reached no other stage.\<close>

lemma replace_handler_ok:
  assumes ok: "proxy_ok ks p acked started" and rh: "response_handlers p i = Some h0"
    and same: "cl_achieved h = cl_achieved h0" "throttled h = throttled h0" "mutation_size h = mutation_size h0"
    and h: "handler_ok ks (acked i) (the (started i)) h"
  shows "proxy_ok ks (p\<lparr>response_handlers := (response_handlers p)(i \<mapsto> h)\<rparr>) acked started"
proof -
  have id: "id_ok ks p acked started i" using ok by (rule proxy_ok_id)
  have lv: "live p i = Some h0" using rh by simp
  have s: "started i \<noteq> None" "i < next_response_id p" using id_ok_started [OF id lv] by simp_all
  let ?q = "p\<lparr>response_handlers := (response_handlers p)(i \<mapsto> h)\<rparr>"
  have lq: "live ?q = (live p)(i := Some h)" by (simp add: live_def)
  show ?thesis
  proof (rule proxy_ok_update [OF ok s(2) _ lq])
    show "id_ok ks ?q acked started i"
      using id rh lv s h same unfolding id_ok_def lq by simp
  qed (use lv same in \<open>simp_all add: same_at_def\<close>)
qed

lemma signal_nr_ok:
  assumes ok: "proxy_ok ks p acked started" and rh: "response_handlers p i = Some h0"
    and same: "cl_achieved h = cl_achieved h0" "throttled h = throttled h0" "mutation_size h = mutation_size h0"
    and h: "handler_ok ks (acked i) (the (started i)) (h\<lparr>cl_acks := cl_acks h + nr\<rparr>)"
    and res: "signal_nr nr i h p = (h', p')"
  shows "proxy_ok ks (p'\<lparr>response_handlers := (response_handlers p')(i \<mapsto> h')\<rparr>) acked started"
proof -
  have id: "id_ok ks p acked started i" using ok by (rule proxy_ok_id)
  have lv: "live p i = Some h0" using rh by simp
  have s: "started i \<noteq> None" "i < next_response_id p" using id_ok_started [OF id lv] by simp_all
  have dt: "detached p i = None" using id rh by (auto simp: id_ok_def)
  have tc: "count_list (throttled_writes p) i = of_bool (throttled h0)" "handler_ok ks (acked i) (the (started i)) h0"
    "count_list (map fst (ready p)) i = of_bool (in_background h0)"
    "\<forall>v. (i, Ready v) \<in> set (ready p) \<longrightarrow> enough_acks ks (acked i) (the (started i))"
    using id lv rh by (simp_all add: id_ok_def)
  have th: "throttled h0 \<Longrightarrow> cl_achieved h0" using tc(2) by (simp add: handler_ok_def)
  let ?h = "h\<lparr>cl_acks := cl_acks h + nr\<rparr>"
  let ?q = "p'\<lparr>response_handlers := (response_handlers p')(i \<mapsto> h')\<rparr>"
  have update: "proxy_ok ks ?q acked started"
    if "next_response_id p' = next_response_id p" "response_handlers p' = response_handlers p" "detached p' = detached p"
      "references p' = references p" "writes p' = writes p"
      "throttled_writes p' = throttled_writes p @ (if throttled h' \<and> \<not> throttled h0 then [i] else [])"
      "ready p' = ready p @ (if in_background h' \<and> \<not> in_background h0 then [(i, Ready v)] else [])"
      "background_writes p' = background_writes p + of_bool (in_background h' \<and> \<not> in_background h0)"
      "background_write_bytes p' = background_write_bytes p + (if in_background h' \<and> \<not> in_background h0 then mutation_size h0 else 0)"
      "handler_ok ks (acked i) (the (started i)) h'" "mutation_size h' = mutation_size h0"
      "in_background h0 \<Longrightarrow> in_background h'" "throttled h0 \<Longrightarrow> throttled h'" for v
  proof (rule proxy_ok_update [OF ok s(2), where x = "Some h'"])
    note eqs = that(1-9)
    show lq: "live ?q = (live p)(i := Some h')"
      using eqs(2,3) dt by (simp add: live_def)
    have "count_list (throttled_writes ?q) i = of_bool (throttled h')"
      using tc(1) that(13) by (cases "throttled h'"; cases "throttled h0") (simp_all add: eqs)
    moreover have "count_list (map fst (ready ?q)) i = of_bool (in_background h')"
      using tc(3) that(12) by (cases "in_background h'"; cases "in_background h0") (simp_all add: eqs)
    moreover have "enough_acks ks (acked i) (the (started i))" if "(i, Ready w) \<in> set (ready ?q)" for w
      using that tc(4) handler_ok_enough [OF \<open>handler_ok ks (acked i) (the (started i)) h'\<close>]
      by (auto simp: eqs split: if_splits)
    moreover have "count_list (throttled_writes ?q) i \<le> 1" using calculation(1) by simp
    ultimately show "id_ok ks ?q acked started i"
      using that(10) s dt eqs(1,3) unfolding id_ok_def lq by simp
    show "next_response_id ?q = next_response_id p" using eqs(1) by simp
    show "same_at p ?q j \<and> acked j = acked j" if "j \<noteq> i" for j
      using that by (simp add: same_at_def eqs)
    show "writes ?q + weight (\<lambda>_. 1) (live p i) = writes p + weight (\<lambda>_. 1) (Some h')"
      using lv by (simp add: eqs)
    show "background_writes ?q + weight (\<lambda>h. of_bool (in_background h)) (live p i) =
        background_writes p + weight (\<lambda>h. of_bool (in_background h)) (Some h')"
      using lv that(12) by (auto simp add: eqs)
    show "background_write_bytes ?q + weight background_size (live p i) =
        background_write_bytes p + weight background_size (Some h')"
      using lv that(11,12) by (auto simp add: eqs)
  qed
  show ?thesis
  proof (cases "cl_achieved h \<or> \<not> total_block_for h \<le> cl_acks h + nr")
    case True
    then have "h' = ?h" "p' = p" using res by (auto simp: signal_nr_def Let_def)
    then show ?thesis using h same by (intro update) auto
  next
    case False
    then have ach: "\<not> cl_achieved h0" "\<not> throttled h0" "total_block_for h \<le> cl_acks h + nr" using same th by auto
    have h': "handler_ok ks (acked i) (the (started i)) (?h\<lparr>cl_achieved := True, throttled := b\<rparr>)" for b
      using h ach(3) by (simp add: handler_ok_def)
    show ?thesis
    proof (cases "need_throttle_writes p")
      case True
      then have "h' = ?h\<lparr>cl_achieved := True, throttled := True\<rparr>" "p' = p\<lparr>throttled_writes := throttled_writes p @ [i]\<rparr>"
        using res ach(3) False by (auto simp: signal_nr_def Let_def)
      then show ?thesis using h' ach same by (intro update) simp_all
    next
      case n: False
      then have "h' = ?h\<lparr>cl_achieved := True, throttled := False\<rparr>"
        "p' = p\<lparr>background_writes := background_writes p + 1,
           background_write_bytes := background_write_bytes p + mutation_size h,
           ready := ready p @ [(i, Ready (commit_version h))]\<rparr>"
        using res ach(3) False by (auto simp: signal_nr_def Let_def proxy_defs)
      then show ?thesis using h' ach same by (intro update [where v = "commit_version h"]) simp_all
    qed
  qed
qed

lemma hint_none [simp]: "hint_to_dead_endpoints ks eps = Some 0"
  by (simp add: hint_to_dead_endpoints_def should_hint_def)

lemma signal_targets:
  "signal_nr nr i (h\<lparr>targets := ts\<rparr>) p = (case signal_nr nr i h p of (h', p') \<Rightarrow> (h'\<lparr>targets := ts\<rparr>, p'))"
  "targets (fst (signal_nr nr i h p)) = targets h"
  by (simp_all add: signal_nr_def handler_unthrottle_def Let_def set_ready_def)

lemma response_handlers_signal:
  "signal_nr nr i h p = (h', p') \<Longrightarrow> response_handlers p' = response_handlers p"
  by (auto simp: signal_nr_def handler_unthrottle_def Let_def set_ready_def split: if_splits)

text \<open>An answer of a target: its effect on a handler of the table is that of a signal (by one, or by none
  where the answer does not count) on the handler without this target.\<close>

lemma handler_response_signal:
  assumes "handler_response ks ep i h p = Some (l, h', p')"
  obtains nr k where "ep \<in> set (targets h)" "nr \<le> of_bool (counts ks h ep)"
    "k = Datacenter_write_response_handler \<longleftrightarrow> kind h = Datacenter_write_response_handler"
    "signal_nr nr i (h\<lparr>kind := k, targets := remove1 ep (targets h)\<rparr>) p = (h', p') \<or>
     nr = 0 \<and> h' = h\<lparr>kind := k, targets := remove1 ep (targets h)\<rparr> \<and> p' = p" "l = (targets h' = [])"
proof -
  obtain h1 p1 where s: "handler_signal ks ep i h p = Some (h1, p1)" and ep: "ep \<in> set (targets h1)"
    and h': "h' = h1\<lparr>targets := remove1 ep (targets h1)\<rparr>" "p' = p1" "l = (targets h' = [])"
    using assms by (auto simp: handler_response_def Let_def split: option.splits if_splits)
  have local: "is_local ks (local_addr ks)" by (simp add: is_local_def)
  have k: "h\<lparr>kind := kind h\<rparr> = h" by (cases h) simp
  obtain nr k where n: "nr \<le> of_bool (counts ks h ep)"
      "k = Datacenter_write_response_handler \<longleftrightarrow> kind h = Datacenter_write_response_handler"
      "signal_nr nr i (h\<lparr>kind := k\<rparr>) p = (h1, p1) \<or> nr = 0 \<and> h1 = h\<lparr>kind := k\<rparr> \<and> p1 = p"
  proof (cases "kind h")
    case Write_response_handler
    with s that [of 1 "kind h", unfolded k] show ?thesis by (auto simp: handler_signal_def counts_def)
  next
    case Datacenter_write_response_handler
    then show ?thesis
      using s local that [of 1 "kind h", unfolded k] that [of 0 "kind h", unfolded k]
      by (auto simp: handler_signal_def counts_def split: if_splits)
  next
    case (Datacenter_sync_write_response_handler rs)
    then obtain n where n: "map_of rs (get_datacenter ks ep) = Some n"
      using s by (auto simp: handler_signal_def split: option.splits)
    show ?thesis
    proof (cases "n > 0")
      case True
      with s n Datacenter_sync_write_response_handler show ?thesis
        by (intro that [of 1 "Datacenter_sync_write_response_handler (AList.update (get_datacenter ks ep) (n - 1) rs)"])
          (auto simp: handler_signal_def counts_def)
    next
      case False
      with s n Datacenter_sync_write_response_handler that [of 0 "kind h", unfolded k] show ?thesis
        by (auto simp: handler_signal_def)
    qed
  qed
  have t: "targets h1 = targets h"
    using n(3) signal_targets(2) [of nr i "h\<lparr>kind := k\<rparr>" p] by auto
  show ?thesis
  proof (rule that [OF _ n(1,2)])
    show "ep \<in> set (targets h)" using ep t by simp
    show "signal_nr nr i (h\<lparr>kind := k, targets := remove1 ep (targets h)\<rparr>) p = (h', p') \<or>
        nr = 0 \<and> h' = h\<lparr>kind := k, targets := remove1 ep (targets h)\<rparr> \<and> p' = p"
      using n(3) h' t signal_targets(1) [of nr i "remove1 ep (targets h)" "h\<lparr>kind := k\<rparr>" p] by auto
    show "l = (targets h' = [])" by (rule h'(3))
  qed
qed

lemma answered_handler_ok:
  assumes "handler_ok ks eps h0 h" "ep \<in> set (targets h)" "ep \<in> eps" "nr \<le> of_bool (counts ks h ep)"
    and "k = Datacenter_write_response_handler \<longleftrightarrow> kind h = Datacenter_write_response_handler"
  shows "handler_ok ks eps h0 (h\<lparr>commit_version := v, kind := k, targets := remove1 ep (targets h), cl_acks := cl_acks h + nr\<rparr>)"
proof -
  let ?done = "\<lambda>ts. {e \<in> set (targets h0) - ts. counts ks h0 e}"
  have d: "distinct (targets h)" "set (targets h) \<subseteq> set (targets h0)"
    and acks: "cl_acks h \<le> card (?done (set (targets h)))"
    and kind: "kind h = Datacenter_write_response_handler \<longleftrightarrow> kind h0 = Datacenter_write_response_handler"
    using assms(1) by (simp_all add: handler_ok_def)
  have c: "counts ks h ep \<longleftrightarrow> counts ks h0 ep" using kind by (simp add: counts_def)
  have "cl_acks h + nr \<le> card (?done (set (targets h) - {ep}))"
  proof (cases "counts ks h0 ep")
    case True
    then have split: "?done (set (targets h) - {ep}) = insert ep (?done (set (targets h)))"
      using assms(2) d(2) by auto
    have "card (?done (set (targets h) - {ep})) = Suc (card (?done (set (targets h))))"
      unfolding split by (rule card_insert_disjoint) (use assms(2) in auto)
    with acks assms(4) c True show ?thesis by simp
  next
    case False
    then have "?done (set (targets h) - {ep}) = ?done (set (targets h))" by auto
    with acks assms(4) c False show ?thesis by simp
  qed
  then show ?thesis
    using assms(1,3,5) d by (auto simp: handler_ok_def set_remove1_eq)
qed

lemma got_response_ok:
  assumes ok: "proxy_ok ks p acked started" and res: "got_response ks i ep v p = Some p'"
  shows "proxy_ok ks p' (acked(i := insert ep (acked i))) started"
proof -
  let ?acked = "acked(i := insert ep (acked i))"
  have "id_ok ks p ?acked started j" for j
    using proxy_ok_id [OF ok] by (rule id_ok_mono) auto
  then have ok': "proxy_ok ks p ?acked started" using ok by (simp add: proxy_ok_def)
  show ?thesis
  proof (cases "response_handlers p i")
    case None
    with res ok' show ?thesis by (simp add: got_response_def)
  next
    case (Some h)
    let ?h = "h\<lparr>commit_version := v\<rparr>"
    obtain l h1 p1 where hr: "handler_response ks ep i ?h p = Some (l, h1, p1)"
      and p': "p' = (if l then remove_response_handler i (p1\<lparr>response_handlers := (response_handlers p1)(i \<mapsto> h1)\<rparr>)
        else p1\<lparr>response_handlers := (response_handlers p1)(i \<mapsto> h1)\<rparr>)"
      using res Some by (auto simp: got_response_def Let_def split: option.splits)
    obtain nr k where n: "ep \<in> set (targets ?h)" "nr \<le> of_bool (counts ks ?h ep)"
      "k = Datacenter_write_response_handler \<longleftrightarrow> kind ?h = Datacenter_write_response_handler"
      "signal_nr nr i (?h\<lparr>kind := k, targets := remove1 ep (targets ?h)\<rparr>) p = (h1, p1) \<or>
        nr = 0 \<and> h1 = ?h\<lparr>kind := k, targets := remove1 ep (targets ?h)\<rparr> \<and> p1 = p"
      using handler_response_signal [OF hr] by metis
    have "handler_ok ks (?acked i) (the (started i)) h"
      using proxy_ok_id [OF ok', of i] Some by (simp add: id_ok_def)
    then have h: "handler_ok ks (?acked i) (the (started i))
        (h\<lparr>commit_version := v, kind := k, targets := remove1 ep (targets h), cl_acks := cl_acks h + nr\<rparr>)"
      by (rule answered_handler_ok) (use n(1-3) in \<open>simp_all add: counts_def\<close>)
    have "proxy_ok ks (p1\<lparr>response_handlers := (response_handlers p1)(i \<mapsto> h1)\<rparr>) ?acked started"
      using n(4)
    proof
      assume "signal_nr nr i (?h\<lparr>kind := k, targets := remove1 ep (targets ?h)\<rparr>) p = (h1, p1)"
      then show ?thesis by (rule signal_nr_ok [OF ok' Some, rotated -1]) (use h in simp_all)
    next
      assume "nr = 0 \<and> h1 = ?h\<lparr>kind := k, targets := remove1 ep (targets ?h)\<rparr> \<and> p1 = p"
      with h show ?thesis by (auto intro!: replace_handler_ok [OF ok' Some])
    qed
    then show ?thesis using p' by (auto simp: remove_response_handler_ok)
  qed
qed

lemma signal_none_ok:
  assumes "proxy_ok ks p acked started" "response_handlers p i = Some h" "signal_nr 0 i h p = (h', p')"
  shows "proxy_ok ks (p'\<lparr>response_handlers := (response_handlers p')(i \<mapsto> h')\<rparr>) acked started"
proof -
  have "handler_ok ks (acked i) (the (started i)) h"
    using proxy_ok_id [OF assms(1), of i] assms(2) by (simp add: id_ok_def)
  then show ?thesis using signal_nr_ok [OF assms(1,2) refl refl refl _ assms(3)] by simp
qed

lemma hint_handler_ok:
  assumes "proxy_ok ks p acked started" "hint_handler ks i cl p = Some p'"
  shows "proxy_ok ks p' acked started"
  using assms signal_none_ok [OF assms(1), of i]
  by (auto simp: hint_handler_def split: option.splits if_splits prod.splits)

lemma expire_handler_ok:
  assumes "proxy_ok ks p acked started" "expire_handler ks i p = Some p'"
  shows "proxy_ok ks p' acked started"
proof -
  obtain h where h: "response_handlers p i = Some h"
    using assms(2) by (auto simp: expire_handler_def split: option.splits)
  obtain h1 p1 where s: "(h1, p1) = (if cl_achieved h \<or> handler_cl h = ANY then signal_nr 0 i h p else (h, p))"
    and p': "p' = remove_response_handler i (p1\<lparr>response_handlers := (response_handlers p1)(i \<mapsto> on_timeout h1)\<rparr>)"
    using assms(2) h by (auto simp: expire_handler_def split: option.splits if_splits prod.splits)
  let ?p = "p1\<lparr>response_handlers := (response_handlers p1)(i \<mapsto> h1)\<rparr>"
  have ok: "proxy_ok ks ?p acked started"
  proof (cases "cl_achieved h \<or> handler_cl h = ANY")
    case True
    with s signal_none_ok [OF assms(1) h, of h1 p1] show ?thesis by simp
  next
    case False
    have "p\<lparr>response_handlers := (response_handlers p)(i \<mapsto> h)\<rparr> = p" using h by (cases p) (simp add: fun_upd_idem)
    with False s assms(1) show ?thesis by simp
  qed
  have "handler_ok ks (acked i) (the (started i)) h1"
    using proxy_ok_id [OF ok, of i] by (simp add: id_ok_def)
  then have h1: "handler_ok ks (acked i) (the (started i)) (on_timeout h1)" by (auto simp: handler_ok_def on_timeout_def)
  have "proxy_ok ks (?p\<lparr>response_handlers := (response_handlers ?p)(i \<mapsto> on_timeout h1)\<rparr>) acked started"
    by (rule replace_handler_ok [OF ok _ _ _ _ h1, of h1]) (simp_all add: on_timeout_def)
  then show ?thesis unfolding p' by (intro remove_response_handler_ok) simp
qed

lemma new_handler_fresh:
  assumes "h = new_handler ks cl is_counter msize ts pend dead"
  shows "targets h = ts" "cl_acks h = 0" "\<not> cl_achieved h" "\<not> throttled h"
  using assms
  by (auto simp: new_handler_def abstract_handler_def split: prod.splits consistency_level.splits replication_strategy.splits)

lemma create_ok:
  assumes ok: "proxy_ok ks p acked started"
    and res: "create_write_response_handler ks th mh ip cl is_counter w p = Inr (i, p')"
  shows "proxy_ok ks p' acked (started(i := response_handlers p' i))"
proof -
  let ?pend = "filter (\<lambda>ep. ep \<notin> set (natural_endpoints w)) (pending_for_token w)"
  let ?all = "natural_endpoints w @ ?pend"
  define h where "h = new_handler ks cl is_counter (request_size w) (remdups (filter (is_alive w) ?all)) ?pend
    (filter (\<lambda>ep. \<not> is_alive w ep) ?all)"
  have i: "i = next_response_id p" and p': "p' = p\<lparr>next_response_id := next_response_id p + 1, writes := writes p + 1,
      response_handlers := (response_handlers p)(i \<mapsto> h)\<rparr>"
    using res by (auto simp: create_write_response_handler_def register_response_handler_def Let_def h_def
        split: if_splits sum.splits)
  note fresh = new_handler_fresh [OF h_def]
  have id: "id_ok ks p acked started i" using ok by (rule proxy_ok_id)
  then have s: "started i = None" unfolding i by (simp add: id_ok_def)
  then have none: "live p i = None" "count_list (map fst (ready p)) i = 0" "count_list (throttled_writes p) i = 0"
    using id by (simp_all add: id_ok_def)
  then have dt: "detached p i = None" "response_handlers p i = None" by (simp_all add: live_None_iff)
  have lv: "live p' = (live p)(i \<mapsto> h)" using dt by (simp add: p' live_def)
  have "(i, Ready v) \<notin> set (ready p)" for v
    using none(2) by (auto simp: count_list_0_iff image_iff)
  moreover have "handler_ok ks (acked i) h h"
    using fresh by (simp add: handler_ok_def)
  ultimately have "id_ok ks p' acked (started(i := response_handlers p' i)) i"
    using none dt fresh i unfolding id_ok_def lv by (simp add: p')
  moreover have "id_ok ks p' acked (started(i := response_handlers p' i)) j" if "j \<noteq> i" for j
    using proxy_ok_id [OF ok, of j] by (rule id_ok_same_at) (use that in \<open>simp_all add: p' same_at_def\<close>)
  ultimately have "id_ok ks p' acked (started(i := response_handlers p' i)) j" for j
    by (cases "j = i") simp_all
  moreover have "over f p' = over f p + f h" for f
  proof -
    have "(\<Sum>j < next_response_id p. weight f (live p' j)) = (\<Sum>j < next_response_id p. weight f (live p j))"
      by (intro sum.cong) (auto simp: lv i)
    then show ?thesis by (simp add: over_def p' lv [unfolded p'] i)
  qed
  then have "counters_ok p'"
    using ok fresh by (simp add: proxy_ok_def counters_ok_def) (simp add: p')
  ultimately show ?thesis by (simp add: proxy_ok_def)
qed

lemma reach_ok: "reach ks p acked started \<Longrightarrow> proxy_ok ks p acked started"
proof (induction rule: reach.induct)
  case (reach_start mem)
  show ?case by (simp add: proxy_ok_def counters_ok_def id_ok_def over_def live_def proxy_start_def)
next
  case (reach_queue p acked started q)
  then show ?case by (simp add: proxy_ok_def counters_ok_def id_ok_def over_def)
next
  case (reach_reference p acked started i)
  then show ?case by (auto intro: references_ok)
next
  case (reach_create p acked started th mh ip cl is_counter w i p')
  show ?case using reach_create(3,2) by (rule create_ok)
next
  case (reach_response p acked started i ep v p')
  show ?case using reach_response(4,3) by (rule got_response_ok)
qed (auto intro: hint_handler_ok expire_handler_ok remove_response_handler_ok release_reference_ok
    proxy_unthrottle_ok)

end
