(* ===== verification/Write_Properties.thy ===== *)
theory Write_Properties
  imports Storage_Proxy
begin

text \<open>
  Properties of the write path: what the acknowledgement of a write means, that a write whose targets
  all answer is acknowledged, the accounting that drives throttling, the collection of commit
  versions in every interleaving, and the defects found in these parts.
\<close>

section \<open>Collecting commit versions\<close>

text \<open>The event sequences of one call: calls are started while the loop runs, only a started call
  completes, and at the end the loop has ended and every call has completed.\<close>

fun pfe_valid :: "bool \<Rightarrow> nat \<Rightarrow> pfe_event list \<Rightarrow> bool" where
  "pfe_valid running n [] \<longleftrightarrow> \<not> running \<and> n = 0"
| "pfe_valid running n (Launch # es) \<longleftrightarrow> running \<and> pfe_valid running (n + 1) es"
| "pfe_valid running n (Complete r # es) \<longleftrightarrow> n > 0 \<and> pfe_valid running (n - 1) es"
| "pfe_valid running n (Loop_end # es) \<longleftrightarrow> running \<and> pfe_valid False n es"

fun pfe_errors :: "pfe_event list \<Rightarrow> request_error list" where
  "pfe_errors [] = []"
| "pfe_errors (Complete (Inl e) # es) = e # pfe_errors es"
| "pfe_errors (_ # es) = pfe_errors es"

fun pfe_versions :: "pfe_event list \<Rightarrow> u32 list" where
  "pfe_versions [] = []"
| "pfe_versions (Complete (Inr v) # es) = v # pfe_versions es"
| "pfe_versions (_ # es) = pfe_versions es"

fun pfe_error :: "request_error option \<Rightarrow> pfe_event list \<Rightarrow> request_error option" where
  "pfe_error (Some e) es = Some e"
| "pfe_error None [] = None"
| "pfe_error None (Complete (Inl e) # es) = Some e"
| "pfe_error None (_ # es) = pfe_error None es"

lemma pfe_error_first: "pfe_error None es = (case pfe_errors es of [] \<Rightarrow> None | e # _ \<Rightarrow> Some e)"
  by (induction es rule: pfe_errors.induct) simp_all

fun pfe_outcome :: "request_error option \<Rightarrow> u32 \<Rightarrow> outcome" where
  "pfe_outcome (Some e) m = Failed e"
| "pfe_outcome None m = Ready m"

lemma pfe_complete_eq:
  "pfe_complete v s =
     (let m = max (max_commit_version s) v; w = waiting s - 1 in
      s\<lparr>max_commit_version := m, waiting := w,
        pr := pr s @ (if w = 0 then [pfe_outcome (ex s) m] else [])\<rparr>)"
  by (cases "ex s") (auto simp: pfe_complete_def Let_def max_def)

lemma pfe_valid_pos: "pfe_valid running n es \<Longrightarrow> es \<noteq> [] \<Longrightarrow> n + of_bool running > 0"
  by (induction running n es rule: pfe_valid.induct) auto

lemma pfe_run:
  assumes "pfe_valid running n es" "waiting s = n + of_bool running" "pr s = []" "es \<noteq> []"
  shows "pr (fold pfe_step es s) =
      [pfe_outcome (pfe_error (ex s) es)
         (fold max (pfe_versions es) (max_commit_version s))] \<and>
    (\<forall>k < length es. pr (fold pfe_step (take k es) s) = [])"
  using assms
proof (induction running n es arbitrary: s rule: pfe_valid.induct)
  case (2 running n es)
  let ?s = "s\<lparr>waiting := waiting s + 1\<rparr>"
  have v: "running" "pfe_valid running (n + 1) es" using 2(2) by auto
  then have "es \<noteq> []" by auto
  with v 2(3,4) have IH: "pr (fold pfe_step es ?s) = [pfe_outcome (pfe_error (ex ?s) es)
      (fold max (pfe_versions es) (max_commit_version ?s))]"
    "\<forall>k < length es. pr (fold pfe_step (take k es) ?s) = []"
    using 2(1) [of ?s] by simp_all
  have "pr (fold pfe_step (take k (Launch # es)) s) = []" if "k < length (Launch # es)" for k
    using that IH(2) 2(4) by (cases k) auto
  then show ?case using IH(1) by (cases "ex s") simp_all
next
  case (3 running n r es)
  let ?s = "pfe_result r s"
  have n: "n > 0" "waiting s = n + of_bool running" "pr s = []" using 3(2-4) by simp_all
  have s: "waiting ?s = n - 1 + of_bool running" "ex ?s = (case (ex s, r) of (None, Inl e) \<Rightarrow> Some e | _ \<Rightarrow> ex s)"
    "max_commit_version ?s = (case r of Inl _ \<Rightarrow> max_commit_version s | Inr v \<Rightarrow> max v (max_commit_version s))"
    "pr ?s = (if n - 1 + of_bool running = 0 then [pfe_outcome (ex ?s) (max_commit_version ?s)] else [])"
    using n by (auto simp: pfe_result_def pfe_complete_eq Let_def max.commute split: sum.splits option.splits)
  show ?case
  proof (cases "es = []")
    case True
    then have "\<not> running" "n = 1" using 3(2) by auto
    then show ?thesis
      using True s n by (cases "ex s"; cases r) simp_all
  next
    case False
    then have pos: "n - 1 + of_bool running > 0" using 3(2) pfe_valid_pos [of running "n - 1" es] by simp
    have v: "pfe_valid running (n - 1) es" using 3(2) by simp
    have pr0: "pr ?s = []" using s(4) pos by auto
    have IH: "pr (fold pfe_step es ?s) =
        [pfe_outcome (pfe_error (ex ?s) es)
           (fold max (pfe_versions es) (max_commit_version ?s))]"
      "\<forall>k < length es. pr (fold pfe_step (take k es) ?s) = []"
      using 3(1) [OF v s(1) pr0 False] by blast+
    have "pr (fold pfe_step (take k (Complete r # es)) s) = []" if "k < length (Complete r # es)" for k
      using that IH(2) n(3) by (cases k) auto
    then show ?thesis
      using IH(1) s(2,3) by (cases "ex s"; cases r) simp_all
  qed
next
  case (4 running n es)
  let ?s = "pfe_complete 0 s"
  have s: "waiting ?s = n" "ex ?s = ex s" "max_commit_version ?s = max_commit_version s"
    "pr ?s = (if n = 0 then [pfe_outcome (ex s) (max_commit_version s)] else [])"
    using 4(2-4) by (auto simp: pfe_complete_eq Let_def)
  show ?case
  proof (cases "es = []")
    case True
    then show ?thesis using 4(2-4) s by (cases "ex s") simp_all
  next
    case False
    then have "n > 0" using 4(2) pfe_valid_pos [of False n es] by simp
    then have pr0: "pr ?s = []" using s(4) by simp
    have v: "pfe_valid False n es" using 4(2) by simp
    have IH: "pr (fold pfe_step es ?s) =
        [pfe_outcome (pfe_error (ex ?s) es)
           (fold max (pfe_versions es) (max_commit_version ?s))]"
      "\<forall>k < length es. pr (fold pfe_step (take k es) ?s) = []"
      using 4(1) [OF v _ pr0 False] s(1) by simp_all
    have "pr (fold pfe_step (take k (Loop_end # es)) s) = []" if "k < length (Loop_end # es)" for k
      using that IH(2) 4(4) by (cases k) auto
    then show ?thesis using IH(1) s by (cases "ex s") simp_all
  qed
qed simp

section \<open>All targets answer\<close>

text \<open>The answers of the targets of a write, in the order they arrive.\<close>

fun respond_all :: "cluster \<Rightarrow> response_id \<Rightarrow> (endpoint \<times> u32) list \<Rightarrow> proxy \<Rightarrow> proxy option" where
  "respond_all ks i [] p = Some p"
| "respond_all ks i ((ep, v) # rs) p =
     (case got_response ks i ep v p of None \<Rightarrow> None | Some p \<Rightarrow> respond_all ks i rs p)"

text \<open>How many of the outstanding answers will count.\<close>

fun potential :: "cluster \<Rightarrow> handler_kind \<Rightarrow> endpoint list \<Rightarrow> nat" where
  "potential ks Write_response_handler ts = length ts"
| "potential ks Datacenter_write_response_handler ts = length (filter (is_local ks) ts)"
| "potential ks (Datacenter_sync_write_response_handler rs) ts = (\<Sum>(dc, n) \<leftarrow> rs. min n (in_dc ks dc ts))"

definition will_do :: "cluster \<Rightarrow> write_handler \<Rightarrow> bool" where
  "will_do ks h \<longleftrightarrow>
     distinct (targets h) \<and> (cl_achieved h \<or> cl_acks h < total_block_for h \<and> total_block_for h \<le> cl_acks h + potential ks (kind h) (targets h)) \<and>
     (\<forall>rs. kind h = Datacenter_sync_write_response_handler rs \<longrightarrow>
        distinct (map fst rs) \<and> get_datacenter ks ` set (targets h) \<subseteq> fst ` set rs)"

definition answered :: "response_id \<Rightarrow> write_handler \<Rightarrow> proxy \<Rightarrow> bool" where
  "answered i h p \<longleftrightarrow> (in_background h \<longrightarrow> (\<exists>v. (i, Ready v) \<in> set (ready p)))"

lemma length_filter_remove1:
  "ep \<in> set ts \<Longrightarrow> length (filter P ts) = length (filter P (remove1 ep ts)) + of_bool (P ep)"
  by (induction ts) auto

lemma min_sum_update:
  assumes "distinct (map fst rs)" "map_of rs d = Some (n :: nat)" "f d = Suc (g d)" "\<And>e. e \<noteq> d \<Longrightarrow> f e = (g e :: nat)"
  shows "(\<Sum>(dc, n) \<leftarrow> rs. min n (f dc)) =
    (\<Sum>(dc, n) \<leftarrow> (if n > 0 then AList.update d (n - 1) rs else rs). min n (g dc)) + of_bool (n > 0)"
  using assms(1,2)
proof (induction rs)
  case (Cons e rs)
  obtain d' m where e: "e = (d', m)" by fastforce
  show ?case
  proof (cases "d' = d")
    case True
    have "(case x of (dc, n) \<Rightarrow> min n (f dc)) = (case x of (dc, n) \<Rightarrow> min n (g dc))" if "x \<in> set rs" for x
      using Cons.prems(1) True e that assms(4) [of "fst x"] by (cases x) force
    then have "(\<Sum>(dc, n) \<leftarrow> rs. min n (f dc)) = (\<Sum>(dc, n) \<leftarrow> rs. min n (g dc))"
      by (intro arg_cong [of _ _ sum_list] map_cong) auto
    with True e Cons.prems(2) assms(3) show ?thesis by (cases n) simp_all
  next
    case False
    with Cons e assms(4) [OF False] show ?thesis by (cases "n > 0") simp_all
  qed
qed simp

lemma signal_progress:
  assumes "signal_nr nr i h p = (h', p')"
  shows "kind h' = kind h" "targets h' = targets h" "total_block_for h' = total_block_for h" "cl_acks h' = cl_acks h + nr"
    "cl_achieved h' \<longleftrightarrow> cl_achieved h \<or> total_block_for h \<le> cl_acks h + nr" "response_handlers p' = response_handlers p"
    "references p' = references p" "answered i h p \<Longrightarrow> answered i h' p'"
  using assms
  by (auto simp: signal_nr_def handler_unthrottle_def Let_def set_ready_def answered_def split: if_splits)

lemma signal_effect:
  assumes "will_do ks h" "ep \<in> set (targets h)"
  shows "\<exists>nr k. handler_signal ks ep i h p =
      Some (if nr = 0 then (h\<lparr>kind := k\<rparr>, p) else signal_nr nr i (h\<lparr>kind := k\<rparr>) p) \<and>
    potential ks (kind h) (targets h) = potential ks k (remove1 ep (targets h)) + nr \<and>
    (\<forall>rs. k = Datacenter_sync_write_response_handler rs \<longrightarrow>
       distinct (map fst rs) \<and> get_datacenter ks ` set (targets h) \<subseteq> fst ` set rs)"
proof -
  have k: "h\<lparr>kind := kind h\<rparr> = h" by (cases h) simp
  show ?thesis
  proof (cases "kind h")
    case Write_response_handler
    have kk: "h\<lparr>kind := Write_response_handler\<rparr> = h" using k Write_response_handler by simp
    show ?thesis
      using Write_response_handler assms(2) length_filter_remove1 [OF assms(2), of "\<lambda>_. True"]
      by (intro exI [of _ 1] exI [of _ Write_response_handler]) (simp add: handler_signal_def kk)
  next
    case Datacenter_write_response_handler
    have kk: "h\<lparr>kind := Datacenter_write_response_handler\<rparr> = h" using k Datacenter_write_response_handler by simp
    have "ep = local_addr ks \<or> is_local ks ep \<longleftrightarrow> is_local ks ep" by (auto simp: is_local_def)
    then show ?thesis
      using Datacenter_write_response_handler length_filter_remove1 [OF assms(2), of "is_local ks"]
      by (intro exI [of _ "of_bool (is_local ks ep)"] exI [of _ Datacenter_write_response_handler])
        (simp add: handler_signal_def kk)
  next
    case (Datacenter_sync_write_response_handler rs)
    let ?dc = "get_datacenter ks ep"
    have kk: "h\<lparr>kind := Datacenter_sync_write_response_handler rs\<rparr> = h"
      using k Datacenter_sync_write_response_handler by simp
    have rs: "distinct (map fst rs)" "get_datacenter ks ` set (targets h) \<subseteq> fst ` set rs"
      using assms(1) Datacenter_sync_write_response_handler by (simp_all add: will_do_def)
    then obtain n where n: "map_of rs ?dc = Some n"
      using assms(2) by (metis image_eqI map_of_eq_None_iff not_None_eq subset_iff)
    let ?k = "Datacenter_sync_write_response_handler (if n > 0 then AList.update ?dc (n - 1) rs else rs)"
    have count: "in_dc ks d (targets h) = in_dc ks d (remove1 ep (targets h)) + of_bool (get_datacenter ks ep = d)" for d
      using length_filter_remove1 [OF assms(2), of "\<lambda>ep. get_datacenter ks ep = d"] .
    have "potential ks (kind h) (targets h) = potential ks ?k (remove1 ep (targets h)) + of_bool (n > 0)"
      using min_sum_update [OF rs(1) n, of "\<lambda>d. in_dc ks d (targets h)" "\<lambda>d. in_dc ks d (remove1 ep (targets h))"]
        count Datacenter_sync_write_response_handler
      by simp
    moreover have "handler_signal ks ep i h p =
        Some (if of_bool (n > 0) = (0 :: nat) then (h\<lparr>kind := ?k\<rparr>, p) else signal_nr (of_bool (n > 0)) i (h\<lparr>kind := ?k\<rparr>) p)"
      using n Datacenter_sync_write_response_handler by (cases "n > 0") (simp_all add: handler_signal_def kk)
    moreover have "distinct (map fst (AList.update ?dc (n - 1) rs))" "fst ` set (AList.update ?dc (n - 1) rs) = fst ` set rs"
      using rs(1) map_of_SomeD [OF n] by (force simp: distinct_update AList.dom_update)+
    ultimately show ?thesis
      using rs by (intro exI [of _ "of_bool (n > 0)"] exI [of _ ?k]) auto
  qed
qed

lemma response_progress:
  assumes w: "will_do ks h" and ep: "ep \<in> set (targets h)" and a: "answered i h p"
  shows "\<exists>h' p'. handler_response ks ep i h p = Some (targets h' = [], h', p') \<and> will_do ks h' \<and>
    targets h' = remove1 ep (targets h) \<and> answered i h' p' \<and>
    response_handlers p' = response_handlers p \<and> references p' = references p"
proof -
  obtain nr k where s: "handler_signal ks ep i h p =
      Some (if nr = 0 then (h\<lparr>kind := k\<rparr>, p) else signal_nr nr i (h\<lparr>kind := k\<rparr>) p)"
    and pot: "potential ks (kind h) (targets h) = potential ks k (remove1 ep (targets h)) + nr"
    and k: "\<forall>rs. k = Datacenter_sync_write_response_handler rs \<longrightarrow>
       distinct (map fst rs) \<and> get_datacenter ks ` set (targets h) \<subseteq> fst ` set rs"
    using signal_effect [OF w ep] by blast
  obtain h1 p1 where h1: "(h1, p1) = (if nr = 0 then (h\<lparr>kind := k\<rparr>, p) else signal_nr nr i (h\<lparr>kind := k\<rparr>) p)"
    by (metis surj_pair)
  have eqs: "kind h1 = k" "targets h1 = targets h" "total_block_for h1 = total_block_for h" "cl_acks h1 = cl_acks h + nr"
    "cl_achieved h1 \<longleftrightarrow> cl_achieved h \<or> 0 < nr \<and> total_block_for h \<le> cl_acks h + nr" "response_handlers p1 = response_handlers p" "references p1 = references p"
    "answered i h1 p1"
    using h1 signal_progress [of nr i "h\<lparr>kind := k\<rparr>" p h1 p1] a
    by (auto simp: answered_def split: if_splits)
  let ?h = "h1\<lparr>targets := remove1 ep (targets h)\<rparr>"
  have "will_do ks ?h"
    using w pot k eqs set_remove1_subset [of ep "targets h"] by (auto simp: will_do_def distinct_remove1)
  moreover have "handler_response ks ep i h p = Some (targets ?h = [], ?h, p1)"
    using s eqs(2) ep unfolding handler_response_def h1 [symmetric] by (simp add: Let_def)
  moreover have "answered i ?h p1" using eqs(8) by (simp add: answered_def)
  ultimately show ?thesis
    using eqs by (intro exI [of _ ?h] exI [of _ p1]) simp
qed

lemma unthrottle_loop_ready: "set (ready p) \<subseteq> set (ready (unthrottle_loop ids p))"
proof (induction ids p rule: unthrottle_loop.induct)
  case (2 i ids p)
  then show ?case
    by (cases "response_handlers p i"; cases "need_throttle_writes p") (simp_all add: handler_unthrottle_def set_ready_def)
qed simp

lemma unthrottle_loop_None: "response_handlers p i = None \<Longrightarrow> response_handlers (unthrottle_loop ids p) i = None"
proof (induction ids p rule: unthrottle_loop.induct)
  case (2 j ids p)
  then show ?case
    by (cases "response_handlers p j"; cases "need_throttle_writes p"; cases "i = j")
      (simp_all add: handler_unthrottle_def set_ready_def)
qed simp

lemma destroy_ready:
  assumes "cl_achieved h" "answered i h p" "response_handlers p i = None"
  shows "\<exists>v. (i, Ready v) \<in> set (ready (destroy_handler i h p)) \<and> response_handlers (destroy_handler i h p) i = None"
proof (cases "throttled h")
  case True
  with assms show ?thesis by (auto simp: destroy_handler_def Let_def set_ready_def)
next
  case False
  then obtain v where "(i, Ready v) \<in> set (ready p)" using assms(1,2) by (auto simp: answered_def)
  let ?q = "p\<lparr>writes := writes p - 1, background_writes := background_writes p - 1,
      background_write_bytes := background_write_bytes p - mutation_size h\<rparr>"
  have "destroy_handler i h p = unthrottle_loop (throttled_writes p) ?q"
    using False assms(1) by (simp add: destroy_handler_def Let_def proxy_unthrottle_def)
  moreover have "set (ready p) \<subseteq> set (ready (unthrottle_loop (throttled_writes p) ?q))"
    using unthrottle_loop_ready [of ?q] by simp
  ultimately show ?thesis
    using \<open>(i, Ready v) \<in> set (ready p)\<close> unthrottle_loop_None [of ?q i] assms(3) by (intro exI [of _ v]) auto
qed

lemma no_potential: "potential ks k [] = 0"
  by (cases k) (simp_all add: sum_list_eq_0_iff split: prod.split)

lemma respond_all_progress:
  assumes "response_handlers p i = Some h" "will_do ks h" "answered i h p" "references p i = 0"
    and "distinct (map fst rs)" "set (map fst rs) = set (targets h)" "rs \<noteq> []"
  shows "\<exists>p' v. respond_all ks i rs p = Some p' \<and> (i, Ready v) \<in> set (ready p') \<and> response_handlers p' i = None"
  using assms
proof (induction rs arbitrary: h p)
  case (Cons r rs)
  obtain ep v where r: "r = (ep, v)" by fastforce
  let ?h = "h\<lparr>commit_version := v\<rparr>"
  have "will_do ks ?h" "answered i ?h p" "ep \<in> set (targets ?h)"
    using Cons.prems(2,3,6) r by (auto simp: will_do_def answered_def)
  from response_progress [OF this(1,3,2)] obtain h' p' where
    res: "handler_response ks ep i ?h p = Some (targets h' = [], h', p')" and h': "will_do ks h'"
      "targets h' = remove1 ep (targets h)" "answered i h' p'" "response_handlers p' = response_handlers p"
      "references p' = references p"
    by auto
  let ?p = "p'\<lparr>response_handlers := (response_handlers p')(i \<mapsto> h')\<rparr>"
  have d: "distinct (targets h)" using Cons.prems(2) by (simp add: will_do_def)
  have ts: "set (targets h') = set (map fst rs)"
    using Cons.prems(5,6) d r h'(2) by (auto simp: set_remove1_eq)
  have got: "got_response ks i ep v p = Some (if targets h' = [] then remove_response_handler i ?p else ?p)"
    using Cons.prems(1) res by (simp add: got_response_def Let_def)
  show ?case
  proof (cases "rs = []")
    case True
    then have "targets h' = []" using ts by simp
    then have "cl_achieved h'" using h'(1) no_potential [of ks "kind h'"] by (auto simp: will_do_def)
    let ?q = "p'\<lparr>response_handlers := (response_handlers p')(i := None)\<rparr>"
    have "answered i h' ?q" using h'(3) by (simp add: answered_def)
    with \<open>cl_achieved h'\<close> obtain w where "(i, Ready w) \<in> set (ready (destroy_handler i h' ?q))"
      "response_handlers (destroy_handler i h' ?q) i = None"
      using destroy_ready [of h' i ?q] by auto
    moreover have "remove_response_handler i ?p = destroy_handler i h' ?q"
      using Cons.prems(4) h'(5) by (simp add: remove_response_handler_def Let_def)
    ultimately show ?thesis using got r True \<open>targets h' = []\<close> by auto
  next
    case False
    then have ne: "targets h' \<noteq> []" using ts by auto
    have "\<exists>q v. respond_all ks i rs ?p = Some q \<and> (i, Ready v) \<in> set (ready q) \<and> response_handlers q i = None"
      by (rule Cons.IH [where h = h']) (use h' ts Cons.prems(4,5) False in \<open>simp_all add: answered_def\<close>)
    with got r ne show ?thesis by simp
  qed
qed simp

lemma dc_response_loop_spec:
  assumes "dc_response_loop ks pend ts rs n = (rs', n')" "distinct (map fst rs)"
    and "\<forall>(dc, m) \<in> set rs. m = local_quorum_for ks dc + in_dc ks dc pend"
  shows "distinct (map fst rs') \<and> fst ` set rs' = fst ` set rs \<union> get_datacenter ks ` set ts \<and>
    (\<forall>(dc, m) \<in> set rs'. m = local_quorum_for ks dc + in_dc ks dc pend)"
  using assms
proof (induction ks pend ts rs n rule: dc_response_loop.induct)
  case (2 ks pend t ts rs n)
  show ?case
  proof (cases "map_of rs (get_datacenter ks t)")
    case None
    then have "get_datacenter ks t \<notin> fst ` set rs" by (simp add: map_of_eq_None_iff)
    with 2(1) [OF refl None refl] 2(3-5) None show ?thesis by (simp add: Let_def)
  next
    case (Some m)
    then have "get_datacenter ks t \<in> fst ` set rs" by (metis fst_conv image_eqI map_of_SomeD)
    with 2(2) [OF refl Some] 2(3-5) Some show ?thesis by (simp add: Let_def insert_absorb)
  qed
qed simp

lemma sync_potential:
  assumes "strategy ks = Network_topology nrs" "distinct (get_datacenters nrs)" "distinct ts"
    and "assure_sufficient_live_nodes EACH_QUORUM ks ts pend = Inr ()"
    and "dc_response_loop ks pend ts [] 0 = (rs, n)"
  shows "block_for_each_quorum ks \<le> potential ks (Datacenter_sync_write_response_handler rs) ts"
proof -
  let ?q = "local_quorum_for ks"
  have rs: "distinct (map fst rs)" "fst ` set rs = get_datacenter ks ` set ts"
    "\<forall>(dc, m) \<in> set rs. m = ?q dc + in_dc ks dc pend"
    using dc_response_loop_spec [OF assms(5)] by simp_all
  note enough = assure_each_quorum [OF assms(1,2,4)]
  have "dc \<in> fst ` set rs" if "dc \<in> set (get_datacenters nrs)" for dc
  proof -
    have "?q dc > 0" by (simp add: local_quorum_for_def assms(1))
    then have "in_dc ks dc ts > 0" using enough [of dc] that by linarith
    then obtain ep where "ep \<in> set ts" "get_datacenter ks ep = dc" by (auto simp: filter_empty_conv)
    then show ?thesis using rs(2) by auto
  qed
  then have sub: "set (get_datacenters nrs) \<subseteq> set (map fst rs)" by auto
  have "block_for_each_quorum ks = sum ?q (set (get_datacenters nrs))"
    using assms(2) by (simp add: block_for_each_quorum_sum [OF assms(1)] sum_list_distinct_conv_sum_set)
  also have "\<dots> \<le> sum ?q (set (map fst rs))" by (rule sum_mono2) (use sub in auto)
  also have "\<dots> = (\<Sum>e \<leftarrow> rs. ?q (fst e))"
    using sum_list_distinct_conv_sum_set [OF rs(1), of ?q] by (simp add: comp_def)
  also have "\<dots> \<le> (\<Sum>e \<leftarrow> rs. min (snd e) (in_dc ks (fst e) ts))"
  proof (rule sum_list_mono)
    fix e
    assume e: "e \<in> set rs"
    then have "fst e \<in> get_datacenter ks ` set ts" using rs(2) by auto
    then have "?q (fst e) + in_dc ks (fst e) pend \<le> in_dc ks (fst e) ts" by (intro enough) auto
    moreover have "snd e = ?q (fst e) + in_dc ks (fst e) pend" using rs(3) e by (cases e) auto
    ultimately show "?q (fst e) \<le> min (snd e) (in_dc ks (fst e) ts)" by simp
  qed
  finally show ?thesis by (simp add: case_prod_beta')
qed

lemma new_handler_will_do:
  assumes "assure_sufficient_live_nodes cl ks ts pend = Inr ()" "cl \<noteq> ANY" "0 < block_for ks cl" "distinct ts"
    and "\<And>nrs. strategy ks = Network_topology nrs \<Longrightarrow> distinct (get_datacenters nrs)"
  shows "will_do ks (new_handler ks cl is_counter msize ts pend dead)"
proof (cases "cl = EACH_QUORUM \<and> (\<exists>nrs. strategy ks = Network_topology nrs)")
  case True
  then obtain nrs where nrs: "strategy ks = Network_topology nrs" and cl: "cl = EACH_QUORUM" by blast
  obtain rs n where rs: "dc_response_loop ks pend ts [] 0 = (rs, n)" by fastforce
  have "distinct (map fst rs)" "get_datacenter ks ` set ts \<subseteq> fst ` set rs"
    using dc_response_loop_spec [OF rs] by simp_all
  moreover have "block_for_each_quorum ks \<le> potential ks (Datacenter_sync_write_response_handler rs) ts"
    using sync_potential [OF nrs assms(5) [OF nrs] assms(4) _ rs] assms(1) cl by simp
  ultimately show ?thesis
    using assms(3,4) nrs cl rs
    by (simp add: new_handler_def abstract_handler_def will_do_def is_datacenter_local_def)
next
  case False
  show ?thesis
  proof (cases "is_datacenter_local cl")
    case True
    then have "block_for ks cl + count_local_endpoints ks pend \<le> count_local_endpoints ks ts"
      using assms(1) by (auto simp: is_datacenter_local_def assure_sufficient_live_nodes_def Let_def split: if_splits)
    with True assms(3,4) show ?thesis
      by (simp add: new_handler_def abstract_handler_def will_do_def count_local_endpoints_def)
  next
    case nl: False
    have "block_for ks cl + length pend \<le> length ts"
      using assms(1,2) False nl
      by (cases cl; cases "strategy ks") (auto simp: is_datacenter_local_def assure_sufficient_live_nodes_def assure_default_def
          assure_sufficient_live_nodes_each_quorum_def split: if_splits)
    moreover have "new_handler ks cl is_counter msize ts pend dead =
        abstract_handler ks cl is_counter msize ts (length pend) dead Write_response_handler"
      using False nl by (auto simp: new_handler_def split: consistency_level.splits replication_strategy.splits)
    ultimately show ?thesis using assms(3,4) by (simp add: abstract_handler_def will_do_def)
  qed
qed

lemma distinct_if_count_le: "(\<And>x. count_list xs x \<le> 1) \<Longrightarrow> distinct xs"
proof (induction xs)
  case (Cons y xs)
  have "count_list xs x \<le> 1" for x using Cons.prems [of x] by (simp split: if_splits)
  moreover have "count_list xs y = 0" using Cons.prems [of y] by simp
  ultimately show ?case using Cons.IH by (simp add: count_list_0_iff)
qed simp

lemma write_acknowledged_lemma:
  assumes "reach ks p acked started"
  shows "distinct (map fst (ready p)) \<and>
    (\<forall>i v. (i, Ready v) \<in> set (ready p) \<longrightarrow>
       (\<exists>h. started i = Some h \<and>
          total_block_for h \<le> card {ep \<in> set (targets h). ep \<in> acked i \<and> counts ks h ep}))"
proof -
  have ok: "id_ok ks p acked started i" for i using reach_ok [OF assms] by (rule proxy_ok_id)
  have "count_list (map fst (ready p)) i \<le> 1" for i
    using ok [of i] by (cases "started i"; cases "live p i") (auto simp: id_ok_def)
  moreover have "\<exists>h. started i = Some h \<and> enough_acks ks (acked i) h" if "(i, Ready v) \<in> set (ready p)" for i v
  proof -
    have "count_list (map fst (ready p)) i \<noteq> 0" using that by (metis count_list_0_iff fst_conv image_eqI set_map)
    then show ?thesis using ok [of i] that by (cases "started i") (auto simp: id_ok_def)
  qed
  ultimately show ?thesis by (auto simp: enough_acks_def intro: distinct_if_count_le)
qed

text \<open>Every write was started by the constructor of its handler, on distinct live targets that passed the check
  of availability.\<close>

lemma reach_started:
  "reach ks p acked started \<Longrightarrow> started i = Some h \<Longrightarrow>
    \<exists>cl is_counter msize ts pend dead. h = new_handler ks cl is_counter msize ts pend dead \<and> distinct ts \<and>
      assure_sufficient_live_nodes cl ks ts pend = Inr ()"
proof (induction rule: reach.induct)
  case (reach_create p acked started th mh ip cl is_counter w j p')
  show ?case
  proof (cases "i = j")
    case True
    let ?pend = "filter (\<lambda>ep. ep \<notin> set (natural_endpoints w)) (pending_for_token w)"
    let ?all = "natural_endpoints w @ ?pend"
    let ?live = "remdups (filter (is_alive w) ?all)"
    have "assure_sufficient_live_nodes cl ks ?live ?pend = Inr ()"
      "h = new_handler ks cl is_counter (request_size w) ?live ?pend (filter (\<lambda>ep. \<not> is_alive w ep) ?all)"
      using reach_create(2,4) True
      by (auto simp: create_write_response_handler_def register_response_handler_def Let_def split: if_splits sum.splits)
    then show ?thesis by (metis distinct_remdups)
  next
    case False
    then show ?thesis using reach_create(3,4) by simp
  qed
qed auto

lemma new_handler_waits_for:
  assumes "h = new_handler ks cl is_counter msize ts pend dead"
  shows "total_block_for h = block_for ks cl +
      (if is_datacenter_local cl then count_local_endpoints ks pend
       else if cl = EACH_QUORUM \<and> (\<exists>nrs. strategy ks = Network_topology nrs) then 0 else length pend)"
    and "counts ks h ep \<longleftrightarrow> (is_datacenter_local cl \<longrightarrow> is_local ks ep)" and "targets h = ts"
  using assms
  by (auto simp: new_handler_def abstract_handler_def counts_def
      split: prod.splits consistency_level.splits replication_strategy.splits)

section \<open>Properties\<close>

text \<open>C13. A write that passed the availability check is acknowledged once its targets answer: at every
  level but ANY, for a simple or a network topology, if each live endpoint of the token answers once, in
  any order and with any versions, every answer is processed without a failed assertion and the
  client's future becomes ready with a commit version, whether or not the write was throttled.\<close>

theorem write_completes:
  assumes "create_write_response_handler ks total_hints max_hints in_progress cl is_counter w p = Inr (i, p1)"
    and "cl \<noteq> ANY" "0 < block_for ks cl" "references p i = 0"
    and "\<And>nrs. strategy ks = Network_topology nrs \<Longrightarrow> distinct (get_datacenters nrs)"
    and "distinct (map fst rs)"
      "set (map fst rs) = {ep \<in> set (natural_endpoints w) \<union> set (pending_for_token w). is_alive w ep}"
  shows "\<exists>p' v. respond_all ks i rs p1 = Some p' \<and> (i, Ready v) \<in> set (ready p')"
proof -
  let ?pend = "filter (\<lambda>ep. ep \<notin> set (natural_endpoints w)) (pending_for_token w)"
  let ?all = "natural_endpoints w @ ?pend"
  let ?live = "remdups (filter (is_alive w) ?all)"
  define h where "h = new_handler ks cl is_counter (request_size w) ?live ?pend (filter (\<lambda>ep. \<not> is_alive w ep) ?all)"
  have as: "assure_sufficient_live_nodes cl ks ?live ?pend = Inr ()"
    and p1: "response_handlers p1 i = Some h" "references p1 i = 0"
    using assms(1,4) by (auto simp: create_write_response_handler_def register_response_handler_def Let_def h_def
        split: if_splits sum.splits)
  have w: "will_do ks h" unfolding h_def by (rule new_handler_will_do [OF as assms(2,3) _ assms(5)]) simp_all
  have ts: "set (map fst rs) = set (targets h)" and fresh: "\<not> cl_achieved h"
    using new_handler_fresh [OF h_def] assms(7) by auto
  have "targets h \<noteq> []" using w fresh no_potential [of ks "kind h"] by (auto simp: will_do_def)
  then have "rs \<noteq> []" using ts by auto
  then show ?thesis
    using respond_all_progress [OF p1(1) w _ p1(2) assms(6) ts] fresh by (auto simp: answered_def)
qed

definition example_cluster :: cluster where
  "example_cluster = \<lparr>strategy = Plain_strategy 3, get_datacenter = (\<lambda>_. ''dc''), local_addr = 1\<rparr>"

definition example_write :: write_request where
  "example_write = \<lparr>natural_endpoints = [1, 2, 3], pending_for_token = [4], is_alive = (\<lambda>ep. ep \<noteq> 2),
     request_size = 100\<rparr>"

abbreviation example_start :: "request_error + response_id \<times> proxy" where
  "example_start \<equiv> create_write_response_handler example_cluster 0 10 (\<lambda>_. 0) QUORUM False example_write (proxy_start 1000)"

lemma example_created: "example_start = Inr (1, snd (projr example_start))"
  by (simp add: create_write_response_handler_def example_cluster_def example_write_def cannot_hint_def
      assure_sufficient_live_nodes_def assure_default_def quorum_for_def register_response_handler_def proxy_start_def Let_def)

definition example_answers :: "(endpoint \<times> u32) list \<Rightarrow> proxy" where
  "example_answers rs = the (respond_all example_cluster 1 rs (snd (projr example_start)))"

lemmas example_defs = example_answers_def create_write_response_handler_def example_cluster_def example_write_def
  cannot_hint_def assure_sufficient_live_nodes_def assure_default_def quorum_for_def register_response_handler_def
  proxy_start_def new_handler_def abstract_handler_def is_datacenter_local_def got_response_def handler_response_def
  handler_signal_def signal_nr_def need_throttle_writes_def handler_unthrottle_def set_ready_def
  remove_response_handler_def destroy_handler_def proxy_unthrottle_def

lemma example_run:
  "got_response example_cluster 1 4 7 (snd (projr example_start)) = Some (example_answers [(4, 7)])"
  "got_response example_cluster 1 1 9 (example_answers [(4, 7)]) = Some (example_answers [(4, 7), (1, 9)])"
  "got_response example_cluster 1 3 8 (example_answers [(4, 7), (1, 9)]) = Some (example_answers [(4, 7), (1, 9), (3, 8)])"
  "ready (example_answers [(4, 7), (1, 9), (3, 8)]) = [(1, Ready 8)]"
  "1 < next_response_id (snd (projr example_start))" "1 < next_response_id (example_answers [(4, 7)])"
  "1 < next_response_id (example_answers [(4, 7), (1, 9)])"
  "response_handlers (snd (projr example_start)) 1 =
     Some (new_handler example_cluster QUORUM False 100 [1, 3, 4] [4] [2])"
  by (simp_all add: example_defs Let_def)

lemmas example_reach = reach_response [OF reach_response [OF reach_response [OF reach_create [OF reach_start example_created]
  example_run(5,1)] example_run(6,2)] example_run(7,3)]

theorem write_completes_witness:
  "\<exists>p' v. respond_all example_cluster 1 [(4, 7), (1, 9), (3, 8)] (snd (projr example_start)) = Some p' \<and>
     (1, Ready v) \<in> set (ready p')"
  by (rule write_completes [OF example_created])
    (auto simp: example_cluster_def example_write_def quorum_for_def proxy_start_def)

text \<open>What a level promises of a write to the targets \<open>ts\<close> with the pending endpoints \<open>pend\<close>, when the endpoints
  \<open>eps\<close> have answered.\<close>

definition level_met :: "cluster \<Rightarrow> consistency_level \<Rightarrow> endpoint list \<Rightarrow> endpoint list \<Rightarrow> endpoint set \<Rightarrow> bool" where
  "level_met ks cl ts pend eps \<longleftrightarrow>
     (if is_datacenter_local cl
      then block_for ks cl + count_local_endpoints ks pend \<le> card {ep \<in> set ts. ep \<in> eps \<and> is_local ks ep}
      else if cl = EACH_QUORUM \<and> (\<exists>nrs. strategy ks = Network_topology nrs)
      then block_for ks cl \<le> card {ep \<in> set ts. ep \<in> eps}
      else block_for ks cl + length pend \<le> card {ep \<in> set ts. ep \<in> eps})"

text \<open>C11. An acknowledgement means what the level promises: in every reachable state of the coordinator,
  over all interleavings of answers, timers, sends and throttling, each write's future was completed
  at most once, and it was completed with a value only if enough of its distinct targets answered: at a level of
  the local data center, \<open>block_for\<close> plus the pending endpoints of this data center, all of them in it; at
  EACH_QUORUM under a network topology, the sum of the quorums, without the pending endpoints (which the code
  leaves out there); at every other level \<open>block_for\<close> plus all pending endpoints.\<close>

theorem write_acknowledged:
  assumes "reach ks p acked started"
  shows "distinct (map fst (ready p)) \<and>
    (\<forall>i v. (i, Ready v) \<in> set (ready p) \<longrightarrow>
       (\<exists>cl is_counter msize ts pend dead.
          started i = Some (new_handler ks cl is_counter msize ts pend dead) \<and> distinct ts \<and>
          assure_sufficient_live_nodes cl ks ts pend = Inr () \<and> level_met ks cl ts pend (acked i)))"
proof (intro conjI allI impI)
  show "distinct (map fst (ready p))" using write_acknowledged_lemma [OF assms] by blast
next
  fix i v
  assume "(i, Ready v) \<in> set (ready p)"
  then obtain h where h: "started i = Some h"
      "total_block_for h \<le> card {ep \<in> set (targets h). ep \<in> acked i \<and> counts ks h ep}"
    using write_acknowledged_lemma [OF assms] by blast
  obtain cl c m ts pend dead where new: "h = new_handler ks cl c m ts pend dead" "distinct ts"
      "assure_sufficient_live_nodes cl ks ts pend = Inr ()"
    using reach_started [OF assms h(1)] by blast
  have "level_met ks cl ts pend (acked i)"
    using h(2) unfolding new_handler_waits_for [OF new(1)] level_met_def
    by (cases "is_datacenter_local cl"; cases "cl = EACH_QUORUM \<and> (\<exists>nrs. strategy ks = Network_topology nrs)") auto
  then show "\<exists>cl is_counter msize ts pend dead.
      started i = Some (new_handler ks cl is_counter msize ts pend dead) \<and> distinct ts \<and>
      assure_sufficient_live_nodes cl ks ts pend = Inr () \<and> level_met ks cl ts pend (acked i)"
    using h(1) new by blast
qed

theorem write_acknowledged_witness:
  "distinct (map fst (ready (example_answers [(4, 7), (1, 9), (3, 8)]))) \<and>
    (\<exists>cl is_counter msize ts pend dead.
       response_handlers (snd (projr example_start)) 1 = Some (new_handler example_cluster cl is_counter msize ts pend dead) \<and>
       distinct ts \<and> assure_sufficient_live_nodes cl example_cluster ts pend = Inr () \<and>
       level_met example_cluster cl ts pend {3, 1, 4})"
proof -
  have "(1, Ready 8) \<in> set (ready (example_answers [(4, 7), (1, 9), (3, 8)]))" by (simp add: example_run(4))
  from write_acknowledged [OF example_reach, THEN conjunct2, rule_format, OF this, unfolded fun_upd_same]
  show ?thesis using write_acknowledged [OF example_reach, THEN conjunct1] by (rule conjI [rotated])
qed

text \<open>C34. The throttling counters are exact: in every reachable state the number of writes is the number of the
  handlers that exist, and the number of background writes and their bytes are the number and the sizes of those
  whose client was answered; so the subtractions in the destructor of a handler never wrap below zero.\<close>

theorem background_accounting:
  assumes "reach ks p acked started"
  shows "writes p = (\<Sum>i < next_response_id p. of_bool (live p i \<noteq> None)) \<and>
    background_writes p =
      (\<Sum>i < next_response_id p. case live p i of None \<Rightarrow> 0 | Some h \<Rightarrow> of_bool (in_background h)) \<and>
    background_write_bytes p = (\<Sum>i < next_response_id p. case live p i of None \<Rightarrow> 0 | Some h \<Rightarrow> background_size h) \<and>
    (\<forall>i h. live p i = Some h \<longrightarrow>
       i < next_response_id p \<and> 1 \<le> writes p \<and>
       (in_background h \<longrightarrow> 1 \<le> background_writes p \<and> mutation_size h \<le> background_write_bytes p))"
proof -
  have ok: "counters_ok p" and id: "id_ok ks p acked started i" for i
    using reach_ok [OF assms] by (simp_all add: proxy_ok_def)
  have "over (\<lambda>_. 1) p = (\<Sum>i < next_response_id p. of_bool (live p i \<noteq> None))"
    unfolding over_def by (intro sum.cong) (auto split: option.splits)
  moreover have "i < next_response_id p \<and> 1 \<le> writes p \<and>
      (in_background h \<longrightarrow> 1 \<le> background_writes p \<and> mutation_size h \<le> background_write_bytes p)"
    if "live p i = Some h" for i h
  proof -
    have i: "i < next_response_id p" using id_ok_started [OF id that] by simp
    show ?thesis
      using ok i over_ge [OF that i, of "\<lambda>_. 1"] over_ge [OF that i, of "\<lambda>h. of_bool (in_background h)"]
        over_ge [OF that i, of background_size]
      by (auto simp: counters_ok_def)
  qed
  ultimately show ?thesis using ok by (auto simp: counters_ok_def over_def)
qed

text \<open>A write at level ONE with a pending endpoint, after two of its three targets answered.\<close>

abbreviation example_one :: "request_error + response_id \<times> proxy" where
  "example_one \<equiv> create_write_response_handler example_cluster 0 10 (\<lambda>_. 0) ONE False example_write (proxy_start 1000)"

abbreviation example_background :: proxy where
  "example_background \<equiv> the (respond_all example_cluster 1 [(4, 7), (1, 9)] (snd (projr example_one)))"

lemma example_background_run:
  "example_one = Inr (1, snd (projr example_one))"
  "got_response example_cluster 1 4 7 (snd (projr example_one)) =
     Some (the (got_response example_cluster 1 4 7 (snd (projr example_one))))"
  "got_response example_cluster 1 1 9 (the (got_response example_cluster 1 4 7 (snd (projr example_one)))) =
     Some example_background"
  "1 < next_response_id (snd (projr example_one))"
  "1 < next_response_id (the (got_response example_cluster 1 4 7 (snd (projr example_one))))"
  "next_response_id example_background = 2" "live example_background 0 = None"
  "map_option mutation_size (live example_background 1) = Some 100"
  "map_option cl_achieved (live example_background 1) = Some True"
  "map_option throttled (live example_background 1) = Some False"
  by (simp_all add: example_defs live_def Let_def)

lemmas example_background_reach = reach_response [OF reach_response [OF
  reach_create [OF reach_start example_background_run(1)] example_background_run(4,2)] example_background_run(5,3)]

theorem background_accounting_witness:
  "writes example_background = 1 \<and> background_writes example_background = 1 \<and>
    background_write_bytes example_background = 100"
proof -
  obtain h where "live example_background 1 = Some h" "in_background h" "mutation_size h = 100"
    using example_background_run(8-10) by auto
  moreover have "{..<2} = {0, 1 :: nat}" by auto
  ultimately show ?thesis
    using background_accounting [OF example_background_reach] example_background_run(6,7) by simp
qed

text \<open>C9. Read your quorum: suppose that a write at a level of the whole cluster (any level but LOCAL_ONE and
  LOCAL_QUORUM, and EACH_QUORUM only if no endpoint was pending) was acknowledged to the client in
  any reachable state, that a later read at any level valid for reads contacts the endpoints chosen by
  \<open>filter_for_query\<close> among the live replicas, and that the two levels together block for more than the
  number of replicas of the token (as two quorums do). Then the read contacts a replica that
  acknowledged the write, also while pending endpoints join the ring. Without a \<open>column_family\<close> this needs no
  more; with one, the choice by hit rate must not have picked a replica twice, which it can do.\<close>

theorem acknowledged_write_is_read:
  assumes "reach ks p acked started" "(i, Ready v) \<in> set (ready p)"
    and "started i = Some (new_handler ks wl is_counter msize ts pend dead)"
      "\<not> is_datacenter_local wl" "wl = EACH_QUORUM \<longrightarrow> pend = []" "distinct ts"
      "set ts \<subseteq> set replicas \<union> set pend" "set replicas \<inter> set pend = {}"
    and "distinct up" "set up \<subseteq> set replicas" "validate_for_read rl = Inr ()"
      "is_sufficient_live_nodes rl ks up"
      "filter_for_query rl ks up rr want_extra cf now r1 r2 = Some (eps, extra, cf')" "cf = None \<or> distinct eps"
    and "length replicas < block_for ks wl + block_for ks rl"
  shows "\<exists>ep. ep \<in> set eps \<and> ep \<in> acked i \<and> ep \<in> set replicas"
proof (rule ccontr)
  assume none: "\<not> ?thesis"
  let ?h = "new_handler ks wl is_counter msize ts pend dead"
  let ?a = "{ep \<in> set ts. ep \<in> acked i \<and> counts ks ?h ep}"
  have h: "total_block_for ?h = block_for ks wl + length pend" "targets ?h = ts"
    using new_handler_waits_for [OF refl, of ks wl is_counter msize ts pend dead] assms(4,5) by auto
  have "block_for ks wl + length pend \<le> card ?a"
    using write_acknowledged_lemma [OF assms(1)] assms(2,3) h by fastforce
  also have "\<dots> \<le> card (?a \<inter> set replicas) + card (set pend)"
  proof -
    have "?a \<subseteq> (?a \<inter> set replicas) \<union> set pend" using assms(7) by auto
    then have "card ?a \<le> card ((?a \<inter> set replicas) \<union> set pend)" by (intro card_mono) auto
    also have "\<dots> \<le> card (?a \<inter> set replicas) + card (set pend)" by (rule card_Un_le)
    finally show ?thesis .
  qed
  also have "card (set pend) \<le> length pend" by (rule card_length)
  finally have w: "block_for ks wl \<le> card (?a \<inter> set replicas)" by simp
  have r: "set eps \<subseteq> set up" "block_for ks rl \<le> card (set eps)"
    using filter_for_query_sufficient [OF assms(9,11,12,13)] assms(14) by (auto simp: distinct_card)
  have "(?a \<inter> set replicas) \<inter> set eps = {}" using none by auto
  then have "card ((?a \<inter> set replicas) \<union> set eps) = card (?a \<inter> set replicas) + card (set eps)"
    by (intro card_Un_disjoint) auto
  moreover have "card ((?a \<inter> set replicas) \<union> set eps) \<le> card (set replicas)"
    using r(1) assms(10) by (intro card_mono) auto
  moreover have "card (set replicas) \<le> length replicas" by (rule card_length)
  ultimately show False using w r(2) assms(15) by linarith
qed

text \<open>A quorum read on a coordinator that is a replica, with hit rates that differ: the choice by hit rate takes
  the replicas 1 and 3.\<close>

definition example_hit_rates :: column_family where
  "example_hit_rates =
     \<lparr>global_cache_hit_rate = 9/10, cluster_cache_hit_rates = Map.empty(2 \<mapsto> \<lparr>rate = 4/5, last_updated = 0\<rparr>,
        3 \<mapsto> \<lparr>rate = 9/10, last_updated = 0\<rparr>), gossip_hit_rates = (\<lambda>_. None)\<rparr>"

lemma example_replicas:
  "filter_for_query QUORUM example_cluster [1, 2, 3] RRD_NONE False (Some example_hit_rates) 5 (1/2) 0 =
     Some ([1, 3], None, Some example_hit_rates)"
proof -
  have p: "miss_equalizing_probablities [9/10, 4/5, 9/10] = [2/5, 1/5, 2/5]"
    by (simp add: miss_equalizing_probablities_def)
  have c: "clip_probabilities [2/5, 1/5, 2/5] (1/2) = Some [2/5, 1/5, 2/5]"
    by (simp add: clip_probabilities_eq)
  have q: "redistribute [2/5, 1/5, 2/5] 0 2 = Some [1/2, 1/20, 9/20]"
    by (simp add: redistribute_def redistribute_mixed_def sort_deficits_def add_where_def Let_def upt_rec)
  have s: "ssample 2 [1/2, 1/20, 9/20] (1/2) = [0, 2]"
    by (simp add: ssample_def randone_def numeral_2_eq_2 Let_def)
  have h: "hit_rates_of example_cluster 5 [1, 2, 3] example_hit_rates =
      ([(1, 9/10), (2, 4/5), (3, 9/10)], example_hit_rates)"
    by (simp add: hit_rate_of_def get_hit_rate_def example_hit_rates_def example_cluster_def max_hit_rate_def)
  have "choose_by_hit_rate example_cluster 5 (1/2) 0 2 False [1, 2, 3] example_hit_rates = Some ([1, 3], example_hit_rates)"
    unfolding choose_by_hit_rate_def h
    by (simp add: example_cluster_def miss_equalizing_combination_def p c q s combination_get_def Let_def)
  moreover have "block_for example_cluster QUORUM = 2" by (simp add: quorum_for_def example_cluster_def)
  ultimately show ?thesis by (simp add: filter_for_query_def is_datacenter_local_def Let_def del: block_for.simps)
qed

theorem acknowledged_write_is_read_witness:
  "\<exists>eps. filter_for_query QUORUM example_cluster [1, 2, 3] RRD_NONE False (Some example_hit_rates) 5 (1/2) 0 =
      Some (eps, None, Some example_hit_rates) \<and>
    (1, Ready 8) \<in> set (ready (example_answers [(4, 7), (1, 9), (3, 8)])) \<and>
    (\<exists>ep. ep \<in> set eps \<and> ep \<in> {3, 1, 4} \<and> ep \<in> set [1, 2, 3])"
proof -
  have "(Map.empty(1 := response_handlers (snd (projr example_start)) 1)) 1 =
      Some (new_handler example_cluster QUORUM False 100 [1, 3, 4] [4] [2])"
    by (simp only: fun_upd_same example_run(8))
  moreover have ready: "(1, Ready 8) \<in> set (ready (example_answers [(4, 7), (1, 9), (3, 8)]))" by (simp add: example_run(4))
  ultimately have "\<exists>ep. ep \<in> set [1, 3] \<and> ep \<in> {3, 1, 4} \<and> ep \<in> set [1, 2, 3 :: endpoint]"
    using acknowledged_write_is_read [OF example_reach, of 1 8 QUORUM False 100 "[1, 3, 4]" "[4]" "[2]" "[1, 2, 3]" "[1, 2, 3]"
        QUORUM, OF _ _ _ _ _ _ _ _ _ _ _ example_replicas]
    by (simp add: is_datacenter_local_def validate_for_read_def is_sufficient_live_nodes_def
        quorum_for_def example_cluster_def [THEN arg_cong [where f = strategy]])
  with example_replicas ready show ?thesis by blast
qed

text \<open>C14. The commit version handed to the client by a batch: in every interleaving in which the writes
  of the batch are started and complete, the promise of \<open>moon_parallel_for_each\<close> is fulfilled exactly
  once, by the last event and not before, with the first failure if a write failed and otherwise with
  the maximum of the commit versions, so the result does not depend on the order of completion.\<close>

theorem moon_parallel_for_each_collects:
  assumes "pfe_valid True 0 es"
  shows "pr (moon_parallel_for_each es) =
      [case pfe_errors es of e # _ \<Rightarrow> Failed e | [] \<Rightarrow> Ready (fold max (pfe_versions es) 0)] \<and>
    (\<forall>k < length es. pr (moon_parallel_for_each (take k es)) = [])"
proof -
  have "es \<noteq> []" using assms by auto
  then show ?thesis
    using pfe_run [OF assms, of "pfe_init\<lparr>waiting := 1\<rparr>"] unfolding moon_parallel_for_each_def
    by (cases "pfe_errors es") (simp_all add: pfe_init_def pfe_error_first)
qed

theorem moon_parallel_for_each_collects_witness:
  "pr (moon_parallel_for_each [Launch, Launch, Complete (Inr 7), Loop_end, Complete (Inr 4)]) = [Ready 7]"
  using moon_parallel_for_each_collects [of "[Launch, Launch, Complete (Inr 7), Loop_end, Complete (Inr 4)]"]
  by simp

section \<open>Defects\<close>

definition two_dcs :: cluster where
  "two_dcs = \<lparr>strategy = Network_topology [(''a'', 3), (''b'', 1)],
     get_datacenter = (\<lambda>ep. if ep < 10 then ''a'' else ''b''), local_addr = 1\<rparr>"

text \<open>With pending endpoints an EACH_QUORUM write can be acknowledged without a quorum in a data
  center: the handler adds the pending endpoints to the answers it accepts per data center but not to
  the total it waits for, so the surplus of one data center stands in for the quorum of another.\<close>

lemma each_quorum_without_quorum:
  "\<exists>w i p1 p'. create_write_response_handler two_dcs 0 10 (\<lambda>_. 0) EACH_QUORUM False w (proxy_start 1000) = Inr (i, p1) \<and>
     respond_all two_dcs i [(1, 5), (2, 5), (3, 5)] p1 = Some p' \<and> ready p' = [(i, Ready 5)] \<and>
     local_quorum_for two_dcs ''b'' = 1 \<and> in_dc two_dcs ''b'' [1, 2, 3] = 0"
proof -
  let ?w = "\<lparr>natural_endpoints = [1, 2, 3, 10], pending_for_token = [4], is_alive = (\<lambda>_. True), request_size = 100\<rparr>"
  let ?h = "\<lparr>handler_cl = EACH_QUORUM, total_block_for = 3, is_counter_write = False, mutation_size = 100,
     targets = [1, 2, 3, 10, 4], pending_endpoints = 1, dead_endpoints = [], cl_acks = 0, cl_achieved = False,
     timedout = False, throttled = False, commit_version = 0,
     kind = Datacenter_sync_write_response_handler [(''a'', 3), (''b'', 1)]\<rparr>"
  let ?p = "(proxy_start 1000)\<lparr>next_response_id := 2, writes := 1, response_handlers := [1 \<mapsto> ?h]\<rparr>"
  have "create_write_response_handler two_dcs 0 10 (\<lambda>_. 0) EACH_QUORUM False ?w (proxy_start 1000) = Inr (1, ?p)"
    by (simp add: create_write_response_handler_def two_dcs_def cannot_hint_def should_hint_def
        assure_sufficient_live_nodes_def assure_sufficient_live_nodes_each_quorum_def count_per_dc_endpoints_def
        get_datacenters_def local_quorum_for_def get_replication_factor_dc_def block_for_each_quorum_def
        register_response_handler_def proxy_start_def new_handler_def abstract_handler_def is_datacenter_local_def Let_def
        numeral_3_eq_3)
  moreover have "\<exists>p'. respond_all two_dcs 1 [(1, 5), (2, 5), (3, 5)] ?p = Some p' \<and> ready p' = [(1, Ready 5)]"
    by (simp add: got_response_def handler_response_def handler_signal_def signal_nr_def need_throttle_writes_def
        handler_unthrottle_def set_ready_def proxy_start_def two_dcs_def Let_def)
  moreover have "local_quorum_for two_dcs ''b'' = 1" "in_dc two_dcs ''b'' [1, 2, 3] = 0"
    by (simp_all add: two_dcs_def local_quorum_for_def get_replication_factor_dc_def)
  ultimately show ?thesis by blast
qed

text \<open>The version of a write is that of the last answer before its acknowledgement, not the highest:
  here replica 1 committed with version 9, and the client is told 8.\<close>

lemma last_answer_version_wins:
  "ready (example_answers [(4, 7), (1, 9), (3, 8)]) = [(1, Ready 8)]"
  by (rule example_run(4))

text \<open>A batch of counter updates alone leaves the commit version uninitialised, and a failed write reports
  version 1.\<close>

lemma counters_only_version_uninitialised: "do_moon_mutate (Inr ()) None = Inr None"
  by (simp add: do_moon_mutate_def moon_mutate_internal_def)

lemma failed_write_reports_version_1: "fst (moon_mutate_end (Failed e)) = 1"
  by (simp add: moon_mutate_end_def)

end
