(* ===== verification/Sessions.thy ===== *)
theory Sessions
  imports Memtable Client Write_Properties
begin

text \<open>
  PORT as a whole: any number of clients, each with its \<open>ClientView\<close>, and the servers that hold the
  partitions. A key has one replica, so the memtables of all servers together are one map from keys to
  partition entries. The steps are those of the code in \<open>CassandraClient10.java\<close>, \<open>ClientView.java\<close>,
  \<open>service/storage_proxy.cc\<close> (\<open>moon_parallel_for_each\<close>) and \<open>memtable.cc\<close>, with the network between them:
  requests of different clients interleave key by key, replies can be lost, an operation the client has
  given up can still reach its server, once or several times, and read replies may carry any version. The
  reply to a batch is the version that \<open>moon_parallel_for_each\<close> has collected; that \<open>do_moon_mutate\<close> passes it
  on through a reference to a local variable, which may be gone by then, is left out.

  The theorems are about a session: a client reads its own writes, and the version numbers stay within
  the bounds that the other theories assume.
\<close>

section \<open>The system\<close>

text \<open>A batch on the server that coordinates it: the version proposed for all its keys, the writes that
  the loop of \<open>moon_parallel_for_each\<close> has not started and those that are running, the state of the loop,
  and (for the statement of the theorems) what its writes have committed.\<close>

record 'm batch =
  proposed :: u32
  b_todo :: "(bytes \<times> 'm) list"
  b_running :: "(bytes \<times> 'm) list"
  b_looping :: bool
  collector :: moon_parallel_for_each_state
  b_committed :: "(bytes \<times> u32) list"

datatype activity = Idle | Awaiting nat | Reading u32

record ('p, 'm) system =
  table :: "(bytes, 'p) memtable"
  views :: "nat \<Rightarrow> client_view"
  activities :: "nat \<Rightarrow> activity"
  batches :: "nat \<rightharpoonup> 'm batch"
  next_batch :: nat
  strays :: "(bytes \<times> 'm \<times> u32) set"
  read_messages :: "(nat \<times> bytes \<times> u32) set"
  acked :: "nat \<Rightarrow> (bytes \<times> u32 \<times> u32) set"

definition system_start :: "('p, 'm) system" where
  "system_start = \<lparr>table = Map.empty, views = (\<lambda>_. client_view_new), activities = (\<lambda>_. Idle), batches = Map.empty,
     next_batch = 0, strays = {}, read_messages = {}, acked = (\<lambda>_. {})\<rparr>"

definition batch_start :: "bool \<Rightarrow> client_view \<Rightarrow> (bytes \<times> 'm) list \<Rightarrow> 'm batch" where
  "batch_start loading v muts = \<lparr>proposed = get_current_read_version loading v + 1, b_todo = muts, b_running = [],
     b_looping = True, collector = pfe_init\<lparr>waiting := 1\<rparr>, b_committed = []\<rparr>"

text \<open>For the statement of the theorems: every write that has been acknowledged to a client, whatever its version,
  as its key, the version it has committed at and the version in the reply to its batch.\<close>

definition acknowledge :: "'m batch \<Rightarrow> u32 \<Rightarrow> (bytes \<times> u32 \<times> u32) set \<Rightarrow> (bytes \<times> u32 \<times> u32) set" where
  "acknowledge b v known = known \<union> (\<lambda>(key, w). (key, w, v)) ` set (b_committed b)"

datatype label = Tau | Committed bytes u32 u32 | Served nat bytes u32 u32

text \<open>The number of the version a read is served from, 0 for the empty reader.\<close>

definition served_number :: "('key, 'p) memtable \<Rightarrow> 'key \<Rightarrow> nat option \<Rightarrow> u32 \<Rightarrow> bool" where
  "served_number mt key snap n =
     (case snap of None \<Rightarrow> n = 0 | Some s \<Rightarrow> \<exists>st. mt key = Some st \<and> snapshot_number st s = Some n)"

inductive sys_step :: "('p, 'm) partition_ops \<Rightarrow> bool \<Rightarrow> ('p, 'm) system \<Rightarrow> label \<Rightarrow> ('p, 'm) system \<Rightarrow> bool"
  for ops :: "('p, 'm) partition_ops" and is_data :: bool where
  begin_write: "activities s c = Idle \<Longrightarrow>
    sys_step ops is_data s Tau (s\<lparr>activities := (activities s)(c := Awaiting (next_batch s)),
      batches := (batches s)(next_batch s \<mapsto> batch_start loading (views s c) muts), next_batch := Suc (next_batch s)\<rparr>)"
| launch: "batches s i = Some b \<Longrightarrow> b_todo b = km # todo' \<Longrightarrow>
    sys_step ops is_data s Tau (s\<lparr>batches := (batches s)(i \<mapsto> b\<lparr>b_todo := todo', b_running := km # b_running b,
      collector := pfe_step Launch (collector b)\<rparr>)\<rparr>)"
| loop_end: "batches s i = Some b \<Longrightarrow> b_todo b = [] \<Longrightarrow> b_looping b \<Longrightarrow>
    sys_step ops is_data s Tau (s\<lparr>batches := (batches s)(i \<mapsto> b\<lparr>b_looping := False,
      collector := pfe_step Loop_end (collector b)\<rparr>)\<rparr>)"
| write_done: "batches s i = Some b \<Longrightarrow> (k, m) \<in> set (b_running b) \<Longrightarrow>
    memtable_apply ops is_data k m (Some 0) (proposed b) (table s) = Some (mt, Some v) \<Longrightarrow>
    sys_step ops is_data s (Committed k (proposed b) v) (s\<lparr>table := mt, batches := (batches s)(i \<mapsto>
      b\<lparr>b_running := remove1 (k, m) (b_running b), collector := pfe_step (Complete (Inr v)) (collector b),
        b_committed := (k, v) # b_committed b\<rparr>)\<rparr>)"
| write_failed: "batches s i = Some b \<Longrightarrow> (k, m) \<in> set (b_running b) \<Longrightarrow>
    sys_step ops is_data s Tau (s\<lparr>strays := insert (k, m, proposed b) (strays s), batches := (batches s)(i \<mapsto>
      b\<lparr>b_running := remove1 (k, m) (b_running b), collector := pfe_step (Complete (Inl e)) (collector b)\<rparr>)\<rparr>)"
| stray_write: "(k, m, p) \<in> strays s \<Longrightarrow> memtable_apply ops is_data k m (Some 0) p (table s) = Some (mt, Some v) \<Longrightarrow>
    sys_step ops is_data s (Committed k p v) (s\<lparr>table := mt\<rparr>)"
| acknowledged: "activities s c = Awaiting i \<Longrightarrow> batches s i = Some b \<Longrightarrow> pr (collector b) = [Ready v] \<Longrightarrow>
    sys_step ops is_data s Tau (s\<lparr>activities := (activities s)(c := Idle),
      views := (views s)(c := set_current_version_to_read v (views s c)),
      acked := (acked s)(c := acknowledge b v (acked s c))\<rparr>)"
| give_up: "sys_step ops is_data s Tau (s\<lparr>activities := (activities s)(c := Idle)\<rparr>)"
| begin_read: "activities s c = Idle \<Longrightarrow> get_version_to_read keys (views s c) = (v, view') \<Longrightarrow>
    sys_step ops is_data s Tau (s\<lparr>activities := (activities s)(c := Reading v), views := (views s)(c := view'),
      read_messages := read_messages s \<union> {c} \<times> set keys \<times> {v}\<rparr>)"
| serve_read: "(c, k, v) \<in> read_messages s \<Longrightarrow> memtable_read ops k v (table s) = Some (snap, mt) \<Longrightarrow>
    served_number mt k snap n \<Longrightarrow> sys_step ops is_data s (Served c k v n) (s\<lparr>table := mt\<rparr>)"
| end_read: "activities s c = Reading v \<Longrightarrow>
    sys_step ops is_data s Tau (s\<lparr>activities := (activities s)(c := Idle),
      views := (views s)(c := fst (snd (read_entries replies (views s c) Map.empty)))\<rparr>)"
| reader_done: "memtable_release k sn (table s) = Some mt \<Longrightarrow> sys_step ops is_data s Tau (s\<lparr>table := mt\<rparr>)"

inductive sys_run :: "('p, 'm) partition_ops \<Rightarrow> bool \<Rightarrow> ('p, 'm) system \<Rightarrow> ('p, 'm) system \<Rightarrow> bool"
  for ops :: "('p, 'm) partition_ops" and is_data :: bool where
  run_refl: "sys_run ops is_data s s"
| run_step: "sys_run ops is_data s s' \<Longrightarrow> sys_step ops is_data s' l s'' \<Longrightarrow> sys_run ops is_data s s''"

section \<open>The invariant\<close>

text \<open>A batch: its proposal is within the cap, the loop counts the running writes, and the largest commit
  version is known when the promise is fulfilled. What has been committed stays readable.\<close>

definition batch_ok :: "(bytes, 'p) memtable \<Rightarrow> 'm batch \<Rightarrow> bool" where
  "batch_ok mt b \<longleftrightarrow> proposed b \<noteq> 0 \<and> proposed b \<le> VERSION_CAP \<and>
     waiting (collector b) = length (b_running b) + of_bool (b_looping b) \<and> (\<not> b_looping b \<longrightarrow> b_todo b = []) \<and>
     (pr (collector b) = [] \<or> waiting (collector b) = 0 \<and>
        (\<forall>v. pr (collector b) = [Ready v] \<longrightarrow> v = max_commit_version (collector b))) \<and>
     max_commit_version (collector b) \<le> VERSION_CAP \<and>
     (\<forall>(k, v) \<in> set (b_committed b). v \<noteq> 0 \<and> v \<le> max_commit_version (collector b) \<and> table_keeps mt k v)"

text \<open>A session: the client has taken over every version it was told, unless it is the cap, and the writes that
  were acknowledged with it stay readable.\<close>

definition session_ok :: "(bytes, 'p) memtable \<Rightarrow> client_view \<Rightarrow> activity \<Rightarrow> (bytes \<times> u32 \<times> u32) set \<Rightarrow> bool" where
  "session_ok mt v act known \<longleftrightarrow> view_ok v \<and>
     (\<forall>(k, w, u) \<in> known. w \<noteq> 0 \<and> w \<le> u \<and> table_keeps mt k w \<and>
        (u < VERSION_CAP \<longrightarrow> u \<le> current_version_to_read v \<and> (\<forall>r. act = Reading r \<longrightarrow> u \<le> r)))"

definition sys_inv :: "('p, 'm) system \<Rightarrow> bool" where
  "sys_inv s \<longleftrightarrow> table_ok VERSION_CAP (table s) \<and>
     (\<forall>c. session_ok (table s) (views s c) (activities s c) (acked s c)) \<and>
     (\<forall>i b. batches s i = Some b \<longrightarrow> batch_ok (table s) b) \<and>
     (\<forall>(k, m, p) \<in> strays s. p \<noteq> 0 \<and> p \<le> VERSION_CAP) \<and>
     (\<forall>(c, k, v) \<in> read_messages s. v < VERSION_CAP)"

lemma cap_word: "VERSION_CAP \<noteq> - 1" "VERSION_CAP \<noteq> 0"
  by (simp_all add: VERSION_CAP_def)

text \<open>Up to the cap the signed and the unsigned reading of a version agree.\<close>

lemma cap_sint:
  assumes "(v :: u32) \<le> VERSION_CAP" shows "sint v = uint v"
proof -
  have "uint v \<le> 10000000" using assms by (simp add: VERSION_CAP_def word_le_def)
  moreover have "- (2 ^ 31) \<le> (0 :: int)" by simp
  then have "- (2 ^ 31) \<le> uint v" using uint_ge_0 [of v] by (rule order_trans)
  ultimately have "- (2 ^ 31) \<le> uint v" "uint v < 2 ^ 31" by simp_all
  then show ?thesis using signed_take_bit_int_eq_self [of 31 "uint v"] by (simp add: sint_uint)
qed

lemma view_ok_word:
  assumes "view_ok v"
  shows "current_version_to_read v \<noteq> 0" "current_version_to_read v < VERSION_CAP"
    "uint (current_version_to_read v) = sint (current_version_to_read v)"
proof -
  have p: "0 < sint (current_version_to_read v)" "sint (current_version_to_read v) < 10000000"
    using assms by (auto simp: view_ok_def)
  then show u: "uint (current_version_to_read v) = sint (current_version_to_read v)"
    by (simp add: uint_eq_sint)
  show "current_version_to_read v \<noteq> 0" using p by auto
  show "current_version_to_read v < VERSION_CAP" using p u by (simp add: word_less_def VERSION_CAP_def)
qed

section \<open>Preservation\<close>

definition keeps_more :: "(bytes, 'p) memtable \<Rightarrow> (bytes, 'p) memtable \<Rightarrow> bool" where
  "keeps_more mt mt' \<longleftrightarrow> (\<forall>k c. table_keeps mt k c \<longrightarrow> c \<noteq> 0 \<longrightarrow> table_keeps mt' k c)"

lemma batch_ok_mono: "batch_ok mt b \<Longrightarrow> keeps_more mt mt' \<Longrightarrow> batch_ok mt' b"
  unfolding batch_ok_def keeps_more_def by blast

lemma session_ok_mono: "session_ok mt v act known \<Longrightarrow> keeps_more mt mt' \<Longrightarrow> session_ok mt' v act known"
  unfolding session_ok_def keeps_more_def by blast

lemma sys_inv_table:
  assumes "sys_inv s" "table_ok VERSION_CAP mt" "keeps_more (table s) mt"
  shows "sys_inv (s\<lparr>table := mt\<rparr>)"
  using assms batch_ok_mono session_ok_mono unfolding sys_inv_def by fastforce

lemma sys_inv_batch:
  assumes "sys_inv s" "batch_ok (table s) b"
  shows "sys_inv (s\<lparr>batches := (batches s)(i \<mapsto> b)\<rparr>)"
  using assms by (simp add: sys_inv_def)

lemma sys_inv_client:
  assumes "sys_inv s" "session_ok (table s) v act known"
  shows "sys_inv (s\<lparr>activities := (activities s)(c := act), views := (views s)(c := v), acked := (acked s)(c := known)\<rparr>)"
  using assms by (simp add: sys_inv_def)

lemma batch_start_ok:
  assumes "view_ok v" shows "batch_ok mt (batch_start loading v muts)"
proof -
  have "sint (get_current_read_version loading v + 1) = (if loading then 1 else sint (current_version_to_read v) + 1)"
    by (rule proposed_bounds [OF assms])
  then have b: "1 \<le> sint (get_current_read_version loading v + 1)" "sint (get_current_read_version loading v + 1) \<le> 10000000"
    using assms by (auto simp: view_ok_def)
  then have "get_current_read_version loading v + 1 \<noteq> 0" "get_current_read_version loading v + 1 \<le> VERSION_CAP"
    using uint_eq_sint [of "get_current_read_version loading v + 1"] by (auto simp: word_le_def VERSION_CAP_def)
  then show ?thesis by (simp add: batch_ok_def batch_start_def pfe_init_def)
qed

lemma collector_complete:
  assumes "0 < waiting s" "pr s = []"
  shows "waiting (pfe_complete v s) = waiting s - 1" "max_commit_version (pfe_complete v s) = max (max_commit_version s) v"
    "pr (pfe_complete v s) = [] \<or> waiting (pfe_complete v s) = 0 \<and>
       (\<forall>u. pr (pfe_complete v s) = [Ready u] \<longrightarrow> u = max_commit_version (pfe_complete v s))"
  using assms by (cases "ex s"; simp add: pfe_complete_eq Let_def)+

lemma batch_completes:
  assumes ok: "batch_ok mt b" and km: "km \<in> set (b_running b)"
    and v: "v \<le> VERSION_CAP" "s = collector b \<or> s = (collector b)\<lparr>ex := Some e\<rparr>"
    and done': "done' = b_committed b \<or> (v \<noteq> 0 \<and> table_keeps mt k v \<and> done' = (k, v) # b_committed b)"
  shows "batch_ok mt (b\<lparr>b_running := remove1 km (b_running b), collector := pfe_complete v s, b_committed := done'\<rparr>)"
proof -
  have w: "waiting s = length (b_running b) + of_bool (b_looping b)" "max_commit_version s = max_commit_version (collector b)"
    "pr s = pr (collector b)" "max_commit_version s \<le> VERSION_CAP"
    "\<forall>(k, v) \<in> set (b_committed b). v \<noteq> 0 \<and> v \<le> max_commit_version s \<and> table_keeps mt k v"
    using ok v(2) by (auto simp: batch_ok_def)
  have pos: "0 < length (b_running b)" using km by (cases "b_running b") auto
  then have p: "pr s = []" using ok w(1,3) by (auto simp: batch_ok_def)
  note c = collector_complete [of s v, OF _ p]
  show ?thesis
    using ok w pos c v(1) done' km
    by (auto simp: batch_ok_def length_remove1 le_max_iff_disj)
qed

lemma batch_loop_ends:
  assumes ok: "batch_ok mt b" and b: "b_todo b = []" "b_looping b"
  shows "batch_ok mt (b\<lparr>b_looping := False, collector := pfe_step Loop_end (collector b)\<rparr>)"
proof -
  have w: "waiting (collector b) = Suc (length (b_running b))" "pr (collector b) = []"
    using ok b(2) by (auto simp: batch_ok_def)
  define c where "c = pfe_complete 0 (collector b)"
  have "waiting c = length (b_running b)" "max_commit_version c = max_commit_version (collector b)"
    "pr c = [] \<or> waiting c = 0 \<and> (\<forall>v. pr c = [Ready v] \<longrightarrow> v = max_commit_version c)"
    using collector_complete [of "collector b" 0] w unfolding c_def by (simp_all add: max_absorb1)
  then show ?thesis using ok b(1) unfolding pfe_step.simps c_def [symmetric] by (simp add: batch_ok_def)
qed

lemma current_word_mono:
  assumes "view_ok v" "view_ok v'" "sint (current_version_to_read v) \<le> sint (current_version_to_read v')"
  shows "current_version_to_read v \<le> current_version_to_read v'"
  using assms view_ok_word(3) [OF assms(1)] view_ok_word(3) [OF assms(2)] by (simp add: word_le_def)

lemma session_moves:
  assumes ok: "session_ok mt v act known" and v': "view_ok v'"
    and mono: "sint (current_version_to_read v) \<le> sint (current_version_to_read v')"
    and act: "act' = Idle \<or> act' = Reading (current_version_to_read v')"
  shows "session_ok mt v' act' known"
proof -
  have "current_version_to_read v \<le> current_version_to_read v'"
    using ok by (intro current_word_mono [OF _ v' mono]) (simp add: session_ok_def)
  then show ?thesis using ok v' act by (fastforce simp: session_ok_def)
qed

lemma session_stops: "session_ok mt v act known \<Longrightarrow> \<forall>r. act' \<noteq> Reading r \<Longrightarrow> session_ok mt v act' known"
  unfolding session_ok_def by fast

lemma session_acknowledged:
  assumes ok: "session_ok mt v act known" and b: "batch_ok mt b" and u: "pr (collector b) = [Ready u]"
  shows "session_ok mt (set_current_version_to_read u v) Idle (acknowledge b u known)"
proof -
  let ?v' = "set_current_version_to_read u v"
  have view: "view_ok v" using ok by (simp add: session_ok_def)
  note s = set_current_bounds [OF view, of u]
  have base: "session_ok mt ?v' Idle known" by (rule session_moves [OF ok s(1,2)]) simp
  have "u \<le> current_version_to_read ?v'" if "u < VERSION_CAP"
  proof -
    have su: "sint u = uint u" by (rule cap_sint [OF less_imp_le [OF that]])
    then have "sint u < 10000000" using that by (simp add: word_less_def VERSION_CAP_def)
    then have "sint u \<le> sint (current_version_to_read ?v')" by (rule s(3))
    then show ?thesis using su view_ok_word(3) [OF s(1)] by (simp add: word_le_def)
  qed
  moreover have "\<forall>(k, x) \<in> set (b_committed b). x \<noteq> 0 \<and> x \<le> u \<and> table_keeps mt k x"
    using b u by (auto simp: batch_ok_def)
  ultimately show ?thesis using base by (auto simp: session_ok_def acknowledge_def)
qed

lemma sys_write_table:
  assumes "sys_inv s" "p \<noteq> 0" "p \<le> VERSION_CAP"
    and "memtable_apply ops is_data k m (Some 0) p (table s) = Some (mt, Some v)"
  shows "sys_inv (s\<lparr>table := mt\<rparr>)" "v \<noteq> 0" "v \<le> VERSION_CAP" "table_keeps mt k v" "p \<le> v" "keeps_more (table s) mt"
proof -
  have ok: "table_ok VERSION_CAP (table s)" using assms(1) by (simp add: sys_inv_def)
  note w = memtable_write [OF ok cap_word assms(2-4)]
  show "sys_inv (s\<lparr>table := mt\<rparr>)"
    using sys_inv_table [OF assms(1) w(1)] w(3) by (simp add: keeps_more_def)
  show "v \<noteq> 0" "v \<le> VERSION_CAP" "table_keeps mt k v" "p \<le> v" using w(2) by auto
  show "keeps_more (table s) mt" using w(3) by (simp add: keeps_more_def)
qed

lemma sys_inv_batchD: "sys_inv s \<Longrightarrow> batches s i = Some b \<Longrightarrow> batch_ok (table s) b"
  by (simp add: sys_inv_def)

lemma sys_inv_session: "sys_inv s \<Longrightarrow> session_ok (table s) (views s c) (activities s c) (acked s c)"
  by (simp add: sys_inv_def)

lemma sys_step_inv:
  assumes "sys_step ops is_data s l s'" "sys_inv s"
  shows "sys_inv s'"
  using assms
proof induction
  case (begin_write s c loading muts)
  have "batch_ok (table s) (batch_start loading (views s c) muts)"
    using sys_inv_session [OF begin_write(2)] by (intro batch_start_ok) (simp add: session_ok_def)
  moreover have "session_ok (table s) (views s c) (Awaiting i) (acked s c)" for i
    by (rule session_stops [OF sys_inv_session [OF begin_write(2)]]) simp
  ultimately show ?case using begin_write(2) by (simp add: sys_inv_def)
next
  case (launch s i b km todo')
  have "batch_ok (table s) (b\<lparr>b_todo := todo', b_running := km # b_running b, collector := pfe_step Launch (collector b)\<rparr>)"
    using sys_inv_batchD [OF launch(3,1)] launch(2) by (auto simp: batch_ok_def)
  then show ?case by (rule sys_inv_batch [OF launch(3)])
next
  case (loop_end s i b)
  show ?case by (rule sys_inv_batch [OF loop_end(4) batch_loop_ends [OF sys_inv_batchD [OF loop_end(4,1)] loop_end(2,3)]])
next
  case (write_done s i b k m mt v)
  have ok: "batch_ok (table s) b" by (rule sys_inv_batchD [OF write_done(4,1)])
  then have p: "proposed b \<noteq> 0" "proposed b \<le> VERSION_CAP" by (auto simp: batch_ok_def)
  note w = sys_write_table [OF write_done(4) p write_done(3)]
  have b: "batch_ok mt b" using sys_inv_batchD [OF w(1), of i b] write_done(1) by simp
  have "batch_ok mt (b\<lparr>b_running := remove1 (k, m) (b_running b), collector := pfe_complete v (collector b),
      b_committed := (k, v) # b_committed b\<rparr>)"
    using w by (intro batch_completes [OF b write_done(2), where e = undefined and k = k]) auto
  then show ?case using sys_inv_batch [OF w(1)] by (simp add: pfe_result_def)
next
  case (write_failed s i b k m e)
  have ok: "batch_ok (table s) b" by (rule sys_inv_batchD [OF write_failed(3,1)])
  then have p: "proposed b \<noteq> 0" "proposed b \<le> VERSION_CAP" by (auto simp: batch_ok_def)
  have "batch_ok (table s) (b\<lparr>b_running := remove1 (k, m) (b_running b), collector := pfe_step (Complete (Inl e)) (collector b)\<rparr>)"
    using batch_completes [OF ok write_failed(2), of 0 _ e "b_committed b" k]
    by (auto simp: pfe_result_def)
  then show ?case using write_failed(3) p by (simp add: sys_inv_def)
next
  case (stray_write k m p s mt v)
  then have "p \<noteq> 0" "p \<le> VERSION_CAP" by (auto simp: sys_inv_def)
  then show ?case using sys_write_table(1) [OF stray_write(3) _ _ stray_write(2)] by simp
next
  case (acknowledged s c i b v)
  then show ?case
    using sys_inv_client [OF acknowledged(4) session_acknowledged [OF sys_inv_session [OF acknowledged(4)] sys_inv_batchD [OF acknowledged(4,2)] acknowledged(3)]]
    by simp
next
  case (give_up s c)
  then have "session_ok (table s) (views s c) Idle (acked s c)"
    by (intro session_stops [OF sys_inv_session [of s c]]) simp_all
  then show ?case using sys_inv_client [OF give_up, of "views s c" Idle "acked s c" c] by simp
next
  case (begin_read s c keys v view')
  have view: "view_ok (views s c)" using sys_inv_session [OF begin_read(3)] by (simp add: session_ok_def)
  note g = get_version_bounds [OF view begin_read(2)]
  have "session_ok (table s) view' (Reading v) (acked s c)"
    using g by (intro session_moves [OF sys_inv_session [OF begin_read(3)]]) auto
  moreover have "v < VERSION_CAP" using view_ok_word(2) [OF g(1)] g(2) by simp
  ultimately show ?case using begin_read(3) by (auto simp: sys_inv_def)
next
  case (serve_read c k v s snap mt n)
  have v: "v < VERSION_CAP" and ok: "table_ok VERSION_CAP (table s)" using serve_read(1,4) by (auto simp: sys_inv_def)
  note r = memtable_read_effect [OF ok v serve_read(2)]
  show ?case using sys_inv_table [OF serve_read(4) r(1)] r(2) by (simp add: keeps_more_def)
next
  case (end_read s c v replies)
  obtain ok v' res where e: "read_entries replies (views s c) Map.empty = (ok, v', res)"
    by (cases "read_entries replies (views s c) Map.empty")
  note cur = read_entries_current [OF e]
  have "session_ok (table s) v' Idle (acked s c)"
    using session_stops [OF sys_inv_session [OF end_read(2), of c], of Idle] cur view_ok_current [OF cur]
    by (simp add: session_ok_def)
  then show ?case using sys_inv_client [OF end_read(2), of v' Idle "acked s c" c] e by simp
next
  case (reader_done k sn s mt)
  have ok: "table_ok VERSION_CAP (table s)" using reader_done(2) by (simp add: sys_inv_def)
  note r = memtable_release_effect [OF ok reader_done(1)]
  show ?case using sys_inv_table [OF reader_done(2) r(1)] r(2) by (simp add: keeps_more_def)
qed

lemma sys_step_keeps:
  assumes "sys_step ops is_data s l s'" "sys_inv s"
  shows "keeps_more (table s) (table s')"
  using assms
proof induction
  case (write_done s i b k m mt v)
  have "proposed b \<noteq> 0" "proposed b \<le> VERSION_CAP"
    using sys_inv_batchD [OF write_done(4,1)] by (auto simp: batch_ok_def)
  then show ?case using sys_write_table(6) [OF write_done(4) _ _ write_done(3)] by simp
next
  case (stray_write k m p s mt v)
  then have "p \<noteq> 0" "p \<le> VERSION_CAP" by (auto simp: sys_inv_def)
  then show ?case using sys_write_table(6) [OF stray_write(3) _ _ stray_write(2)] by simp
next
  case (serve_read c k v s snap mt n)
  have v: "v < VERSION_CAP" and ok: "table_ok VERSION_CAP (table s)" using serve_read(1,4) by (auto simp: sys_inv_def)
  show ?case using memtable_read_effect(2) [OF ok v serve_read(2)] by (simp add: keeps_more_def)
next
  case (reader_done k sn s mt)
  have ok: "table_ok VERSION_CAP (table s)" using reader_done(2) by (simp add: sys_inv_def)
  show ?case using memtable_release_effect(2) [OF ok reader_done(1)] by (simp add: keeps_more_def)
qed (simp_all add: keeps_more_def)

lemma committed_step:
  assumes inv: "sys_inv s" and step: "sys_step ops is_data s (Committed k p v) s1"
  shows "table_keeps (table s1) k v" "p \<le> v" "p \<noteq> 0" "v \<noteq> 0"
proof -
  have "\<exists>m. memtable_apply ops is_data k m (Some 0) p (table s) = Some (table s1, Some v) \<and> p \<noteq> 0 \<and> p \<le> VERSION_CAP"
    using step
  proof cases
    case (write_done i b m mt)
    then show ?thesis using sys_inv_batchD [OF inv write_done(3)] by (auto simp: batch_ok_def)
  next
    case (stray_write m mt)
    then show ?thesis using inv by (auto simp: sys_inv_def)
  qed
  then obtain m where m: "memtable_apply ops is_data k m (Some 0) p (table s) = Some (table s1, Some v)" "p \<noteq> 0" "p \<le> VERSION_CAP"
    by blast
  then show "table_keeps (table s1) k v" "p \<le> v" "p \<noteq> 0" "v \<noteq> 0" using sys_write_table(2,4,5) [OF inv m(2,3,1)] by auto
qed

lemma sys_start_inv: "sys_inv system_start"
  by (simp add: sys_inv_def system_start_def table_ok_def session_ok_def view_ok_def client_view_new_def)

lemma sys_run_inv:
  assumes "sys_run ops is_data s s'" "sys_inv s"
  shows "sys_inv s' \<and> keeps_more (table s) (table s')"
  using assms
proof induction
  case (run_step s s' l s'')
  then have s': "sys_inv s'" "keeps_more (table s) (table s')" by auto
  show ?case
    using sys_step_inv [OF run_step.hyps(2) s'(1)] sys_step_keeps [OF run_step.hyps(2) s'(1)] s'(2)
    by (simp add: keeps_more_def)
qed (simp add: keeps_more_def)

lemmas sys_reachable_inv = sys_run_inv [OF _ sys_start_inv, THEN conjunct1]

section \<open>Properties\<close>

text \<open>C1. A client reads its own writes. In every interleaving of any number of clients, with lost replies,
  retries and late or repeated messages, and whatever versions the read replies carry: once a write of key
  \<open>k\<close> that has committed at version \<open>w\<close> was acknowledged to client \<open>c\<close>, in a reply with a version below
  \<open>VERSION_CAP\<close>, every later read of \<open>k\<close> by \<open>c\<close> is served from version \<open>w\<close> or from a newer one, although the
  server keeps only the newest versions. The client ignores a reply with the cap itself
  (\<open>write_at_cap_is_lost\<close> below).\<close>

theorem read_your_writes:
  assumes "sys_run ops is_data system_start s" "activities s c = Reading v"
    and "(k, w, reply) \<in> acked s c" "reply < VERSION_CAP"
    and "sys_step ops is_data s (Served c k v n) s'"
  shows "w \<le> n"
proof -
  have inv: "sys_inv s" by (rule sys_reachable_inv [OF assms(1)])
  obtain snap mt where r: "(c, k, v) \<in> read_messages s" "memtable_read ops k v (table s) = Some (snap, mt)"
    "served_number mt k snap n"
    using assms(5) by cases blast
  have ok: "table_ok VERSION_CAP (table s)" and v: "v < VERSION_CAP" using inv r(1) by (auto simp: sys_inv_def)
  have "table_keeps (table s) k w \<and> w \<noteq> 0 \<and> w \<le> reply \<and> reply \<le> v"
    using sys_inv_session [OF inv, of c] assms(2-4) by (fastforce simp: session_ok_def)
  then have known: "table_keeps (table s) k w" "w \<le> v" "w \<noteq> 0" by auto
  show ?thesis
    using memtable_read_effect(3) [OF ok v r(2)] r(3) known
    by (cases snap) (auto simp: served_number_def table_keeps_def)
qed

text \<open>C10. The version numbers of the whole system stay within bounds: every client reads at a version between 1
  and the cap, so that the version it proposes does not overflow, and on every server the partition entries
  are well formed, no version above the cap is ever written and none from the cap on is read. The counters
  never wrap around.\<close>

theorem versions_bounded:
  assumes "sys_run ops is_data system_start s"
  shows "(\<forall>c. 1 \<le> sint (current_version_to_read (views s c)) \<and> sint (current_version_to_read (views s c)) < 10000000) \<and>
    (\<forall>k st. table s k = Some st \<longrightarrow> (\<exists>as. mvcc_inv st as) \<and> no_wrap (pe st) \<and>
       highest_version_written (pe st) \<le> 10000000 \<and> highest_version_read (pe st) < 10000000)"
proof -
  have inv: "sys_inv s" by (rule sys_reachable_inv [OF assms])
  then have e: "entry_ok VERSION_CAP st" if "table s k = Some st" for k st
    using that by (simp add: sys_inv_def table_ok_def)
  have "no_wrap (pe st)" if "table s k = Some st" for k st
    by (rule entry_no_wrap [OF e [OF that] cap_word(1)])
  moreover have "view_ok (views s c)" for c using sys_inv_session [OF inv, of c] by (simp add: session_ok_def)
  ultimately show ?thesis using e by (auto simp: view_ok_def entry_ok_def VERSION_CAP_def)
qed

text \<open>C12. Retries are harmless: once a write proposed at version \<open>p\<close> has been committed for a key, as version
  \<open>v\<close>, then whatever happens meanwhile a repetition of the write at the same proposed version (every attempt
  of a client proposes the same one) changes nothing, and reports a version at least as high.\<close>

theorem repeated_write_has_no_effect:
  assumes "sys_run ops is_data system_start s" "sys_step ops is_data s (Committed k p v) s1" "sys_run ops is_data s1 s2"
  shows "\<exists>w \<ge> v. memtable_apply ops is_data k m (Some 0) p (table s2) = Some (table s2, Some w)"
proof -
  have inv: "sys_inv s" by (rule sys_reachable_inv [OF assms(1)])
  note c = committed_step [OF inv assms(2)]
  have "table_keeps (table s2) k v"
    using sys_run_inv [OF assms(3) sys_step_inv [OF assms(2) inv]] c by (auto simp: keeps_more_def)
  then obtain st as where st: "table s2 k = Some st" "retained st as v" by (auto simp: table_keeps_def keeps_def)
  then have "p \<le> highest_version_written (pe st)" "v \<le> highest_version_written (pe st)"
    using c(2) by (auto simp: retained_def)
  then show ?thesis
    using st(1) c(3)
    by (auto simp: memtable_apply_def find_or_create_partition_def pe_apply_def write_ptr_def fun_upd_idem)
qed

section \<open>An execution\<close>

text \<open>A client writes a key and reads it back.\<close>

lemma example_entry:
  "\<exists>st0 st1 st2. partition_entry_of (mp_new nat_ops) = Some st0 \<and> pe_apply nat_ops False 9 (Some 0) 2 st0 = Some (st1, Some 2) \<and>
     pe_read nat_ops default_phase 2 st1 = Some (0, st2) \<and> snapshot_number st2 0 = Some 2"
proof -
  have "do { st0 \<leftarrow> partition_entry_of (mp_new nat_ops); (st1, c1) \<leftarrow> pe_apply nat_ops False 9 (Some 0) 2 st0;
    (s1, st2) \<leftarrow> pe_read nat_ops default_phase 2 st1; Some (c1, s1, snapshot_number st2 0) } = Some (Some 2, 0, Some 2)"
    by code_simp
  then show ?thesis by (auto split: bind_splits)
qed

lemma example_write:
  obtains s s1 where "sys_run nat_ops False system_start s" "sys_step nat_ops False s (Committed [1] 2 2) s1"
    "activities s1 0 = Awaiting 0" "views s1 0 = client_view_new"
    "batches s1 0 = Some \<lparr>proposed = 2, b_todo = [], b_running = [], b_looping = True,
       collector = \<lparr>ex = None, waiting = 1, max_commit_version = 2, pr = []\<rparr>, b_committed = [([1], 2)]\<rparr>"
    "\<exists>mt. memtable_read nat_ops [1] 2 (table s1) = Some (Some 0, mt) \<and> served_number mt [1] (Some 0) 2"
proof -
  obtain st0 st1 st2 where st: "partition_entry_of (mp_new nat_ops) = Some st0"
    "pe_apply nat_ops False 9 (Some 0) 2 st0 = Some (st1, Some 2)" "pe_read nat_ops default_phase 2 st1 = Some (0, st2)"
    "snapshot_number st2 0 = Some 2"
    using example_entry by blast
  let ?muts = "[([1], 9)] :: (bytes \<times> nat) list" and ?mt = "[[1] \<mapsto> st1] :: (bytes, nat) memtable"
  note start = begin_write [of system_start 0 nat_ops False False ?muts]
  obtain s1 where s1: "sys_run nat_ops False system_start s1" "table s1 = Map.empty" "activities s1 0 = Awaiting 0"
    "batches s1 0 = Some (batch_start False client_view_new ?muts)" "views s1 0 = client_view_new"
    using run_step [OF run_refl start] by (auto simp: system_start_def)
  let ?b = "(batch_start False client_view_new ?muts)\<lparr>b_todo := [], b_running := ?muts,
    collector := pfe_step Launch (collector (batch_start False client_view_new ?muts))\<rparr>"
  obtain s2 where s2: "sys_run nat_ops False system_start s2" "table s2 = Map.empty" "activities s2 0 = Awaiting 0"
    "batches s2 0 = Some ?b" "views s2 0 = client_view_new"
    using run_step [OF s1(1) launch [OF s1(4), of "([1], 9)" "[]"]] s1 by (auto simp: batch_start_def)
  have p: "proposed ?b = 2" by (simp add: batch_start_def get_current_read_version_def client_view_new_def)
  have a: "memtable_apply nat_ops False [1] 9 (Some 0) (proposed ?b) (table s2) = Some (?mt, Some 2)"
    unfolding p s2(2) using st(1,2) by (simp add: memtable_apply_def find_or_create_partition_def)
  show thesis
  proof (rule that [OF s2(1)])
    show "sys_step nat_ops False s2 (Committed [1] 2 2) (s2\<lparr>table := ?mt, batches := (batches s2)(0 \<mapsto>
      ?b\<lparr>b_running := remove1 ([1], 9) (b_running ?b), collector := pfe_step (Complete (Inr 2)) (collector ?b),
        b_committed := ([1], 2) # b_committed ?b\<rparr>)\<rparr>)"
      using write_done [OF s2(4) _ a] p by simp
  qed (use s2 st in \<open>simp_all add: batch_start_def pfe_init_def pfe_result_def pfe_complete_def get_current_read_version_def
        client_view_new_def memtable_read_def memtable_entry_snapshot_def served_number_def\<close>)
qed

lemma example_read:
  obtains s s' where "sys_run nat_ops False system_start s" "activities s 0 = Reading 2" "([1], 2, 2) \<in> acked s 0"
    "sys_step nat_ops False s (Served 0 [1] 2 2) s'"
proof -
  obtain s s1 where s1: "sys_run nat_ops False system_start s" "sys_step nat_ops False s (Committed [1] 2 2) s1"
    "activities s1 0 = Awaiting 0" "views s1 0 = client_view_new"
    "batches s1 0 = Some \<lparr>proposed = 2, b_todo = [], b_running = [], b_looping = True,
       collector = \<lparr>ex = None, waiting = 1, max_commit_version = 2, pr = []\<rparr>, b_committed = [([1], 2)]\<rparr>"
    "\<exists>mt. memtable_read nat_ops [1] 2 (table s1) = Some (Some 0, mt) \<and> served_number mt [1] (Some 0) 2"
    by (rule example_write)
  note r1 = run_step [OF s1(1,2)]
  let ?b = "\<lparr>proposed = 2, b_todo = [], b_running = [], b_looping = False,
    collector = \<lparr>ex = None, waiting = 0, max_commit_version = 2, pr = [Ready 2]\<rparr>, b_committed = [([1], 2)]\<rparr> :: nat batch"
  obtain s2 where s2: "sys_run nat_ops False system_start s2" "activities s2 0 = Awaiting 0" "views s2 0 = client_view_new"
    "batches s2 0 = Some ?b" "table s2 = table s1"
    using run_step [OF r1 loop_end [OF s1(5)]] s1 by (auto simp: pfe_complete_def)
  let ?v = "client_view_new\<lparr>current_version_to_read := 2\<rparr>"
  have v: "set_current_version_to_read 2 client_view_new = ?v"
    by (simp add: set_current_version_to_read_def client_view_new_def MAX_VALUE_def)
  have k: "([1], 2, 2) \<in> acknowledge ?b 2 (acked s2 0)" by (simp add: acknowledge_def)
  obtain s3 where s3: "sys_run nat_ops False system_start s3" "activities s3 0 = Idle" "views s3 0 = ?v"
    "([1], 2, 2) \<in> acked s3 0" "table s3 = table s1"
    using run_step [OF s2(1) acknowledged [OF s2(2,4), of 2]] s2(3,5) v k by auto
  have g: "get_version_to_read [[1]] (views s3 0) = (2, ?v)"
    using s3(3) by (simp add: get_version_to_read_def client_view_new_def)
  obtain s4 where s4: "sys_run nat_ops False system_start s4" "activities s4 0 = Reading 2" "([1], 2, 2) \<in> acked s4 0"
    "table s4 = table s1" "(0, [1], 2) \<in> read_messages s4"
    using run_step [OF s3(1) begin_read [OF s3(2) g]] s3(4,5) by auto
  obtain mt where mt: "memtable_read nat_ops [1] 2 (table s4) = Some (Some 0, mt)" "served_number mt [1] (Some 0) 2"
    using s1(6) s4(4) by auto
  show thesis by (rule that [OF s4(1-3) serve_read [OF s4(5) mt]])
qed

theorem read_your_writes_witness:
  "\<exists>s s'. sys_run nat_ops False system_start s \<and> activities s 0 = Reading 2 \<and> ([1], 2, 2) \<in> acked s 0 \<and>
     sys_step nat_ops False s (Served 0 [1] 2 2) s' \<and> (2 :: u32) \<le> 2"
proof -
  obtain s s' where s: "sys_run nat_ops False system_start s" "activities s 0 = Reading 2" "([1], 2, 2) \<in> acked s 0"
    "sys_step nat_ops False s (Served 0 [1] 2 2) s'"
    by (rule example_read)
  moreover have "(2 :: u32) < VERSION_CAP" by (simp add: VERSION_CAP_def)
  then have "(2 :: u32) \<le> 2" by (rule read_your_writes [OF s(1-3) _ s(4)])
  ultimately show ?thesis by blast
qed

theorem versions_bounded_witness:
  "\<exists>s st. sys_run nat_ops False system_start s \<and> table s [1] = Some st \<and> no_wrap (pe st) \<and>
     highest_version_written (pe st) \<le> 10000000 \<and> sint (current_version_to_read (views s 0)) < 10000000"
proof -
  obtain s s1 where s: "sys_run nat_ops False system_start s" "sys_step nat_ops False s (Committed [1] 2 2) s1"
    by (rule example_write)
  obtain st where st: "table s1 [1] = Some st"
    using committed_step(1) [OF sys_reachable_inv [OF s(1)] s(2)] by (auto simp: table_keeps_def)
  show ?thesis using versions_bounded [OF run_step [OF s]] run_step [OF s] st by blast
qed

theorem repeated_write_has_no_effect_witness:
  "\<exists>s w. sys_run nat_ops False system_start s \<and> 2 \<le> w \<and>
     memtable_apply nat_ops False [1] 7 (Some 0) 2 (table s) = Some (table s, Some w)"
proof -
  obtain s s1 where s: "sys_run nat_ops False system_start s" "sys_step nat_ops False s (Committed [1] 2 2) s1"
    by (rule example_write)
  show ?thesis using repeated_write_has_no_effect [OF s run_refl, of 7] run_step [OF s] by blast
qed

section \<open>Defects\<close>

text \<open>At the cap a session breaks: a client that reads at the last version below the cap proposes the cap,
  ignores the commit version of the acknowledged write, and goes on reading the value from before it.
  From then on its writes of the key are acknowledged and dropped.\<close>

lemma write_at_cap_is_lost:
  "do { let v = client_view_new\<lparr>current_version_to_read := 9999999\<rparr>;
        st \<leftarrow> partition_entry_of (7 :: nat);
        (st, _) \<leftarrow> pe_apply nat_ops False 9 (Some 0) 1 st;
        (st, committed) \<leftarrow> pe_apply nat_ops False 11 (Some 0) (get_current_read_version False v + 1) st;
        version \<leftarrow> committed;
        let v = set_current_version_to_read version v;
        (s, st) \<leftarrow> pe_read nat_ops 0 (current_version_to_read v) st;
        seen \<leftarrow> snapshot_partition st s;
        (st', committed') \<leftarrow> pe_apply nat_ops False 12 (Some 0) (get_current_read_version False v + 1) st;
        versions \<leftarrow> entry_versions st;
        versions' \<leftarrow> entry_versions st';
        Some (committed, seen, committed', versions' = versions) }
   = Some (Some 10000000, 9, Some 10000000, True)"
  by code_simp

text \<open>The fallback to the newest version for a read below all versions makes a session go back in time: a
  key that has been written at 20 and 30 is read at version 5, which gives the newest value, and then at
  version 25, which gives the older one.\<close>

lemma later_read_sees_older_value:
  "do { st \<leftarrow> partition_entry_of (7 :: nat);
        (st, _) \<leftarrow> pe_apply nat_ops False 9 (Some 0) 20 st;
        (st, _) \<leftarrow> pe_apply nat_ops False 11 (Some 0) 30 st;
        (s1, st) \<leftarrow> pe_read nat_ops 0 5 st;
        first \<leftarrow> snapshot_partition st s1;
        (s2, st) \<leftarrow> pe_read nat_ops 0 25 st;
        second \<leftarrow> snapshot_partition st s2;
        Some (first, second) }
   = Some (11, 9)"
  by code_simp

end
