(* ===== verification/Uuid.thy ===== *)
theory Uuid
  imports Atomic_Cell
begin

text \<open>
  \<open>utils::UUID\<close> and the time-based generator \<open>utils::UUID_gen\<close> (\<open>src/Scylla-moon/utils/UUID.hh\<close>,
  \<open>UUID_gen.hh\<close>): the order counter shards are sorted by, the serialized form, and the layout of a
  version 1 UUID. The generator's state is its field \<open>last_nanos\<close>; the system clock and the
  per-thread node value are arguments.
\<close>

section \<open>UUIDs\<close>

record uuid =
  most_sig_bits :: i64
  least_sig_bits :: i64

definition uuid_version :: "uuid \<Rightarrow> i64" where
  "uuid_version u = signed_drop_bit 12 (most_sig_bits u) AND 0xf"

text \<open>\<open>timestamp()\<close> asserts that the UUID is time-based.\<close>

definition uuid_timestamp :: "uuid \<Rightarrow> i64 option" where
  "uuid_timestamp u =
     (if uuid_version u = 1
      then Some (push_bit 48 (most_sig_bits u AND 0xFFF)
                 OR push_bit 32 (signed_drop_bit 16 (most_sig_bits u) AND 0xFFFF)
                 OR drop_bit 32 (most_sig_bits u))
      else None)"

definition uuid_less :: "uuid \<Rightarrow> uuid \<Rightarrow> bool" where
  "uuid_less u v \<longleftrightarrow>
     (if most_sig_bits u \<noteq> most_sig_bits v then most_sig_bits u < most_sig_bits v
      else least_sig_bits u < least_sig_bits v)"

definition uuid_serialize :: "uuid \<Rightarrow> bytes" where
  "uuid_serialize u = hton 8 (most_sig_bits u) @ hton 8 (least_sig_bits u)"

definition uuid_hash :: "uuid \<Rightarrow> u64" where
  "uuid_hash u =
     (let hilo = most_sig_bits u XOR least_sig_bits u in signed_drop_bit 32 hilo XOR hilo)"

section \<open>Construction from bytes and from time\<close>

definition START_EPOCH :: i64 where
  "START_EPOCH = - 12219292800000"

definition get_UUID :: "bytes \<Rightarrow> uuid option" where
  "get_UUID raw =
     (if length raw = 16
      then Some \<lparr>most_sig_bits = ntoh (take 8 raw), least_sig_bits = ntoh (take 8 (drop 8 raw))\<rparr>
      else None)"

definition decompose :: "uuid \<Rightarrow> bytes" where
  "decompose u =
     map (\<lambda>i. ucast (drop_bit ((7 - i) * 8) (most_sig_bits u))) [0..<8]
     @ map (\<lambda>i. ucast (drop_bit ((7 - i) * 8) (least_sig_bits u))) [0..<8]"

definition create_time :: "u64 \<Rightarrow> i64" where
  "create_time nanos_since =
     (let msb = 0;
          msb = msb OR push_bit 32 (0x00000000ffffffff AND nanos_since);
          msb = msb OR drop_bit 16 (0x0000ffff00000000 AND nanos_since);
          msb = msb OR drop_bit 48 (0xffff000000000000 AND nanos_since)
      in msb OR 0x0000000000001000)"

definition from_unix_timestamp :: "i64 \<Rightarrow> i64" where
  "from_unix_timestamp ts = (ts - START_EPOCH) * 10000"

text \<open>C++ division of \<open>int64_t\<close> truncates towards zero.\<close>

definition truncated_div :: "i64 \<Rightarrow> i64 \<Rightarrow> i64" where
  "truncated_div a b = word_of_int (sgn (sint a) * sgn (sint b) * (\<bar>sint a\<bar> div \<bar>sint b\<bar>))"

definition unix_timestamp :: "uuid \<Rightarrow> i64 option" where
  "unix_timestamp u = map_option (\<lambda>t. truncated_div t 10000 + START_EPOCH) (uuid_timestamp u)"

definition micros_timestamp :: "uuid \<Rightarrow> i64 option" where
  "micros_timestamp u = map_option (\<lambda>t. truncated_div t 10 + START_EPOCH * 1000) (uuid_timestamp u)"

definition get_time_UUID_at :: "i64 \<Rightarrow> i64 \<Rightarrow> uuid" where
  "get_time_UUID_at millis clock_seq_and_node =
     \<lparr>most_sig_bits = create_time (from_unix_timestamp millis), least_sig_bits = clock_seq_and_node\<rparr>"

definition MIN_CLOCK_SEQ_AND_NODE :: i64 where "MIN_CLOCK_SEQ_AND_NODE = 0x8080808080808080"
definition MAX_CLOCK_SEQ_AND_NODE :: i64 where "MAX_CLOCK_SEQ_AND_NODE = 0x7f7f7f7f7f7f7f7f"

definition min_time_UUID :: "i64 \<Rightarrow> uuid" where
  "min_time_UUID ts =
     \<lparr>most_sig_bits = create_time (from_unix_timestamp ts), least_sig_bits = MIN_CLOCK_SEQ_AND_NODE\<rparr>"

definition max_time_UUID :: "i64 \<Rightarrow> uuid" where
  "max_time_UUID ts =
     (let uuid_tstamp = from_unix_timestamp (ts + 1) - 1
      in \<lparr>most_sig_bits = create_time uuid_tstamp, least_sig_bits = MAX_CLOCK_SEQ_AND_NODE\<rparr>)"

text \<open>\<open>create_time_safe\<close> reads the clock (\<open>millis\<close>) and moves \<open>last_nanos\<close> forward, by one tick of
  100 ns when the clock has not advanced past it.\<close>

definition create_time_safe :: "i64 \<Rightarrow> i64 \<Rightarrow> i64 \<times> i64" where
  "create_time_safe last_nanos millis =
     (let nanos_since = (millis - START_EPOCH) * 10000 in
      if sint nanos_since > sint last_nanos then (create_time nanos_since, nanos_since)
      else (create_time (last_nanos + 1), last_nanos + 1))"

definition get_time_UUID :: "i64 \<Rightarrow> i64 \<Rightarrow> i64 \<Rightarrow> uuid \<times> i64" where
  "get_time_UUID clock_seq_and_node last_nanos millis =
     (let (msb, last) = create_time_safe last_nanos millis
      in (\<lparr>most_sig_bits = msb, least_sig_bits = clock_seq_and_node\<rparr>, last))"

text \<open>A sequence of calls, one per reading of the clock.\<close>

fun time_UUIDs :: "i64 \<Rightarrow> i64 \<Rightarrow> i64 list \<Rightarrow> uuid list" where
  "time_UUIDs node last_nanos [] = []"
| "time_UUIDs node last_nanos (millis # rest) =
     (let (u, last) = get_time_UUID node last_nanos millis in u # time_UUIDs node last rest)"

section \<open>Lemmas\<close>

definition uuid_key :: "uuid \<Rightarrow> u64 \<times> u64" where
  "uuid_key u = (most_sig_bits u, least_sig_bits u)"

lemma uuid_less_key: "uuid_less u v \<longleftrightarrow> uuid_key u < uuid_key v"
  by (auto simp: uuid_less_def uuid_key_def)

lemma uuid_key_inject [simp]: "uuid_key u = uuid_key v \<longleftrightarrow> u = v"
  by (cases u; cases v) (simp add: uuid_key_def)

lemma hton_drop_bit: "hton n (w :: u64) = map (\<lambda>i. ucast (drop_bit ((n - 1 - i) * 8) w)) [0..<n]"
proof -
  have "word_of_int (uint w div 256 ^ i) = (ucast (drop_bit (i * 8) w) :: u8)" for i
  proof -
    have "uint (drop_bit (i * 8) w) = drop_bit (i * 8) (uint w)"
      by (rule bit_eqI) (auto simp: bit_simps dest: bit_imp_le_length)
    then have "uint (drop_bit (i * 8) w) = uint w div 256 ^ i"
      by (simp add: drop_bit_eq_div power_mult mult.commute [of i])
    then show ?thesis by (simp add: ucast_eq)
  qed
  moreover have "rev [0..<n] = map (\<lambda>i. n - 1 - i) [0..<n]"
    by (rule nth_equalityI) (auto simp: rev_nth)
  ultimately show ?thesis by (simp add: hton_def comp_def)
qed

lemma get_UUID_serialize [simp]: "get_UUID (uuid_serialize u) = Some u"
  by (simp add: get_UUID_def uuid_serialize_def)

lemma decompose_serialize: "decompose u = uuid_serialize u"
  by (simp add: decompose_def uuid_serialize_def hton_drop_bit)

text \<open>The three time fields and the version occupy disjoint bits of the most significant half.\<close>

lemma uuid_masks:
  "(0x00000000ffffffff :: u64) = mask 32" "(0x0000ffff00000000 :: u64) = push_bit 32 (mask 16)"
  "(0xffff000000000000 :: u64) = push_bit 48 (mask 16)"
  "(0xFFF :: u64) = mask 12" "(0xFFFF :: u64) = mask 16" "(0xf :: u64) = mask 4"
  by (simp_all add: mask_eq_exp_minus_1 push_bit_eq_mult)

lemma bit_version_field: "bit (0x1000 :: int) k \<longleftrightarrow> k = 12"
proof -
  have "(0x1000 :: int) = 2 ^ 12" by simp
  then show ?thesis by (simp only: bit_exp_iff) auto
qed

lemma bit_create_time:
  "k < 64 \<Longrightarrow> bit (create_time n) k \<longleftrightarrow>
     (if 32 \<le> k then bit n (k - 32) else if 16 \<le> k then bit n (16 + k)
      else bit n (48 + k) \<or> k = 12)"
  unfolding create_time_def Let_def uuid_masks by (auto simp: bit_simps bit_version_field)

lemma high_bits_clear:
  assumes "(n :: u64) < 2 ^ 60" "60 \<le> k"
  shows "\<not> bit n k"
proof -
  have "uint n < 2 ^ 60" using assms(1) by (simp add: word_less_def)
  also have "(2 :: int) ^ 60 \<le> 2 ^ k" using assms(2) by (rule power_increasing) simp
  finally have "uint n div 2 ^ k = 0" by simp
  then have "\<not> bit (uint n) k" by (simp add: bit_iff_odd)
  then show ?thesis by (auto simp: bit_uint_iff dest: bit_imp_le_length)
qed

lemma create_time_version:
  assumes "n < 2 ^ 60"
  shows "uuid_version \<lparr>most_sig_bits = create_time n, least_sig_bits = l\<rparr> = 1"
proof (rule bit_word_eqI)
  fix k assume "k < LENGTH(64)"
  show "bit (uuid_version \<lparr>most_sig_bits = create_time n, least_sig_bits = l\<rparr>) k = bit (1 :: i64) k"
    using high_bits_clear [OF assms, of "60 + k"] high_bits_clear [OF assms, of "48 + (12 + k)"]
    unfolding uuid_version_def uuid_masks
    by (auto simp: bit_simps bit_create_time bit_1_iff)
qed

lemma uuid_timestamp_create_time:
  assumes "n < 2 ^ 60"
  shows "uuid_timestamp \<lparr>most_sig_bits = create_time n, least_sig_bits = l\<rparr> = Some n"
proof -
  have "push_bit 48 (create_time n AND mask 12)
      OR push_bit 32 (signed_drop_bit 16 (create_time n) AND mask 16) OR drop_bit 32 (create_time n) = n"
  proof (rule bit_word_eqI)
    fix k assume "k < LENGTH(64)"
    then show "bit (push_bit 48 (create_time n AND mask 12)
        OR push_bit 32 (signed_drop_bit 16 (create_time n) AND mask 16) OR drop_bit 32 (create_time n)) k
      = bit n k"
      using high_bits_clear [OF assms, of k]
      by (cases "k < 32"; cases "k < 48"; cases "k < 60")
        (auto simp: bit_simps bit_create_time dest: bit_imp_le_length)
  qed
  then show ?thesis
    by (simp add: uuid_timestamp_def create_time_version [OF assms] uuid_masks)
qed

text \<open>The readings for which the generator stays within the 60 bits of a UUID timestamp.\<close>

definition nanos_of :: "i64 \<Rightarrow> i64" where
  "nanos_of millis = (millis - START_EPOCH) * 10000"

definition in_time_range :: "i64 \<Rightarrow> nat \<Rightarrow> bool" where
  "in_time_range t calls \<longleftrightarrow> 0 \<le> sint t \<and> sint t + int calls < 2 ^ 60"

lemma in_time_range_less: "in_time_range t k \<Longrightarrow> t < 2 ^ 60"
  by (simp add: in_time_range_def word_less_def uint_eq_sint)

lemma in_time_range_next:
  "in_time_range t (Suc k) \<Longrightarrow> in_time_range (t + 1) k \<and> sint (t + 1) = sint t + 1"
  by (simp add: in_time_range_def sint_plus_1)

text \<open>One call moves \<open>last_nanos\<close> strictly forward and stamps the UUID with the new value.\<close>

lemma get_time_UUID_step:
  assumes "in_time_range prev (Suc k)" "in_time_range (nanos_of millis) (Suc k)"
  obtains u new where "get_time_UUID node prev millis = (u, new)" "uuid_timestamp u = Some new"
    "least_sig_bits u = node" "in_time_range new k" "sint prev < sint new" "sint (nanos_of millis) \<le> sint new"
proof (cases "sint (nanos_of millis) > sint prev")
  case True
  have "uuid_timestamp \<lparr>most_sig_bits = create_time (nanos_of millis), least_sig_bits = node\<rparr>
      = Some (nanos_of millis)"
    using assms(2) by (intro uuid_timestamp_create_time in_time_range_less)
  with True assms(2) show thesis
    by (intro that [of "\<lparr>most_sig_bits = create_time (nanos_of millis), least_sig_bits = node\<rparr>"
          "nanos_of millis"])
      (simp_all add: get_time_UUID_def create_time_safe_def nanos_of_def in_time_range_def Let_def)
next
  case False
  note nxt = in_time_range_next [OF assms(1)]
  have "uuid_timestamp \<lparr>most_sig_bits = create_time (prev + 1), least_sig_bits = node\<rparr>
      = Some (prev + 1)"
    using nxt by (intro uuid_timestamp_create_time in_time_range_less) (rule conjunct1)
  with False nxt show thesis
    by (intro that [of "\<lparr>most_sig_bits = create_time (prev + 1), least_sig_bits = node\<rparr>" "prev + 1"])
      (simp_all add: get_time_UUID_def create_time_safe_def nanos_of_def Let_def)
qed

abbreviation uuid_time :: "uuid \<Rightarrow> int" where
  "uuid_time u \<equiv> sint (the (uuid_timestamp u))"

lemma time_UUIDs_increasing:
  "in_time_range prev (length ms) \<Longrightarrow> (\<And>m. m \<in> set ms \<Longrightarrow> in_time_range (nanos_of m) (length ms)) \<Longrightarrow>
   sorted_wrt (\<lambda>u v. uuid_time u < uuid_time v) (time_UUIDs node prev ms) \<and>
   (\<forall>u \<in> set (time_UUIDs node prev ms). uuid_version u = 1 \<and> sint prev < uuid_time u)"
proof (induction ms arbitrary: prev)
  case (Cons m ms)
  obtain u new where u: "get_time_UUID node prev m = (u, new)" "uuid_timestamp u = Some new"
    "in_time_range new (length ms)" "sint prev < sint new"
    by (rule get_time_UUID_step [of prev "length ms" m node]) (use Cons.prems in auto)
  have "in_time_range (nanos_of m') (length ms)" if "m' \<in> set ms" for m'
    using Cons.prems(2) [of m'] that by (simp add: in_time_range_def)
  with Cons.IH [OF u(3)] u show ?case
    by (fastforce simp: uuid_timestamp_def split: if_splits)
qed simp

section \<open>Properties\<close>

text \<open>The time fields of a version 1 UUID round-trip: for every 60-bit timestamp,
  \<open>UUID::timestamp\<close> reads back what \<open>create_time\<close> stored, the version is 1, and the 16 serialized
  bytes are those of \<open>decompose\<close> and parse back to the same UUID.\<close>

lemma uuid_time_round_trip:
  assumes "n < 2 ^ 60"
  shows "uuid_timestamp \<lparr>most_sig_bits = create_time n, least_sig_bits = l\<rparr> = Some n \<and>
    uuid_version \<lparr>most_sig_bits = create_time n, least_sig_bits = l\<rparr> = 1 \<and>
    get_UUID (uuid_serialize u) = Some u \<and> decompose u = uuid_serialize u"
  using assms by (simp add: uuid_timestamp_create_time create_time_version decompose_serialize)

lemma uuid_time_round_trip_witness:
  "uuid_timestamp \<lparr>most_sig_bits = create_time 137, least_sig_bits = 9\<rparr> = Some 137"
  using uuid_time_round_trip [of 137 9 "\<lparr>most_sig_bits = 1, least_sig_bits = 2\<rparr>"] by simp

text \<open>C36. The generator never repeats a timestamp: whatever the system clock returns (standing
  still or going backwards), successive time UUIDs carry strictly increasing timestamps, all
  later than the last one handed out, and are therefore distinct, as long as the 60 bits of the
  timestamp suffice.\<close>

theorem time_UUIDs_unique:
  assumes "in_time_range prev (length ms)"
    and "\<forall>m \<in> set ms. in_time_range (nanos_of m) (length ms)"
  shows "sorted_wrt (\<lambda>u v. uuid_time u < uuid_time v) (time_UUIDs node prev ms) \<and>
    distinct (time_UUIDs node prev ms) \<and>
    (\<forall>u \<in> set (time_UUIDs node prev ms). uuid_version u = 1 \<and> sint prev < uuid_time u)"
proof -
  have "sorted_wrt (\<lambda>u v. uuid_time u < uuid_time v) us \<Longrightarrow> distinct us" for us
    by (induction us) auto
  then show ?thesis
    using time_UUIDs_increasing [of prev ms node] assms by blast
qed

theorem time_UUIDs_unique_witness:
  "distinct (time_UUIDs 5 0 [1000, 1000, 999])"
proof -
  have "in_time_range 0 (length [1000, 1000, 999 :: i64]) \<and>
    (\<forall>m \<in> set [1000, 1000, 999]. in_time_range (nanos_of m) (length [1000, 1000, 999 :: i64]))"
    by code_simp
  then show ?thesis using time_UUIDs_unique [of 0 "[1000, 1000, 999]" 5] by blast
qed

end
