(* ===== verification/Combine.thy ===== *)
theory Combine
  imports Prelude
begin

text \<open>
  Merging of two sorted sequences, \<open>combine\<close> of \<open>src/Scylla-moon/combine.hh\<close>, which counter cells
  and collections are reconciled with. The locale \<open>keyed_merge\<close> states what the callers promise
  (the comparison orders elements by a key, merging two elements of one key keeps the key); inside
  it the result is characterised by key lookups, from which the algebraic laws follow.
\<close>

section \<open>The loop\<close>

fun combine :: "('a \<Rightarrow> 'a \<Rightarrow> bool) \<Rightarrow> ('a \<Rightarrow> 'a \<Rightarrow> 'a) \<Rightarrow> 'a list \<Rightarrow> 'a list \<Rightarrow> 'a list" where
  "combine compare merge (e1 # begin1) (e2 # begin2) =
     (if compare e1 e2 then e1 # combine compare merge begin1 (e2 # begin2)
      else if compare e2 e1 then e2 # combine compare merge (e1 # begin1) begin2
      else merge e1 e2 # combine compare merge begin1 begin2)"
| "combine compare merge begin1 begin2 = begin1 @ begin2"

lemma combine_Nil [simp]:
  "combine compare merge [] ys = ys" "combine compare merge xs [] = xs"
  by (cases ys; simp) (cases xs; simp)

text \<open>The recursion of the loop as an induction rule on the two sequences.\<close>

lemma combine_induct [case_names step left right]:
  assumes "\<And>x xs y ys. P xs (y # ys) \<Longrightarrow> P (x # xs) ys \<Longrightarrow> P xs ys \<Longrightarrow> P (x # xs) (y # ys)"
    and "\<And>ys. P [] ys" and "\<And>xs. P xs []"
  shows "P xs ys"
proof (induction xs arbitrary: ys)
  case (Cons x xs)
  then show ?case by (induction ys) (simp_all add: assms)
qed (rule assms(2))

lemma in_set_combine:
  "e \<in> set (combine cmp merge xs ys) \<Longrightarrow>
     e \<in> set xs \<or> e \<in> set ys \<or> (\<exists>x \<in> set xs. \<exists>y \<in> set ys. e = merge x y)"
proof (induction xs ys rule: combine_induct)
  case (step x xs y ys)
  consider "cmp x y" | "\<not> cmp x y" "cmp y x" | "\<not> cmp x y" "\<not> cmp y x" by blast
  then show ?case by cases (use step in auto)
qed simp_all

section \<open>Lookup by key\<close>

definition key_find :: "('a \<Rightarrow> 'k) \<Rightarrow> 'a list \<Rightarrow> 'k \<Rightarrow> 'a option" where
  "key_find key xs k = find (\<lambda>x. key x = k) xs"

lemma key_find_simps [simp]:
  "key_find key [] k = None"
  "key_find key (x # xs) k = (if key x = k then Some x else key_find key xs k)"
  by (simp_all add: key_find_def)

lemma key_find_None_iff: "key_find key xs k = None \<longleftrightarrow> k \<notin> key ` set xs"
  by (induction xs) auto

lemma key_find_Some_key: "key_find key xs k = Some x \<Longrightarrow> key x = k"
  by (induction xs) (auto split: if_splits)

lemma key_find_Some_set: "key_find key xs k = Some x \<Longrightarrow> x \<in> set xs"
  by (induction xs) (auto split: if_splits)

lemma key_find_append:
  "key_find key (xs @ ys) k =
     (case key_find key xs k of None \<Rightarrow> key_find key ys k | Some x \<Rightarrow> Some x)"
  by (induction xs) auto

text \<open>Sequences sorted strictly by key are determined by their lookups.\<close>

abbreviation sorted_by :: "('a \<Rightarrow> 'k::linorder) \<Rightarrow> 'a list \<Rightarrow> bool" where
  "sorted_by key \<equiv> sorted_wrt (\<lambda>x y. key x < key y)"

lemma sorted_by_key_find_less:
  "sorted_by key (x # xs) \<Longrightarrow> k \<le> key x \<Longrightarrow> key_find key xs k = None"
  by (auto simp: key_find_None_iff)

lemma sorted_by_key_find:
  "sorted_by key xs \<Longrightarrow> x \<in> set xs \<Longrightarrow> key_find key xs (key x) = Some x"
  by (induction xs) auto

lemma sorted_by_length: "sorted_by key xs \<Longrightarrow> length xs = card (key ` set xs)"
proof -
  assume "sorted_by key xs"
  then have "distinct (map key xs)" by (induction xs) auto
  then show ?thesis using distinct_card [of "map key xs"] by simp
qed

lemma key_find_map:
  assumes "\<And>x. key (f x) = key x"
  shows "key_find key (map f xs) k = map_option f (key_find key xs k)"
  by (induction xs) (simp_all add: assms)

lemma sorted_by_map:
  assumes "\<And>x. key (f x) = key x"
  shows "sorted_by key (map f xs) = sorted_by key xs"
  by (simp add: sorted_wrt_map assms)

lemma key_find_filter:
  "sorted_by key xs \<Longrightarrow> key_find key (filter P xs) k =
     (case key_find key xs k of None \<Rightarrow> None | Some x \<Rightarrow> if P x then Some x else None)"
proof (induction xs)
  case (Cons x xs)
  have "key_find key xs (key x) = None" using sorted_by_key_find_less [OF Cons.prems order.refl] .
  with Cons show ?case by auto
qed simp

lemma sorted_by_ext:
  fixes key :: "'a \<Rightarrow> 'k::linorder"
  assumes "sorted_by key xs" "sorted_by key ys" "\<And>k. key_find key xs k = key_find key ys k"
  shows "xs = ys"
  using assms
proof (induction xs arbitrary: ys)
  case Nil
  then show ?case
    by (cases ys) (simp_all, metis option.distinct(1))
next
  case (Cons x xs)
  have "key_find key ys (key x) = Some x" using Cons.prems(3) [of "key x"] by simp
  then obtain y ys' where ys: "ys = y # ys'" by (cases ys) auto
  have "key_find key (x # xs) (key y) = Some y" using Cons.prems(3) [of "key y"] ys by simp
  then have "key x \<le> key y"
    using sorted_by_key_find_less [OF Cons.prems(1), of "key y"] linear [of "key x" "key y"]
    by (auto split: if_splits)
  moreover have "key y \<le> key x"
    using ys \<open>key_find key ys (key x) = Some x\<close>
      sorted_by_key_find_less [OF Cons.prems(2) [unfolded ys], of "key x"] linear [of "key x" "key y"]
    by (auto split: if_splits)
  ultimately have "key x = key y" by simp
  then have xy: "x = y" using \<open>key_find key ys (key x) = Some x\<close> ys by simp
  have "key_find key xs k = key_find key ys' k" for k
  proof (cases "key x = k")
    case True
    then show ?thesis
      using Cons.prems(1,2) ys xy sorted_by_key_find_less [of key _ _ k] by auto
  next
    case False
    then show ?thesis using Cons.prems(3) [of k] ys xy by simp
  qed
  with Cons ys xy show ?case by simp
qed

section \<open>The contract of the callers\<close>

locale keyed_merge =
  fixes key :: "'a \<Rightarrow> 'k::linorder"
    and less :: "'a \<Rightarrow> 'a \<Rightarrow> bool"
    and merge :: "'a \<Rightarrow> 'a \<Rightarrow> 'a"
  assumes less_iff: "less x y \<longleftrightarrow> key x < key y"
    and merge_key: "key x = key y \<Longrightarrow> key (merge x y) = key x"
begin

lemma combine_step:
  "key x < key y \<Longrightarrow> combine less merge (x # xs) (y # ys) = x # combine less merge xs (y # ys)"
  "key y < key x \<Longrightarrow> combine less merge (x # xs) (y # ys) = y # combine less merge (x # xs) ys"
  "key x = key y \<Longrightarrow> combine less merge (x # xs) (y # ys) = merge x y # combine less merge xs ys"
  using less_iff [of x y] less_iff [of y x] by auto

lemma keys_combine: "key ` set (combine less merge xs ys) = key ` set xs \<union> key ` set ys"
proof (induction xs ys rule: combine_induct)
  case (step e1 b1 e2 b2)
  consider "key e1 < key e2" | "key e2 < key e1" | "key e1 = key e2" by (metis linorder_neqE)
  then show ?case
    by cases (use step in \<open>auto simp: combine_step merge_key simp del: combine.simps(1)\<close>)
qed auto

lemma sorted_combine:
  "sorted_by key xs \<Longrightarrow> sorted_by key ys \<Longrightarrow> sorted_by key (combine less merge xs ys)"
proof (induction xs ys rule: combine_induct)
  case (step e1 b1 e2 b2)
  have keys: "(\<forall>z \<in> set (combine less merge us vs). k < key z) \<longleftrightarrow>
      (\<forall>z \<in> set us \<union> set vs. k < key z)" for us vs k
    using arg_cong [OF keys_combine [of us vs], of "\<lambda>A. \<forall>a \<in> A. k < a"] by auto
  consider "key e1 < key e2" | "key e2 < key e1" | "key e1 = key e2" by (metis linorder_neqE)
  then show ?case
    by cases (use step in \<open>auto simp: combine_step merge_key keys simp del: combine.simps(1)\<close>)
qed auto

lemma key_find_combine:
  "sorted_by key xs \<Longrightarrow> sorted_by key ys \<Longrightarrow>
   key_find key (combine less merge xs ys) k =
     combine_options merge (key_find key xs k) (key_find key ys k)"
proof (induction xs ys rule: combine_induct)
  case (step e1 b1 e2 b2)
  consider "key e1 < key e2" | "key e2 < key e1" | "key e1 = key e2" by (metis linorder_neqE)
  then show ?case
  proof cases
    case 1
    then have "key_find key (e2 # b2) (key e1) = None"
      using step.prems by (auto simp: key_find_None_iff)
    with 1 step.IH(1) step.prems show ?thesis by (auto simp: combine_step simp del: combine.simps(1))
  next
    case 2
    then have "key_find key (e1 # b1) (key e2) = None"
      using step.prems by (auto simp: key_find_None_iff)
    with 2 step.IH(2) step.prems show ?thesis by (auto simp: combine_step simp del: combine.simps(1))
  next
    case 3
    with step.IH(3) step.prems show ?thesis by (auto simp: combine_step merge_key simp del: combine.simps(1))
  qed
qed (auto simp: combine_options_def split: option.splits)

lemma combine_eqI:
  assumes "sorted_by key xs" "sorted_by key ys" "sorted_by key zs"
    and "\<And>k. combine_options merge (key_find key xs k) (key_find key ys k) = key_find key zs k"
  shows "combine less merge xs ys = zs"
  by (rule sorted_by_ext [where key = key]) (simp_all add: assms sorted_combine key_find_combine)

text \<open>The laws of \<open>merge\<close> on elements of one key lift to sorted sequences.\<close>

lemma combine_assoc:
  assumes "sorted_by key xs" "sorted_by key ys" "sorted_by key zs"
    and "\<And>x y z. key x = key y \<Longrightarrow> key y = key z \<Longrightarrow> merge (merge x y) z = merge x (merge y z)"
  shows "combine less merge (combine less merge xs ys) zs =
         combine less merge xs (combine less merge ys zs)"
proof (rule combine_eqI)
  fix k
  show "combine_options merge (key_find key (combine less merge xs ys) k) (key_find key zs k) =
      key_find key (combine less merge xs (combine less merge ys zs)) k"
    using assms
    by (auto simp: key_find_combine sorted_combine combine_options_def split: option.splits
        dest!: key_find_Some_key)
qed (simp_all add: assms sorted_combine)

lemma combine_comm:
  assumes "sorted_by key xs" "sorted_by key ys"
    and "\<And>x y. x \<in> set xs \<Longrightarrow> y \<in> set ys \<Longrightarrow> key x = key y \<Longrightarrow> merge x y = merge y x"
  shows "combine less merge xs ys = combine less merge ys xs"
proof (rule combine_eqI)
  fix k
  show "combine_options merge (key_find key xs k) (key_find key ys k) =
      key_find key (combine less merge ys xs) k"
    using assms(1,2)
    by (auto simp: key_find_combine combine_options_def split: option.splits
        dest: key_find_Some_key intro!: assms(3) intro: key_find_Some_set)
qed (simp_all add: assms sorted_combine)

lemma combine_absorb:
  assumes "sorted_by key xs" "sorted_by key ys"
    and "\<And>x. merge x x = x"
    and "\<And>x y. key x = key y \<Longrightarrow> merge x (merge x y) = merge x y"
  shows "combine less merge xs (combine less merge xs ys) = combine less merge xs ys"
proof (rule combine_eqI)
  fix k
  show "combine_options merge (key_find key xs k) (key_find key (combine less merge xs ys) k) =
      key_find key (combine less merge xs ys) k"
    using assms key_find_Some_key [of key xs k] key_find_Some_key [of key ys k]
    by (auto simp: key_find_combine combine_options_def split: option.splits)
qed (simp_all add: assms sorted_combine)

end

end
