(* ===== verification/Counters.thy ===== *)
theory Counters
  imports Uuid Combine "HOL-Library.Monad_Syntax"
begin

unbundle bit_operations_syntax

text \<open>
  Counter cells (\<open>src/Scylla-moon/counters.hh\<close>, \<open>counters.cc\<close>): shards and their serialized form,
  the builder, the merge of two cells with its in-place fast path and its revert, the difference,
  and the conversion of increments into shards.

  The iterators of the in-place path are a pair of lists, the elements already passed (latest
  first) and the elements from the current position on; moving an iterator before the first
  element or dereferencing the end is undefined in C++ and \<^const>\<open>None\<close> here, as is a failed
  \<open>assert\<close>. \<open>can_use_mutable_view\<close> (whether the bytes of both cells are contiguous, a property of
  their allocation) is an argument.
\<close>

section \<open>Identifiers and shards\<close>

record counter_id =
  least_significant :: i64
  most_significant :: i64

definition to_uuid :: "counter_id \<Rightarrow> uuid" where
  "to_uuid i = \<lparr>most_sig_bits = most_significant i, least_sig_bits = least_significant i\<rparr>"

definition cid_less :: "counter_id \<Rightarrow> counter_id \<Rightarrow> bool" where
  "cid_less a b \<longleftrightarrow> uuid_less (to_uuid a) (to_uuid b)"

definition less_compare_1_7_4 :: "counter_id \<Rightarrow> counter_id \<Rightarrow> bool" where
  "less_compare_1_7_4 a b \<longleftrightarrow>
     (if most_significant a \<noteq> most_significant b
      then sint (most_significant a) < sint (most_significant b)
      else sint (least_significant a) < sint (least_significant b))"

record counter_shard =
  shard_id :: counter_id
  shard_value :: i64
  logical_clock :: i64

text \<open>Integers of a shard are stored in the byte order of the machine (little endian).\<close>

definition host_bytes :: "i64 \<Rightarrow> bytes" where
  "host_bytes w = rev (hton 8 w)"

definition host_read :: "bytes \<Rightarrow> i64" where
  "host_read bs = ntoh (rev bs)"

definition shard_size :: nat where "shard_size = 32"

definition shard_serialize :: "counter_shard \<Rightarrow> bytes" where
  "shard_serialize cs =
     host_bytes (least_significant (shard_id cs)) @ host_bytes (most_significant (shard_id cs))
     @ host_bytes (shard_value cs) @ host_bytes (logical_clock cs)"

definition shard_view :: "bytes \<Rightarrow> counter_shard" where
  "shard_view base =
     \<lparr>shard_id = \<lparr>least_significant = host_read (take 8 base),
                  most_significant = host_read (take 8 (drop 8 base))\<rparr>,
      shard_value = host_read (take 8 (drop 16 base)),
      logical_clock = host_read (take 8 (drop 24 base))\<rparr>"

definition set_value_and_clock :: "counter_shard \<Rightarrow> counter_shard \<Rightarrow> counter_shard" where
  "set_value_and_clock s other =
     s\<lparr>shard_value := shard_value other, logical_clock := logical_clock other\<rparr>"

definition swap_value_and_clock :: "counter_shard \<Rightarrow> counter_shard \<Rightarrow> counter_shard \<times> counter_shard" where
  "swap_value_and_clock s other = (set_value_and_clock s other, set_value_and_clock other s)"

definition shard_do_apply :: "counter_shard \<Rightarrow> counter_shard \<Rightarrow> counter_shard" where
  "shard_do_apply s other =
     (if sint (logical_clock s) < sint (logical_clock other) then set_value_and_clock s other else s)"

definition shard_update :: "counter_shard \<Rightarrow> i64 \<Rightarrow> i64 \<Rightarrow> counter_shard" where
  "shard_update s value_delta clock_increment =
     s\<lparr>shard_value := shard_value s + value_delta, logical_clock := logical_clock s + clock_increment\<rparr>"

section \<open>The builder\<close>

record counter_cell_builder =
  builder_shards :: "counter_shard list"
  builder_sorted :: bool

definition builder_empty :: counter_cell_builder where
  "builder_empty = \<lparr>builder_shards = [], builder_sorted = True\<rparr>"

definition add_shard :: "counter_cell_builder \<Rightarrow> counter_shard \<Rightarrow> counter_cell_builder" where
  "add_shard b cs = b\<lparr>builder_shards := builder_shards b @ [cs]\<rparr>"

definition add_maybe_unsorted_shard :: "counter_cell_builder \<Rightarrow> counter_shard \<Rightarrow> counter_cell_builder" where
  "add_maybe_unsorted_shard b cs =
     (let b = add_shard b cs in
      if builder_sorted b \<and> length (builder_shards b) > 1
      then b\<lparr>builder_sorted :=
               cid_less (shard_id (last (butlast (builder_shards b)))) (shard_id (last (builder_shards b)))\<rparr>
      else b)"

text \<open>\<open>boost::range::sort\<close> may permute shards of one id; \<open>sort_shards\<close> is the sorting routine, an
  argument.\<close>

definition push_or_apply :: "counter_shard list \<Rightarrow> counter_shard \<Rightarrow> counter_shard list" where
  "push_or_apply new_shards cs =
     (if new_shards = [] \<or> shard_id (last new_shards) \<noteq> shard_id cs then new_shards @ [cs]
      else butlast new_shards @ [shard_do_apply (last new_shards) cs])"

definition do_sort_and_remove_duplicates ::
    "(counter_shard list \<Rightarrow> counter_shard list) \<Rightarrow> counter_cell_builder \<Rightarrow> counter_cell_builder" where
  "do_sort_and_remove_duplicates sort_shards b =
     \<lparr>builder_shards = foldl push_or_apply [] (sort_shards (builder_shards b)), builder_sorted = True\<rparr>"

definition sort_and_remove_duplicates ::
    "(counter_shard list \<Rightarrow> counter_shard list) \<Rightarrow> counter_cell_builder \<Rightarrow> counter_cell_builder" where
  "sort_and_remove_duplicates sort_shards b =
     (if \<not> builder_sorted b then do_sort_and_remove_duplicates sort_shards b else b)"

definition serialize_shards :: "counter_shard list \<Rightarrow> bytes" where
  "serialize_shards ss = concat (map shard_serialize ss)"

definition builder_build :: "counter_cell_builder \<Rightarrow> i64 \<Rightarrow> bytes" where
  "builder_build b ts = make_live ts (serialize_shards (builder_shards b))"

definition from_single_shard :: "i64 \<Rightarrow> counter_shard \<Rightarrow> bytes" where
  "from_single_shard ts cs = make_live ts (shard_serialize cs)"

section \<open>Views of a counter cell\<close>

function shards_of :: "bytes \<Rightarrow> counter_shard list" where
  "shards_of bv =
     (if length bv < shard_size then [] else shard_view bv # shards_of (drop shard_size bv))"
  by pat_completeness auto
termination
  by (relation "measure length") (auto simp: shard_size_def)

declare shards_of.simps [simp del]

definition shards :: "bytes \<Rightarrow> counter_shard list" where
  "shards c = shards_of (do_get_value c)"

definition shard_count :: "bytes \<Rightarrow> nat" where
  "shard_count c = length (do_get_value c) div shard_size"

definition total_value :: "bytes \<Rightarrow> i64" where
  "total_value c = foldl (\<lambda>v cs. v + shard_value cs) 0 (shards c)"

definition get_shard :: "bytes \<Rightarrow> counter_id \<Rightarrow> counter_shard option" where
  "get_shard c i = find (\<lambda>csv. shard_id csv = i) (shards c)"

definition counter_cell_eq :: "bytes \<Rightarrow> bytes \<Rightarrow> bool" where
  "counter_cell_eq a b \<longleftrightarrow> cell_timestamp a = cell_timestamp b \<and> shards a = shards b"

text \<open>Writes through the mutable view: the shards of the cell are overwritten in place.\<close>

definition set_shards :: "bytes \<Rightarrow> counter_shard list \<Rightarrow> bytes" where
  "set_shards c ss = take (length c - length (do_get_value c)) c @ serialize_shards ss"

definition ts_max :: "i64 \<Rightarrow> i64 \<Rightarrow> i64" where
  "ts_max a b = (if sint a < sint b then b else a)"

definition shards_compatible_with_1_7_4 ::
    "((counter_shard \<Rightarrow> counter_shard \<Rightarrow> bool) \<Rightarrow> counter_shard list \<Rightarrow> counter_shard list) \<Rightarrow>
     bytes \<Rightarrow> counter_shard list" where
  "shards_compatible_with_1_7_4 sort_by c =
     sort_by (\<lambda>a b. less_compare_1_7_4 (shard_id a) (shard_id b)) (shards c)"

section \<open>Merging in place\<close>

text \<open>\<open>while (dst_it != end && dst_it->id() < id) ++dst_it\<close>.\<close>

fun advance :: "counter_shard list \<Rightarrow> counter_shard list \<Rightarrow> counter_id \<Rightarrow>
    counter_shard list \<times> counter_shard list" where
  "advance l (d # r) i = (if cid_less (shard_id d) i then advance (d # l) r i else (l, d # r))"
| "advance l [] i = (l, [])"

text \<open>\<open>while (dst_it->id() != id) --dst_it\<close>.\<close>

fun retreat :: "counter_shard list \<Rightarrow> counter_shard list \<Rightarrow> counter_id \<Rightarrow>
    (counter_shard list \<times> counter_shard list) option" where
  "retreat l (d # r) i =
     (if shard_id d = i then Some (l, d # r)
      else case l of [] \<Rightarrow> None | e # l' \<Rightarrow> retreat l' (e # d # r) i)"
| "retreat l [] i = None"

text \<open>The loop that takes the swaps back, from \<open>src_it\<close> down to the first source shard.\<close>

fun undo :: "counter_shard list \<Rightarrow> counter_shard list \<Rightarrow> counter_shard list \<Rightarrow> counter_shard list \<Rightarrow>
    (counter_shard list \<times> counter_shard list) option" where
  "undo l r [] sr = Some (rev l @ r, sr)"
| "undo l r (s # sl) sr =
     (case retreat l r (shard_id s) of
        Some (l', d # r') \<Rightarrow>
          let (s', d') = swap_value_and_clock s d in undo l' (d' # r') sl (s' # sr)
      | _ \<Rightarrow> None)"

fun in_place_loop :: "counter_shard list \<Rightarrow> counter_shard list \<Rightarrow> counter_shard list \<Rightarrow>
    counter_shard list \<Rightarrow> (bool \<times> counter_shard list \<times> counter_shard list) option" where
  "in_place_loop l r sl [] = Some (True, rev l @ r, rev sl)"
| "in_place_loop l r sl (s # sr) =
     (case advance l r (shard_id s) of
        ([], []) \<Rightarrow> None
      | (d # l', []) \<Rightarrow> map_option (Pair False) (undo l' [d] sl (s # sr))
      | (l', d # r') \<Rightarrow>
          if shard_id d \<noteq> shard_id s then map_option (Pair False) (undo l' (d # r') sl (s # sr))
          else if sint (logical_clock d) < sint (logical_clock s)
          then let (d', s') = swap_value_and_clock d s in in_place_loop l' (d' # r') (s' # sl) sr
          else in_place_loop l' (d # r') (set_value_and_clock s d # sl) sr)"

definition apply_in_place :: "bytes \<Rightarrow> bytes \<Rightarrow> (bool \<times> bytes \<times> bytes) option" where
  "apply_in_place dst src = do {
     (ok, ds, ss) \<leftarrow> in_place_loop [] (shards dst) [] (shards src);
     let dst = set_shards dst ds;
     let src = set_shards src ss;
     if \<not> ok then Some (False, dst, src)
     else let dst_ts = cell_timestamp dst; src_ts = cell_timestamp src in
          Some (True, set_timestamp dst (ts_max dst_ts src_ts),
                set_counter_in_place_revert (set_timestamp src dst_ts) True)
   }"

fun revert_loop :: "counter_shard list \<Rightarrow> counter_shard list \<Rightarrow> counter_shard list \<Rightarrow>
    counter_shard list \<Rightarrow> (counter_shard list \<times> counter_shard list) option" where
  "revert_loop l r sl [] = Some (rev l @ r, rev sl)"
| "revert_loop l r sl (s # sr) =
     (case advance l r (shard_id s) of
        (l', d # r') \<Rightarrow>
          if shard_id d = shard_id s
          then let (d', s') = swap_value_and_clock d s in revert_loop l' (d' # r') (s' # sl) sr
          else None
      | _ \<Rightarrow> None)"

definition revert_in_place_apply :: "bytes \<Rightarrow> bytes \<Rightarrow> (bytes \<times> bytes) option" where
  "revert_in_place_apply dst src = do {
     (ds, ss) \<leftarrow> revert_loop [] (shards dst) [] (shards src);
     let dst = set_shards dst ds;
     let src = set_shards src ss;
     let dst_ts = cell_timestamp dst;
     let src_ts = cell_timestamp src;
     Some (set_timestamp dst src_ts,
           set_counter_in_place_revert (set_timestamp src dst_ts) False)
   }"

section \<open>Reversible merge of two counter cells\<close>

definition shard_less :: "counter_shard \<Rightarrow> counter_shard \<Rightarrow> bool" where
  "shard_less x y \<longleftrightarrow> cid_less (shard_id x) (shard_id y)"

definition shard_merge :: "counter_shard \<Rightarrow> counter_shard \<Rightarrow> counter_shard" where
  "shard_merge x y = (if sint (logical_clock x) < sint (logical_clock y) then y else x)"

text \<open>The slow path: a new cell replaces \<open>dst\<close> and the old one moves to \<open>src\<close>.\<close>

definition apply_slow :: "bytes \<Rightarrow> bytes \<Rightarrow> bool \<times> bytes \<times> bytes" where
  "apply_slow dst src =
     (let result = foldl add_shard builder_empty (combine shard_less shard_merge (shards dst) (shards src))
      in (True, builder_build result (ts_max (cell_timestamp dst) (cell_timestamp src)), dst))"

definition counter_apply_reversibly :: "bool \<Rightarrow> bytes \<Rightarrow> bytes \<Rightarrow> (bool \<times> bytes \<times> bytes) option" where
  "counter_apply_reversibly can_use_mutable_view dst src =
     (if \<not> cell_is_live dst \<or> \<not> cell_is_live src
      then if cell_is_live dst
              \<or> (\<not> cell_is_live src \<and> compare_atomic_cell_for_merge dst src < 0)
           then Some (True, src, dst)
           else Some (False, dst, src)
      else if is_counter_update dst \<and> is_counter_update src
      then let src_v = counter_update_value src; dst_v = counter_update_value dst in
           Some (True, make_live_counter_update (ts_max (cell_timestamp dst) (cell_timestamp src))
                         (src_v + dst_v), src)
      else if is_counter_update dst \<or> is_counter_update src then None
      else if shard_count dst \<ge> shard_count src \<and> can_use_mutable_view
      then do {
        (applied, dst, src) \<leftarrow> apply_in_place dst src;
        if applied then Some (True, dst, src)
        else Some (apply_slow dst (set_counter_in_place_revert src False))
      }
      else Some (apply_slow dst (set_counter_in_place_revert src False)))"

definition counter_revert_apply :: "bytes \<Rightarrow> bytes \<Rightarrow> (bytes \<times> bytes) option" where
  "counter_revert_apply dst src =
     (if is_counter_update dst
      then let src_v = counter_update_value src; dst_v = counter_update_value dst in
           Some (make_live (cell_timestamp dst) (hton 8 (dst_v - src_v)), src)
      else if is_counter_in_place_revert_set src then revert_in_place_apply dst src
      else Some (src, dst))"

section \<open>Difference and conversion of updates\<close>

fun difference_loop :: "counter_shard list \<Rightarrow> counter_shard list \<Rightarrow> counter_cell_builder \<Rightarrow>
    counter_cell_builder" where
  "difference_loop [] bs result = result"
| "difference_loop (a # as) (b # bs) result =
     (if cid_less (shard_id b) (shard_id a) then difference_loop (a # as) bs result
      else if shard_id a \<noteq> shard_id b \<or> sint (logical_clock a) > sint (logical_clock b)
      then difference_loop as (b # bs) (add_shard result a)
      else difference_loop as (b # bs) result)"
| "difference_loop (a # as) [] result = difference_loop as [] (add_shard result a)"

text \<open>The outer option is the assertion that no argument is a counter update.\<close>

definition counter_difference :: "bytes \<Rightarrow> bytes \<Rightarrow> bytes option option" where
  "counter_difference a b =
     (if is_counter_update a \<or> is_counter_update b then None
      else Some (
        if \<not> cell_is_live b \<or> \<not> cell_is_live a
        then if cell_is_live b
                \<or> (\<not> cell_is_live a \<and> compare_atomic_cell_for_merge b a < 0)
             then Some a else None
        else let result = difference_loop (shards a) (shards b) builder_empty in
             if builder_shards result \<noteq> []
             then Some (builder_build result (ts_max (cell_timestamp a) (cell_timestamp b)))
             else if sint (cell_timestamp a) > sint (cell_timestamp b)
             then Some (make_live (cell_timestamp a) []) else None))"

text \<open>\<open>transform_counter_updates_to_shards\<close>, row by row: the cells of a row are the list of (column,
  cell) pairs that \<open>for_each_cell\<close> visits in column order; \<open>local\<close> is \<open>counter_id::local()\<close>.\<close>

type_synonym column_id = nat

definition transform_new_row_to_shards :: "counter_id \<Rightarrow> u64 \<Rightarrow> (column_id \<times> bytes) list \<Rightarrow>
    (column_id \<times> bytes) list" where
  "transform_new_row_to_shards local clock_offset cells =
     map (\<lambda>(i, acv).
       if \<not> cell_is_live acv then (i, acv)
       else let delta = counter_update_value acv;
                cs = \<lparr>shard_id = local, shard_value = delta, logical_clock = clock_offset + 1\<rparr>
            in (i, from_single_shard (cell_timestamp acv) cs)) cells"

fun local_shards :: "counter_id \<Rightarrow> (column_id \<times> bytes) list \<Rightarrow> (column_id \<times> counter_shard) list" where
  "local_shards local [] = []"
| "local_shards local ((i, acv) # cells) =
     (if \<not> cell_is_live acv then local_shards local cells
      else case get_shard acv local of
             None \<Rightarrow> local_shards local cells
           | Some cs \<Rightarrow> (i, cs) # local_shards local cells)"

fun transform_cells :: "counter_id \<Rightarrow> u64 \<Rightarrow> (column_id \<times> counter_shard) list \<Rightarrow>
    (column_id \<times> bytes) list \<Rightarrow> (column_id \<times> bytes) list" where
  "transform_cells local clock_offset shs [] = []"
| "transform_cells local clock_offset shs ((i, acv) # cells) =
     (if \<not> cell_is_live acv then (i, acv) # transform_cells local clock_offset shs cells
      else let shs = dropWhile (\<lambda>sh. fst sh < i) shs;
               delta = counter_update_value acv
           in case shs of
                (j, cs) # rest \<Rightarrow>
                  if j > i
                  then (i, from_single_shard (cell_timestamp acv)
                             \<lparr>shard_id = local, shard_value = delta, logical_clock = clock_offset + 1\<rparr>)
                       # transform_cells local clock_offset shs cells
                  else (i, from_single_shard (cell_timestamp acv)
                             (shard_update cs delta (clock_offset + 1)))
                       # transform_cells local clock_offset rest cells
              | [] \<Rightarrow>
                  (i, from_single_shard (cell_timestamp acv)
                        \<lparr>shard_id = local, shard_value = delta, logical_clock = clock_offset + 1\<rparr>)
                  # transform_cells local clock_offset [] cells)"

definition transform_row_to_shards :: "counter_id \<Rightarrow> u64 \<Rightarrow> (column_id \<times> bytes) list \<Rightarrow>
    (column_id \<times> bytes) list \<Rightarrow> (column_id \<times> bytes) list" where
  "transform_row_to_shards local clock_offset transformee state =
     transform_cells local clock_offset (local_shards local state) transformee"

section \<open>Shards in bytes\<close>

lemma host_read_bytes [simp]: "host_read (host_bytes w) = w"
  by (simp add: host_read_def host_bytes_def)

lemma length_host_bytes [simp]: "length (host_bytes w) = 8"
  by (simp add: host_bytes_def)

lemma length_shard_serialize [simp]: "length (shard_serialize s) = shard_size"
  by (simp add: shard_serialize_def shard_size_def)

lemma shard_view_serialize [simp]: "shard_view (shard_serialize s @ rest) = s"
  by (simp add: shard_view_def shard_serialize_def)

lemma serialize_shards_simps [simp]:
  "serialize_shards [] = []" "serialize_shards (s # ss) = shard_serialize s @ serialize_shards ss"
  by (simp_all add: serialize_shards_def)

lemma length_serialize_shards [simp]: "length (serialize_shards ss) = shard_size * length ss"
  by (induction ss) simp_all

lemma shards_of_serialize [simp]: "shards_of (serialize_shards ss) = ss"
proof (induction ss)
  case (Cons s ss)
  then show ?case by (subst shards_of.simps) simp
qed (simp add: shards_of.simps shard_size_def)

lemma foldl_add_shard:
  "builder_shards (foldl add_shard b ss) = builder_shards b @ ss"
  by (induction ss arbitrary: b) (simp_all add: add_shard_def)

text \<open>A counter cell as the code keeps it in a row: no flag but the live flag (and, transiently,
  the in-place-revert flag), shards one after the other.\<close>

definition counter_bytes :: "bool \<Rightarrow> i64 \<Rightarrow> counter_shard list \<Rightarrow> bytes" where
  "counter_bytes rv ts ss =
     (LIVE_FLAG OR (if rv then COUNTER_IN_PLACE_REVERT else 0)) # hton 8 ts @ serialize_shards ss"

lemma make_live_counter_bytes: "make_live ts (serialize_shards ss) = counter_bytes False ts ss"
  by (simp add: make_live_layout counter_bytes_def)

lemma counter_flag_bits:
  "bit (LIVE_FLAG OR (if rv then COUNTER_IN_PLACE_REVERT else 0)) k \<longleftrightarrow> k = 0 \<or> (rv \<and> k = 4)"
  by (auto simp: bit_simps flag_bits)

lemma counter_bytes_access [simp]:
  "cell_is_live (counter_bytes rv ts ss)" "\<not> is_counter_update (counter_bytes rv ts ss)"
  "is_counter_in_place_revert_set (counter_bytes rv ts ss) = rv"
  "cell_timestamp (counter_bytes rv ts ss) = ts"
  "do_get_value (counter_bytes rv ts ss) = serialize_shards ss"
  "shards (counter_bytes rv ts ss) = ss"
  "shard_count (counter_bytes rv ts ss) = length ss"
  "set_shards (counter_bytes rv ts ss) ss' = counter_bytes rv ts ss'"
  "set_timestamp (counter_bytes rv ts ss) ts' = counter_bytes rv ts' ss"
proof -
  show v: "do_get_value (counter_bytes rv ts ss) = serialize_shards ss"
    by (simp add: counter_bytes_def do_get_value_def flag_test counter_flag_bits layout_defs)
  show "shards (counter_bytes rv ts ss) = ss" by (simp add: shards_def v)
  show "shard_count (counter_bytes rv ts ss) = length ss"
    by (simp add: shard_count_def v shard_size_def)
  show "set_shards (counter_bytes rv ts ss) ss' = counter_bytes rv ts ss'"
    by (simp add: set_shards_def v) (simp add: counter_bytes_def)
  show "set_timestamp (counter_bytes rv ts ss) ts' = counter_bytes rv ts' ss"
    by (simp add: counter_bytes_def set_timestamp_def set_field_def layout_defs)
qed (simp_all add: counter_bytes_def cell_flag_simps counter_flag_bits cell_timestamp_def
  get_field_def layout_defs)

lemma set_counter_in_place_revert_bytes [simp]:
  "set_counter_in_place_revert (counter_bytes rv ts ss) r = counter_bytes r ts ss"
proof -
  have "(LIVE_FLAG OR (if rv then COUNTER_IN_PLACE_REVERT else 0)) AND NOT COUNTER_IN_PLACE_REVERT
      OR (if r then COUNTER_IN_PLACE_REVERT else 0)
    = LIVE_FLAG OR (if r then COUNTER_IN_PLACE_REVERT else 0)"
    by (intro bit_word_eqI) (auto simp: bit_simps flag_bits)
  then show ?thesis by (simp add: set_counter_in_place_revert_def counter_bytes_def)
qed

section \<open>Merging shard lists\<close>

definition shard_key :: "counter_shard \<Rightarrow> u64 \<times> u64" where
  "shard_key s = uuid_key (to_uuid (shard_id s))"

lemma cid_less_key: "cid_less (shard_id x) (shard_id y) \<longleftrightarrow> shard_key x < shard_key y"
  by (simp add: cid_less_def shard_key_def uuid_less_key)

lemma shard_key_eq: "shard_key x = shard_key y \<longleftrightarrow> shard_id x = shard_id y"
  by (cases "shard_id x"; cases "shard_id y") (auto simp: shard_key_def to_uuid_def)

interpretation csh: keyed_merge shard_key shard_less shard_merge
  by unfold_locales (simp_all add: shard_less_def cid_less_key shard_merge_def)

abbreviation shards_sorted :: "counter_shard list \<Rightarrow> bool" where
  "shards_sorted \<equiv> sorted_by shard_key"

abbreviation join :: "counter_shard list \<Rightarrow> counter_shard list \<Rightarrow> counter_shard list" where
  "join \<equiv> combine shard_less shard_merge"

lemma shard_merge_assoc: "shard_merge (shard_merge x y) z = shard_merge x (shard_merge y z)"
  by (auto simp: shard_merge_def)

lemma shard_merge_absorb [simp]:
  "shard_merge x x = x" "shard_merge x (shard_merge x y) = shard_merge x y"
  by (auto simp: shard_merge_def)

lemma set_value_and_clock_same: "shard_key d = shard_key s \<Longrightarrow> set_value_and_clock d s = s"
  by (cases d; cases s) (simp add: set_value_and_clock_def shard_key_eq)

lemma shard_key_set_value_and_clock [simp]: "shard_key (set_value_and_clock s d) = shard_key s"
  by (simp add: shard_key_def set_value_and_clock_def)

text \<open>What the in-place loops do to each list, element by element.\<close>

definition merge_elem :: "counter_shard list \<Rightarrow> counter_shard \<Rightarrow> counter_shard" where
  "merge_elem ss d =
     (case key_find shard_key ss (shard_key d) of None \<Rightarrow> d | Some s \<Rightarrow> shard_merge d s)"

definition take_elem :: "counter_shard list \<Rightarrow> counter_shard \<Rightarrow> counter_shard" where
  "take_elem ss d = (case key_find shard_key ss (shard_key d) of None \<Rightarrow> d | Some s \<Rightarrow> s)"

abbreviation merge_into :: "counter_shard list \<Rightarrow> counter_shard list \<Rightarrow> counter_shard list" where
  "merge_into ds ss \<equiv> map (merge_elem ss) ds"

abbreviation take_from :: "counter_shard list \<Rightarrow> counter_shard list \<Rightarrow> counter_shard list" where
  "take_from ds ss \<equiv> map (take_elem ss) ds"

lemma shard_key_elem [simp]: "shard_key (merge_elem ss d) = shard_key d" "shard_key (take_elem ss d) = shard_key d"
  by (auto simp: merge_elem_def take_elem_def csh.merge_key split: option.split dest: key_find_Some_key)

lemma join_merge_into:
  assumes "shards_sorted ds" "shards_sorted ss" "shard_key ` set ss \<subseteq> shard_key ` set ds"
  shows "join ds ss = merge_into ds ss"
proof (rule csh.combine_eqI [OF assms(1,2)])
  show "shards_sorted (merge_into ds ss)"
    using assms(1) by (simp add: sorted_by_map)
next
  fix k
  have "key_find shard_key ss k = None" if "key_find shard_key ds k = None"
    using that assms(3) by (auto simp: key_find_None_iff)
  moreover have "merge_elem ss d = (case key_find shard_key ss k of None \<Rightarrow> d | Some s \<Rightarrow> shard_merge d s)"
    if "key_find shard_key ds k = Some d" for d
    using key_find_Some_key [OF that] by (simp add: merge_elem_def)
  ultimately show "combine_options shard_merge (key_find shard_key ds k) (key_find shard_key ss k) =
      key_find shard_key (merge_into ds ss) k"
    by (cases "key_find shard_key ds k")
      (auto simp: key_find_map combine_options_def split: option.split)
qed

lemma take_from_restores:
  assumes "shards_sorted ds" "shard_key ` set ss \<subseteq> shard_key ` set ds"
  shows "take_from (merge_into ds ss) (take_from ss ds) = ds"
proof -
  have "take_elem (take_from ss ds) (merge_elem ss d) = d" if "d \<in> set ds" for d
  proof (cases "key_find shard_key ss (shard_key d)")
    case None
    then show ?thesis by (simp add: take_elem_def [of "map _ _"] key_find_map merge_elem_def)
  next
    case (Some s)
    then have "key_find shard_key ds (shard_key s) = Some d"
      using key_find_Some_key [OF Some] sorted_by_key_find [OF assms(1) that] by simp
    with Some show ?thesis
      by (simp add: take_elem_def [of "map _ _"] key_find_map) (simp add: take_elem_def)
  qed
  then show ?thesis by (simp add: map_idI)
qed

section \<open>The in-place loops\<close>

lemma advance_eq:
  "advance l r i = (rev (takeWhile (\<lambda>d. cid_less (shard_id d) i) r) @ l,
                    dropWhile (\<lambda>d. cid_less (shard_id d) i) r)"
  by (induction l r i rule: advance.induct) simp_all

text \<open>The position at which the inner loop stops when the id occurs.\<close>

lemma advance_match:
  assumes "shards_sorted r" "shard_key s \<in> shard_key ` set r"
  obtains p d q where "r = p @ d # q" "advance l r (shard_id s) = (rev p @ l, d # q)"
    "shard_key d = shard_key s" "\<And>x. x \<in> set p \<Longrightarrow> shard_key x < shard_key s"
    "\<And>x. x \<in> set q \<Longrightarrow> shard_key s < shard_key x" "shards_sorted q"
proof -
  from assms(2) obtain d where d: "shard_key d = shard_key s" "d \<in> set r" by (metis imageE)
  then obtain p q where r: "r = p @ d # q" by (meson split_list)
  have p: "\<And>x. x \<in> set p \<Longrightarrow> shard_key x < shard_key s" "\<And>x. x \<in> set q \<Longrightarrow> shard_key s < shard_key x"
    and q: "shards_sorted q"
    using assms(1) d(1) by (simp_all add: r sorted_wrt_append)
  moreover have "advance l r (shard_id s) = (rev p @ l, d # q)"
    using p(1) d(1) by (simp add: advance_eq r cid_less_key)
  ultimately show thesis using r d(1) that by blast
qed

lemma map_case_skip:
  assumes "\<And>x. x \<in> set xs \<Longrightarrow> shard_key x \<noteq> shard_key s"
  shows "merge_into xs (s # ss) = merge_into xs ss" "take_from xs (s # ss) = take_from xs ss"
  by (intro map_cong refl, use assms in \<open>force simp: merge_elem_def take_elem_def\<close>)+

lemma map_case_none:
  assumes "\<And>x s. x \<in> set xs \<Longrightarrow> s \<in> set ss \<Longrightarrow> shard_key x < shard_key s"
  shows "merge_into xs ss = xs" "take_from xs ss = xs"
proof -
  have "key_find shard_key ss (shard_key x) = None" if "x \<in> set xs" for x
    using assms [OF that] by (fastforce simp: key_find_None_iff)
  then show "merge_into xs ss = xs" "take_from xs ss = xs"
    by (simp_all add: merge_elem_def take_elem_def map_idI)
qed

text \<open>Around a matching shard \<open>d\<close> of the destination: what is left of the source lies behind it,
  and the element-wise updates split accordingly.\<close>

lemma keys_after_match:
  assumes "shards_sorted (s # sr)" "shard_key ` set (s # sr) \<subseteq> shard_key ` set r"
    and "r = p @ d # q" "shard_key d = shard_key s" "\<And>x. x \<in> set p \<Longrightarrow> shard_key x < shard_key s"
  shows "shard_key ` set sr \<subseteq> shard_key ` set q"
proof
  fix k assume k: "k \<in> shard_key ` set sr"
  then have "shard_key s < k" using assms(1) by auto
  then have "k \<notin> shard_key ` set p" "k \<noteq> shard_key d" using assms(4,5) by fastforce+
  then show "k \<in> shard_key ` set q" using k assms(2) by (auto simp: assms(3))
qed

lemma split_merge_into:
  assumes "shards_sorted (s # sr)"
    and "r = p @ d # q" "shard_key d = shard_key s" "\<And>x. x \<in> set p \<Longrightarrow> shard_key x < shard_key s"
    and "\<And>x. x \<in> set q \<Longrightarrow> shard_key s < shard_key x" "shard_key d' = shard_key d"
  shows "merge_into r (s # sr) = p @ shard_merge d s # merge_into q sr"
    and "merge_into (d' # q) sr = d' # merge_into q sr"
proof -
  have "x < y" if "x \<in> shard_key ` set p" "y \<in> shard_key ` set (s # sr)" for x y
    using that assms(1,4) by (auto dest: order.strict_trans)
  then have "merge_into p (s # sr) = p" by (intro map_case_none(1)) blast
  moreover have "merge_into q (s # sr) = merge_into q sr" using assms(5) by (intro map_case_skip(1)) force
  moreover have "merge_elem (s # sr) d = shard_merge d s" using assms(3) by (simp add: merge_elem_def)
  ultimately show "merge_into r (s # sr) = p @ shard_merge d s # merge_into q sr" by (simp add: assms(2))
  show "merge_into (d' # q) sr = d' # merge_into q sr"
    using assms(3,6) by (simp add: merge_elem_def sorted_by_key_find_less [OF assms(1)])
qed

lemma split_take_from:
  assumes "shards_sorted (s # sr)"
    and "r = p @ d # q" "shard_key d = shard_key s" "\<And>x. x \<in> set p \<Longrightarrow> shard_key x < shard_key s"
    and "\<And>x. x \<in> set q \<Longrightarrow> shard_key s < shard_key x"
  shows "p @ take_from (s # q) sr = take_from r (s # sr)"
    and "shard_key d' = shard_key s \<Longrightarrow> take_from sr (d' # q) = take_from sr r"
    and "take_elem r s = d"
proof -
  have "x < y" if "x \<in> shard_key ` set p" "y \<in> shard_key ` set (s # sr)" for x y
    using that assms(1,4) by (auto dest: order.strict_trans)
  then have "take_from p (s # sr) = p" by (intro map_case_none(2)) blast
  moreover have "take_from q (s # sr) = take_from q sr" using assms(5) by (intro map_case_skip(2)) force
  moreover have "take_elem (s # sr) d = s" "take_elem sr s = s"
    using assms(3) by (simp_all add: take_elem_def sorted_by_key_find_less [OF assms(1)])
  ultimately show "p @ take_from (s # q) sr = take_from r (s # sr)" by (simp add: assms(2))
  have p: "key_find shard_key p k = None" if "shard_key s \<le> k" for k
    using assms(4) that by (fastforce simp: key_find_None_iff)
  show "take_elem r s = d" using p [of "shard_key s"] assms(3)
    by (simp add: take_elem_def assms(2) key_find_append)
  show "take_from sr (d' # q) = take_from sr r" if "shard_key d' = shard_key s"
  proof (intro map_cong refl)
    fix x assume "x \<in> set sr"
    then have "shard_key s < shard_key x" using assms(1) by simp
    then show "take_elem (d' # q) x = take_elem r x"
      using p [of "shard_key x"] assms(3) that
      by (auto simp: take_elem_def assms(2) key_find_append)
  qed
qed

text \<open>When every source id occurs in the destination, the fast path merges.\<close>

lemma in_place_loop_success:
  "shards_sorted r \<Longrightarrow> shards_sorted sr \<Longrightarrow> shard_key ` set sr \<subseteq> shard_key ` set r \<Longrightarrow>
   in_place_loop l r sl sr = Some (True, rev l @ merge_into r sr, rev sl @ take_from sr r)"
proof (induction sr arbitrary: l r sl)
  case Nil
  then show ?case by (simp add: merge_elem_def map_idI)
next
  case (Cons s sr)
  have mem: "shard_key s \<in> shard_key ` set r" using Cons.prems(3) by simp
  obtain p d q where r: "r = p @ d # q" and adv: "advance l r (shard_id s) = (rev p @ l, d # q)"
    and d: "shard_key d = shard_key s" and p: "\<And>x. x \<in> set p \<Longrightarrow> shard_key x < shard_key s"
    and q: "\<And>x. x \<in> set q \<Longrightarrow> shard_key s < shard_key x" "shards_sorted q"
    by (rule advance_match [OF Cons.prems(1) mem, of l]) blast
  let ?d = "shard_merge d s"
  have key_d: "shard_key ?d = shard_key s" using d by (simp add: csh.merge_key)
  have "in_place_loop l r sl (s # sr) = in_place_loop (rev p @ l) (?d # q) (d # sl) sr"
    using d adv by (simp add: shard_key_eq swap_value_and_clock_def shard_merge_def
        set_value_and_clock_same split: list.split)
  also have "\<dots> = Some (True, rev (rev p @ l) @ merge_into (?d # q) sr, rev (d # sl) @ take_from sr (?d # q))"
    using Cons.prems(2) key_d q keys_after_match [OF Cons.prems(2,3) r d p] by (intro Cons.IH) auto
  also have "rev (rev p @ l) @ merge_into (?d # q) sr = rev l @ merge_into r (s # sr)"
    using split_merge_into [OF Cons.prems(2) r d p q(1), of ?d] key_d d by simp
  also have "rev (d # sl) @ take_from sr (?d # q) = rev sl @ take_from (s # sr) r"
    using split_take_from(2,3) [OF Cons.prems(2) r d p q(1)] key_d by simp
  finally show ?case .
qed

text \<open>\<open>revert_in_place_apply\<close> gives each list the values of the other one.\<close>

lemma revert_loop_eq:
  "shards_sorted r \<Longrightarrow> shards_sorted sr \<Longrightarrow> shard_key ` set sr \<subseteq> shard_key ` set r \<Longrightarrow>
   revert_loop l r sl sr = Some (rev l @ take_from r sr, rev sl @ take_from sr r)"
proof (induction sr arbitrary: l r sl)
  case Nil
  then show ?case by (simp add: take_elem_def map_idI)
next
  case (Cons s sr)
  have mem: "shard_key s \<in> shard_key ` set r" using Cons.prems(3) by simp
  obtain p d q where r: "r = p @ d # q" and adv: "advance l r (shard_id s) = (rev p @ l, d # q)"
    and d: "shard_key d = shard_key s" and p: "\<And>x. x \<in> set p \<Longrightarrow> shard_key x < shard_key s"
    and q: "\<And>x. x \<in> set q \<Longrightarrow> shard_key s < shard_key x" "shards_sorted q"
    by (rule advance_match [OF Cons.prems(1) mem, of l]) blast
  have "revert_loop l r sl (s # sr) = revert_loop (rev p @ l) (s # q) (d # sl) sr"
    using d adv by (simp add: shard_key_eq swap_value_and_clock_def set_value_and_clock_same)
  also have "\<dots> = Some (rev (rev p @ l) @ take_from (s # q) sr, rev (d # sl) @ take_from sr (s # q))"
    using Cons.prems(2) d q keys_after_match [OF Cons.prems(2,3) r d p] by (intro Cons.IH) auto
  also have "rev (rev p @ l) @ take_from (s # q) sr = rev l @ take_from r (s # sr)"
    using split_take_from(1) [OF Cons.prems(2) r d p q(1)] by simp
  also have "rev (d # sl) @ take_from sr (s # q) = rev sl @ take_from (s # sr) r"
    using split_take_from(2,3) [OF Cons.prems(2) r d p q(1)] d
    by (simp add: set_value_and_clock_same)
  finally show ?case .
qed

text \<open>When a source id is missing in the destination, the fast path takes its swaps back: moving
  the destination iterator forward first does not change what the undo loop does.\<close>

lemma retreat_back:
  "shard_id d = i \<Longrightarrow> (\<And>x. x \<in> set m \<union> set rest \<Longrightarrow> shard_id x \<noteq> i) \<Longrightarrow> rest \<noteq> [] \<Longrightarrow>
   retreat (m @ d # l) rest i = Some (l, d # rev m @ rest)"
proof (induction m arbitrary: rest)
  case Nil
  then obtain e rest' where "rest = e # rest'" by (cases rest) auto
  with Nil show ?case by auto
next
  case (Cons x m)
  then obtain e rest' where rest: "rest = e # rest'" by (cases rest) auto
  have "retreat (m @ d # l) (x # rest) i = Some (l, d # rev m @ x # rest)"
    using Cons.prems by (intro Cons.IH) auto
  with Cons.prems rest show ?case by auto
qed

lemma undo_shift:
  assumes "shards_sorted (p @ q)" "q \<noteq> []"
    and "sl = [] \<or> shard_id (hd (p @ q)) = shard_id (hd sl)"
  shows "undo (rev p @ l) q sl sr = undo l (p @ q) sl sr"
proof (cases "p = [] \<or> sl = []")
  case True
  then show ?thesis by auto
next
  case False
  then obtain d p' s sl' where p: "p = d # p'" and sl: "sl = s # sl'" by (cases p; cases sl) auto
  have d: "shard_id d = shard_id s" using assms(3) by (simp add: p sl)
  have "shard_id x \<noteq> shard_id s" if "x \<in> set (rev p') \<union> set q" for x
  proof -
    have "\<forall>y \<in> set (p' @ q). shard_key d < shard_key y" using assms(1) by (simp add: p)
    then have "shard_key d < shard_key x" using that by simp
    then have "shard_id d \<noteq> shard_id x" unfolding shard_key_eq [symmetric] by (rule less_imp_neq)
    then show ?thesis unfolding d by (rule not_sym)
  qed
  then have "retreat (rev p' @ d # l) q (shard_id s) = Some (l, d # rev (rev p') @ q)"
    using d assms(2) by (intro retreat_back)
  then show ?thesis by (simp add: p sl d)
qed

definition absorbed :: "counter_shard list \<Rightarrow> counter_shard \<Rightarrow> counter_shard \<Rightarrow> bool" where
  "absorbed ds s s' \<longleftrightarrow> s' = s \<or> (\<exists>d \<in> set ds. shard_key d = shard_key s \<and> s' = shard_merge d s)"

lemma absorbed_key: "absorbed ds s s' \<Longrightarrow> shard_key s' = shard_key s"
  by (auto simp: absorbed_def csh.merge_key)

lemma in_place_loop_stop:
  assumes "shards_sorted r" "shard_key s \<notin> shard_key ` set r" "rev l @ r \<noteq> []"
    and "sl = [] \<or> (r \<noteq> [] \<and> shard_id (hd r) = shard_id (hd sl))"
  shows "in_place_loop l r sl (s # sr) = map_option (Pair False) (undo l r sl (s # sr))"
proof -
  let ?P = "\<lambda>d. cid_less (shard_id d) (shard_id s)"
  define p q where "p = takeWhile ?P r" and "q = dropWhile ?P r"
  have r: "r = p @ q" and adv: "advance l r (shard_id s) = (rev p @ l, q)"
    by (simp_all add: p_def q_def advance_eq)
  show ?thesis
  proof (cases q)
    case (Cons d q')
    then have "shard_id d \<noteq> shard_id s"
      using assms(2) by (auto simp: r shard_key_eq [symmetric])
    with Cons adv have "in_place_loop l r sl (s # sr) =
        map_option (Pair False) (undo (rev p @ l) q sl (s # sr))"
      by (simp split: list.split)
    with Cons assms show ?thesis by (auto simp: r undo_shift)
  next
    case Nil
    show ?thesis
    proof (cases p rule: rev_cases)
      case Nil
      with \<open>q = []\<close> assms obtain d l' where "l = d # l'" by (cases l) (auto simp: r)
      with Nil \<open>q = []\<close> assms adv show ?thesis by (simp add: r)
    next
      case (snoc p' d)
      have "undo (rev p' @ l) [d] sl (s # sr) = undo l (p' @ [d]) sl (s # sr)"
        using assms(1,4) by (intro undo_shift) (auto simp: r snoc \<open>q = []\<close>)
      with snoc \<open>q = []\<close> adv show ?thesis by (simp add: r)
    qed
  qed
qed

lemma in_place_loop_failure:
  "shards_sorted r \<Longrightarrow> shards_sorted sr \<Longrightarrow> rev l @ r \<noteq> [] \<Longrightarrow>
   sl = [] \<or> (r \<noteq> [] \<and> shard_id (hd r) = shard_id (hd sl)) \<Longrightarrow>
   \<not> shard_key ` set sr \<subseteq> shard_key ` set r \<Longrightarrow>
   \<exists>ss'. in_place_loop l r sl sr = map_option (Pair False) (undo l r sl ss')
     \<and> list_all2 (absorbed r) sr ss'"
proof (induction sr arbitrary: l r sl)
  case (Cons s sr)
  show ?case
  proof (cases "shard_key s \<in> shard_key ` set r")
    case False
    have "list_all2 (absorbed r) (s # sr) (s # sr)"
      by (intro list_all2_refl) (simp add: absorbed_def)
    with in_place_loop_stop [OF Cons.prems(1) False Cons.prems(3,4), of sr] show ?thesis by blast
  next
    case True
    obtain p d q where r: "r = p @ d # q" and adv: "advance l r (shard_id s) = (rev p @ l, d # q)"
      and d: "shard_key d = shard_key s" and p: "\<And>x. x \<in> set p \<Longrightarrow> shard_key x < shard_key s"
      and q: "\<And>x. x \<in> set q \<Longrightarrow> shard_key s < shard_key x" "shards_sorted q"
      by (rule advance_match [OF Cons.prems(1) True, of l]) blast
    let ?d = "shard_merge d s"
    have key_d: "shard_key ?d = shard_key s" using d by (simp add: csh.merge_key)
    have "in_place_loop l r sl (s # sr) = in_place_loop (rev p @ l) (?d # q) (d # sl) sr"
      using d adv by (simp add: shard_key_eq swap_value_and_clock_def shard_merge_def
          set_value_and_clock_same split: list.split)
    moreover have "\<not> shard_key ` set sr \<subseteq> shard_key ` set (?d # q)"
      using Cons.prems(5) key_d d by (auto simp: r)
    then obtain ss' where "in_place_loop (rev p @ l) (?d # q) (d # sl) sr
        = map_option (Pair False) (undo (rev p @ l) (?d # q) (d # sl) ss')"
      and abs: "list_all2 (absorbed (?d # q)) sr ss'"
      using Cons.IH [of "?d # q" "rev p @ l" "d # sl"] Cons.prems(2) key_d d q
      by (auto simp: shard_key_eq)
    moreover have "undo (rev p @ l) (?d # q) (d # sl) ss' = undo (rev p @ l) (d # q) sl (?d # ss')"
      using key_d d
      by (simp add: shard_key_eq [symmetric] swap_value_and_clock_def set_value_and_clock_same)
    moreover have "undo (rev p @ l) (d # q) sl (?d # ss') = undo l r sl (?d # ss')"
      using Cons.prems(1,4) by (auto simp: r undo_shift)
    moreover have "list_all2 (absorbed r) (s # sr) (?d # ss')"
    proof -
      have "absorbed r x y" if "x \<in> set sr" "absorbed (?d # q) x y" for x y
        using that Cons.prems(2) key_d by (auto simp: absorbed_def r)
      then have "list_all2 (absorbed r) sr ss'"
        using abs by (rule list.rel_mono_strong [rotated]) blast
      moreover have "absorbed r s ?d" using d by (auto simp: absorbed_def r)
      ultimately show ?thesis by simp
    qed
    ultimately show ?thesis by auto
  qed
qed simp

section \<open>Merging whole cells\<close>

lemma absorbed_merge:
  assumes "shards_sorted ds" "key_find shard_key ds (shard_key s) = Some d" "absorbed ds s s'"
  shows "shard_merge d s' = shard_merge d s"
proof -
  have "d' = d" if "d' \<in> set ds" "shard_key d' = shard_key s" for d'
    using sorted_by_key_find [OF assms(1) that(1)] assms(2) that(2) by simp
  then show ?thesis using assms(3) unfolding absorbed_def by auto
qed

lemma key_find_absorbed:
  "list_all2 (absorbed ds) ss ss' \<Longrightarrow>
   rel_option (absorbed ds) (key_find shard_key ss k) (key_find shard_key ss' k)"
  by (induction rule: list_all2_induct) (simp_all add: absorbed_key)

lemma join_absorbed:
  assumes "shards_sorted ds" "shards_sorted ss" "list_all2 (absorbed ds) ss ss'"
  shows "join ds ss' = join ds ss"
proof -
  have "map shard_key ss' = map shard_key ss"
    using assms(3) by (induction rule: list_all2_induct) (simp_all add: absorbed_key)
  moreover have "sorted_by shard_key xs = sorted_wrt (<) (map shard_key xs)" for xs
    by (simp add: sorted_wrt_map)
  ultimately have sorted: "shards_sorted ss'" using assms(2) by metis
  show ?thesis
  proof (rule csh.combine_eqI [OF assms(1) sorted])
    fix k
    have rel: "rel_option (absorbed ds) (key_find shard_key ss k) (key_find shard_key ss' k)"
      using assms(3) by (rule key_find_absorbed)
    show "combine_options shard_merge (key_find shard_key ds k) (key_find shard_key ss' k) =
        key_find shard_key (join ds ss) k"
    proof (cases "key_find shard_key ss k")
      case None
      then show ?thesis using rel assms(1,2) by (simp add: csh.key_find_combine)
    next
      case (Some s)
      with rel obtain s' where s': "key_find shard_key ss' k = Some s'" "absorbed ds s s'"
        by (cases "key_find shard_key ss' k") auto
      have k: "shard_key s = k" using Some by (rule key_find_Some_key)
      show ?thesis
      proof (cases "key_find shard_key ds k")
        case None
        then have "s' = s" using s'(2) k unfolding absorbed_def key_find_None_iff by (metis image_eqI)
        then show ?thesis using Some s' assms(1,2) by (simp add: csh.key_find_combine)
      next
        case (Some d)
        then have "shard_merge d s' = shard_merge d s"
          using absorbed_merge [OF assms(1) _ s'(2), of d] k by simp
        then show ?thesis
          using Some \<open>key_find shard_key ss k = Some s\<close> s' assms(1,2) by (simp add: csh.key_find_combine)
      qed
    qed
  qed (simp add: assms csh.sorted_combine)
qed

text \<open>The result of the merge, whichever path computes it.\<close>

abbreviation live_counter :: "i64 \<Rightarrow> counter_shard list \<Rightarrow> bytes" where
  "live_counter \<equiv> counter_bytes False"

lemma apply_slow_eq:
  "apply_slow (counter_bytes rv t ds) (counter_bytes rv' u ss) =
     (True, live_counter (ts_max t u) (join ds ss), counter_bytes rv t ds)"
  by (simp add: apply_slow_def builder_build_def foldl_add_shard builder_empty_def
      make_live_counter_bytes)

lemma apply_in_place_success:
  assumes "shards_sorted ds" "shards_sorted ss" "shard_key ` set ss \<subseteq> shard_key ` set ds"
  shows "apply_in_place (live_counter t ds) (live_counter u ss) =
    Some (True, live_counter (ts_max t u) (join ds ss), counter_bytes True t (take_from ss ds))"
  using in_place_loop_success [OF assms, of "[]" "[]"] join_merge_into [OF assms]
  by (simp add: apply_in_place_def Let_def)

lemma apply_in_place_failure:
  assumes "shards_sorted ds" "shards_sorted ss" "ds \<noteq> []" "\<not> shard_key ` set ss \<subseteq> shard_key ` set ds"
  obtains ss' where "apply_in_place (live_counter t ds) (live_counter u ss) =
    Some (False, live_counter t ds, live_counter u ss')" "join ds ss' = join ds ss"
proof -
  obtain ss' where "in_place_loop [] ds [] ss = Some (False, ds, ss')" "list_all2 (absorbed ds) ss ss'"
    using in_place_loop_failure [OF assms(1,2), of "[]" "[]"] assms(3,4) by auto
  with join_absorbed [OF assms(1,2)] show thesis
    by (intro that [of ss']) (simp_all add: apply_in_place_def)
qed

lemma counter_apply_eq:
  assumes "shards_sorted ds" "shards_sorted ss"
  shows "counter_apply_reversibly mv (live_counter t ds) (live_counter u ss) =
    Some (True, live_counter (ts_max t u) (join ds ss),
      if mv \<and> shard_key ` set ss \<subseteq> shard_key ` set ds then counter_bytes True t (take_from ss ds)
      else live_counter t ds)"
proof (cases "mv \<and> length ss \<le> length ds")
  case False
  have "length ss \<le> length ds" if "shard_key ` set ss \<subseteq> shard_key ` set ds"
    using card_mono [OF _ that] assms [THEN sorted_by_length] by simp
  with False show ?thesis by (auto simp: counter_apply_reversibly_def apply_slow_eq)
next
  case True
  show ?thesis
  proof (cases "shard_key ` set ss \<subseteq> shard_key ` set ds")
    case sub: True
    with True show ?thesis
      by (simp add: counter_apply_reversibly_def apply_in_place_success [OF assms sub])
  next
    case False
    then have "ds \<noteq> []" using True by (cases ss) auto
    then obtain ss' where "apply_in_place (live_counter t ds) (live_counter u ss) =
        Some (False, live_counter t ds, live_counter u ss')" "join ds ss' = join ds ss"
      using apply_in_place_failure [OF assms _ False] by metis
    with True False show ?thesis
      by (simp add: counter_apply_reversibly_def apply_slow_eq)
  qed
qed

lemma counter_revert_eq:
  assumes "shards_sorted ds" "shards_sorted ss"
  shows "counter_revert_apply (live_counter (ts_max t u) (join ds ss))
     (if mv \<and> shard_key ` set ss \<subseteq> shard_key ` set ds then counter_bytes True t (take_from ss ds)
      else live_counter t ds)
   = Some (live_counter t ds, live_counter (ts_max t u)
       (if mv \<and> shard_key ` set ss \<subseteq> shard_key ` set ds then take_from (take_from ss ds) (join ds ss)
        else join ds ss))"
proof (cases "mv \<and> shard_key ` set ss \<subseteq> shard_key ` set ds")
  case True
  have "shards_sorted (join ds ss)" "shards_sorted (take_from ss ds)"
    using assms by (simp_all add: csh.sorted_combine sorted_by_map)
  moreover have "shard_key ` set (take_from ss ds) \<subseteq> shard_key ` set (join ds ss)"
    using True by (auto simp: csh.keys_combine image_image)
  ultimately show ?thesis
    using True take_from_restores [OF assms(1)] join_merge_into [OF assms]
    by (simp add: counter_revert_apply_def revert_in_place_apply_def revert_loop_eq)
next
  case False
  show ?thesis unfolding if_not_P [OF False] by (simp add: counter_revert_apply_def)
qed

text \<open>The contract of \<open>reversibly_mergeable.hh\<close>, interpreted on the merge of counter cells for
  both answers of \<open>can_use_mutable_view\<close>.\<close>

definition counter_live :: "bytes \<Rightarrow> bool" where
  "counter_live c \<longleftrightarrow> (\<exists>t ss. c = live_counter t ss \<and> shards_sorted ss)"

definition counter_join :: "bytes \<Rightarrow> bytes \<Rightarrow> bytes" where
  "counter_join a b =
     live_counter (ts_max (cell_timestamp a) (cell_timestamp b)) (join (shards a) (shards b))"

definition counter_apply_rev :: "bool \<Rightarrow> bytes \<Rightarrow> bytes \<Rightarrow> bytes \<times> bytes" where
  "counter_apply_rev mv dst src =
     (case counter_apply_reversibly mv dst src of Some (_, dst', src') \<Rightarrow> (dst', src') | None \<Rightarrow> (dst, src))"

definition counter_revert :: "bytes \<Rightarrow> bytes \<Rightarrow> bytes \<times> bytes" where
  "counter_revert dst src = (case counter_revert_apply dst src of Some r \<Rightarrow> r | None \<Rightarrow> (dst, src))"

lemma counter_liveE:
  assumes "counter_live c"
  obtains t ss where "c = live_counter t ss" "shards_sorted ss"
  using assms unfolding counter_live_def by blast

lemma counter_apply_rev_eq:
  assumes "shards_sorted ds" "shards_sorted ss"
  shows "counter_apply_rev mv (live_counter t ds) (live_counter u ss) =
    (live_counter (ts_max t u) (join ds ss),
     if mv \<and> shard_key ` set ss \<subseteq> shard_key ` set ds then counter_bytes True t (take_from ss ds)
     else live_counter t ds)"
  using counter_apply_eq [OF assms, of mv t u] unfolding counter_apply_rev_def by simp

lemma counter_revert_pair_eq:
  assumes "shards_sorted ds" "shards_sorted ss"
  shows "case_prod counter_revert (counter_apply_rev mv (live_counter t ds) (live_counter u ss)) =
    (live_counter t ds, live_counter (ts_max t u)
       (if mv \<and> shard_key ` set ss \<subseteq> shard_key ` set ds then take_from (take_from ss ds) (join ds ss)
        else join ds ss))"
  using counter_revert_eq [OF assms, of t u mv]
  unfolding counter_apply_rev_eq [OF assms] counter_revert_def prod.case by simp

lemma ts_max_absorb [simp]: "ts_max a (ts_max a b) = ts_max a b" "ts_max a a = a"
  by (auto simp: ts_max_def)

lemma join_retry:
  assumes "shards_sorted ds" "shards_sorted ss" "shard_key ` set ss \<subseteq> shard_key ` set ds"
  shows "shards_sorted (take_from (take_from ss ds) (join ds ss))"
    and "join ds (take_from (take_from ss ds) (join ds ss)) = join ds ss"
proof -
  let ?ss = "take_from (take_from ss ds) (join ds ss)"
  have sj: "shards_sorted (join ds ss)" using assms by (simp add: csh.sorted_combine)
  show s: "shards_sorted ?ss" using assms by (simp add: sorted_by_map)
  show "join ds ?ss = join ds ss"
  proof (rule csh.combine_eqI [OF assms(1) s sj])
    fix k
    have "key_find shard_key ?ss k =
        (case key_find shard_key ss k of None \<Rightarrow> None | Some s \<Rightarrow> key_find shard_key (join ds ss) k)"
    proof (cases "key_find shard_key ss k")
      case None
      then show ?thesis by (simp add: key_find_map del: map_map)
    next
      case (Some s)
      then have find: "key_find shard_key ?ss k = Some (take_elem (join ds ss) (take_elem ds s))"
        by (simp add: key_find_map del: map_map)
      have "shard_key s = k" using Some by (rule key_find_Some_key)
      moreover from this Some have "key_find shard_key (join ds ss) k \<noteq> None"
        using assms(1,2) by (auto simp: csh.key_find_combine combine_options_def split: option.split)
      ultimately show ?thesis
        unfolding find using Some by (auto simp: take_elem_def [of "join ds ss"])
    qed
    then show "combine_options shard_merge (key_find shard_key ds k) (key_find shard_key ?ss k) =
        key_find shard_key (join ds ss) k"
      using assms(3) key_find_None_iff [of shard_key ds k] key_find_None_iff [of shard_key ss k] assms(1,2)
      by (auto simp: csh.key_find_combine combine_options_def split: option.splits)
  qed
qed

lemma counter_reversible: "reversibly_mergeable counter_join (counter_apply_rev mv) counter_revert counter_live"
proof
  fix x y assume live: "counter_live x" "counter_live y"
  obtain t ds where x: "x = live_counter t ds" "shards_sorted ds"
    using live(1) by (rule counter_liveE)
  obtain u ss where y: "y = live_counter u ss" "shards_sorted ss"
    using live(2) by (rule counter_liveE)
  note eqs = counter_apply_rev_eq [OF x(2) y(2), of mv t u] counter_revert_pair_eq [OF x(2) y(2), of mv t u]
  show "fst (counter_apply_rev mv x y) = counter_join x y"
    unfolding x(1) y(1) eqs(1) by (simp add: counter_join_def)
  show "fst (case_prod counter_revert (counter_apply_rev mv x y)) = x"
    unfolding x(1) y(1) eqs(2) by simp
  have "join ds (join ds ss) = join ds ss"
    using x(2) y(2) by (intro csh.combine_absorb) simp_all
  then show "case_prod counter_join (case_prod counter_revert (counter_apply_rev mv x y)) = counter_join x y"
    unfolding x(1) y(1) eqs(2) prod.case
    using join_retry(2) [OF x(2) y(2)] by (cases "mv \<and> shard_key ` set ss \<subseteq> shard_key ` set ds")
      (simp_all only: simp_thms if_True if_False counter_join_def counter_bytes_access ts_max_absorb)
qed

interpretation counter_in_place: reversibly_mergeable counter_join "counter_apply_rev True" counter_revert counter_live
  by (rule counter_reversible)

interpretation counter_copying: reversibly_mergeable counter_join "counter_apply_rev False" counter_revert counter_live
  by (rule counter_reversible)

text \<open>The cells a counter column holds apart from counter updates: live ones and deleted ones.\<close>

definition counter_cell :: "bytes \<Rightarrow> bool" where
  "counter_cell c \<longleftrightarrow> counter_live c \<or> (\<exists>t deleted. c = make_dead t deleted)"

lemma counter_cell_flags:
  assumes "counter_cell c"
  shows "\<not> is_counter_update c" "\<not> is_counter_in_place_revert_set c" "\<not> is_revert_set c" "c \<noteq> []"
    "cell_is_live c \<longleftrightarrow> counter_live c"
  using assms unfolding counter_cell_def
  by (auto simp: counter_live_def make_dead_layout cell_is_live_def is_revert_set_def is_counter_update_def
      is_counter_in_place_revert_set_def flag_test flag_bits counter_flag_bits counter_bytes_def)

lemma counter_apply_dead:
  "\<not> cell_is_live dst \<or> \<not> cell_is_live src \<Longrightarrow> counter_apply_reversibly mv dst src =
     (if cell_is_live dst \<or> \<not> cell_is_live src \<and> compare_atomic_cell_for_merge dst src < 0
      then Some (True, src, dst) else Some (False, dst, src))"
  by (simp add: counter_apply_reversibly_def)

lemma counter_live_retry:
  assumes "counter_live dst" "counter_live src"
  shows "\<exists>dst' src' src''. counter_apply_reversibly mv dst src = Some (True, dst', src') \<and>
    counter_revert_apply dst' src' = Some (dst, src'') \<and> counter_cell src'' \<and>
    (\<forall>mv'. \<exists>src3. counter_apply_reversibly mv' dst src'' = Some (True, dst', src3))"
proof -
  obtain t ds where d: "dst = live_counter t ds" "shards_sorted ds"
    using assms(1) by (rule counter_liveE)
  obtain u ss where s: "src = live_counter u ss" "shards_sorted ss"
    using assms(2) by (rule counter_liveE)
  define rest where "rest = (if mv \<and> shard_key ` set ss \<subseteq> shard_key ` set ds
    then take_from (take_from ss ds) (join ds ss) else join ds ss)"
  have "shards_sorted rest \<and> join ds rest = join ds ss"
    using join_retry [OF d(2) s(2)] csh.sorted_combine [OF d(2) s(2)] csh.combine_absorb [OF d(2) s(2)]
    by (simp add: rest_def)
  then have rest: "shards_sorted rest" "join ds rest = join ds ss" by auto
  have "counter_cell (live_counter (ts_max t u) rest)"
    using rest(1) by (auto simp: counter_cell_def counter_live_def)
  moreover have "\<exists>src3. counter_apply_reversibly mv' dst (live_counter (ts_max t u) rest) =
      Some (True, live_counter (ts_max t u) (join ds ss), src3)" for mv'
    unfolding d(1) counter_apply_eq [OF d(2) rest(1)] by (simp add: rest(2))
  ultimately show ?thesis
    using counter_revert_eq [OF d(2) s(2), of t u mv, folded rest_def]
    unfolding d(1) s(1) counter_apply_eq [OF d(2) s(2)] by blast
qed

section \<open>Convergence\<close>

text \<open>A replica only ever increments its own shard and its logical clock with it, so the clock of a
  shard determines the value it had: \<open>hist\<close> is that history.\<close>

definition coherent :: "(counter_id \<Rightarrow> i64 \<Rightarrow> i64) \<Rightarrow> bytes \<Rightarrow> bool" where
  "coherent hist c \<longleftrightarrow>
     counter_live c \<and> (\<forall>s \<in> set (shards c). shard_value s = hist (shard_id s) (logical_clock s))"

lemma shard_merge_comm:
  assumes "shard_key x = shard_key y" "shard_value x = hist (shard_id x) (logical_clock x)"
    "shard_value y = hist (shard_id y) (logical_clock y)"
  shows "shard_merge x y = shard_merge y x"
proof (cases "logical_clock x = logical_clock y")
  case True
  then have "x = y" using assms by (cases x; cases y) (simp add: shard_key_eq)
  then show ?thesis by simp
next
  case False
  then have "sint (logical_clock x) \<noteq> sint (logical_clock y)" by simp
  then show ?thesis by (simp add: shard_merge_def)
qed

lemma set_join: "set (join xs ys) \<subseteq> set xs \<union> set ys"
proof (induction xs ys rule: combine_induct)
  case (step x xs y ys)
  then show ?case by (auto simp: shard_merge_def)
qed auto

lemma coherentE:
  assumes "coherent hist c"
  obtains t ss where "c = live_counter t ss" "shards_sorted ss"
    "\<And>s. s \<in> set ss \<Longrightarrow> shard_value s = hist (shard_id s) (logical_clock s)"
proof -
  from assms have "counter_live c" by (simp add: coherent_def)
  then obtain t ss where "c = live_counter t ss" "shards_sorted ss" by (rule counter_liveE)
  with assms show thesis by (intro that [of t ss]) (simp_all add: coherent_def)
qed

lemma ts_max_laws: "ts_max a b = ts_max b a" "ts_max (ts_max a b) c = ts_max a (ts_max b c)"
  using linorder_neq_iff [of "sint a" "sint b"] by (auto simp: ts_max_def)

lemma counter_mergeable: "mergeable counter_join (=) (coherent hist)"
proof
  fix x y z assume ok: "coherent hist x" "coherent hist y"
  obtain t xs where x: "x = live_counter t xs" "shards_sorted xs"
    and hx: "\<And>s. s \<in> set xs \<Longrightarrow> shard_value s = hist (shard_id s) (logical_clock s)"
    using ok(1) by (rule coherentE) blast
  obtain u ys where y: "y = live_counter u ys" "shards_sorted ys"
    and hy: "\<And>s. s \<in> set ys \<Longrightarrow> shard_value s = hist (shard_id s) (logical_clock s)"
    using ok(2) by (rule coherentE) blast
  have xy: "shards_sorted (join xs ys)" using x(2) y(2) by (rule csh.sorted_combine)
  show "coherent hist (counter_join x y)"
    using xy set_join [of xs ys] hx hy
    by (auto simp: coherent_def counter_live_def counter_join_def x(1) y(1))
  have "join xs ys = join ys xs"
    using x(2) y(2) hx hy by (intro csh.combine_comm shard_merge_comm)
  then show "counter_join x y = counter_join y x"
    by (simp add: counter_join_def x(1) y(1) ts_max_laws(1))
  assume "coherent hist z"
  then obtain v zs where z: "z = live_counter v zs" "shards_sorted zs"
    by (rule coherentE)
  have "join (join xs ys) zs = join xs (join ys zs)"
    using x(2) y(2) z(2) by (intro csh.combine_assoc) (simp_all add: shard_merge_assoc)
  then show "counter_join (counter_join x y) z = counter_join x (counter_join y z)"
    by (simp add: counter_join_def x(1) y(1) z(1) ts_max_laws(2))
next
  fix x assume "coherent hist x"
  then obtain t xs where x: "x = live_counter t xs" "shards_sorted xs"
    by (rule coherentE)
  have "join xs xs = xs"
    using x(2) by (intro csh.combine_eqI) (auto simp: combine_options_def split: option.split)
  then show "counter_join x x = x" by (simp add: counter_join_def x(1))
qed simp_all

section \<open>Difference\<close>

definition newer_than :: "counter_shard list \<Rightarrow> counter_shard \<Rightarrow> bool" where
  "newer_than bs a \<longleftrightarrow>
     (case key_find shard_key bs (shard_key a) of None \<Rightarrow> True
      | Some b \<Rightarrow> sint (logical_clock a) > sint (logical_clock b))"

lemma difference_loop_eq:
  "shards_sorted as \<Longrightarrow> shards_sorted bs \<Longrightarrow>
   builder_shards (difference_loop as bs res) = builder_shards res @ filter (newer_than bs) as"
proof (induction as bs res rule: difference_loop.induct)
  case (2 a as b bs res)
  consider (less) "shard_key b < shard_key a" | (same) "shard_key a = shard_key b"
    | (greater) "shard_key a < shard_key b" by (metis linorder_neqE)
  then show ?case
  proof cases
    case less
    then have *: "newer_than (b # bs) x = newer_than bs x" if "x \<in> set (a # as)" for x
      using that "2.prems"(1) by (auto simp: newer_than_def)
    have "filter (newer_than (b # bs)) (a # as) = filter (newer_than bs) (a # as)"
      by (intro filter_cong refl *)
    then show ?thesis using less "2.IH"(1) "2.prems" by (simp add: cid_less_key)
  next
    case same
    then have "newer_than (b # bs) a \<longleftrightarrow> sint (logical_clock a) > sint (logical_clock b)"
      by (simp add: newer_than_def)
    then show ?thesis using same "2.IH"(2,3) "2.prems"
      by (simp add: cid_less_key shard_key_eq [symmetric] add_shard_def)
  next
    case greater
    have "newer_than (b # bs) a"
      using greater sorted_by_key_find_less [OF "2.prems"(2), of "shard_key a"]
      by (auto simp: newer_than_def)
    moreover have "\<not> shard_key b < shard_key a" "shard_key a \<noteq> shard_key b" using greater by auto
    ultimately show ?thesis using "2.IH"(2) "2.prems"
      by (simp add: cid_less_key shard_key_eq [symmetric] add_shard_def)
  qed
next
  case (3 a as res)
  then show ?case by (simp add: newer_than_def add_shard_def)
qed simp

lemma join_difference:
  assumes "shards_sorted as" "shards_sorted bs"
  shows "shards_sorted (filter (newer_than bs) as)" "join bs (filter (newer_than bs) as) = join bs as"
proof -
  show s: "shards_sorted (filter (newer_than bs) as)" using assms(1) by (rule sorted_wrt_filter)
  show "join bs (filter (newer_than bs) as) = join bs as"
  proof (rule csh.combine_eqI [OF assms(2) s])
    fix k
    show "combine_options shard_merge (key_find shard_key bs k) (key_find shard_key (filter (newer_than bs) as) k)
        = key_find shard_key (join bs as) k"
    proof (cases "key_find shard_key as k")
      case None
      then show ?thesis using assms by (simp add: csh.key_find_combine key_find_filter)
    next
      case (Some a)
      have "shard_key a = k" using Some by (rule key_find_Some_key)
      with Some assms show ?thesis
        by (cases "key_find shard_key bs k")
          (simp_all add: csh.key_find_combine key_find_filter newer_than_def shard_merge_def)
    qed
  qed (simp add: assms csh.sorted_combine)
qed

section \<open>Properties\<close>

text \<open>C20. The in-place fast path of a counter merge computes what the copying slow path computes:
  for any two live counter cells, whether or not the cells allow in-place modification, the merge
  succeeds (no iterator leaves its range, no assertion fails) and leaves in \<open>dst\<close> the later
  timestamp and, for every counter id, the shard with the higher logical clock.\<close>

theorem counter_merge_paths_agree:
  assumes "counter_live dst" "counter_live src"
  shows "(\<exists>src'. counter_apply_reversibly mv dst src = Some (True, counter_join dst src, src')) \<and>
    shards (counter_join dst src) = combine shard_less shard_merge (shards dst) (shards src) \<and>
    cell_timestamp (counter_join dst src) = ts_max (cell_timestamp dst) (cell_timestamp src)"
proof -
  obtain t ds where d: "dst = live_counter t ds" "shards_sorted ds"
    using assms(1) by (rule counter_liveE)
  obtain u ss where s: "src = live_counter u ss" "shards_sorted ss"
    using assms(2) by (rule counter_liveE)
  have "\<exists>src'. counter_apply_reversibly mv dst src = Some (True, counter_join dst src, src')"
    unfolding d(1) s(1) counter_apply_eq [OF d(2) s(2)] by (simp add: counter_join_def)
  then show ?thesis by (simp add: counter_join_def)
qed

definition example_shard :: "i64 \<Rightarrow> i64 \<Rightarrow> i64 \<Rightarrow> counter_shard" where
  "example_shard i v c =
     \<lparr>shard_id = \<lparr>least_significant = i, most_significant = 0\<rparr>, shard_value = v, logical_clock = c\<rparr>"

lemma example_counter_live: "i < j \<Longrightarrow> counter_live (live_counter t [example_shard i v c, example_shard j w d])"
  unfolding counter_live_def
  by (intro exI conjI, rule refl)
    (simp add: example_shard_def shard_key_def to_uuid_def uuid_key_def)

theorem counter_merge_paths_agree_witness:
  "shards (counter_join (live_counter 5 [example_shard 1 10 1, example_shard 2 20 7])
      (live_counter 6 [example_shard 1 11 2, example_shard 2 21 3]))
   = [example_shard 1 11 2, example_shard 2 20 7]"
  using counter_merge_paths_agree [OF example_counter_live [of 1 2] example_counter_live [of 1 2]]
  by (simp add: shard_less_def cid_less_def uuid_less_def to_uuid_def shard_merge_def example_shard_def)

text \<open>C21. A reverted counter merge is as if it had not happened. For counter cells, live or deleted (counter
  updates are left out: \<open>counter_update_revert_not_inverse\<close> below), \<open>apply_reversibly\<close> is defined. When it
  reports a change, \<open>revert_apply\<close> gives back the old destination byte for byte, and applying what is left in
  the source once more, by either path, gives the destination of the first merge. When it reports no change,
  both cells are as they were.\<close>

theorem counter_revert_restores:
  assumes "counter_cell dst" "counter_cell src"
  shows "\<exists>modified dst' src'. counter_apply_reversibly mv dst src = Some (modified, dst', src') \<and>
    (if modified
     then \<exists>src''. counter_revert_apply dst' src' = Some (dst, src'') \<and> counter_cell src'' \<and>
       (\<forall>mv'. \<exists>src3. counter_apply_reversibly mv' dst src'' = Some (True, dst', src3))
     else dst' = dst \<and> src' = src)"
proof (cases "counter_live dst \<and> counter_live src")
  case True
  then show ?thesis using counter_live_retry [of dst src mv] by auto
next
  case False
  then have dead: "\<not> cell_is_live dst \<or> \<not> cell_is_live src" using assms by (auto simp: counter_cell_def)
  then show ?thesis
    using assms by (auto simp: counter_apply_dead counter_revert_apply_def counter_cell_flags)
qed

theorem counter_revert_restores_witness:
  "\<exists>dst' src' src''.
     counter_apply_reversibly True (live_counter 5 [example_shard 1 10 1, example_shard 2 20 7])
       (live_counter 6 [example_shard 1 11 2, example_shard 2 21 3]) = Some (True, dst', src') \<and>
     counter_revert_apply dst' src' = Some (live_counter 5 [example_shard 1 10 1, example_shard 2 20 7], src'')"
proof -
  let ?d = "live_counter 5 [example_shard 1 10 1, example_shard 2 20 7]"
    and ?s = "live_counter 6 [example_shard 1 11 2, example_shard 2 21 3]"
  have live: "counter_live ?d" "counter_live ?s" by (simp_all add: example_counter_live)
  then obtain dst' src' where a: "counter_apply_reversibly True ?d ?s = Some (True, dst', src')"
    unfolding counter_live_def by (auto simp: counter_apply_eq)
  have "counter_cell ?d" "counter_cell ?s" using live by (simp_all add: counter_cell_def)
  from counter_revert_restores [OF this, of True] a show ?thesis by auto
qed

text \<open>C23. Replicas converge: when every shard value is determined by its id and logical clock,
  applying the same counter cells in any order, with any mix of the two merge paths, yields the
  same cell, byte for byte.\<close>

theorem counter_replicas_converge:
  assumes "coherent hist s" "\<forall>x \<in> set xs. coherent hist x" "mset xs = mset ys"
  shows "foldl counter_join s xs = foldl counter_join s ys"
  using mergeable.fold_merge_perm [OF counter_mergeable, of hist s xs ys] assms by simp

theorem counter_replicas_converge_witness:
  "foldl counter_join (live_counter 1 [])
     [live_counter 5 [example_shard 1 10 10, example_shard 2 20 20],
      live_counter 6 [example_shard 1 12 12, example_shard 3 7 7]]
   = foldl counter_join (live_counter 1 [])
     [live_counter 6 [example_shard 1 12 12, example_shard 3 7 7],
      live_counter 5 [example_shard 1 10 10, example_shard 2 20 20]]"
proof -
  have "coherent (\<lambda>i c. c) (live_counter t [example_shard i v v, example_shard j w w])" if "i < j" for t i j v w
    using example_counter_live [OF that] by (simp add: coherent_def) (simp add: example_shard_def)
  moreover have "coherent (\<lambda>i c. c) (live_counter 1 [])"
    unfolding coherent_def counter_live_def by (intro conjI exI, rule refl) simp_all
  ultimately show ?thesis by (intro counter_replicas_converge [of "\<lambda>i c. c"]) auto
qed

text \<open>C35. \<open>counter_cell_view::difference\<close> keeps its promise for live cells: applying the
  difference of \<open>a\<close> and \<open>b\<close> to \<open>b\<close> gives the same cell as applying \<open>a\<close> to \<open>b\<close>, and when there is no
  difference \<open>a\<close> adds nothing to \<open>b\<close>.\<close>

theorem counter_difference_complete:
  assumes "counter_live a" "counter_live b"
  shows "\<exists>diff. counter_difference a b = Some diff \<and>
    counter_join b a = (case diff of None \<Rightarrow> b | Some d \<Rightarrow> counter_join b d)"
proof -
  obtain t as where a: "a = live_counter t as" "shards_sorted as"
    using assms(1) by (rule counter_liveE)
  obtain u bs where b: "b = live_counter u bs" "shards_sorted bs"
    using assms(2) by (rule counter_liveE)
  let ?ds = "filter (newer_than bs) as"
  have loop: "builder_shards (difference_loop as bs builder_empty) = ?ds"
    using difference_loop_eq [OF a(2) b(2), of builder_empty] by (simp add: builder_empty_def)
  have j: "join bs ?ds = join bs as" using a(2) b(2) by (rule join_difference(2))
  have ts: "ts_max u (ts_max t u) = ts_max u t" by (auto simp: ts_max_def)
  have empty: "make_live t [] = live_counter t []" by (simp add: make_live_layout counter_bytes_def)
  show ?thesis
  proof (cases "?ds = []")
    case True
    then have "join bs as = bs" using j by simp
    with True show ?thesis
      by (auto simp: counter_difference_def a(1) b(1) loop counter_join_def empty ts_max_def)
  next
    case False
    then show ?thesis
      by (auto simp: counter_difference_def a(1) b(1) loop counter_join_def builder_build_def
          make_live_counter_bytes j ts)
  qed
qed

theorem counter_difference_complete_witness:
  "\<exists>diff. counter_difference (live_counter 5 [example_shard 1 10 10, example_shard 2 20 20])
      (live_counter 6 [example_shard 1 12 12, example_shard 3 7 7]) = Some diff"
  using counter_difference_complete [OF example_counter_live [of 1 2 5 10 10 20 20]
      example_counter_live [of 1 3 6 12 12 7 7]] by auto

text \<open>Reverting the merge of two counter updates does not give the old cell back: the cell is
  rebuilt without the counter-update flag and with the later of the two timestamps.\<close>

lemma counter_update_revert_not_inverse:
  "\<exists>dst src dst' src' dst'' src''.
     is_counter_update dst \<and> is_counter_update src \<and>
     counter_apply_reversibly mv dst src = Some (True, dst', src') \<and>
     counter_revert_apply dst' src' = Some (dst'', src'') \<and>
     \<not> is_counter_update dst'' \<and> cell_timestamp dst'' \<noteq> cell_timestamp dst"
proof (intro exI conjI)
  let ?d = "make_live_counter_update 5 1" and ?s = "make_live_counter_update 6 2"
  show "counter_apply_reversibly mv ?d ?s = Some (True, make_live_counter_update 6 3, ?s)"
    by (simp add: counter_apply_reversibly_def ts_max_def)
  show "counter_revert_apply (make_live_counter_update 6 3) ?s = Some (make_live 6 (hton 8 (1 :: i64)), ?s)"
    by (simp add: counter_revert_apply_def)
qed simp_all

end
