(* ===== verification/Collections.thy ===== *)
theory Collections
  imports Atomic_Cell Combine "HOL-Library.Sublist"
begin

text \<open>
  Collections of a non-frozen collection column: the serialized mutation form, its parser with the
  exceptions it raises, and the operations on it (\<open>collection_type_impl\<close> in
  \<open>src/Scylla-moon/types.cc\<close>, \<open>types.hh\<close>). The order of the keys is the comparator of the key type
  (\<open>name_comparator()\<close>), an argument of the operations.

  A thrown \<open>marshal_exception\<close>, a failed \<open>assert\<close>, a failed allocation and an out-of-range access are the values of \<open>error\<close>.
\<close>

section \<open>Readers\<close>

datatype error = Marshal_exception | Assertion_failed | Bad_alloc | Out_of_range

definition and_then :: "error + 'a \<Rightarrow> ('a \<Rightarrow> error + 'b) \<Rightarrow> error + 'b" where
  "and_then r f = (case r of Inl e \<Rightarrow> Inl e | Inr x \<Rightarrow> f x)"

lemma and_then_simps [simp]: "and_then (Inl e) f = Inl e" "and_then (Inr x) f = f x"
  by (simp_all add: and_then_def)

definition read_simple :: "nat \<Rightarrow> bytes \<Rightarrow> error + ('a::len word \<times> bytes)" where
  "read_simple n v = (if length v < n then Inl Marshal_exception else Inr (ntoh (take n v), drop n v))"

definition read_simple_bytes :: "nat \<Rightarrow> bytes \<Rightarrow> error + (bytes \<times> bytes)" where
  "read_simple_bytes n v = (if length v < n then Inl Marshal_exception else Inr (take n v, drop n v))"

definition read_bool :: "bytes \<Rightarrow> error + (bool \<times> bytes)" where
  "read_bool v = and_then (read_simple 1 v) (\<lambda>(b :: u8, v). Inr (b \<noteq> 0, v))"

section \<open>The mutation form\<close>

record coll_mutation =
  coll_tomb :: tombstone
  coll_cells :: "(bytes \<times> bytes) list"

definition read_tomb :: "bytes \<Rightarrow> error + (tombstone \<times> bytes)" where
  "read_tomb v = and_then (read_bool v) (\<lambda>(has_tomb, v).
     if has_tomb
     then and_then (read_simple 8 v) (\<lambda>(ts :: i64, v).
          and_then (read_simple 4 v) (\<lambda>(ttl :: i32, v).
          Inr (Tombstone ts ttl, v)))
     else Inr (tombstone_none, v))"

definition read_blob :: "bytes \<Rightarrow> error + (bytes \<times> bytes)" where
  "read_blob v = and_then (read_simple 4 v) (\<lambda>(size :: u32, v). read_simple_bytes (unat size) v)"

definition read_element :: "bytes \<Rightarrow> error + ((bytes \<times> bytes) \<times> bytes)" where
  "read_element v = and_then (read_blob v) (\<lambda>(key, v).
     and_then (read_blob v) (\<lambda>(val, v). Inr ((key, val), v)))"

fun read_elements :: "nat \<Rightarrow> bytes \<Rightarrow> error + ((bytes \<times> bytes) list \<times> bytes)" where
  "read_elements 0 v = Inr ([], v)"
| "read_elements (Suc nr) v = and_then (read_element v) (\<lambda>(e, v).
     and_then (read_elements nr v) (\<lambda>(es, v). Inr (e # es, v)))"

definition deserialize_mutation_form :: "bytes \<Rightarrow> error + coll_mutation" where
  "deserialize_mutation_form v = and_then (read_tomb v) (\<lambda>(t, v).
     and_then (read_simple 4 v) (\<lambda>(nr :: u32, v).
     and_then (read_elements (unat nr) v) (\<lambda>(es, v).
     if v = [] then Inr \<lparr>coll_tomb = t, coll_cells = es\<rparr> else Inl Assertion_failed)))"

definition coll_is_empty :: "bytes \<Rightarrow> error + bool" where
  "coll_is_empty v = and_then (read_bool v) (\<lambda>(has_tomb, v).
     if has_tomb then Inr False
     else and_then (read_simple 4 v) (\<lambda>(nr :: u32, v). Inr (nr = 0)))"

text \<open>\<open>is_any_live\<close> and \<open>last_update\<close> walk the serialized elements; they skip a key with \<open>remove_prefix\<close>, which is
  undefined behaviour past the end: no exception, but the value \<open>Assertion_failed\<close>.\<close>

definition skip_key :: "bytes \<Rightarrow> error + bytes" where
  "skip_key v = and_then (read_simple 4 v) (\<lambda>(ksize :: u32, v).
     if length v < unat ksize then Inl Assertion_failed else Inr (drop (unat ksize) v))"

fun any_live_loop :: "tombstone \<Rightarrow> i32 \<Rightarrow> nat \<Rightarrow> bytes \<Rightarrow> error + bool" where
  "any_live_loop t now 0 v = Inr False"
| "any_live_loop t now (Suc nr) v = and_then (skip_key v) (\<lambda>v. and_then (read_blob v) (\<lambda>(val, v).
     if cell_is_live_at val t now False then Inr True else any_live_loop t now nr v))"

definition coll_is_any_live :: "bytes \<Rightarrow> tombstone \<Rightarrow> i32 \<Rightarrow> error + bool" where
  "coll_is_any_live v t0 now = and_then (read_tomb v) (\<lambda>(t, v).
     and_then (read_simple 4 v) (\<lambda>(nr :: u32, v). any_live_loop (tomb_apply t0 t) now (unat nr) v))"

fun last_update_loop :: "i64 \<Rightarrow> nat \<Rightarrow> bytes \<Rightarrow> error + i64" where
  "last_update_loop mx 0 v = Inr mx"
| "last_update_loop mx (Suc nr) v = and_then (skip_key v) (\<lambda>v. and_then (read_blob v) (\<lambda>(val, v).
     last_update_loop (if sint (cell_timestamp val) < sint mx then mx else cell_timestamp val) nr v))"

definition coll_last_update :: "bytes \<Rightarrow> error + i64" where
  "coll_last_update v = and_then (read_tomb v) (\<lambda>(t, v).
     and_then (read_simple 4 v) (\<lambda>(nr :: u32, v). last_update_loop (timestamp t) (unat nr) v))"

text \<open>Serialization; sizes and the element count are written as 32-bit integers.\<close>

definition write_blob :: "bytes \<Rightarrow> bytes" where
  "write_blob v = hton 4 (of_nat (length v) :: u32) @ v"

definition write_element :: "bytes \<times> bytes \<Rightarrow> bytes" where
  "write_element e = write_blob (fst e) @ write_blob (snd e)"

definition write_tomb :: "tombstone \<Rightarrow> bytes" where
  "write_tomb t =
     (if tomb_present t then 1 # hton 8 (timestamp t) @ hton 4 (deletion_time t) else [0])"

definition serialize_mutation_form :: "coll_mutation \<Rightarrow> bytes" where
  "serialize_mutation_form m =
     write_tomb (coll_tomb m) @ hton 4 (of_nat (length (coll_cells m)) :: u32)
     @ concat (map write_element (coll_cells m))"

definition serialize_mutation_form_only_live :: "coll_mutation \<Rightarrow> i32 \<Rightarrow> bytes" where
  "serialize_mutation_form_only_live m now =
     serialize_mutation_form
       (m\<lparr>coll_cells := filter (\<lambda>e. cell_is_live_at (snd e) (coll_tomb m) now False) (coll_cells m)\<rparr>)"

section \<open>Compaction, merge and difference\<close>

definition coll_cannot_erase :: "(tombstone \<Rightarrow> bool) \<Rightarrow> i32 \<Rightarrow> bytes \<Rightarrow> bool" where
  "coll_cannot_erase can_gc gc_before c \<longleftrightarrow>
     sint (cell_deletion_time c) \<ge> sint gc_before
     \<or> \<not> can_gc (Tombstone (cell_timestamp c) (cell_deletion_time c))"

fun coll_survivors :: "tombstone \<Rightarrow> row_tombstone \<Rightarrow> i32 \<Rightarrow> (tombstone \<Rightarrow> bool) \<Rightarrow> i32 \<Rightarrow>
    (bytes \<times> bytes) list \<Rightarrow> bool \<times> (bytes \<times> bytes) list" where
  "coll_survivors t base query_time can_gc gc_before [] = (False, [])"
| "coll_survivors t base query_time can_gc gc_before ((name, c) # rest) =
     (let (any_live, survivors) = coll_survivors t base query_time can_gc gc_before rest in
      if is_covered_by c t False then (any_live, survivors)
      else if has_expired c query_time
      then (any_live, if coll_cannot_erase can_gc gc_before c
                      then (name, make_dead (cell_timestamp c) (cell_deletion_time c)) # survivors
                      else survivors)
      else if \<not> cell_is_live c
      then (any_live, if coll_cannot_erase can_gc gc_before c then (name, c) # survivors else survivors)
      else if \<not> is_covered_by c (tomb (shadowable base)) False
      then (True, (name, c) # survivors)
      else (any_live, survivors))"

definition coll_compact_and_expire :: "coll_mutation \<Rightarrow> row_tombstone \<Rightarrow> i32 \<Rightarrow> (tombstone \<Rightarrow> bool) \<Rightarrow>
    i32 \<Rightarrow> bool \<times> coll_mutation" where
  "coll_compact_and_expire m base query_time can_gc gc_before =
     (let t = tomb_apply (coll_tomb m) (regular base);
          (any_live, survivors) = coll_survivors t base query_time can_gc gc_before (coll_cells m)
      in (any_live,
          \<lparr>coll_tomb = (if sint (deletion_time t) < sint gc_before \<and> can_gc t
                        then tombstone_none else t),
           coll_cells = survivors\<rparr>))"

definition cell_killed :: "tombstone \<Rightarrow> bytes \<times> bytes \<Rightarrow> bool" where
  "cell_killed t e \<longleftrightarrow> \<not> sint (timestamp t) < sint (cell_timestamp (snd e))"

definition merge_element :: "bytes \<times> bytes \<Rightarrow> bytes \<times> bytes \<Rightarrow> bytes \<times> bytes" where
  "merge_element e1 e2 =
     (fst e1, if compare_atomic_cell_for_merge (snd e1) (snd e2) > 0 then snd e1 else snd e2)"

definition merge_views :: "(bytes \<Rightarrow> bytes \<Rightarrow> bool) \<Rightarrow> coll_mutation \<Rightarrow> coll_mutation \<Rightarrow> coll_mutation" where
  "merge_views key_less aa bb =
     \<lparr>coll_tomb = max (coll_tomb aa) (coll_tomb bb),
      coll_cells = combine (\<lambda>e1 e2. key_less (fst e1) (fst e2)) merge_element
        (filter (\<lambda>e. \<not> cell_killed (coll_tomb bb) e) (coll_cells aa))
        (filter (\<lambda>e. \<not> cell_killed (coll_tomb aa) e) (coll_cells bb))\<rparr>"

definition coll_merge :: "(bytes \<Rightarrow> bytes \<Rightarrow> bool) \<Rightarrow> bytes \<Rightarrow> bytes \<Rightarrow> error + bytes" where
  "coll_merge key_less a b =
     and_then (deserialize_mutation_form a) (\<lambda>aa.
     and_then (deserialize_mutation_form b) (\<lambda>bb.
     Inr (serialize_mutation_form (merge_views key_less aa bb))))"

fun coll_difference_loop :: "(bytes \<Rightarrow> bytes \<Rightarrow> bool) \<Rightarrow> (bytes \<Rightarrow> bytes \<Rightarrow> bool) \<Rightarrow>
    (bytes \<times> bytes) list \<Rightarrow> (bytes \<times> bytes) list \<Rightarrow> (bytes \<times> bytes) list" where
  "coll_difference_loop key_less key_equal [] bs = []"
| "coll_difference_loop key_less key_equal (c # as) [] =
     c # coll_difference_loop key_less key_equal as []"
| "coll_difference_loop key_less key_equal (c # as) (it # bs) =
     (if key_less (fst it) (fst c) then coll_difference_loop key_less key_equal (c # as) bs
      else if \<not> key_equal (fst it) (fst c) \<or> compare_atomic_cell_for_merge (snd c) (snd it) > 0
      then c # coll_difference_loop key_less key_equal as (it # bs)
      else coll_difference_loop key_less key_equal as (it # bs))"

definition difference_views :: "(bytes \<Rightarrow> bytes \<Rightarrow> bool) \<Rightarrow> (bytes \<Rightarrow> bytes \<Rightarrow> bool) \<Rightarrow>
    coll_mutation \<Rightarrow> coll_mutation \<Rightarrow> coll_mutation" where
  "difference_views key_less key_equal aa bb =
     \<lparr>coll_tomb = (if coll_tomb aa > coll_tomb bb then coll_tomb aa else tombstone_none),
      coll_cells = coll_difference_loop key_less key_equal (coll_cells aa) (coll_cells bb)\<rparr>"

definition coll_difference :: "(bytes \<Rightarrow> bytes \<Rightarrow> bool) \<Rightarrow> (bytes \<Rightarrow> bytes \<Rightarrow> bool) \<Rightarrow>
    bytes \<Rightarrow> bytes \<Rightarrow> error + bytes" where
  "coll_difference key_less key_equal a b =
     and_then (deserialize_mutation_form a) (\<lambda>aa.
     and_then (deserialize_mutation_form b) (\<lambda>bb.
     Inr (serialize_mutation_form (difference_views key_less key_equal aa bb))))"

section \<open>Parsing\<close>

text \<open>A reader \<open>P\<close> parses an encoding \<open>enc\<close> to \<open>x\<close>: from any input that starts with \<open>enc\<close> it
  returns \<open>x\<close> and the rest, and an input cut short inside \<open>enc\<close> raises \<open>marshal_exception\<close>.\<close>

definition parses :: "(bytes \<Rightarrow> error + ('a \<times> bytes)) \<Rightarrow> bytes \<Rightarrow> 'a \<Rightarrow> bool" where
  "parses P enc x \<longleftrightarrow> (\<forall>rest. P (enc @ rest) = Inr (x, rest)) \<and>
     (\<forall>p. strict_prefix p enc \<longrightarrow> P p = Inl Marshal_exception)"

lemma parsesD:
  "parses P enc x \<Longrightarrow> P (enc @ rest) = Inr (x, rest)"
  "parses P enc x \<Longrightarrow> strict_prefix p enc \<Longrightarrow> P p = Inl Marshal_exception"
  by (simp_all add: parses_def)

lemma strict_prefix_append_cases:
  assumes "strict_prefix p (a @ b)"
  obtains "strict_prefix p a" | q where "p = a @ q" "strict_prefix q b"
proof (cases "strict_prefix p a")
  case False
  with assms obtain q where "p = a @ q" "prefix q b"
    unfolding strict_prefix_def prefix_append by (metis append_Nil2 Nil_prefix)
  with assms have "strict_prefix q b" by (auto simp: strict_prefix_def)
  with \<open>p = a @ q\<close> show thesis by (rule that(2))
qed (rule that(1))

lemma parses_seq:
  assumes "parses P e1 x" "parses (Q x) e2 y"
  shows "parses (\<lambda>v. and_then (P v) (\<lambda>(x, v). Q x v)) (e1 @ e2) y"
  unfolding parses_def
proof (intro conjI allI impI)
  fix rest show "and_then (P ((e1 @ e2) @ rest)) (\<lambda>(x, v). Q x v) = Inr (y, rest)"
    using parsesD(1) [OF assms(1)] parsesD(1) [OF assms(2)] by simp
next
  fix p assume "strict_prefix p (e1 @ e2)"
  then show "and_then (P p) (\<lambda>(x, v). Q x v) = Inl Marshal_exception"
    using parsesD [OF assms(1)] parsesD [OF assms(2)] by (cases rule: strict_prefix_append_cases) auto
qed

lemma parses_return: "parses (\<lambda>v. Inr (x, v)) [] x"
  by (simp add: parses_def)

lemma parses_map:
  "parses P enc x \<Longrightarrow> parses (\<lambda>v. and_then (P v) (\<lambda>(x, v). Inr (f x, v))) enc (f x)"
  using parses_seq [of P enc x "\<lambda>x v. Inr (f x, v)" "[]" "f x"] parses_return [of "f x"] by simp

lemma strict_prefix_length: "strict_prefix p enc \<Longrightarrow> length p < length enc"
  by (rule prefix_length_less)

lemma parses_read_simple:
  "length enc = n \<Longrightarrow> ntoh enc = w \<Longrightarrow> parses (read_simple n) enc w"
  by (auto simp: parses_def read_simple_def dest: strict_prefix_length)

lemma parses_int64: "parses (read_simple 8) (hton 8 w) (w :: i64)"
  and parses_int32: "parses (read_simple 4) (hton 4 x) (x :: i32)"
  by (rule parses_read_simple; simp)+

lemma parses_bool: "parses read_bool [if b then 1 else 0] b"
  unfolding read_bool_def
  using parses_map [OF parses_read_simple [of "[if b then 1 else 0]" 1 "if b then 1 else 0 :: u8"],
      of "\<lambda>b. b \<noteq> 0"]
  by (simp add: ntoh_def split: if_splits)

definition tomb_normal :: "tombstone \<Rightarrow> bool" where
  "tomb_normal t \<longleftrightarrow> tomb_present t \<or> t = tombstone_none"

lemma parses_tomb:
  assumes "tomb_normal t"
  shows "parses read_tomb (write_tomb t) t"
proof -
  let ?ts = "timestamp t" and ?del = "deletion_time t"
  have "parses (\<lambda>v. and_then (read_simple 8 v) (\<lambda>(ts :: i64, v).
      and_then (read_simple 4 v) (\<lambda>(ttl :: i32, v). Inr (Tombstone ts ttl, v))))
      (hton 8 ?ts @ hton 4 ?del) (Tombstone ?ts ?del)"
    by (rule parses_seq [OF parses_int64]) (rule parses_map [OF parses_int32])
  then have "parses read_tomb ([if True then 1 else 0] @ hton 8 ?ts @ hton 4 ?del) t"
    unfolding read_tomb_def by (intro parses_seq [OF parses_bool]) simp
  moreover have "parses read_tomb ([if False then 1 else 0] @ []) tombstone_none"
    unfolding read_tomb_def by (rule parses_seq [OF parses_bool]) (simp add: parses_return)
  ultimately show ?thesis
    using assms by (auto simp: tomb_normal_def write_tomb_def)
qed

lemma unat_of_nat_32: "n < 2 ^ 32 \<Longrightarrow> unat (of_nat n :: u32) = n"
  by (simp add: unat_of_nat)

lemma parses_blob:
  assumes "length b < 2 ^ 32"
  shows "parses read_blob (write_blob b) b"
proof -
  have "parses (read_simple_bytes (unat (of_nat (length b) :: u32))) b b"
    by (auto simp: parses_def read_simple_bytes_def unat_of_nat_32 [OF assms] dest: strict_prefix_length)
  then show ?thesis unfolding read_blob_def write_blob_def by (rule parses_seq [OF parses_int32])
qed

definition small_element :: "bytes \<times> bytes \<Rightarrow> bool" where
  "small_element e \<longleftrightarrow> length (fst e) < 2 ^ 32 \<and> length (snd e) < 2 ^ 32"

lemma parses_element:
  assumes "small_element e"
  shows "parses read_element (write_element e) e"
proof -
  have k: "parses read_blob (write_blob (fst e)) (fst e)" and v: "parses read_blob (write_blob (snd e)) (snd e)"
    using assms by (simp_all add: small_element_def parses_blob)
  have "parses read_element (write_element e) (fst e, snd e)"
    unfolding read_element_def write_element_def
    by (rule parses_seq [OF k]) (rule parses_map [OF v])
  then show ?thesis by simp
qed

lemma parses_elements:
  "(\<And>e. e \<in> set es \<Longrightarrow> small_element e) \<Longrightarrow>
   parses (read_elements (length es)) (concat (map write_element es)) es"
proof (induction es)
  case Nil
  then show ?case by (simp add: parses_def)
next
  case (Cons e es)
  then have e: "parses read_element (write_element e) e"
    and es: "parses (read_elements (length es)) (concat (map write_element es)) es"
    by (simp_all add: parses_element)
  have "parses (\<lambda>v. and_then (read_element v) (\<lambda>(e, v).
      and_then (read_elements (length es) v) (\<lambda>(es, v). Inr (e # es, v))))
      (write_element e @ concat (map write_element es)) (e # es)"
    by (rule parses_seq [OF e]) (rule parses_map [OF es])
  then show ?case by simp
qed

text \<open>The collections that the 32-bit sizes of the format can express.\<close>

definition coll_ok :: "coll_mutation \<Rightarrow> bool" where
  "coll_ok m \<longleftrightarrow> tomb_normal (coll_tomb m) \<and> length (coll_cells m) < 2 ^ 32 \<and>
     (\<forall>e \<in> set (coll_cells m). small_element e)"

definition read_mutation :: "bytes \<Rightarrow> error + (coll_mutation \<times> bytes)" where
  "read_mutation v = and_then (read_tomb v) (\<lambda>(t, v).
     and_then (read_simple 4 v) (\<lambda>(nr :: u32, v).
     and_then (read_elements (unat nr) v) (\<lambda>(es, v). Inr (\<lparr>coll_tomb = t, coll_cells = es\<rparr>, v))))"

lemma parses_mutation:
  assumes "coll_ok m"
  shows "parses read_mutation (serialize_mutation_form m) m"
proof -
  have tb: "parses read_tomb (write_tomb (coll_tomb m)) (coll_tomb m)"
    and es: "parses (read_elements (unat (of_nat (length (coll_cells m)) :: u32)))
      (concat (map write_element (coll_cells m))) (coll_cells m)"
    using assms by (simp_all add: coll_ok_def parses_tomb parses_elements unat_of_nat_32)
  have "parses read_mutation (serialize_mutation_form m)
      \<lparr>coll_tomb = coll_tomb m, coll_cells = coll_cells m\<rparr>"
    unfolding read_mutation_def serialize_mutation_form_def
    by (rule parses_seq [OF tb], rule parses_seq [OF parses_int32]) (rule parses_map [OF es])
  then show ?thesis by (cases m) simp
qed

lemma deserialize_read_mutation:
  "deserialize_mutation_form v =
     and_then (read_mutation v) (\<lambda>(m, v). if v = [] then Inr m else Inl Assertion_failed)"
  by (auto simp: deserialize_mutation_form_def read_mutation_def and_then_def split: sum.splits prod.splits)

lemma deserialize_serialize:
  "coll_ok m \<Longrightarrow> deserialize_mutation_form (serialize_mutation_form m) = Inr m"
  using parsesD(1) [OF parses_mutation, of m "[]"] by (simp add: deserialize_read_mutation)

section \<open>Key types\<close>

text \<open>What the operations rely on: the key type orders the valid serialized keys linearly, by some
  \<open>key\<close> value.\<close>

locale name_comparator =
  fixes key_less :: "bytes \<Rightarrow> bytes \<Rightarrow> bool"
    and key_equal :: "bytes \<Rightarrow> bytes \<Rightarrow> bool"
    and key :: "bytes \<Rightarrow> 'k::linorder"
    and valid :: "bytes \<Rightarrow> bool"
  assumes key_less_iff: "valid a \<Longrightarrow> valid b \<Longrightarrow> key_less a b \<longleftrightarrow> key a < key b"
    and key_equal_iff: "valid a \<Longrightarrow> valid b \<Longrightarrow> key_equal a b \<longleftrightarrow> key a = key b"

text \<open>Two key types of \<open>types.cc\<close>: blobs, compared bytewise, and 32-bit integers
  (\<open>simple_type_impl<int32_t>\<close>, where the empty value comes first).\<close>

definition blob_less :: "bytes \<Rightarrow> bytes \<Rightarrow> bool" where
  "blob_less v1 v2 \<longleftrightarrow> compare_unsigned v1 v2 < 0"

definition type_equal :: "bytes \<Rightarrow> bytes \<Rightarrow> bool" where
  "type_equal v1 v2 \<longleftrightarrow> compare_unsigned v1 v2 = 0"

definition int32_compare :: "bytes \<Rightarrow> bytes \<Rightarrow> int" where
  "int32_compare v1 v2 =
     (if v1 = [] then (if v2 = [] then 0 else -1)
      else if v2 = [] then 1
      else let a = sint (ntoh v1 :: i32); b = sint (ntoh v2 :: i32) in
           if a = b then 0 else if a < b then -1 else 1)"

definition int32_less :: "bytes \<Rightarrow> bytes \<Rightarrow> bool" where
  "int32_less v1 v2 \<longleftrightarrow> int32_compare v1 v2 < 0"

definition int32_validate :: "bytes \<Rightarrow> error + unit" where
  "int32_validate v = (if length v \<noteq> 0 \<and> length v \<noteq> 4 then Inl Marshal_exception else Inr ())"

text \<open>Reading a big-endian integer of a fixed size is injective.\<close>

abbreviation be_value :: "bytes \<Rightarrow> int" where
  "be_value bs \<equiv> foldl (\<lambda>acc b. acc * 256 + uint b) 0 bs"

lemma be_value_Cons: "be_value (b # bs) = uint b * 256 ^ length bs + be_value bs"
  using foldl_be_shift [of "uint b" bs] by simp

lemma be_value_bounds: "0 \<le> be_value bs \<and> be_value bs < 256 ^ length bs"
proof (induction bs)
  case (Cons b bs)
  have b: "0 \<le> uint b" "uint b \<le> 255" using uint_lt2p [of b] by simp_all
  have "uint b * 256 ^ length bs \<le> 255 * 256 ^ length bs" using b(2) by simp
  moreover have "0 \<le> uint b * 256 ^ length bs" by simp
  moreover have "(256 :: int) ^ length (b # bs) = 256 * 256 ^ length bs" by simp
  ultimately show ?case unfolding be_value_Cons using Cons by linarith
qed simp

lemma be_value_inj: "length a = length b \<Longrightarrow> be_value a = be_value b \<Longrightarrow> a = b"
proof (induction a b rule: list_induct2)
  case (Cons x xs y ys)
  let ?B = "256 ^ length xs :: int"
  have eq: "uint x * ?B + be_value xs = uint y * ?B + be_value ys"
    using Cons.prems Cons.hyps by (simp only: be_value_Cons)
  have xs: "0 \<le> be_value xs" "be_value xs < ?B" and ys: "0 \<le> be_value ys" "be_value ys < ?B"
    using be_value_bounds [of xs] be_value_bounds [of ys] Cons.hyps by simp_all
  have "(uint x * ?B + be_value xs) div ?B = uint x" "(uint y * ?B + be_value ys) div ?B = uint y"
    using xs ys by simp_all
  then have "x = y" using eq by (intro word_uint_eqI) simp
  with eq Cons.IH show ?case by simp
qed simp

lemma ntoh_inj:
  assumes "length a = length b" "LENGTH('a::len) = 8 * length a" "(ntoh a :: 'a word) = ntoh b"
  shows "a = b"
proof -
  have "uint (ntoh bs :: 'a word) = be_value bs" if "length bs = length a" for bs
  proof -
    have "(2 :: int) ^ LENGTH('a) = 256 ^ length bs" using assms(2) that by (simp add: power_mult)
    then show ?thesis
      using be_value_bounds [of bs] by (simp add: ntoh_def uint_word_of_int take_bit_int_eq_self)
  qed
  then have "be_value a = be_value b" using assms(1,3) by metis
  with assms(1) show ?thesis by (rule be_value_inj)
qed

lemma compare_unsigned_eq_0: "length a < 2 ^ 31 \<Longrightarrow> length b < 2 ^ 31 \<Longrightarrow> compare_unsigned a b = 0 \<longleftrightarrow> a = b"
  using compare_unsigned_key [of a b] by (metis linorder_neq_iff)

interpretation blob_type: name_comparator blob_less type_equal "\<lambda>k. k" "\<lambda>k. length k < 2 ^ 31"
  by unfold_locales (simp_all only: blob_less_def type_equal_def compare_unsigned_key compare_unsigned_eq_0)

interpretation int32_type: name_comparator int32_less type_equal
  "\<lambda>k. if k = [] then (0 :: int, 0) else (1, sint (ntoh k :: i32))" "\<lambda>k. int32_validate k = Inr ()"
proof
  fix a b assume v: "int32_validate a = Inr ()" "int32_validate b = Inr ()"
  let ?key = "\<lambda>k. if k = [] then (0 :: int, 0) else (1, sint (ntoh k :: i32))"
  show "int32_less a b \<longleftrightarrow> ?key a < ?key b"
    by (auto simp: int32_less_def int32_compare_def Let_def)
  have "type_equal a b \<longleftrightarrow> a = b"
    using v by (auto simp: type_equal_def int32_validate_def compare_unsigned_eq_0 split: if_splits)
  also have "a = b \<longleftrightarrow> ?key a = ?key b"
    using v ntoh_inj [of a b, where 'a = 32] by (auto simp: int32_validate_def split: if_splits)
  finally show "type_equal a b \<longleftrightarrow> ?key a = ?key b" .
qed

section \<open>The merge in the contract of the key type\<close>

lemma combine_cong:
  assumes "\<And>x y. x \<in> set xs \<Longrightarrow> y \<in> set ys \<Longrightarrow> cmp x y = cmp' x y \<and> cmp y x = cmp' y x"
  shows "combine cmp merge xs ys = combine cmp' merge xs ys"
  using assms by (induction xs ys rule: combine_induct) auto

text \<open>A collection with valid keys in order, and the element a key has after the tombstone of the other side has
  killed older cells.\<close>

definition coll_sorted :: "(bytes \<Rightarrow> 'k::linorder) \<Rightarrow> (bytes \<Rightarrow> bool) \<Rightarrow> coll_mutation \<Rightarrow> bool" where
  "coll_sorted key valid m \<longleftrightarrow> sorted_by (\<lambda>e. key (fst e)) (coll_cells m) \<and> (\<forall>e \<in> set (coll_cells m). valid (fst e))"

definition survivor :: "(bytes \<Rightarrow> 'k::linorder) \<Rightarrow> coll_mutation \<Rightarrow> coll_mutation \<Rightarrow> 'k \<Rightarrow> (bytes \<times> bytes) option" where
  "survivor key m other k =
     (case key_find (\<lambda>e. key (fst e)) (coll_cells m) k of
        Some e \<Rightarrow> if cell_killed (coll_tomb other) e then None else Some e
      | None \<Rightarrow> None)"

text \<open>A collection as the write path builds it has no cell that its own tombstone covers.\<close>

definition coll_current :: "coll_mutation \<Rightarrow> bool" where
  "coll_current m \<longleftrightarrow> (\<forall>e \<in> set (coll_cells m). \<not> cell_killed (coll_tomb m) e)"

lemma cell_killed_max: "cell_killed (max s t) e \<longleftrightarrow> cell_killed s e \<or> cell_killed t e"
  by (auto simp: cell_killed_def timestamp_max)

context name_comparator
begin

abbreviation ekey :: "bytes \<times> bytes \<Rightarrow> 'k" where
  "ekey e \<equiv> key (fst e)"

sublocale km: keyed_merge ekey "\<lambda>e1 e2. ekey e1 < ekey e2" merge_element
  by unfold_locales (simp_all add: merge_element_def)

lemma merge_views_cells:
  assumes "coll_sorted key valid a" "coll_sorted key valid b"
  shows "coll_cells (merge_views key_less a b) =
    combine (\<lambda>e1 e2. ekey e1 < ekey e2) merge_element
      (filter (\<lambda>e. \<not> cell_killed (coll_tomb b) e) (coll_cells a))
      (filter (\<lambda>e. \<not> cell_killed (coll_tomb a) e) (coll_cells b))"
  unfolding merge_views_def coll_mutation.simps
  by (rule combine_cong) (use assms in \<open>auto simp: coll_sorted_def key_less_iff\<close>)

lemma find_survivor:
  "coll_sorted key valid m \<Longrightarrow> key_find ekey (filter (\<lambda>e. \<not> cell_killed (coll_tomb other) e) (coll_cells m)) k
     = survivor key m other k"
  by (simp add: coll_sorted_def survivor_def key_find_filter split: option.split)

lemma merge_views_find:
  assumes "coll_sorted key valid a" "coll_sorted key valid b"
  shows "key_find ekey (coll_cells (merge_views key_less a b)) k =
    combine_options merge_element (survivor key a b k) (survivor key b a k)"
  unfolding merge_views_cells [OF assms]
  using assms by (subst km.key_find_combine)
    (simp_all add: find_survivor, simp_all add: coll_sorted_def sorted_wrt_filter)

lemma merge_views_sorted:
  assumes "coll_sorted key valid a" "coll_sorted key valid b"
  shows "coll_sorted key valid (merge_views key_less a b)"
    and "coll_current a \<Longrightarrow> coll_current b \<Longrightarrow> coll_current (merge_views key_less a b)"
proof -
  let ?as = "filter (\<lambda>e. \<not> cell_killed (coll_tomb b) e) (coll_cells a)"
    and ?bs = "filter (\<lambda>e. \<not> cell_killed (coll_tomb a) e) (coll_cells b)"
  have origin: "e \<in> set ?as \<or> e \<in> set ?bs \<or> (\<exists>x \<in> set ?as. \<exists>y \<in> set ?bs. e = merge_element x y)"
    if "e \<in> set (coll_cells (merge_views key_less a b))" for e
    using that unfolding merge_views_cells [OF assms] by (rule in_set_combine)
  have "sorted_by ekey (coll_cells (merge_views key_less a b))"
    unfolding merge_views_cells [OF assms]
    using assms by (intro km.sorted_combine) (simp_all add: coll_sorted_def sorted_wrt_filter)
  moreover have "valid (fst e)" if "e \<in> set (coll_cells (merge_views key_less a b))" for e
    using origin [OF that] assms by (auto simp: coll_sorted_def merge_element_def)
  ultimately show "coll_sorted key valid (merge_views key_less a b)" by (simp add: coll_sorted_def)
  assume current: "coll_current a" "coll_current b"
  have "\<not> cell_killed (max (coll_tomb a) (coll_tomb b)) e" if "e \<in> set (coll_cells (merge_views key_less a b))" for e
    using origin [OF that] current unfolding cell_killed_max by (auto simp: coll_current_def cell_killed_def merge_element_def)
  then show "coll_current (merge_views key_less a b)"
    by (simp add: coll_current_def) (simp add: merge_views_def)
qed

end

section \<open>Compaction\<close>

lemma is_covered_by_max:
  "is_covered_by c (max s t) False \<longleftrightarrow> is_covered_by c s False \<or> is_covered_by c t False"
  by (auto simp: is_covered_by_def timestamp_max)

lemma is_covered_by_mono:
  assumes "s \<le> t" "is_covered_by c s k"
  shows "is_covered_by c t k"
proof -
  have "sint (timestamp s) \<le> sint (timestamp t)" using assms(1) by (rule tomb_le_timestamp)
  moreover have "sint missing_timestamp \<le> sint (timestamp s)"
    using sint_ge [of "timestamp s"] by (simp add: missing_timestamp_def)
  ultimately show ?thesis
    using assms(2) signed_word_eqI [of "timestamp s" missing_timestamp] by (auto simp: is_covered_by_def)
qed

lemma coll_survivors_live:
  "fst (coll_survivors t base now can_gc gc_before es) \<longleftrightarrow>
     (\<exists>e \<in> set es. cell_is_live (snd e) \<and> \<not> has_expired (snd e) now \<and>
        \<not> is_covered_by (snd e) t False \<and> \<not> is_covered_by (snd e) (tomb (shadowable base)) False)"
proof (induction es)
  case (Cons e es)
  obtain name c where e: "e = (name, c)" by (cases e)
  obtain l ss where r: "coll_survivors t base now can_gc gc_before es = (l, ss)" by (metis surj_pair)
  show ?case using Cons by (simp add: e r)
qed simp

lemma skip_key_element:
  "read_element v = Inr (e, rest) \<Longrightarrow> \<exists>w. skip_key v = Inr w \<and> read_blob w = Inr (snd e, rest)"
  by (auto simp: read_element_def read_blob_def [of v] skip_key_def read_simple_bytes_def and_then_def
      split: sum.splits prod.splits if_splits)

lemma any_live_loop_eq:
  "(\<And>e. e \<in> set es \<Longrightarrow> small_element e) \<Longrightarrow>
   any_live_loop t now (length es) (concat (map write_element es)) =
     Inr (\<exists>e \<in> set es. cell_is_live_at (snd e) t now False)"
proof (induction es)
  case (Cons e es)
  have "read_element (write_element e @ concat (map write_element es)) = Inr (e, concat (map write_element es))"
    using Cons.prems parsesD(1) [OF parses_element, of e] by simp
  from skip_key_element [OF this] Cons show ?case by auto
qed simp

lemma coll_is_any_live_eq:
  assumes "coll_ok m"
  shows "coll_is_any_live (serialize_mutation_form m) t now =
    Inr (\<exists>e \<in> set (coll_cells m). cell_is_live_at (snd e) (max t (coll_tomb m)) now False)"
proof -
  have "read_tomb (serialize_mutation_form m) =
      Inr (coll_tomb m, hton 4 (of_nat (length (coll_cells m)) :: u32) @ concat (map write_element (coll_cells m)))"
    using assms parsesD(1) [OF parses_tomb] by (simp add: coll_ok_def serialize_mutation_form_def)
  then show ?thesis
    using assms parsesD(1) [OF parses_int32, of "of_nat (length (coll_cells m))"]
    by (simp add: coll_is_any_live_def coll_ok_def unat_of_nat_32 any_live_loop_eq merge_simps)
qed

text \<open>Compacting a collection agrees with asking whether it has a live cell: for a row
  tombstone that satisfies its class invariant, \<open>compact_and_expire\<close> reports a live cell exactly when
  \<open>is_any_live\<close> finds one in the serialized collection under the row's effective tombstone.\<close>

lemma collection_compact_reports_liveness:
  assumes "coll_ok m" "rt_ok base"
  shows "coll_is_any_live (serialize_mutation_form m) (rt_tomb base) now =
    Inr (fst (coll_compact_and_expire m base now can_gc gc_before))"
proof -
  let ?t = "tomb_apply (coll_tomb m) (regular base)"
  have "fst (coll_compact_and_expire m base now can_gc gc_before) =
      fst (coll_survivors ?t base now can_gc gc_before (coll_cells m))"
    by (simp add: coll_compact_and_expire_def Let_def split: prod.split)
  also have "\<dots> \<longleftrightarrow> (\<exists>e \<in> set (coll_cells m). cell_is_live_at (snd e) (max (rt_tomb base) (coll_tomb m)) now False)"
    unfolding coll_survivors_live cell_is_live_at_def merge_simps is_covered_by_max rt_tomb_def
    using is_covered_by_mono [OF assms(2) [unfolded rt_ok_def]] by blast
  finally show ?thesis unfolding coll_is_any_live_eq [OF assms(1)] by simp
qed

section \<open>Properties\<close>

text \<open>C37. The serialized form of a collection is read back exactly and malformed input is
  detected: parsing the bytes of a collection returns it, a truncated form raises
  \<open>marshal_exception\<close> wherever it is cut, and trailing bytes trip the final assertion.\<close>

theorem collection_parse_errors:
  assumes "coll_ok m"
  shows "deserialize_mutation_form (serialize_mutation_form m) = Inr m \<and>
    (\<forall>p. strict_prefix p (serialize_mutation_form m) \<longrightarrow>
       deserialize_mutation_form p = Inl Marshal_exception) \<and>
    (\<forall>rest. rest \<noteq> [] \<longrightarrow>
       deserialize_mutation_form (serialize_mutation_form m @ rest) = Inl Assertion_failed)"
  using parsesD [OF parses_mutation [OF assms]] deserialize_serialize [OF assms]
  by (auto simp: deserialize_read_mutation)

theorem collection_parse_errors_witness:
  "deserialize_mutation_form (serialize_mutation_form
     \<lparr>coll_tomb = Tombstone 3 1, coll_cells = [([1], make_live 5 [7])]\<rparr> @ [0]) = Inl Assertion_failed"
proof -
  have "coll_ok \<lparr>coll_tomb = Tombstone 3 1, coll_cells = [([1], make_live 5 [7])]\<rparr>"
    by (simp add: coll_ok_def tomb_normal_def tomb_present_def missing_timestamp_def small_element_def
        make_live_layout)
  then show ?thesis using collection_parse_errors by blast
qed

text \<open>C33. Merging two serialized collections, for any key type whose \<open>less\<close> orders the valid keys linearly: if
  the keys of both are valid and strictly sorted, the result has the later tombstone, its keys are again valid
  and strictly sorted, and each key holds the reconciliation of the cells that survive the other side's
  tombstone. If moreover no cell of an input is covered by the input's own tombstone, none of the result is
  covered by the merged one.\<close>

theorem collection_merge_correct:
  assumes "name_comparator key_less key_equal key valid" "coll_sorted key valid a" "coll_sorted key valid b" "coll_ok a" "coll_ok b"
  shows "coll_merge key_less (serialize_mutation_form a) (serialize_mutation_form b) =
      Inr (serialize_mutation_form (merge_views key_less a b)) \<and>
    coll_tomb (merge_views key_less a b) = max (coll_tomb a) (coll_tomb b) \<and>
    coll_sorted key valid (merge_views key_less a b) \<and>
    (\<forall>k. key_find (\<lambda>e. key (fst e)) (coll_cells (merge_views key_less a b)) k =
       combine_options merge_element (survivor key a b k) (survivor key b a k)) \<and>
    (coll_current a \<and> coll_current b \<longrightarrow> coll_current (merge_views key_less a b))"
  using name_comparator.merge_views_sorted [OF assms(1-3)] name_comparator.merge_views_find [OF assms(1-3)] assms(4,5)
  by (simp add: coll_merge_def deserialize_serialize) (simp add: merge_views_def)

theorem collection_merge_correct_witness:
  "coll_tomb (merge_views int32_less
       \<lparr>coll_tomb = tombstone_none, coll_cells = [([0, 0, 0, 1], make_live 5 [7])]\<rparr>
       \<lparr>coll_tomb = Tombstone 3 1, coll_cells = [([0, 0, 0, 1], make_live 6 [8])]\<rparr>) = Tombstone 3 1"
proof -
  let ?a = "\<lparr>coll_tomb = tombstone_none, coll_cells = [([0, 0, 0, 1], make_live 5 [7])]\<rparr>"
    and ?b = "\<lparr>coll_tomb = Tombstone 3 1, coll_cells = [([0, 0, 0, 1], make_live 6 [8])]\<rparr>"
  have "coll_ok ?a" "coll_ok ?b"
    by (simp_all add: coll_ok_def tomb_normal_def tomb_present_def missing_timestamp_def small_element_def
        make_live_layout)
  moreover have "coll_sorted (\<lambda>k. if k = [] then (0 :: int, 0) else (1, sint (ntoh k :: i32))) (\<lambda>k. int32_validate k = Inr ()) m"
    if "m = ?a \<or> m = ?b" for m
    using that by (auto simp: coll_sorted_def int32_validate_def)
  ultimately show ?thesis
    using collection_merge_correct [OF int32_type.name_comparator_axioms, of ?a ?b]
    by (simp add: max_def less_eq_tombstone_def tomb_compare_def tombstone_none_def missing_timestamp_def)
qed

end
