(* ===== verification/Row.thy ===== *)
theory Row
  imports Counters Collections
begin

text \<open>
  Rows (\<open>class row\<close> in \<open>src/Scylla-moon/mutation_partition.hh\<close> and \<open>.cc\<close>): the two storage forms
  of the cells of a row (a vector with a bitset of the columns present, and an ordered set used from
  32 columns on), lookup, reversible merge of cells and of whole rows with the rollback after an
  exception, equality, difference and compaction.

  The schema is the function from a column to its type. \<open>can_use_mutable_view\<close> of the cells and
  \<open>internal_count\<close> (how many cells fit in the row object, a ratio of object sizes) are arguments.
  Undefined behaviour is \<^const>\<open>None\<close>; exceptions are values of \<open>error\<close>. Which allocations fail is an argument of the
  merge: that of \<open>reserve\<close> (\<^const>\<open>None\<close>) and that for the cell of a column. The theorems on merges are about rows whose
  counter columns hold counters, live or deleted, and not counter updates, whose merge cannot be undone
  (\<open>counter_update_revert_not_inverse\<close> in \<open>Counters\<close>).
\<close>

section \<open>Cells of a column\<close>

datatype column_type =
    Atomic_column
  | Counter_column
  | Collection_column (key_less: "bytes \<Rightarrow> bytes \<Rightarrow> bool") (key_equal: "bytes \<Rightarrow> bytes \<Rightarrow> bool")

type_synonym row_schema = "column_id \<Rightarrow> column_type"

text \<open>\<open>counter_cell_view::apply_reversibly\<close> on \<open>atomic_cell_or_collection\<close> objects: a swap
  exchanges their \<open>most_recent_version\<close>, a newly built cell has version 0.\<close>

definition counter_cell_apply :: "bool \<Rightarrow> cell \<Rightarrow> cell \<Rightarrow> (bool \<times> cell \<times> cell) option" where
  "counter_cell_apply mv dst src =
     (case counter_apply_reversibly mv (cell_data dst) (cell_data src) of
        None \<Rightarrow> None
      | Some (did_apply, d, s) \<Rightarrow>
          (let vd = most_recent_version dst; vs = most_recent_version src;
               in_place = (shard_count (cell_data dst) \<ge> shard_count (cell_data src) \<and> mv \<and>
                 (case apply_in_place (cell_data dst) (cell_data src) of
                    Some (applied, _) \<Rightarrow> applied | None \<Rightarrow> False));
               (wd, ws) =
                 (if \<not> cell_is_live (cell_data dst) \<or> \<not> cell_is_live (cell_data src)
                  then (if did_apply then (vs, vd) else (vd, vs))
                  else if is_counter_update (cell_data dst) then (0, vs)
                  else if in_place then (vd, vs) else (0, vd))
           in Some (did_apply, \<lparr>cell_data = d, most_recent_version = wd\<rparr>,
                    \<lparr>cell_data = s, most_recent_version = ws\<rparr>)))"

definition counter_cell_revert :: "cell \<Rightarrow> cell \<Rightarrow> (cell \<times> cell) option" where
  "counter_cell_revert dst src =
     (case counter_revert_apply (cell_data dst) (cell_data src) of
        None \<Rightarrow> None
      | Some (d, s) \<Rightarrow>
          (let vd = most_recent_version dst; vs = most_recent_version src;
               (wd, ws) =
                 (if is_counter_update (cell_data dst) then (0, vs)
                  else if is_counter_in_place_revert_set (cell_data src) then (vd, vs) else (vs, vd))
           in Some (\<lparr>cell_data = d, most_recent_version = wd\<rparr>,
                    \<lparr>cell_data = s, most_recent_version = ws\<rparr>)))"

definition cell_set_revert :: "cell \<Rightarrow> bool \<Rightarrow> cell" where
  "cell_set_revert c r = c\<lparr>cell_data := set_revert (cell_data c) r\<rparr>"

definition cell_apply_reversibly :: "bool \<Rightarrow> column_type \<Rightarrow> cell \<Rightarrow> cell \<Rightarrow> u32 \<Rightarrow> error + (cell \<times> cell)" where
  "cell_apply_reversibly mv def dst src version =
     (case def of
        Counter_column \<Rightarrow>
          (case counter_cell_apply mv dst src of
             None \<Rightarrow> Inl Assertion_failed
           | Some (did_apply, dst, src) \<Rightarrow> Inr (dst, cell_set_revert src did_apply))
      | Atomic_column \<Rightarrow>
          if compare_atomic_cell_for_merge (cell_data dst) (cell_data src) < 0
          then Inr (src\<lparr>most_recent_version := version\<rparr>, cell_set_revert dst True)
          else Inr (dst, cell_set_revert src False)
      | Collection_column lt eq \<Rightarrow>
          and_then (coll_merge lt (cell_data dst) (cell_data src)) (\<lambda>merged.
          Inr (cell_of merged, dst)))"

definition cell_revert :: "column_type \<Rightarrow> cell \<Rightarrow> cell \<Rightarrow> (cell \<times> cell) option" where
  "cell_revert def dst src =
     (case def of
        Collection_column lt eq \<Rightarrow> Some (src, dst)
      | _ \<Rightarrow>
          if is_revert_set (cell_data src)
          then let src = cell_set_revert src False in
               (case def of Counter_column \<Rightarrow> counter_cell_revert dst src | _ \<Rightarrow> Some (src, dst))
          else Some (dst, src))"

section \<open>Storage\<close>

datatype storage =
    Vector_storage "bool list" "cell list"
  | Set_storage "(column_id \<times> cell) list"

record row =
  row_storage :: storage
  row_size :: nat

definition max_vector_size :: nat where "max_vector_size = 32"

definition row_empty :: row where
  "row_empty = \<lparr>row_storage = Vector_storage (replicate max_vector_size False) [], row_size = 0\<rparr>"

definition find_cell :: "row \<Rightarrow> column_id \<Rightarrow> cell option" where
  "find_cell r i =
     (case row_storage r of
        Vector_storage pr v \<Rightarrow> if i \<ge> length v \<or> \<not> pr ! i then None else Some (v ! i)
      | Set_storage es \<Rightarrow> map_of es i)"

text \<open>\<open>cell_at\<close> throws \<open>std::out_of_range\<close>.\<close>

definition cell_at :: "row \<Rightarrow> column_id \<Rightarrow> error + cell" where
  "cell_at r i = (case find_cell r i of None \<Rightarrow> Inl Out_of_range | Some c \<Rightarrow> Inr c)"

text \<open>The cells \<open>for_each_cell\<close> visits, and the range that comparisons walk.\<close>

definition row_cells :: "row \<Rightarrow> (column_id \<times> cell) list" where
  "row_cells r =
     (case row_storage r of
        Vector_storage pr v \<Rightarrow> map (\<lambda>i. (i, v ! i)) (filter (\<lambda>i. pr ! i) [0..<length pr])
      | Set_storage es \<Rightarrow> es)"

definition row_range :: "row \<Rightarrow> (column_id \<times> cell) list" where
  "row_range r =
     (case row_storage r of
        Vector_storage pr v \<Rightarrow> filter (\<lambda>(i, c). pr ! i) (zip [0..<length v] v)
      | Set_storage es \<Rightarrow> es)"

definition vector_to_set :: "row \<Rightarrow> row" where
  "vector_to_set r = r\<lparr>row_storage := Set_storage (row_cells r)\<rparr>"

text \<open>\<open>reserve\<close> may allocate, for the set or for a larger vector (whose capacity is not modelled); a failure
  leaves the row alone.\<close>

definition reserve :: "nat \<Rightarrow> bool \<Rightarrow> row \<Rightarrow> column_id \<Rightarrow> error + row" where
  "reserve internal_count alloc_fails r last_column =
     (case row_storage r of
        Vector_storage pr v \<Rightarrow>
          if last_column \<ge> internal_count
          then if alloc_fails then Inl Bad_alloc
               else if last_column \<ge> max_vector_size then Inr (vector_to_set r) else Inr r
          else Inr r
      | Set_storage es \<Rightarrow> Inr r)"

text \<open>\<open>vector_type::resize\<close> cuts or fills with empty cells.\<close>

definition resize :: "cell list \<Rightarrow> nat \<Rightarrow> cell list" where
  "resize v n = take n v @ replicate (n - length v) cell_empty"

definition moved_from :: "cell \<Rightarrow> cell" where
  "moved_from c = c\<lparr>cell_data := []\<rparr>"

definition set_insert :: "(column_id \<times> cell) list \<Rightarrow> column_id \<Rightarrow> cell \<Rightarrow> (column_id \<times> cell) list" where
  "set_insert es i c = takeWhile (\<lambda>e. fst e < i) es @ (i, c) # dropWhile (\<lambda>e. fst e < i) es"

definition set_update :: "(column_id \<times> cell) list \<Rightarrow> column_id \<Rightarrow> cell \<Rightarrow> (column_id \<times> cell) list" where
  "set_update es i c = map (\<lambda>e. if fst e = i then (i, c) else e) es"

definition set_apply_cell :: "bool \<Rightarrow> column_type \<Rightarrow> row \<Rightarrow> (column_id \<times> cell) list \<Rightarrow> column_id \<Rightarrow> cell \<Rightarrow>
    error + (row \<times> cell)" where
  "set_apply_cell mv def r es i val =
     (case map_of es i of
        None \<Rightarrow> Inr (\<lparr>row_storage = Set_storage (set_insert es i val), row_size = row_size r + 1\<rparr>, cell_empty)
      | Some c \<Rightarrow> and_then (cell_apply_reversibly mv def c val 0) (\<lambda>(d, s).
                   Inr (r\<lparr>row_storage := Set_storage (set_update es i d)\<rparr>, s)))"

definition row_apply_cell :: "bool \<Rightarrow> column_type \<Rightarrow> row \<Rightarrow> column_id \<Rightarrow> cell \<Rightarrow> u32 \<Rightarrow> error + (row \<times> cell)" where
  "row_apply_cell mv def r i val version =
     (case row_storage r of
        Vector_storage pr v \<Rightarrow>
          if i < max_vector_size
          then if i \<ge> length v
               then Inr (\<lparr>row_storage = Vector_storage (pr[i := True]) (resize v i @ [val]),
                          row_size = row_size r + 1\<rparr>, moved_from val)
               else if \<not> cell_present (v ! i)
               then Inr (\<lparr>row_storage = Vector_storage (pr[i := True]) (v[i := val]),
                          row_size = row_size r + 1\<rparr>, moved_from val)
               else and_then (cell_apply_reversibly mv def (v ! i) val version) (\<lambda>(d, s).
                    Inr (r\<lparr>row_storage := Vector_storage pr (v[i := d])\<rparr>, s))
          else set_apply_cell mv def r (row_cells r) i val
      | Set_storage es \<Rightarrow> set_apply_cell mv def r es i val)"

definition row_revert_cell :: "column_type \<Rightarrow> row \<Rightarrow> column_id \<Rightarrow> cell \<Rightarrow> (row \<times> cell) option" where
  "row_revert_cell def r i src =
     (case row_storage r of
        Vector_storage pr v \<Rightarrow>
          if i \<ge> length v then None
          else if \<not> cell_present src
          then Some (\<lparr>row_storage = Vector_storage (pr[i := False]) (v[i := src]),
                      row_size = row_size r - 1\<rparr>, v ! i)
          else map_option (\<lambda>(d, s). (r\<lparr>row_storage := Vector_storage pr (v[i := d])\<rparr>, s))
                 (cell_revert def (v ! i) src)
      | Set_storage es \<Rightarrow>
          (case map_of es i of
             None \<Rightarrow> None
           | Some dst \<Rightarrow>
               if \<not> cell_present src
               then Some (\<lparr>row_storage = Set_storage (filter (\<lambda>e. fst e \<noteq> i) es),
                           row_size = row_size r - 1\<rparr>, dst)
               else map_option (\<lambda>(d, s). (r\<lparr>row_storage := Set_storage (set_update es i d)\<rparr>, s))
                      (cell_revert def dst src)))"

definition append_cell :: "row \<Rightarrow> column_id \<Rightarrow> cell \<Rightarrow> row" where
  "append_cell r i val =
     (case row_storage r of
        Vector_storage pr v \<Rightarrow>
          if i < max_vector_size
          then \<lparr>row_storage = Vector_storage (pr[i := True]) (resize v i @ [val]), row_size = row_size r + 1\<rparr>
          else \<lparr>row_storage = Set_storage (set_insert (row_cells r) i val), row_size = row_size r + 1\<rparr>
      | Set_storage es \<Rightarrow> \<lparr>row_storage = Set_storage (set_insert es i val), row_size = row_size r + 1\<rparr>)"

section \<open>Whole rows\<close>

text \<open>Writing through the reference that \<open>for_each_cell\<close> passes to its function.\<close>

definition row_set_cell :: "row \<Rightarrow> column_id \<Rightarrow> cell \<Rightarrow> row" where
  "row_set_cell r i c =
     (case row_storage r of
        Vector_storage pr v \<Rightarrow> r\<lparr>row_storage := Vector_storage pr (v[i := c])\<rparr>
      | Set_storage es \<Rightarrow> r\<lparr>row_storage := Set_storage (set_update es i c)\<rparr>)"

definition row_reserve_for :: "nat \<Rightarrow> bool \<Rightarrow> row \<Rightarrow> row \<Rightarrow> error + row" where
  "row_reserve_for internal_count alloc_fails r other =
     (case row_storage other of
        Vector_storage pr v \<Rightarrow> reserve internal_count alloc_fails r (length v - 1)
      | Set_storage es \<Rightarrow> reserve internal_count alloc_fails r (fst (last es)))"

text \<open>Reverting the listed columns one by one: the rollback of \<open>for_each_cell\<close> runs it on the columns
  already handled, latest first, and \<open>row::revert\<close> on all columns of the source.\<close>

fun row_rollback :: "row_schema \<Rightarrow> column_id list \<Rightarrow> row \<Rightarrow> row \<Rightarrow> (row \<times> row) option" where
  "row_rollback s [] dst src = Some (dst, src)"
| "row_rollback s (i # handled) dst src =
     (case find_cell src i of
        None \<Rightarrow> None
      | Some c \<Rightarrow>
          (case row_revert_cell (s i) dst i c of
             None \<Rightarrow> None
           | Some (dst, c) \<Rightarrow> row_rollback s handled dst (row_set_cell src i c)))"

text \<open>The loop over the cells of \<open>src\<close>. An allocation may fail at any column (\<open>alloc_fails\<close>); an
  exception leads to the rollback and is rethrown; a failed assertion ends the process.\<close>

fun row_apply_loop :: "bool \<Rightarrow> row_schema \<Rightarrow> (column_id \<Rightarrow> bool) \<Rightarrow> u32 \<Rightarrow> column_id list \<Rightarrow> column_id list \<Rightarrow>
    row \<Rightarrow> row \<Rightarrow> (error option \<times> row \<times> row) option" where
  "row_apply_loop mv s alloc_fails version handled [] dst src = Some (None, dst, src)"
| "row_apply_loop mv s alloc_fails version handled (i # ids) dst src =
     (case find_cell src i of
        None \<Rightarrow> None
      | Some c \<Rightarrow>
          (case (if alloc_fails i then Inl Bad_alloc else row_apply_cell mv (s i) dst i c version) of
             Inr (dst, c) \<Rightarrow>
               row_apply_loop mv s alloc_fails version (i # handled) ids dst (row_set_cell src i c)
           | Inl Assertion_failed \<Rightarrow> None
           | Inl e \<Rightarrow> map_option (Pair (Some e)) (row_rollback s handled dst src)))"

text \<open>\<open>alloc_fails\<close> tells for \<^const>\<open>None\<close> whether the allocation in \<open>reserve\<close> fails, and otherwise at which columns
  the merge of the cell fails.\<close>

definition row_apply_reversibly :: "nat \<Rightarrow> bool \<Rightarrow> row_schema \<Rightarrow> (column_id option \<Rightarrow> bool) \<Rightarrow> row \<Rightarrow> row \<Rightarrow> u32 \<Rightarrow>
    (error option \<times> row \<times> row) option" where
  "row_apply_reversibly internal_count mv s alloc_fails dst other version =
     (if row_size other = 0 then Some (None, dst, other)
      else case row_reserve_for internal_count (alloc_fails None) dst other of
             Inl e \<Rightarrow> Some (Some e, dst, other)
           | Inr dst \<Rightarrow> row_apply_loop mv s (\<lambda>i. alloc_fails (Some i)) version [] (map fst (row_cells other)) dst other)"

definition row_revert :: "row_schema \<Rightarrow> row \<Rightarrow> row \<Rightarrow> (row \<times> row) option" where
  "row_revert s dst other = row_rollback s (map fst (row_cells other)) dst other"

text \<open>\<open>row::apply\<close> of a constant row: every cell is copied and merged with version 0.\<close>

fun row_apply_cells :: "bool \<Rightarrow> row_schema \<Rightarrow> (column_id \<times> cell) list \<Rightarrow> row \<Rightarrow> error + row" where
  "row_apply_cells mv s [] dst = Inr dst"
| "row_apply_cells mv s ((i, c) # cells) dst =
     and_then (row_apply_cell mv (s i) dst i c 0) (\<lambda>(dst, _). row_apply_cells mv s cells dst)"

definition row_apply :: "nat \<Rightarrow> bool \<Rightarrow> row_schema \<Rightarrow> row \<Rightarrow> row \<Rightarrow> error + row" where
  "row_apply internal_count mv s dst other =
     (if row_size other = 0 then Inr dst
      else and_then (row_reserve_for internal_count False dst other) (row_apply_cells mv s (row_cells other)))"

section \<open>Equality, difference and compaction\<close>

definition cells_equal :: "(column_id \<times> cell) list \<Rightarrow> (column_id \<times> cell) list \<Rightarrow> bool" where
  "cells_equal r1 r2 \<longleftrightarrow> list_all2 (\<lambda>c1 c2. fst c1 = fst c2 \<and> cell_eq (snd c1) (snd c2)) r1 r2"

definition row_eq :: "row \<Rightarrow> row \<Rightarrow> bool" where
  "row_eq r other \<longleftrightarrow> row_size r = row_size other \<and> cells_equal (row_range r) (row_range other)"

text \<open>\<open>row::equal\<close> compares columns by name, under two schemas.\<close>

definition row_equal :: "(column_id \<Rightarrow> string) \<Rightarrow> row \<Rightarrow> (column_id \<Rightarrow> string) \<Rightarrow> row \<Rightarrow> bool" where
  "row_equal this_name r other_name other \<longleftrightarrow>
     row_size r = row_size other \<and>
     list_all2 (\<lambda>c1 c2. this_name (fst c1) = other_name (fst c2) \<and> cell_eq (snd c1) (snd c2))
       (row_range r) (row_range other)"

definition cell_difference :: "column_type \<Rightarrow> cell \<Rightarrow> cell \<Rightarrow> error + cell option" where
  "cell_difference def c it =
     (case def of
        Counter_column \<Rightarrow>
          (case counter_difference (cell_data c) (cell_data it) of
             None \<Rightarrow> Inl Assertion_failed
           | Some diff \<Rightarrow> Inr (map_option cell_of diff))
      | Atomic_column \<Rightarrow>
          Inr (if compare_atomic_cell_for_merge (cell_data c) (cell_data it) > 0 then Some c else None)
      | Collection_column lt eq \<Rightarrow>
          and_then (coll_difference lt eq (cell_data c) (cell_data it)) (\<lambda>diff.
          and_then (coll_is_empty diff) (\<lambda>empty.
          Inr (if \<not> empty then Some (cell_of diff) else None))))"

fun row_difference_loop :: "row_schema \<Rightarrow> (column_id \<times> cell) list \<Rightarrow> (column_id \<times> cell) list \<Rightarrow> row \<Rightarrow>
    error + row" where
  "row_difference_loop s [] it r = Inr r"
| "row_difference_loop s (c # this_range) [] r =
     row_difference_loop s this_range [] (append_cell r (fst c) (snd c))"
| "row_difference_loop s (c # this_range) (e # it) r =
     (if fst e < fst c then row_difference_loop s (c # this_range) it r
      else if fst e \<noteq> fst c
      then row_difference_loop s this_range (e # it) (append_cell r (fst c) (snd c))
      else and_then (cell_difference (s (fst c)) (snd c) (snd e)) (\<lambda>d.
           row_difference_loop s this_range (e # it)
             (case d of None \<Rightarrow> r | Some d \<Rightarrow> append_cell r (fst c) d)))"

definition row_difference :: "row_schema \<Rightarrow> row \<Rightarrow> row \<Rightarrow> error + row" where
  "row_difference s r other = row_difference_loop s (row_range r) (row_range other) row_empty"

text \<open>One cell of \<open>row::compact_and_expire\<close>: whether it is live, and what is left of it.\<close>

definition compact_cell :: "column_type \<Rightarrow> row_tombstone \<Rightarrow> i32 \<Rightarrow> (tombstone \<Rightarrow> bool) \<Rightarrow> i32 \<Rightarrow> cell \<Rightarrow>
    error + (bool \<times> cell option)" where
  "compact_cell def t query_time can_gc gc_before c =
     (let cell = cell_data c;
          can_erase = (sint (cell_deletion_time cell) < sint gc_before \<and>
            can_gc (Tombstone (cell_timestamp cell) (cell_deletion_time cell)));
          is_counter = (case def of Counter_column \<Rightarrow> True | _ \<Rightarrow> False)
      in case def of
        Collection_column lt eq \<Rightarrow>
          and_then (deserialize_mutation_form cell) (\<lambda>m.
          let (any_live, m) = coll_compact_and_expire m t query_time can_gc gc_before in
          Inr (any_live,
               if coll_cells m = [] \<and> coll_tomb m \<le> rt_tomb t then None
               else Some (cell_of (serialize_mutation_form m))))
      | _ \<Rightarrow>
          Inr (if is_covered_by cell (regular t) is_counter then (False, None)
               else if has_expired cell query_time
               then (False, if can_erase then None
                            else Some (cell_of (make_dead (cell_timestamp cell) (cell_deletion_time cell))))
               else if \<not> cell_is_live cell then (False, if can_erase then None else Some c)
               else if is_covered_by cell (tomb (shadowable t)) is_counter then (False, None)
               else (True, Some c)))"

text \<open>\<open>row::remove_if\<close> with the function above, and the search for a live cell.\<close>

definition row_remove_cell :: "row \<Rightarrow> column_id \<Rightarrow> row" where
  "row_remove_cell r i =
     (case row_storage r of
        Vector_storage pr v \<Rightarrow>
          \<lparr>row_storage = Vector_storage (pr[i := False]) (v[i := cell_empty]), row_size = row_size r - 1\<rparr>
      | Set_storage es \<Rightarrow>
          \<lparr>row_storage = Set_storage (filter (\<lambda>e. fst e \<noteq> i) es), row_size = row_size r - 1\<rparr>)"

fun compact_cells :: "row_schema \<Rightarrow> row_tombstone \<Rightarrow> i32 \<Rightarrow> (tombstone \<Rightarrow> bool) \<Rightarrow> i32 \<Rightarrow>
    (column_id \<times> cell) list \<Rightarrow> bool \<Rightarrow> row \<Rightarrow> error + (bool \<times> row)" where
  "compact_cells s t query_time can_gc gc_before [] any_live r = Inr (any_live, r)"
| "compact_cells s t query_time can_gc gc_before ((i, c) # cells) any_live r =
     and_then (compact_cell (s i) t query_time can_gc gc_before c) (\<lambda>(live, left).
     compact_cells s t query_time can_gc gc_before cells (any_live \<or> live)
       (case left of None \<Rightarrow> row_remove_cell r i | Some c \<Rightarrow> row_set_cell r i c))"

definition row_compact_and_expire :: "row_schema \<Rightarrow> row \<Rightarrow> row_tombstone \<Rightarrow> i32 \<Rightarrow> (tombstone \<Rightarrow> bool) \<Rightarrow>
    i32 \<Rightarrow> error + (bool \<times> row)" where
  "row_compact_and_expire s r t query_time can_gc gc_before =
     compact_cells s t query_time can_gc gc_before (row_cells r) False r"

fun any_live_cell :: "row_schema \<Rightarrow> tombstone \<Rightarrow> i32 \<Rightarrow> (column_id \<times> cell) list \<Rightarrow> error + bool" where
  "any_live_cell s t now [] = Inr False"
| "any_live_cell s t now ((i, c) # cells) =
     and_then
       (case s i of
          Collection_column lt eq \<Rightarrow> coll_is_any_live (cell_data c) t now
        | Counter_column \<Rightarrow> Inr (cell_is_live_at (cell_data c) t now True)
        | Atomic_column \<Rightarrow> Inr (cell_is_live_at (cell_data c) t now False))
       (\<lambda>live. if live then Inr True else any_live_cell s t now cells)"

definition has_any_live_data :: "row_schema \<Rightarrow> row \<Rightarrow> tombstone \<Rightarrow> i32 \<Rightarrow> error + bool" where
  "has_any_live_data s r t now = any_live_cell s t now (row_cells r)"

section \<open>The finite map a row implements\<close>

definition row_ok :: "row \<Rightarrow> bool" where
  "row_ok r \<longleftrightarrow>
     (case row_storage r of
        Vector_storage pr v \<Rightarrow>
          length pr = max_vector_size \<and> length v \<le> max_vector_size \<and>
          (\<forall>i < max_vector_size. pr ! i \<longrightarrow> i < length v) \<and>
          (\<forall>i < length v. pr ! i \<longleftrightarrow> cell_present (v ! i)) \<and>
          row_size r = length (filter (\<lambda>b. b) pr)
      | Set_storage es \<Rightarrow>
          sorted_wrt (<) (map fst es) \<and> (\<forall>e \<in> set es. cell_present (snd e)) \<and> row_size r = length es)"

lemma row_ok_vector:
  "row_ok \<lparr>row_storage = Vector_storage pr v, row_size = n\<rparr> \<longleftrightarrow>
     length pr = max_vector_size \<and> length v \<le> max_vector_size \<and>
     (\<forall>i < max_vector_size. pr ! i \<longrightarrow> i < length v) \<and>
     (\<forall>i < length v. pr ! i \<longleftrightarrow> cell_present (v ! i)) \<and> n = length (filter (\<lambda>b. b) pr)"
  by (simp add: row_ok_def)

lemma row_ok_set:
  "row_ok \<lparr>row_storage = Set_storage es, row_size = n\<rparr> \<longleftrightarrow>
     sorted_wrt (<) (map fst es) \<and> (\<forall>e \<in> set es. cell_present (snd e)) \<and> n = length es"
  by (simp add: row_ok_def)

lemma row_cases [case_names Vector Set, cases type: row]:
  obtains pr v n where "r = \<lparr>row_storage = Vector_storage pr v, row_size = n\<rparr>"
  | es n where "r = \<lparr>row_storage = Set_storage es, row_size = n\<rparr>"
  by (cases r; cases "row_storage r") auto

lemma find_cell_vector [simp]:
  "find_cell \<lparr>row_storage = Vector_storage pr v, row_size = n\<rparr> i =
     (if i < length v \<and> pr ! i then Some (v ! i) else None)"
  by (auto simp: find_cell_def)

lemma find_cell_set [simp]: "find_cell \<lparr>row_storage = Set_storage es, row_size = n\<rparr> i = map_of es i"
  by (simp add: find_cell_def)

lemma filter_update_True:
  "i < length pr \<Longrightarrow> \<not> pr ! i \<Longrightarrow> length (filter (\<lambda>b. b) (pr[i := True])) = Suc (length (filter (\<lambda>b. b) pr))"
  by (induction pr arbitrary: i) (auto simp: nth_Cons' split: nat.splits)

lemma filter_update_False:
  assumes "i < length pr" "pr ! i"
  shows "length (filter (\<lambda>b. b) (pr[i := False])) = length (filter (\<lambda>b. b) pr) - 1"
  using filter_update_True [of i "pr[i := False]"] assms list_update_id [of pr i] by simp

lemma map_of_set_update: "map_of (set_update es i c) j = (if j = i \<and> map_of es i \<noteq> None then Some c else map_of es j)"
  by (induction es) (auto simp: set_update_def)

lemma map_fst_set_update [simp]: "map fst (set_update es i c) = map fst es"
  by (induction es) (auto simp: set_update_def)

lemma map_of_set_insert: "map_of es i = None \<Longrightarrow> map_of (set_insert es i c) = (map_of es)(i := Some c)"
proof (induction es)
  case (Cons e es)
  then show ?case by (cases e) (fastforce simp: set_insert_def fun_eq_iff split: if_splits)
qed (simp add: set_insert_def)

lemma set_set_insert: "set (set_insert es i c) = insert (i, c) (set es)"
  by (induction es) (auto simp: set_insert_def)

lemma length_set_insert: "length (set_insert es i c) = Suc (length es)"
  by (induction es) (auto simp: set_insert_def)

lemma sorted_set_insert:
  assumes "sorted_wrt (<) (map fst es)" "map_of es i = None"
  shows "sorted_wrt (<) (map fst (set_insert es i c))"
  using assms
proof (induction es)
  case (Cons e es)
  show ?case
  proof (cases "fst e < i")
    case True
    then have "set_insert (e # es) i c = e # set_insert es i c" by (simp add: set_insert_def)
    then show ?thesis using Cons True by (auto simp: set_set_insert split: if_splits)
  next
    case False
    then have "i < fst e" using Cons.prems(2) by (cases e) (auto split: if_splits)
    then show ?thesis using Cons.prems(1) False by (auto simp: set_insert_def)
  qed
qed (simp add: set_insert_def)

lemma map_of_filter_key: "map_of (filter (\<lambda>e. fst e \<noteq> i) es) = (map_of es)(i := None)"
  by (induction es) (auto simp: fun_eq_iff)

lemma sorted_fst_filter: "sorted_wrt (<) (map fst es) \<Longrightarrow> sorted_wrt (<) (map fst (filter P es))"
  by (simp add: sorted_wrt_map sorted_wrt_filter)

lemma length_filter_key:
  fixes es :: "(column_id \<times> cell) list"
  assumes "sorted_wrt (<) (map fst es)" "map_of es i = Some c"
  shows "length (filter (\<lambda>e. fst e \<noteq> i) es) = length es - 1"
proof -
  have "length es = length (filter (\<lambda>e. fst e \<noteq> i) es) + length (filter (\<lambda>e. fst e = i) es)"
    using sum_length_filter_compl [of "\<lambda>e. fst e \<noteq> i" es] by simp
  moreover have "filter (\<lambda>e. fst e = i) es = [(i, c)]"
    using assms
  proof (induction es)
    case (Cons e es)
    show ?case
    proof (cases "fst e = i")
      case True
      have "\<forall>x \<in> set es. fst e < fst x" using Cons.prems(1) by simp
      then have "filter (\<lambda>e. fst e = i) es = []" unfolding filter_empty_conv True [symmetric] by (metis less_irrefl)
      with True Cons.prems(2) show ?thesis by (cases e) simp
    next
      case False
      with Cons show ?thesis by (cases e) simp
    qed
  qed simp
  ultimately show ?thesis by simp
qed

lemma row_cells_ok:
  assumes "row_ok r"
  shows "sorted_wrt (<) (map fst (row_cells r))" "map_of (row_cells r) = find_cell r"
    "\<And>e. e \<in> set (row_cells r) \<Longrightarrow> cell_present (snd e)" "length (row_cells r) = row_size r"
proof -
  have "sorted_wrt (<) (map fst (row_cells r)) \<and> map_of (row_cells r) = find_cell r \<and>
    (\<forall>e \<in> set (row_cells r). cell_present (snd e)) \<and> length (row_cells r) = row_size r"
  proof (cases r)
    case (Vector pr v n)
    let ?ids = "filter (\<lambda>i. pr ! i) [0..<length pr]"
    have "sorted_wrt (<) ?ids" by (intro sorted_wrt_filter) simp
    moreover have "map_of (map (\<lambda>i. (i, v ! i)) ids) j = (if j \<in> set ids then Some (v ! j) else None)" for ids j
      by (induction ids) auto
    moreover have "length ?ids = length (filter (\<lambda>b. b) pr)"
      using arg_cong [OF filter_map [of "\<lambda>b. b" "(!) pr" "[0..<length pr]"], of length]
      by (simp add: map_nth comp_def)
    ultimately show ?thesis
      using assms by (auto simp: Vector row_ok_vector row_cells_def comp_def fun_eq_iff)
  next
    case (Set es n)
    then show ?thesis using assms by (simp add: row_ok_set row_cells_def fun_eq_iff)
  qed
  then show "sorted_wrt (<) (map fst (row_cells r))" "map_of (row_cells r) = find_cell r"
    "\<And>e. e \<in> set (row_cells r) \<Longrightarrow> cell_present (snd e)" "length (row_cells r) = row_size r"
    by auto
qed

lemma row_ok_find: "row_ok r \<Longrightarrow> find_cell r i = Some c \<Longrightarrow> cell_present c"
  using row_cells_ok(2,3) [of r] map_of_SomeD [of "row_cells r" i c] by force

lemma row_set_cell_ok:
  assumes "row_ok r" "find_cell r i = Some d"
  shows "find_cell (row_set_cell r i c) = (find_cell r)(i := Some c)"
    and "cell_present c \<Longrightarrow> row_ok (row_set_cell r i c)"
proof -
  show "find_cell (row_set_cell r i c) = (find_cell r)(i := Some c)"
    using assms by (cases r) (auto simp: row_set_cell_def fun_eq_iff map_of_set_update split: if_splits)
  show "row_ok (row_set_cell r i c)" if "cell_present c"
  proof (cases r)
    case (Vector pr v n)
    then show ?thesis using assms that
      by (auto simp: row_set_cell_def row_ok_vector nth_list_update split: if_splits)
  next
    case (Set es n)
    then show ?thesis using assms that
      by (auto simp: row_set_cell_def row_ok_set) (auto simp: set_update_def)
  qed
qed

lemma set_apply_new:
  assumes "sorted_wrt (<) (map fst es)" "\<forall>e \<in> set es. cell_present (snd e)" "row_size r = length es"
    and "map_of es i = None" "cell_present val"
  shows "\<exists>r' c'. set_apply_cell mv def r es i val = Inr (r', c') \<and> row_ok r' \<and> \<not> cell_present c' \<and>
    find_cell r' = (map_of es)(i := Some val)"
  using assms
  by (simp add: set_apply_cell_def row_ok_set sorted_set_insert set_set_insert length_set_insert
      map_of_set_insert fun_eq_iff) (simp add: cell_present_def cell_empty_def)

lemma row_apply_cell_new:
  assumes "row_ok r" "find_cell r i = None" "cell_present val"
  shows "\<exists>r' c'. row_apply_cell mv def r i val version = Inr (r', c') \<and> row_ok r' \<and> \<not> cell_present c' \<and>
    find_cell r' = (find_cell r)(i := Some val)"
proof (cases r)
  case (Set es n)
  then show ?thesis using assms set_apply_new [of es r i val mv def]
    by (auto simp: row_apply_cell_def row_ok_set fun_eq_iff)
next
  case (Vector pr v n)
  have moved: "\<not> cell_present (moved_from val)" by (simp add: cell_present_def moved_from_def)
  have ok: "length pr = max_vector_size" "length v \<le> max_vector_size"
    "\<And>j. j < max_vector_size \<Longrightarrow> pr ! j \<Longrightarrow> j < length v"
    "\<And>j. j < length v \<Longrightarrow> pr ! j \<longleftrightarrow> cell_present (v ! j)" "n = length (filter (\<lambda>b. b) pr)"
    using assms(1) by (simp_all add: Vector row_ok_vector)
  show ?thesis
  proof (cases "i < max_vector_size")
    case False
    have "\<exists>r' c'. set_apply_cell mv def r (row_cells r) i val = Inr (r', c') \<and> row_ok r' \<and>
        \<not> cell_present c' \<and> find_cell r' = (map_of (row_cells r))(i := Some val)"
      using row_cells_ok [OF assms(1)] assms(2,3) by (intro set_apply_new) simp_all
    then show ?thesis using False row_cells_ok(2) [OF assms(1)] by (simp add: row_apply_cell_def Vector)
  next
    case True
    have pi: "\<not> pr ! i" using ok(3) [OF True] assms(2) by (auto simp: Vector split: if_splits)
    have n: "n + 1 = length (filter (\<lambda>b. b) (pr[i := True]))"
      using ok(1,5) True pi by (simp add: filter_update_True)
    have upd: "pr[i := True] ! j = (if j = i then True else pr ! j)" if "j < max_vector_size" for j
      using that ok(1) by (simp add: nth_list_update)
    show ?thesis
    proof (cases "i < length v")
      case False
      let ?v = "resize v i @ [val]"
      have lr: "length (resize v i) = i" using False by (simp add: resize_def)
      then have len: "length ?v = Suc i" by simp
      have nth: "?v ! j = (if j < length v then v ! j else if j = i then val else cell_empty)" if "j < Suc i" for j
        using that False by (auto simp: resize_def nth_append)
      have absent: "\<not> pr ! j" if "j < Suc i" "\<not> j < length v" for j
        using that True ok(3) [of j] by auto
      have "row_ok \<lparr>row_storage = Vector_storage (pr[i := True]) ?v, row_size = n + 1\<rparr>"
        unfolding row_ok_vector len
      proof (intro conjI allI impI)
        show "length (pr[i := True]) = max_vector_size" using ok(1) by simp
        show "Suc i \<le> max_vector_size" using True by simp
        show "n + 1 = length (filter (\<lambda>b. b) (pr[i := True]))" by (rule n)
        fix j
        show "j < Suc i" if "j < max_vector_size" "pr[i := True] ! j"
          using that upd [OF that(1)] ok(3) [OF that(1)] False by (auto split: if_splits)
        show "pr[i := True] ! j = cell_present (?v ! j)" if "j < Suc i"
        proof -
          have "j < max_vector_size" using that True by simp
          then show ?thesis
            using nth [OF that] upd [of j] ok(4) [of j] absent [OF that] assms(3) False
            by (auto simp: cell_present_def cell_empty_def)
        qed
      qed
      moreover have "find_cell \<lparr>row_storage = Vector_storage (pr[i := True]) ?v, row_size = n + 1\<rparr> j
          = ((find_cell r)(i := Some val)) j" for j
      proof (cases "j < Suc i")
        case lt: True
        then have "j < max_vector_size" using True by simp
        then show ?thesis
          using nth [OF lt] absent [OF lt] upd [of j] lt False by (auto simp: Vector lr)
      qed (use False in \<open>simp add: Vector lr\<close>)
      ultimately show ?thesis
        using True False moved by (auto simp: row_apply_cell_def Vector)
    next
      case lv: True
      then have "\<not> cell_present (v ! i)" using ok(4) pi by blast
      moreover have "row_ok \<lparr>row_storage = Vector_storage (pr[i := True]) (v[i := val]), row_size = n + 1\<rparr>"
        unfolding row_ok_vector
      proof (intro conjI allI impI)
        show "length (pr[i := True]) = max_vector_size" "length (v[i := val]) \<le> max_vector_size"
          using ok(1,2) by simp_all
        show "n + 1 = length (filter (\<lambda>b. b) (pr[i := True]))" by (rule n)
        fix j
        show "j < length (v[i := val])" if "j < max_vector_size" "pr[i := True] ! j"
          using that upd [OF that(1)] ok(3) [OF that(1)] lv by (auto split: if_splits)
        show "pr[i := True] ! j = cell_present (v[i := val] ! j)" if "j < length (v[i := val])"
          using that upd [of j] ok(2) ok(4) [of j] lv assms(3) by (simp add: nth_list_update)
      qed
      moreover have "find_cell \<lparr>row_storage = Vector_storage (pr[i := True]) (v[i := val]), row_size = n + 1\<rparr> j
          = ((find_cell r)(i := Some val)) j" for j
        using upd [of j] ok(2) lv by (auto simp: Vector nth_list_update)
      ultimately show ?thesis
        using True lv moved by (auto simp: row_apply_cell_def Vector)
    qed
  qed
qed

text \<open>The version stamped on a merged cell: only the vector storage passes it on.\<close>

definition version_for :: "row \<Rightarrow> u32 \<Rightarrow> u32" where
  "version_for r version = (case row_storage r of Vector_storage pr v \<Rightarrow> version | Set_storage es \<Rightarrow> 0)"

lemma row_apply_cell_merge:
  assumes "row_ok r" "find_cell r i = Some d"
  shows "row_apply_cell mv def r i val version =
    and_then (cell_apply_reversibly mv def d val (version_for r version)) (\<lambda>(d', s').
      Inr (row_set_cell r i d', s'))"
  using assms
  by (cases r)
    (auto simp: row_apply_cell_def set_apply_cell_def row_set_cell_def version_for_def row_ok_vector
      split: if_splits)

lemma row_revert_cell_remove:
  assumes "row_ok r" "find_cell r i = Some d" "\<not> cell_present src"
  shows "\<exists>r'. row_revert_cell def r i src = Some (r', d) \<and> row_ok r' \<and> find_cell r' = (find_cell r)(i := None)"
proof (cases r)
  case (Vector pr v n)
  have ok: "length pr = max_vector_size" "length v \<le> max_vector_size"
    "\<And>j. j < max_vector_size \<Longrightarrow> pr ! j \<Longrightarrow> j < length v"
    "\<And>j. j < length v \<Longrightarrow> pr ! j \<longleftrightarrow> cell_present (v ! j)" "n = length (filter (\<lambda>b. b) pr)"
    using assms(1) by (simp_all add: Vector row_ok_vector)
  have i: "i < length v" "pr ! i" "v ! i = d" using assms(2) by (auto simp: Vector split: if_splits)
  let ?r = "\<lparr>row_storage = Vector_storage (pr[i := False]) (v[i := src]), row_size = n - 1\<rparr>"
  have upd: "pr[i := False] ! j = (if j = i then False else pr ! j)" if "j < max_vector_size" for j
    using that ok(1) by (simp add: nth_list_update)
  have "row_ok ?r"
    unfolding row_ok_vector
  proof (intro conjI allI impI)
    show "length (pr[i := False]) = max_vector_size" "length (v[i := src]) \<le> max_vector_size"
      using ok(1,2) by simp_all
    show "n - 1 = length (filter (\<lambda>b. b) (pr[i := False]))"
      using i ok(1,2,5) by (simp add: filter_update_False)
    fix j
    show "j < length (v[i := src])" if "j < max_vector_size" "pr[i := False] ! j"
      using that upd [OF that(1)] ok(3) [OF that(1)] by (auto split: if_splits)
    show "pr[i := False] ! j = cell_present (v[i := src] ! j)" if "j < length (v[i := src])"
      using that upd [of j] ok(2) ok(4) [of j] i assms(3) by (simp add: nth_list_update)
  qed
  moreover have "find_cell ?r j = ((find_cell r)(i := None)) j" for j
    using upd [of j] ok(2) i by (auto simp: Vector nth_list_update)
  moreover have "row_revert_cell def r i src = Some (?r, d)"
    using i assms(3) by (simp add: row_revert_cell_def Vector)
  ultimately show ?thesis by auto
next
  case (Set es n)
  then show ?thesis
    using assms by (auto simp: row_revert_cell_def row_ok_set sorted_fst_filter length_filter_key
        map_of_filter_key fun_eq_iff)
qed

lemma row_revert_cell_merge:
  assumes "row_ok r" "find_cell r i = Some d" "cell_present src"
  shows "row_revert_cell def r i src =
    map_option (\<lambda>(d', s'). (row_set_cell r i d', s')) (cell_revert def d src)"
  using assms
  by (cases r) (auto simp: row_revert_cell_def row_set_cell_def split: if_splits)

section \<open>Reverting a cell\<close>

text \<open>The cells a row may hold: atomic cells without a pending revert, live and deleted counter cells, and
  well-formed collections. Counter updates are left out, since their merge cannot be reverted
  (\<open>counter_update_revert_not_inverse\<close> in \<open>Counters\<close>).\<close>

definition cell_ok :: "column_type \<Rightarrow> cell \<Rightarrow> bool" where
  "cell_ok def c \<longleftrightarrow>
     (case def of
        Atomic_column \<Rightarrow> cell_present c \<and> \<not> is_revert_set (cell_data c)
      | Counter_column \<Rightarrow> counter_cell (cell_data c)
      | Collection_column lt eq \<Rightarrow> \<exists>m. coll_ok m \<and> cell_data c = serialize_mutation_form m)"

lemma serialize_nonempty [simp]: "serialize_mutation_form m \<noteq> []" "[] \<noteq> serialize_mutation_form m"
  by (simp_all add: serialize_mutation_form_def write_tomb_def)

lemma counter_bytes_nonempty [simp]: "counter_bytes rv t ss \<noteq> []" "[] \<noteq> counter_bytes rv t ss"
  by (simp_all add: counter_bytes_def)

lemma cell_ok_present: "cell_ok def c \<Longrightarrow> cell_present c"
  by (cases def) (auto simp: cell_ok_def cell_present_def counter_cell_flags)

lemma cell_set_revert_simps [simp]:
  "cell_present (c\<lparr>most_recent_version := w\<rparr>) = cell_present c"
  "cell_present (cell_set_revert c r) = cell_present c"
  "cell_set_revert (cell_set_revert c q) r = cell_set_revert c r"
  "most_recent_version (cell_set_revert c r) = most_recent_version c"
  "cell_present c \<Longrightarrow> is_revert_set (cell_data (cell_set_revert c r)) = r"
  by (simp_all add: cell_set_revert_def cell_present_def)

lemma cell_set_revert_idle: "\<not> is_revert_set (cell_data c) \<Longrightarrow> cell_set_revert c False = c"
  by (simp add: cell_set_revert_def set_revert_idle)

lemma counter_bytes_no_revert: "\<not> is_revert_set (counter_bytes rv t ss)"
  by (simp add: counter_bytes_def is_revert_set_def flag_test counter_flag_bits)

lemma in_place_iff:
  assumes "shards_sorted ds" "shards_sorted ss"
  shows "(length ss \<le> length ds \<and> mv \<and>
      (case apply_in_place (live_counter t ds) (live_counter u ss) of Some (applied, _) \<Rightarrow> applied | None \<Rightarrow> False))
    \<longleftrightarrow> mv \<and> shard_key ` set ss \<subseteq> shard_key ` set ds"
proof (cases "shard_key ` set ss \<subseteq> shard_key ` set ds")
  case True
  have "length ss \<le> length ds" using card_mono [OF _ True] assms [THEN sorted_by_length] by simp
  with True apply_in_place_success [OF assms True, of t u] show ?thesis by simp
next
  case False
  show ?thesis
  proof (cases "ds = []")
    case True
    with False show ?thesis by (cases ss) auto
  next
    case ne: False
    obtain ss' where "apply_in_place (live_counter t ds) (live_counter u ss) =
        Some (False, live_counter t ds, live_counter u ss')"
      using apply_in_place_failure [OF assms ne False, of t u] by metis
    with False show ?thesis by simp
  qed
qed

lemma counter_cell_revert_apply:
  assumes "counter_live (cell_data d)" "counter_live (cell_data s)"
  shows "\<exists>d' s'. counter_cell_apply mv d s = Some (True, d', s') \<and> cell_present d' \<and> cell_present s' \<and>
    \<not> is_revert_set (cell_data s') \<and> cell_data d' = counter_join (cell_data d) (cell_data s) \<and>
    (\<exists>s''. counter_cell_revert d' s' = Some (d, s''))"
proof -
  obtain t ds where d: "cell_data d = live_counter t ds" "shards_sorted ds"
    using assms(1) by (rule counter_liveE)
  obtain u ss where s: "cell_data s = live_counter u ss" "shards_sorted ss"
    using assms(2) by (rule counter_liveE)
  let ?b = "mv \<and> shard_key ` set ss \<subseteq> shard_key ` set ds"
  let ?d = "\<lparr>cell_data = live_counter (ts_max t u) (join ds ss),
      most_recent_version = (if ?b then most_recent_version d else 0)\<rparr>"
  let ?s = "\<lparr>cell_data = (if ?b then counter_bytes True t (take_from ss ds) else live_counter t ds),
      most_recent_version = (if ?b then most_recent_version s else most_recent_version d)\<rparr>"
  have "counter_cell_apply mv d s = Some (True, ?d, ?s)"
    unfolding counter_cell_apply_def d(1) s(1) counter_apply_eq [OF d(2) s(2)] option.case prod.case
      counter_bytes_access(7) in_place_iff [OF d(2) s(2)]
    by (simp add: Let_def)
  moreover have "\<exists>s''. counter_cell_revert ?d ?s = Some (d, s'')"
    using counter_revert_eq [OF d(2) s(2), of t u mv] d(1)
    unfolding counter_cell_revert_def by (cases d) (auto simp: Let_def)
  ultimately show ?thesis
    by (intro exI [of _ ?d] exI [of _ ?s])
      (simp add: cell_present_def counter_bytes_no_revert counter_join_def d(1) s(1))
qed

lemma counter_cell_revert_dead:
  assumes "counter_cell (cell_data d)" "counter_cell (cell_data s)" "\<not> (cell_is_live (cell_data d) \<and> cell_is_live (cell_data s))"
  shows "counter_cell_apply mv d s = Some (True, s, d) \<and> counter_cell_revert s d = Some (d, s) \<or>
    counter_cell_apply mv d s = Some (False, d, s)"
  using assms by (auto simp: counter_cell_apply_def counter_apply_dead counter_cell_revert_def counter_revert_apply_def
      counter_cell_flags Let_def)

lemma cell_apply_revert:
  assumes "cell_ok def d" "cell_ok def s"
  shows "\<exists>d' s' s''. cell_apply_reversibly mv def d s w = Inr (d', s') \<and> cell_present d' \<and> cell_present s' \<and>
    cell_revert def d' s' = Some (d, s'')"
proof (cases def)
  case Atomic_column
  have present: "cell_present d" "cell_present s" using assms by (simp_all add: cell_ok_present)
  have "cell_set_revert d False = d"
    using assms(1) by (intro cell_set_revert_idle) (simp add: cell_ok_def Atomic_column)
  with present show ?thesis
    by (auto simp: cell_apply_reversibly_def cell_revert_def Atomic_column Let_def)
next
  case Counter_column
  then have ok: "counter_cell (cell_data d)" "counter_cell (cell_data s)" using assms by (simp_all add: cell_ok_def)
  have present: "cell_present d" "cell_present s" using assms by (simp_all add: cell_ok_present)
  have idle: "cell_set_revert d False = d" "cell_set_revert s False = s"
    using ok by (auto intro: cell_set_revert_idle simp: counter_cell_flags)
  show ?thesis
  proof (cases "cell_is_live (cell_data d) \<and> cell_is_live (cell_data s)")
    case True
    then obtain d' s' s'' where *: "counter_cell_apply mv d s = Some (True, d', s')" "cell_present d'" "cell_present s'"
      "\<not> is_revert_set (cell_data s')" "counter_cell_revert d' s' = Some (d, s'')"
      using counter_cell_revert_apply [of d s mv] ok by (auto simp: counter_cell_flags)
    then have "cell_set_revert s' False = s'" by (intro cell_set_revert_idle)
    with * show ?thesis
      by (simp add: cell_apply_reversibly_def cell_revert_def Counter_column Let_def)
  next
    case False
    with counter_cell_revert_dead [OF ok] consider
        (swapped) "counter_cell_apply mv d s = Some (True, s, d)" "counter_cell_revert s d = Some (d, s)"
      | (kept) "counter_cell_apply mv d s = Some (False, d, s)" by blast
    then show ?thesis
    proof cases
      case swapped
      then show ?thesis
        using present idle by (simp add: cell_apply_reversibly_def cell_revert_def Counter_column Let_def)
    next
      case kept
      then show ?thesis
        using present idle counter_cell_flags(3) [OF ok(2)]
        by (simp add: cell_apply_reversibly_def cell_revert_def Counter_column)
    qed
  qed
next
  case (Collection_column lt eq)
  then obtain a b where "coll_ok a" "cell_data d = serialize_mutation_form a"
    "coll_ok b" "cell_data s = serialize_mutation_form b"
    using assms by (auto simp: cell_ok_def)
  then show ?thesis
    by (simp add: cell_apply_reversibly_def cell_revert_def Collection_column coll_merge_def
        deserialize_serialize cell_present_def cell_of_def)
qed

section \<open>Reverting a row\<close>

lemma find_cell_row_set_cell:
  "find_cell r i = Some d \<Longrightarrow> find_cell (row_set_cell r i c) = (find_cell r)(i := Some c)"
  by (cases r) (auto simp: row_set_cell_def fun_eq_iff map_of_set_update split: if_splits)

lemma row_cells_row_set_cell [simp]: "map fst (row_cells (row_set_cell r i c)) = map fst (row_cells r)"
  by (cases r) (auto simp: row_set_cell_def row_cells_def comp_def)

text \<open>The trace a merged column leaves: the source cell is empty if the column was new, and
  otherwise reverts the destination cell to the old one.\<close>

definition undoable :: "column_type \<Rightarrow> cell option \<Rightarrow> cell \<Rightarrow> cell \<Rightarrow> bool" where
  "undoable def old x c \<longleftrightarrow>
     (case old of
        None \<Rightarrow> \<not> cell_present c
      | Some d \<Rightarrow> cell_present c \<and> (\<exists>c'. cell_revert def x c = Some (d, c')))"

definition merged_columns :: "row_schema \<Rightarrow> column_id set \<Rightarrow> row \<Rightarrow> row \<Rightarrow> row \<Rightarrow> bool" where
  "merged_columns s cols dst0 dst src \<longleftrightarrow>
     row_ok dst0 \<and> row_ok dst \<and> (\<forall>i. i \<notin> cols \<longrightarrow> find_cell dst i = find_cell dst0 i) \<and>
     (\<forall>i \<in> cols. \<exists>x c. find_cell dst i = Some x \<and> find_cell src i = Some c \<and>
        undoable (s i) (find_cell dst0 i) x c)"

lemma row_revert_column:
  assumes "row_ok dst" "find_cell dst i = Some x" "undoable def old x c" "\<And>d. old = Some d \<Longrightarrow> cell_present d"
  shows "\<exists>dst' c'. row_revert_cell def dst i c = Some (dst', c') \<and> row_ok dst' \<and>
    find_cell dst' = (find_cell dst)(i := old)"
proof (cases old)
  case None
  with assms row_revert_cell_remove [OF assms(1,2), of c def] show ?thesis
    by (auto simp: undoable_def)
next
  case (Some d)
  with assms(3) obtain c' where c: "cell_present c" "cell_revert def x c = Some (d, c')"
    by (auto simp: undoable_def)
  have "row_revert_cell def dst i c = Some (row_set_cell dst i d, c')"
    using row_revert_cell_merge [OF assms(1,2) c(1), of def] c(2) by simp
  with row_set_cell_ok [OF assms(1,2), of d] assms(4) [OF Some] Some show ?thesis by simp
qed

lemma row_rollback_restores:
  "distinct cols \<Longrightarrow> merged_columns s (set cols) dst0 dst src \<Longrightarrow>
   \<exists>dst' src'. row_rollback s cols dst src = Some (dst', src') \<and> row_ok dst' \<and> find_cell dst' = find_cell dst0"
proof (induction cols arbitrary: dst src)
  case Nil
  then show ?case by (auto simp: merged_columns_def)
next
  case (Cons i cols)
  obtain x c where x: "find_cell dst i = Some x" "find_cell src i = Some c"
    "undoable (s i) (find_cell dst0 i) x c"
    using Cons.prems(2) by (auto simp: merged_columns_def)
  have ok: "row_ok dst0" "row_ok dst" using Cons.prems(2) by (simp_all add: merged_columns_def)
  obtain dst1 c1 where r: "row_revert_cell (s i) dst i c = Some (dst1, c1)" "row_ok dst1"
    "find_cell dst1 = (find_cell dst)(i := find_cell dst0 i)"
    using row_revert_column [OF ok(2) x(1,3)] row_ok_find [OF ok(1)] by blast
  have "merged_columns s (set cols) dst0 dst1 (row_set_cell src i c1)"
    using Cons.prems r(2,3) x(2)
    by (auto simp: merged_columns_def find_cell_row_set_cell)
  then obtain dst' src' where "row_rollback s cols dst1 (row_set_cell src i c1) = Some (dst', src')"
    "row_ok dst'" "find_cell dst' = find_cell dst0"
    using Cons.IH Cons.prems(1) by (metis distinct.simps(2))
  with x(2) r(1) show ?case by simp
qed

section \<open>Merging rows\<close>

text \<open>The data a merged column ends up with; it does not depend on the version stamp.\<close>

definition merged_data :: "bool \<Rightarrow> column_type \<Rightarrow> cell option \<Rightarrow> cell \<Rightarrow> bytes" where
  "merged_data mv def old c =
     (case old of
        None \<Rightarrow> cell_data c
      | Some d \<Rightarrow> (case cell_apply_reversibly mv def d c 0 of Inr (d', _) \<Rightarrow> cell_data d' | Inl _ \<Rightarrow> []))"

lemma cell_apply_data:
  "cell_apply_reversibly mv def d c w = Inr (d', c') \<Longrightarrow> merged_data mv def (Some d) c = cell_data d'"
  by (cases def)
    (auto simp: merged_data_def cell_apply_reversibly_def and_then_def split: if_splits option.splits sum.splits)

definition column_ready :: "row_schema \<Rightarrow> row \<Rightarrow> row \<Rightarrow> column_id \<Rightarrow> bool" where
  "column_ready s dst src i \<longleftrightarrow>
     (\<exists>c. find_cell src i = Some c \<and> cell_ok (s i) c) \<and> (\<forall>d. find_cell dst i = Some d \<longrightarrow> cell_ok (s i) d)"

lemma row_apply_column:
  assumes "row_ok dst" "cell_ok def c"
    and "\<And>d. find_cell dst i = Some d \<Longrightarrow> cell_ok def d"
  shows "\<exists>dst' c' x. row_apply_cell mv def dst i c version = Inr (dst', c') \<and> row_ok dst' \<and>
    find_cell dst' = (find_cell dst)(i := Some x) \<and> undoable def (find_cell dst i) x c' \<and>
    cell_data x = merged_data mv def (find_cell dst i) c"
proof (cases "find_cell dst i")
  case None
  with row_apply_cell_new [OF assms(1), of i c mv def version] cell_ok_present [OF assms(2)]
  show ?thesis by (auto simp: undoable_def merged_data_def)
next
  case (Some d)
  obtain d' c' c'' where a: "cell_apply_reversibly mv def d c (version_for dst version) = Inr (d', c')"
    "cell_present d'" "cell_present c'" "cell_revert def d' c' = Some (d, c'')"
    using cell_apply_revert [OF assms(3) [OF Some] assms(2), of mv "version_for dst version"] by blast
  have "row_apply_cell mv def dst i c version = Inr (row_set_cell dst i d', c')"
    using row_apply_cell_merge [OF assms(1) Some, of mv def c version] a(1) by simp
  with row_set_cell_ok [OF assms(1) Some, of d'] a cell_apply_data [OF a(1)] Some show ?thesis
    by (auto simp: undoable_def)
qed

lemma row_apply_loop_correct:
  assumes "distinct (rev handled @ ids)" "merged_columns s (set handled) dst0 dst src"
    and "\<forall>i \<in> set ids. column_ready s dst0 src i"
  shows "\<exists>err dst' src'. row_apply_loop mv s alloc_fails version handled ids dst src = Some (err, dst', src') \<and>
    (case err of
       Some e \<Rightarrow> row_ok dst' \<and> find_cell dst' = find_cell dst0 \<and> (\<exists>i \<in> set ids. alloc_fails i)
     | None \<Rightarrow> merged_columns s (set handled \<union> set ids) dst0 dst' src' \<and>
         map fst (row_cells src') = map fst (row_cells src) \<and>
         (\<forall>i. i \<notin> set ids \<longrightarrow> find_cell dst' i = find_cell dst i) \<and>
         (\<forall>i \<in> set ids. map_option cell_data (find_cell dst' i) =
            Some (merged_data mv (s i) (find_cell dst0 i) (the (find_cell src i)))) \<and>
         (\<forall>i \<in> set ids. \<not> alloc_fails i))"
  using assms
proof (induction ids arbitrary: handled dst src)
  case Nil
  then show ?case by (simp add: merged_columns_def)
next
  case (Cons i ids)
  have i: "i \<notin> set handled" "i \<notin> set ids" using Cons.prems(1) by auto
  have ready: "column_ready s dst0 src i" using Cons.prems(3) by simp
  then obtain c where c: "find_cell src i = Some c" "cell_ok (s i) c" by (auto simp: column_ready_def)
  have ok: "row_ok dst" and same: "find_cell dst i = find_cell dst0 i"
    using Cons.prems(2) i(1) by (auto simp: merged_columns_def)
  show ?case
  proof (cases "alloc_fails i")
    case True
    obtain dst' src' where "row_rollback s handled dst src = Some (dst', src')" "row_ok dst'"
      "find_cell dst' = find_cell dst0"
      using row_rollback_restores [OF _ Cons.prems(2)] Cons.prems(1) by auto
    with True c(1) show ?thesis by auto
  next
    case False
    obtain dst1 c1 x where a: "row_apply_cell mv (s i) dst i c version = Inr (dst1, c1)" "row_ok dst1"
      "find_cell dst1 = (find_cell dst)(i := Some x)" "undoable (s i) (find_cell dst i) x c1"
      "cell_data x = merged_data mv (s i) (find_cell dst i) c"
      using row_apply_column [OF ok c(2), of i mv version] ready same by (auto simp: column_ready_def)
    let ?src = "row_set_cell src i c1"
    have fs: "find_cell ?src = (find_cell src)(i := Some c1)"
      using c(1) by (rule find_cell_row_set_cell)
    have m: "merged_columns s (set (i # handled)) dst0 dst1 ?src"
      using Cons.prems(2) a(2,3,4) fs i(1) same unfolding merged_columns_def by auto
    have r: "\<forall>j \<in> set ids. column_ready s dst0 ?src j"
      using Cons.prems(3) fs i(2) by (auto simp: column_ready_def)
    have d: "distinct (rev (i # handled) @ ids)" using Cons.prems(1) by auto
    obtain err dst' src' where step: "row_apply_loop mv s alloc_fails version (i # handled) ids dst1 ?src
        = Some (err, dst', src')"
      and res: "case err of
         Some e \<Rightarrow> row_ok dst' \<and> find_cell dst' = find_cell dst0 \<and> (\<exists>i \<in> set ids. alloc_fails i)
       | None \<Rightarrow> merged_columns s (set (i # handled) \<union> set ids) dst0 dst' src' \<and>
           map fst (row_cells src') = map fst (row_cells ?src) \<and>
           (\<forall>i. i \<notin> set ids \<longrightarrow> find_cell dst' i = find_cell dst1 i) \<and>
           (\<forall>i \<in> set ids. map_option cell_data (find_cell dst' i) =
              Some (merged_data mv (s i) (find_cell dst0 i) (the (find_cell ?src i)))) \<and>
           (\<forall>i \<in> set ids. \<not> alloc_fails i)"
      using Cons.IH [OF d m r] by blast
    have eq: "row_apply_loop mv s alloc_fails version handled (i # ids) dst src = Some (err, dst', src')"
      using step c(1) a(1) False by simp
    show ?thesis
    proof (cases err)
      case (Some e)
      with eq res show ?thesis by auto
    next
      case None
      have "map_option cell_data (find_cell dst' j) =
          Some (merged_data mv (s j) (find_cell dst0 j) (the (find_cell src j)))" if "j \<in> set (i # ids)" for j
        using that res None a(3,5) fs i(2) c(1) same by (cases "j = i") auto
      moreover have "find_cell dst' j = find_cell dst j" if "j \<notin> set (i # ids)" for j
        using that res None a(3) by auto
      moreover have "set (i # handled) \<union> set ids = set handled \<union> set (i # ids)" by auto
      ultimately show ?thesis using eq res None False by simp
    qed
  qed
qed

lemma vector_to_set_ok:
  assumes "row_ok r"
  shows "row_ok (vector_to_set r)" "find_cell (vector_to_set r) = find_cell r"
  using row_cells_ok [OF assms] by (simp_all add: vector_to_set_def row_ok_def find_cell_def fun_eq_iff)

text \<open>Whether \<open>reserve\<close> allocates before two rows are merged, and which failing allocations a merge runs into.\<close>

definition reserve_allocates :: "nat \<Rightarrow> row \<Rightarrow> row \<Rightarrow> bool" where
  "reserve_allocates internal_count dst src \<longleftrightarrow> row_size src \<noteq> 0 \<and>
     (case row_storage dst of
        Vector_storage pr v \<Rightarrow>
          internal_count \<le> (case row_storage src of Vector_storage pr' w \<Rightarrow> length w - 1 | Set_storage es \<Rightarrow> fst (last es))
      | Set_storage es \<Rightarrow> False)"

definition row_throws :: "nat \<Rightarrow> (column_id option \<Rightarrow> bool) \<Rightarrow> row \<Rightarrow> row \<Rightarrow> bool" where
  "row_throws internal_count alloc_fails dst src \<longleftrightarrow> alloc_fails None \<and> reserve_allocates internal_count dst src \<or>
     (\<exists>i \<in> dom (find_cell src). alloc_fails (Some i))"

lemma reserve_ok:
  assumes "row_ok r" "row_size other \<noteq> 0"
  shows "if fails \<and> reserve_allocates k r other then row_reserve_for k fails r other = Inl Bad_alloc
    else \<exists>r'. row_reserve_for k fails r other = Inr r' \<and> row_ok r' \<and> find_cell r' = find_cell r"
  using assms vector_to_set_ok [OF assms(1)]
  by (auto simp: row_reserve_for_def reserve_def reserve_allocates_def split: storage.splits)

lemma row_cells_ids:
  assumes "row_ok r"
  shows "set (map fst (row_cells r)) = dom (find_cell r)" "distinct (map fst (row_cells r))"
    "row_size r = 0 \<longleftrightarrow> find_cell r = Map.empty"
proof -
  show d: "set (map fst (row_cells r)) = dom (find_cell r)"
    using dom_map_of_conv_image_fst [of "row_cells r"] row_cells_ok(2) [OF assms] by simp
  show "distinct (map fst (row_cells r))"
    using row_cells_ok(1) [OF assms] strict_sorted_iff by blast
  show "row_size r = 0 \<longleftrightarrow> find_cell r = Map.empty"
    using row_cells_ok(4) [OF assms] d dom_eq_empty_conv [of "find_cell r"] by fastforce
qed

text \<open>A row whose cells fit the schema.\<close>

definition row_fits :: "row_schema \<Rightarrow> row \<Rightarrow> bool" where
  "row_fits s r \<longleftrightarrow> row_ok r \<and> (\<forall>e \<in> set (row_cells r). cell_ok (s (fst e)) (snd e))"

lemma row_fits_find: "row_fits s r \<Longrightarrow> find_cell r i = Some c \<Longrightarrow> cell_ok (s i) c"
  using row_cells_ok(2) [of r] map_of_SomeD [of "row_cells r" i c] by (fastforce simp: row_fits_def)

lemma row_apply_reversibly_correct:
  assumes "row_fits s dst" "row_fits s src"
  shows "\<exists>err dst' src'. row_apply_reversibly k mv s alloc_fails dst src version = Some (err, dst', src') \<and>
    (case err of
       Some e \<Rightarrow> row_ok dst' \<and> find_cell dst' = find_cell dst \<and> row_throws k alloc_fails dst src
     | None \<Rightarrow> merged_columns s (dom (find_cell src)) dst dst' src' \<and>
         map fst (row_cells src') = map fst (row_cells src) \<and>
         (\<forall>i \<in> dom (find_cell src). map_option cell_data (find_cell dst' i) =
            Some (merged_data mv (s i) (find_cell dst i) (the (find_cell src i)))) \<and>
         \<not> row_throws k alloc_fails dst src)"
proof -
  have ok: "row_ok dst" "row_ok src" using assms by (simp_all add: row_fits_def)
  note ids = row_cells_ids [OF ok(2)]
  consider "row_size src = 0" | "row_size src \<noteq> 0" "alloc_fails None \<and> reserve_allocates k dst src"
    | "row_size src \<noteq> 0" "\<not> (alloc_fails None \<and> reserve_allocates k dst src)" by blast
  then show ?thesis
  proof cases
    case 1
    then have "dom (find_cell src) = {}" using ids(3) by simp
    with 1 ok show ?thesis
      by (simp add: row_apply_reversibly_def merged_columns_def row_throws_def reserve_allocates_def)
  next
    case 2
    then show ?thesis
      using reserve_ok [OF ok(1) 2(1), of "alloc_fails None" k] ok by (auto simp: row_apply_reversibly_def row_throws_def)
  next
    case 3
    obtain dst1 where r: "row_reserve_for k (alloc_fails None) dst src = Inr dst1" "row_ok dst1" "find_cell dst1 = find_cell dst"
      using reserve_ok [OF ok(1) 3(1), of "alloc_fails None" k] 3(2) by auto
    have m: "merged_columns s (set []) dst dst1 src" using r ok by (simp add: merged_columns_def)
    have ready: "\<forall>i \<in> set (map fst (row_cells src)). column_ready s dst src i"
      using row_fits_find [OF assms(1)] row_fits_find [OF assms(2)] unfolding ids(1) column_ready_def by blast
    have d: "distinct (rev [] @ map fst (row_cells src))" using ids(2) by simp
    obtain err dst' src' where
      loop: "row_apply_loop mv s (\<lambda>i. alloc_fails (Some i)) version [] (map fst (row_cells src)) dst1 src = Some (err, dst', src')"
      and res: "case err of
         Some e \<Rightarrow> row_ok dst' \<and> find_cell dst' = find_cell dst \<and>
           (\<exists>i \<in> set (map fst (row_cells src)). alloc_fails (Some i))
       | None \<Rightarrow> merged_columns s (set [] \<union> set (map fst (row_cells src))) dst dst' src' \<and>
           map fst (row_cells src') = map fst (row_cells src) \<and>
           (\<forall>i. i \<notin> set (map fst (row_cells src)) \<longrightarrow> find_cell dst' i = find_cell dst1 i) \<and>
           (\<forall>i \<in> set (map fst (row_cells src)). map_option cell_data (find_cell dst' i) =
              Some (merged_data mv (s i) (find_cell dst i) (the (find_cell src i)))) \<and>
           (\<forall>i \<in> set (map fst (row_cells src)). \<not> alloc_fails (Some i))"
      using row_apply_loop_correct [OF d m ready] by blast
    have "row_apply_reversibly k mv s alloc_fails dst src version = Some (err, dst', src')"
      using loop 3(1) r(1) by (simp add: row_apply_reversibly_def)
    with res 3(2) show ?thesis unfolding ids(1) row_throws_def by (cases err) auto
  qed
qed

lemma row_range_cells:
  assumes "row_ok r"
  shows "row_range r = row_cells r"
proof (cases r)
  case (Vector pr v n)
  have ok: "length pr = max_vector_size" "length v \<le> max_vector_size"
    "\<And>j. j < max_vector_size \<Longrightarrow> pr ! j \<Longrightarrow> j < length v"
    using assms by (simp_all add: Vector row_ok_vector)
  have "zip [0..<length v] v = map (\<lambda>i. (i, v ! i)) [0..<length v]"
    by (rule nth_equalityI) simp_all
  moreover have "[0..<length pr] = [0..<length v] @ [length v..<length pr]"
    using ok(1,2) upt_add_eq_append [of 0 "length v" "length pr - length v"] by simp
  moreover have "filter (\<lambda>i. pr ! i) [length v..<length pr] = []"
    using ok(1,3) by (fastforce simp: filter_empty_conv)
  ultimately show ?thesis by (simp add: Vector row_range_def row_cells_def filter_map comp_def)
qed (simp add: row_range_def row_cells_def)

section \<open>Comparing and compacting rows\<close>

lemma rel_option_update:
  assumes "f k = None" "g k = None"
  shows "(\<forall>i. rel_option R (if i = k then Some a else f i) (if i = k then Some b else g i)) \<longleftrightarrow>
    R a b \<and> (\<forall>i. rel_option R (f i) (g i))"
proof
  assume *: "\<forall>i. rel_option R (if i = k then Some a else f i) (if i = k then Some b else g i)"
  have "R a b" using spec [OF *, of k] by simp
  moreover have "rel_option R (f i) (g i)" for i using spec [OF *, of i] assms by (cases "i = k") simp_all
  ultimately show "R a b \<and> (\<forall>i. rel_option R (f i) (g i))" by simp
qed simp

lemma list_all2_same_map:
  fixes xs ys :: "(column_id \<times> cell) list"
  assumes "sorted_wrt (<) (map fst xs)" "sorted_wrt (<) (map fst ys)"
  shows "list_all2 (\<lambda>x y. fst x = fst y \<and> cell_eq (snd x) (snd y)) xs ys \<longleftrightarrow>
    (\<forall>i. rel_option cell_eq (map_of xs i) (map_of ys i))"
  using assms
proof (induction xs arbitrary: ys)
  case Nil
  show ?case
  proof (cases ys)
    case (Cons y ys')
    then have "\<not> rel_option cell_eq (map_of [] (fst y)) (map_of ys (fst y))" by (cases y) simp
    with Cons show ?thesis by auto
  qed simp
next
  case (Cons x xs)
  show ?case
  proof (cases ys)
    case Nil
    have "\<not> rel_option cell_eq (map_of (x # xs) (fst x)) (map_of ys (fst x))"
      using Nil by (cases x) simp
    then show ?thesis using Nil by auto
  next
    case (Cons y ys')
    have sx: "\<forall>e \<in> set xs. fst x < fst e" and sy: "\<forall>e \<in> set ys'. fst y < fst e"
      using \<open>sorted_wrt (<) (map fst (x # xs))\<close> \<open>sorted_wrt (<) (map fst ys)\<close> Cons by simp_all
    have nx: "map_of xs i = None" if "i \<le> fst x" for i
      using sx that by (fastforce simp: map_of_eq_None_iff)
    have ny: "map_of ys' i = None" if "i \<le> fst y" for i
      using sy that by (fastforce simp: map_of_eq_None_iff)
    have IH: "list_all2 (\<lambda>x y. fst x = fst y \<and> cell_eq (snd x) (snd y)) xs ys' \<longleftrightarrow>
        (\<forall>i. rel_option cell_eq (map_of xs i) (map_of ys' i))"
      using Cons.IH [of ys'] Cons.prems Cons by simp
    show ?thesis
    proof (cases "fst x = fst y")
      case True
      have eq: "map_of (x # xs) i = (if i = fst x then Some (snd x) else map_of xs i)"
        "map_of ys i = (if i = fst x then Some (snd y) else map_of ys' i)" for i
        using True Cons by (cases x; cases y; simp)+
      show ?thesis
        unfolding eq rel_option_update [where f = "map_of xs" and g = "map_of ys'", OF nx [OF order_refl]
            ny [OF eq_imp_le [OF True]]]
        using IH True Cons by simp
    next
      case False
      have "\<exists>i. \<not> rel_option cell_eq (map_of (x # xs) i) (map_of ys i)"
      proof (cases "fst x < fst y")
        case True
        then have "map_of ys (fst x) = None" using ny [of "fst x"] Cons by (cases y) simp
        then show ?thesis by (intro exI [of _ "fst x"]) (cases x; simp)
      next
        case F: False
        then have "map_of (x # xs) (fst y) = None" using nx [of "fst y"] False by (cases x) simp
        then show ?thesis using Cons by (intro exI [of _ "fst y"]) (cases y; simp)
      qed
      with False Cons show ?thesis by auto
    qed
  qed
qed

lemma row_remove_cell_ok:
  assumes "row_ok r" "find_cell r i = Some d"
  shows "row_ok (row_remove_cell r i)" "find_cell (row_remove_cell r i) = (find_cell r)(i := None)"
proof -
  have "row_revert_cell Atomic_column r i cell_empty = Some (row_remove_cell r i, d)"
    using assms by (cases r) (auto simp: row_revert_cell_def row_remove_cell_def cell_present_def cell_empty_def
        split: if_splits)
  with row_revert_cell_remove [OF assms, of cell_empty Atomic_column]
  show "row_ok (row_remove_cell r i)" "find_cell (row_remove_cell r i) = (find_cell r)(i := None)"
    by (auto simp: cell_present_def cell_empty_def)
qed

lemma cell_ok_cases:
  assumes "cell_ok def c"
  obtains (Atomic) "def = Atomic_column" | (Counter) "def = Counter_column"
  | (Collection) lt eq m where "def = Collection_column lt eq" "coll_ok m" "cell_data c = serialize_mutation_form m"
  using assms by (cases def) (auto simp: cell_ok_def)

lemma compact_atomic_live:
  assumes "def = Atomic_column \<and> \<not> k \<or> def = Counter_column \<and> k" "cell_present c" "rt_ok t"
  shows "\<exists>left. compact_cell def t now can_gc gc_before c = Inr (cell_is_live_at (cell_data c) (rt_tomb t) now k, left) \<and>
    (\<forall>c'. left = Some c' \<longrightarrow> cell_present c')"
proof -
  define e where "e \<longleftrightarrow> sint (cell_deletion_time (cell_data c)) < sint gc_before \<and>
    can_gc (Tombstone (cell_timestamp (cell_data c)) (cell_deletion_time (cell_data c)))"
  define x where "x = cell_of (make_dead (cell_timestamp (cell_data c)) (cell_deletion_time (cell_data c)))"
  have "compact_cell def t now can_gc gc_before c =
      Inr (if is_covered_by (cell_data c) (regular t) k then (False, None)
           else if has_expired (cell_data c) now then (False, if e then None else Some x)
           else if \<not> cell_is_live (cell_data c) then (False, if e then None else Some c)
           else if is_covered_by (cell_data c) (tomb (shadowable t)) k then (False, None)
           else (True, Some c))"
    using assms(1) unfolding compact_cell_def Let_def e_def [symmetric] x_def [symmetric]
    by (elim disjE conjE) simp_all
  moreover have "is_covered_by (cell_data c) (regular t) k \<Longrightarrow> is_covered_by (cell_data c) (tomb (shadowable t)) k"
    by (rule is_covered_by_mono [OF assms(3) [unfolded rt_ok_def]])
  moreover have "cell_present x"
    by (simp add: cell_present_def cell_of_def make_dead_layout x_def)
  ultimately show ?thesis
    using assms(2) unfolding cell_is_live_at_def rt_tomb_def
    by (cases "is_covered_by (cell_data c) (regular t) k"; cases "has_expired (cell_data c) now";
        cases "cell_is_live (cell_data c)"; cases "is_covered_by (cell_data c) (tomb (shadowable t)) k") simp_all
qed

lemma compact_cell_live:
  assumes "cell_ok def c" "rt_ok t"
  shows "\<exists>live left. compact_cell def t now can_gc gc_before c = Inr (live, left) \<and>
    (\<forall>c'. left = Some c' \<longrightarrow> cell_present c') \<and>
    (\<forall>i s cells. s i = def \<longrightarrow> any_live_cell s (rt_tomb t) now ((i, c) # cells) =
       (if live then Inr True else any_live_cell s (rt_tomb t) now cells))"
  using assms(1)
proof (cases rule: cell_ok_cases)
  case (Collection lt eq m)
  show ?thesis
    using collection_compact_reports_liveness [OF Collection(2) assms(2), of now can_gc gc_before] Collection
    by (simp add: compact_cell_def deserialize_serialize Let_def cell_present_def cell_of_def split: prod.split)
next
  case Atomic
  then show ?thesis
    using compact_atomic_live [of Atomic_column False c t now can_gc gc_before] cell_ok_present [OF assms(1)] assms(2)
    by auto
next
  case Counter
  then show ?thesis
    using compact_atomic_live [of Counter_column True c t now can_gc gc_before] cell_ok_present [OF assms(1)] assms(2)
    by auto
qed

lemma compact_cells_live:
  assumes "row_ok r" "rt_ok t" "distinct (map fst cells)"
    and "\<forall>e \<in> set cells. cell_ok (s (fst e)) (snd e) \<and> find_cell r (fst e) = Some (snd e)"
  shows "\<exists>live r'. compact_cells s t now can_gc gc_before cells any_live r = Inr (any_live \<or> live, r') \<and>
    row_ok r' \<and> dom (find_cell r') \<subseteq> dom (find_cell r) \<and> any_live_cell s (rt_tomb t) now cells = Inr live"
  using assms(1,3,4)
proof (induction cells arbitrary: any_live r)
  case (Cons e cells)
  obtain i c where e: "e = (i, c)" by fastforce
  have c: "cell_ok (s i) c" "find_cell r i = Some c" using Cons.prems(3) e by simp_all
  obtain live left where l: "compact_cell (s i) t now can_gc gc_before c = Inr (live, left)"
    "\<forall>c'. left = Some c' \<longrightarrow> cell_present c'"
    "any_live_cell s (rt_tomb t) now ((i, c) # cells) =
       (if live then Inr True else any_live_cell s (rt_tomb t) now cells)"
    using compact_cell_live [OF c(1) assms(2), of now can_gc gc_before] by blast
  let ?r = "case left of None \<Rightarrow> row_remove_cell r i | Some c \<Rightarrow> row_set_cell r i c"
  have r: "row_ok ?r" "find_cell ?r = (find_cell r)(i := left)"
    using row_remove_cell_ok [OF Cons.prems(1) c(2)] row_set_cell_ok [OF Cons.prems(1) c(2)] l(2)
    by (auto split: option.splits)
  have "\<forall>e \<in> set cells. cell_ok (s (fst e)) (snd e) \<and> find_cell ?r (fst e) = Some (snd e)"
    using Cons.prems(2,3) e unfolding r(2) by (auto simp: image_iff)
  then obtain live' r' where "compact_cells s t now can_gc gc_before cells (any_live \<or> live) ?r =
      Inr ((any_live \<or> live) \<or> live', r')" "row_ok r'" "dom (find_cell r') \<subseteq> dom (find_cell ?r)"
    "any_live_cell s (rt_tomb t) now cells = Inr live'"
    using Cons.IH [OF r(1), of "any_live \<or> live"] Cons.prems(2) by auto
  then show ?case
    using l(1,3) c(2) unfolding e r(2)
    by (intro exI [of _ "live \<or> live'"] exI [of _ r']) (auto simp: dom_def split: if_splits)
qed auto

text \<open>The outcome of a merge in one statement: it is defined, throws exactly if it runs into a failing
  allocation and then leaves the cells of the destination as they were, and otherwise
  merges column by column and can be reverted.\<close>

definition columns_merged :: "bool \<Rightarrow> row_schema \<Rightarrow> row \<Rightarrow> row \<Rightarrow> row \<Rightarrow> bool" where
  "columns_merged mv s dst src dst' \<longleftrightarrow>
     (\<forall>i. map_option cell_data (find_cell dst' i) =
        (case find_cell src i of
           None \<Rightarrow> map_option cell_data (find_cell dst i)
         | Some c \<Rightarrow> Some (merged_data mv (s i) (find_cell dst i) c)))"

lemma row_apply_outcome:
  assumes "row_fits s dst" "row_fits s src"
  shows "\<exists>err dst' src'. row_apply_reversibly k mv s alloc_fails dst src version = Some (err, dst', src') \<and>
    (err \<noteq> None \<longleftrightarrow> row_throws k alloc_fails dst src) \<and> row_ok dst' \<and>
    (if err \<noteq> None then find_cell dst' = find_cell dst
     else columns_merged mv s dst src dst' \<and>
       (\<exists>dst'' src''. row_revert s dst' src' = Some (dst'', src'') \<and> row_ok dst'' \<and> find_cell dst'' = find_cell dst))"
proof -
  have ok: "row_ok src" using assms(2) by (simp add: row_fits_def)
  note ids = row_cells_ids [OF ok]
  let ?cols = "dom (find_cell src)"
  obtain err dst' src' where a: "row_apply_reversibly k mv s alloc_fails dst src version = Some (err, dst', src')"
    and res: "case err of
       Some e \<Rightarrow> row_ok dst' \<and> find_cell dst' = find_cell dst \<and> row_throws k alloc_fails dst src
     | None \<Rightarrow> merged_columns s ?cols dst dst' src' \<and> map fst (row_cells src') = map fst (row_cells src) \<and>
         (\<forall>i \<in> ?cols. map_option cell_data (find_cell dst' i) =
            Some (merged_data mv (s i) (find_cell dst i) (the (find_cell src i)))) \<and>
         \<not> row_throws k alloc_fails dst src"
    using row_apply_reversibly_correct [OF assms] by blast
  show ?thesis
  proof (cases err)
    case None
    then have m: "merged_columns s ?cols dst dst' src'" "map fst (row_cells src') = map fst (row_cells src)"
      and data: "\<forall>i \<in> ?cols. map_option cell_data (find_cell dst' i) =
            Some (merged_data mv (s i) (find_cell dst i) (the (find_cell src i)))"
      and fine: "\<not> row_throws k alloc_fails dst src" using res by auto
    have "map_option cell_data (find_cell dst' i) =
         (case find_cell src i of
            None \<Rightarrow> map_option cell_data (find_cell dst i)
          | Some c \<Rightarrow> Some (merged_data mv (s i) (find_cell dst i) c))" for i
      using m(1) bspec [OF data, of i] by (cases "find_cell src i") (auto simp: merged_columns_def domIff)
    then have "columns_merged mv s dst src dst'" by (simp add: columns_merged_def)
    moreover have "row_ok dst'" using m(1) by (simp add: merged_columns_def)
    moreover have "\<exists>dst'' src''. row_revert s dst' src' = Some (dst'', src'') \<and> row_ok dst'' \<and>
         find_cell dst'' = find_cell dst"
      unfolding row_revert_def m(2) by (rule row_rollback_restores) (use ids m(1) in simp_all)
    ultimately show ?thesis using a None fine by auto
  next
    case (Some e)
    then show ?thesis using a res by auto
  qed
qed

section \<open>Properties\<close>

text \<open>C16. Merging a row is exception safe. For two rows of the schema without counter updates, and whatever
  allocations fail, in \<open>reserve\<close> or at any set of columns, \<open>row::apply_reversibly\<close> is defined, it throws exactly if
  it needs one of the failing allocations, and after an exception the destination row is well formed and holds
  exactly the cells (data and versions) it had before, whatever merges, insertions and changes of the storage
  form were already made.\<close>

theorem row_apply_exception_safe:
  assumes "row_fits s dst" "row_fits s src"
  shows "\<exists>err dst' src'. row_apply_reversibly k mv s alloc_fails dst src version = Some (err, dst', src') \<and>
    (err \<noteq> None \<longleftrightarrow> alloc_fails None \<and> reserve_allocates k dst src \<or>
       (\<exists>i \<in> dom (find_cell src). alloc_fails (Some i))) \<and>
    (err \<noteq> None \<longrightarrow> row_ok dst' \<and> find_cell dst' = find_cell dst)"
  using row_apply_outcome [OF assms, of k mv alloc_fails version] unfolding row_throws_def by (auto split: if_splits)

definition example_row :: "column_id \<Rightarrow> i64 \<Rightarrow> row" where
  "example_row i t = append_cell row_empty i (cell_of (make_live t [7]))"

lemma example_row_fits: "row_fits (\<lambda>_. Atomic_column) (example_row 40 t)"
  by (simp add: example_row_def append_cell_def row_empty_def row_fits_def row_ok_def row_cells_def
      set_insert_def max_vector_size_def cell_ok_def cell_of_def cell_present_def make_live_layout is_revert_set_def flag_test flag_bits)

theorem row_apply_exception_safe_witness:
  "\<exists>err dst' src'. row_apply_reversibly 5 True (\<lambda>_. Atomic_column) (\<lambda>i. i = Some 40)
      (example_row 40 3) (example_row 40 5) 9 = Some (Some err, dst', src') \<and>
    row_ok dst' \<and> find_cell dst' = find_cell (example_row 40 3)"
proof -
  have "find_cell (example_row 40 5) 40 \<noteq> None"
    by (simp add: example_row_def append_cell_def row_empty_def row_cells_def set_insert_def max_vector_size_def find_cell_def)
  then have "\<exists>i \<in> dom (find_cell (example_row 40 5)). Some i = Some 40" by auto
  then show ?thesis
    using row_apply_exception_safe [OF example_row_fits [of 3] example_row_fits [of 5], of 5 True "\<lambda>i. i = Some 40" 9] by auto
qed

text \<open>C17. A row refines a finite map from columns to cells. For two rows of the schema without counter updates,
  when no allocation fails, merging them in any combination of the two storage forms gives a well-formed row
  in which each column of the source holds the data of the merge of the two cells and every other column holds
  the data it had; \<open>row::revert\<close> then brings back exactly the cells (data and versions) of before.\<close>

theorem row_apply_refines_map:
  assumes "row_fits s dst" "row_fits s src"
  shows "\<exists>dst' src'. row_apply_reversibly k mv s (\<lambda>_. False) dst src version = Some (None, dst', src') \<and>
    row_ok dst' \<and>
    (\<forall>i. map_option cell_data (find_cell dst' i) =
       (case find_cell src i of
          None \<Rightarrow> map_option cell_data (find_cell dst i)
        | Some c \<Rightarrow> Some (merged_data mv (s i) (find_cell dst i) c))) \<and>
    (\<exists>dst'' src''. row_revert s dst' src' = Some (dst'', src'') \<and> row_ok dst'' \<and>
       find_cell dst'' = find_cell dst)"
  using row_apply_outcome [OF assms, of k mv "\<lambda>_. False" version] by (auto simp: columns_merged_def row_throws_def)

theorem row_apply_refines_map_witness:
  "\<exists>dst' src'. row_apply_reversibly 5 True (\<lambda>_. Atomic_column) (\<lambda>_. False)
      (example_row 40 3) (example_row 40 5) 9 = Some (None, dst', src') \<and>
    row_ok dst' \<and>
    (\<forall>i. map_option cell_data (find_cell dst' i) =
       (case find_cell (example_row 40 5) i of
          None \<Rightarrow> map_option cell_data (find_cell (example_row 40 3) i)
        | Some c \<Rightarrow> Some (merged_data True Atomic_column (find_cell (example_row 40 3) i) c))) \<and>
    (\<exists>dst'' src''. row_revert (\<lambda>_. Atomic_column) dst' src' = Some (dst'', src'') \<and> row_ok dst'' \<and>
       find_cell dst'' = find_cell (example_row 40 3))"
  by (rule row_apply_refines_map [OF example_row_fits example_row_fits])

text \<open>Row equality is equality of the finite maps: \<open>row::operator==\<close> on two well-formed rows, in
  whatever storage forms, holds exactly if every column is absent from both or holds equal cells.\<close>

lemma row_eq_extensional:
  assumes "row_ok a" "row_ok b"
  shows "row_eq a b \<longleftrightarrow> (\<forall>i. rel_option cell_eq (find_cell a i) (find_cell b i))"
proof -
  have "row_eq a b \<longleftrightarrow> row_size a = row_size b \<and> cells_equal (row_cells a) (row_cells b)"
    using assms by (simp add: row_eq_def row_range_cells)
  also have "\<dots> \<longleftrightarrow> cells_equal (row_cells a) (row_cells b)"
    using row_cells_ok(4) [OF assms(1)] row_cells_ok(4) [OF assms(2)]
    by (auto simp: cells_equal_def dest: list_all2_lengthD)
  also have "\<dots> \<longleftrightarrow> (\<forall>i. rel_option cell_eq (find_cell a i) (find_cell b i))"
    using list_all2_same_map [OF row_cells_ok(1) [OF assms(1)] row_cells_ok(1) [OF assms(2)]] assms
    by (simp add: cells_equal_def row_cells_ok(2))
  finally show ?thesis .
qed

lemma row_eq_extensional_witness:
  "row_eq (example_row 40 3) (vector_to_set (example_row 40 3)) \<longleftrightarrow>
    (\<forall>i. rel_option cell_eq (find_cell (example_row 40 3) i) (find_cell (vector_to_set (example_row 40 3)) i))"
  using row_eq_extensional [OF _ vector_to_set_ok(1)] example_row_fits [of 3] by (simp add: row_fits_def)

text \<open>Compacting a row that fits the schema never fails, keeps it well formed, adds no column, and
  reports a live cell exactly if \<open>has_any_live_data\<close> finds one in the row under the same effective
  tombstone and time; this covers atomic, counter and collection columns in both storage forms.\<close>

lemma row_compact_reports_liveness:
  assumes "row_fits s r" "rt_ok t"
  shows "\<exists>live r'. row_compact_and_expire s r t now can_gc gc_before = Inr (live, r') \<and> row_ok r' \<and>
    dom (find_cell r') \<subseteq> dom (find_cell r) \<and> has_any_live_data s r (rt_tomb t) now = Inr live"
proof -
  have ok: "row_ok r" using assms(1) by (simp add: row_fits_def)
  have "\<forall>e \<in> set (row_cells r). cell_ok (s (fst e)) (snd e) \<and> find_cell r (fst e) = Some (snd e)"
    using assms(1) row_cells_ok(2) [OF ok] row_cells_ids(2) [OF ok]
    by (auto simp: row_fits_def) (metis map_of_is_SomeI)
  then show ?thesis
    using compact_cells_live [OF ok assms(2) row_cells_ids(2) [OF ok], of s now can_gc gc_before False]
    by (auto simp: row_compact_and_expire_def has_any_live_data_def)
qed

lemma row_compact_reports_liveness_witness:
  "\<exists>live r'. row_compact_and_expire (\<lambda>_. Atomic_column) (example_row 40 3) (row_tombstone_of (Tombstone 2 1))
       100 (\<lambda>_. True) 50 = Inr (live, r') \<and> row_ok r' \<and>
    dom (find_cell r') \<subseteq> dom (find_cell (example_row 40 3)) \<and>
    has_any_live_data (\<lambda>_. Atomic_column) (example_row 40 3) (rt_tomb (row_tombstone_of (Tombstone 2 1))) 100 = Inr live"
  by (rule row_compact_reports_liveness [OF example_row_fits]) simp

text \<open>The \<open>most_recent_version\<close> handed to \<open>row::apply_reversibly\<close> is stamped on a winning cell of the
  vector storage only: the branch for the set storage does not pass it on, so the same write leaves
  version 0 on a column from 32 on.\<close>

lemma version_lost_in_set_storage:
  "map_option most_recent_version (find_cell (projr (map_sum id fst (row_apply_cell mv Atomic_column
     (example_row 3 1) 3 (cell_of (make_live 2 [7])) 9))) 3) = Some 9"
  "map_option most_recent_version (find_cell (projr (map_sum id fst (row_apply_cell mv Atomic_column
     (example_row 40 1) 40 (cell_of (make_live 2 [7])) 9))) 40) = Some 0"
proof -
  have "compare_atomic_cell_for_merge (make_live 1 [7]) (make_live 2 [7]) < 0"
    by (simp add: compare_atomic_cell_for_merge_def)
  then show "map_option most_recent_version (find_cell (projr (map_sum id fst (row_apply_cell mv Atomic_column
     (example_row 3 1) 3 (cell_of (make_live 2 [7])) 9))) 3) = Some 9"
    "map_option most_recent_version (find_cell (projr (map_sum id fst (row_apply_cell mv Atomic_column
     (example_row 40 1) 40 (cell_of (make_live 2 [7])) 9))) 40) = Some 0"
    by (simp_all add: row_apply_cell_def example_row_def append_cell_def row_empty_def resize_def
        max_vector_size_def set_apply_cell_def set_update_def set_insert_def row_cells_def
        cell_apply_reversibly_def cell_of_def cell_present_def nth_append)
qed

end
