(* ===== verification/Clustering.thy ===== *)
theory Clustering
  imports Prelude
begin

text \<open>
  Clustering key prefixes, the bounds of ranges of them and positions in a partition:
  \<open>prefix_equality_tri_compare\<close> and \<open>lexicographical_tri_compare\<close> (\<open>src/Scylla-moon/types.hh\<close>),
  \<open>bound_kind\<close> and \<open>bound_view\<close> (\<open>clustering_bounds_comparator.hh\<close>, \<open>keys.cc\<close>),
  \<open>position_in_partition\<close> and \<open>position_range\<close> (\<open>position_in_partition.hh\<close>). A prefix is the list
  of its components; a component is an element of a linear order, the one \<open>abstract_type::compare\<close>
  gives to the values of its column.
\<close>

section \<open>Prefixes\<close>

type_synonym 'k clustering_key_prefix = "'k list"

definition type_compare :: "'k :: linorder \<Rightarrow> 'k \<Rightarrow> int" where
  "type_compare x y = (if x < y then -1 else if y < x then 1 else 0)"

fun prefix_equality_tri_compare :: "('k :: linorder) clustering_key_prefix \<Rightarrow> 'k clustering_key_prefix \<Rightarrow> int" where
  "prefix_equality_tri_compare (x # first1) (y # first2) =
     (let c = type_compare x y in if c \<noteq> 0 then c else prefix_equality_tri_compare first1 first2)"
| "prefix_equality_tri_compare first1 first2 = 0"

datatype lexicographical_relation = Before_all_prefixed | Before_all_strictly_prefixed | After_all_prefixed

fun relation_rank :: "lexicographical_relation \<Rightarrow> int" where
  "relation_rank Before_all_prefixed = 0"
| "relation_rank Before_all_strictly_prefixed = 1"
| "relation_rank After_all_prefixed = 2"

text \<open>The overload that walks the column types beside the components; \<open>types\<close> is their number.\<close>

fun lexicographical_tri_compare :: "nat \<Rightarrow> ('k :: linorder) list \<Rightarrow> 'k list \<Rightarrow> lexicographical_relation \<Rightarrow>
    lexicographical_relation \<Rightarrow> int" where
  "lexicographical_tri_compare (Suc types) (x # first1) (y # first2) relation1 relation2 =
     (let c = type_compare x y
      in if c \<noteq> 0 then c else lexicographical_tri_compare types first1 first2 relation1 relation2)"
| "lexicographical_tri_compare types first1 first2 relation1 relation2 =
     (let e1 = first1 = []; e2 = first2 = [] in
      if e1 \<and> e2 then relation_rank relation1 - relation_rank relation2
      else if e2 then (if relation2 = After_all_prefixed then -1 else 1)
      else if e1 then (if relation1 = After_all_prefixed then 1 else -1)
      else 0)"

section \<open>Bounds\<close>

datatype bound_kind = Excl_end | Incl_start | Incl_end | Excl_start

fun invert_kind :: "bound_kind \<Rightarrow> bound_kind" where
  "invert_kind Excl_start = Incl_end"
| "invert_kind Incl_start = Excl_end"
| "invert_kind Excl_end = Incl_start"
| "invert_kind Incl_end = Excl_start"

fun weight :: "bound_kind \<Rightarrow> int" where
  "weight Excl_end = -2"
| "weight Incl_start = -1"
| "weight Incl_end = 1"
| "weight Excl_start = 2"

datatype 'k bound_view = Bound (bv_prefix: "'k clustering_key_prefix") (bv_kind: bound_kind)

definition bound_tri_compare :: "('k :: linorder) clustering_key_prefix \<Rightarrow> int \<Rightarrow> 'k clustering_key_prefix \<Rightarrow> int \<Rightarrow> int" where
  "bound_tri_compare p1 w1 p2 w2 =
     (let res = prefix_equality_tri_compare p1 p2 in
      if res \<noteq> 0 then res
      else let d1 = length p1; d2 = length p2 in
           if d1 = d2 then w1 - w2
           else if d1 < d2 then w1 - of_bool (w1 \<le> 0) else - (w2 - of_bool (w2 \<le> 0)))"

definition bound_less :: "('k :: linorder) bound_view \<Rightarrow> 'k bound_view \<Rightarrow> bool" where
  "bound_less b1 b2 \<longleftrightarrow>
     bound_tri_compare (bv_prefix b1) (weight (bv_kind b1)) (bv_prefix b2) (weight (bv_kind b2)) < 0"

definition bound_less_key :: "('k :: linorder) bound_view \<Rightarrow> 'k clustering_key_prefix \<Rightarrow> bool" where
  "bound_less_key b p \<longleftrightarrow> bound_tri_compare (bv_prefix b) (weight (bv_kind b)) p 0 < 0"

definition key_less_bound :: "('k :: linorder) clustering_key_prefix \<Rightarrow> 'k bound_view \<Rightarrow> bool" where
  "key_less_bound p b \<longleftrightarrow> bound_tri_compare p 0 (bv_prefix b) (weight (bv_kind b)) < 0"

definition bound_equal :: "'k bound_view \<Rightarrow> 'k bound_view \<Rightarrow> bool" where
  "bound_equal b other \<longleftrightarrow> bv_kind b = bv_kind other \<and> bv_prefix b = bv_prefix other"

definition adjacent :: "'k bound_view \<Rightarrow> 'k bound_view \<Rightarrow> bool" where
  "adjacent b other \<longleftrightarrow> invert_kind (bv_kind other) = bv_kind b \<and> bv_prefix b = bv_prefix other"

definition bound_bottom :: "'k bound_view" where "bound_bottom = Bound [] Incl_start"

definition bound_top :: "'k bound_view" where "bound_top = Bound [] Incl_end"

text \<open>A clustering range (\<open>nonwrapping_range<clustering_key_prefix>\<close>): optional bounds, each with its
  value and whether it is inclusive.\<close>

record 'k clustering_range =
  range_start :: "('k clustering_key_prefix \<times> bool) option"
  range_end :: "('k clustering_key_prefix \<times> bool) option"

definition from_range_start :: "'k clustering_range \<Rightarrow> 'k bound_view" where
  "from_range_start r = (case range_start r of
     Some (v, inclusive) \<Rightarrow> Bound v (if inclusive then Incl_start else Excl_start) | None \<Rightarrow> bound_bottom)"

definition from_range_end :: "'k clustering_range \<Rightarrow> 'k bound_view" where
  "from_range_end r = (case range_end r of
     Some (v, inclusive) \<Rightarrow> Bound v (if inclusive then Incl_end else Excl_end) | None \<Rightarrow> bound_top)"

definition from_range :: "'k clustering_range \<Rightarrow> 'k bound_view \<times> 'k bound_view" where
  "from_range r = (from_range_start r, from_range_end r)"

section \<open>Positions in a partition\<close>

fun position_weight :: "bound_kind \<Rightarrow> int" where
  "position_weight Excl_end = -1"
| "position_weight Incl_start = -1"
| "position_weight Incl_end = 1"
| "position_weight Excl_start = 1"

datatype partition_region = Partition_start | Static_row | Clustered | Partition_end

record 'k position_in_partition =
  pos_type :: partition_region
  bound_weight :: int
  ck :: "'k clustering_key_prefix option"

definition position_partition_start :: "'k position_in_partition" where
  "position_partition_start = \<lparr>pos_type = Partition_start, bound_weight = 0, ck = None\<rparr>"

definition position_partition_end :: "'k position_in_partition" where
  "position_partition_end = \<lparr>pos_type = Partition_end, bound_weight = 0, ck = None\<rparr>"

definition for_static_row :: "'k position_in_partition" where
  "for_static_row = \<lparr>pos_type = Static_row, bound_weight = 0, ck = None\<rparr>"

definition for_key :: "'k clustering_key_prefix \<Rightarrow> 'k position_in_partition" where
  "for_key k = \<lparr>pos_type = Clustered, bound_weight = 0, ck = Some k\<rparr>"

definition before_key :: "'k clustering_key_prefix \<Rightarrow> 'k position_in_partition" where
  "before_key k = \<lparr>pos_type = Clustered, bound_weight = -1, ck = Some k\<rparr>"

definition after_key :: "'k clustering_key_prefix \<Rightarrow> 'k position_in_partition" where
  "after_key k = \<lparr>pos_type = Clustered, bound_weight = 1, ck = Some k\<rparr>"

definition position_of_bound :: "'k bound_view \<Rightarrow> 'k position_in_partition" where
  "position_of_bound bv =
     \<lparr>pos_type = Clustered, bound_weight = position_weight (bv_kind bv), ck = Some (bv_prefix bv)\<rparr>"

definition for_range_start :: "'k clustering_range \<Rightarrow> 'k position_in_partition" where
  "for_range_start r = position_of_bound (from_range_start r)"

definition for_range_end :: "'k clustering_range \<Rightarrow> 'k position_in_partition" where
  "for_range_end r = position_of_bound (from_range_end r)"

definition before_all_clustered_rows :: "'k position_in_partition" where
  "before_all_clustered_rows = position_of_bound bound_bottom"

definition after_all_clustered_rows :: "'k position_in_partition" where
  "after_all_clustered_rows = position_of_bound bound_top"

definition is_clustering_row :: "'k position_in_partition \<Rightarrow> bool" where
  "is_clustering_row p \<longleftrightarrow> pos_type p = Clustered \<and> bound_weight p = 0"

text \<open>Dereferencing the key of a position that has none has no value.\<close>

definition is_before_all_fragments :: "bool \<Rightarrow> 'k position_in_partition \<Rightarrow> bool option" where
  "is_before_all_fragments has_static_columns p =
     (if pos_type p = Partition_start \<or> pos_type p = Static_row then Some True
      else if pos_type p = Clustered \<and> \<not> has_static_columns \<and> bound_weight p < 0
      then map_option (\<lambda>k. k = []) (ck p)
      else Some False)"

definition is_after_all_clustered_rows :: "'k position_in_partition \<Rightarrow> bool" where
  "is_after_all_clustered_rows p \<longleftrightarrow> pos_type p = Partition_end \<or> (ck p = Some [] \<and> bound_weight p > 0)"

text \<open>\<open>as_start_bound_view\<close> asserts that the position is not that of a row.\<close>

definition as_start_bound_view :: "'k position_in_partition \<Rightarrow> 'k bound_view option" where
  "as_start_bound_view p =
     (if bound_weight p = 0 then None
      else map_option (\<lambda>k. Bound k (if bound_weight p < 0 then Incl_start else Excl_start)) (ck p))"

definition position_relation :: "'k position_in_partition \<Rightarrow> lexicographical_relation" where
  "position_relation p = (if bound_weight p \<le> 0 then Before_all_prefixed else After_all_prefixed)"

fun region_rank :: "partition_region \<Rightarrow> int" where
  "region_rank Partition_start = 0"
| "region_rank Static_row = 1"
| "region_rank Clustered = 2"
| "region_rank Partition_end = 3"

text \<open>\<open>composite_tri_compare\<close> on two positions; \<open>types\<close> is the number of clustering columns. Two
  positions of one region both have a key or both have none; the code dereferences the second key
  once the first is there.\<close>

definition composite_tri_compare :: "nat \<Rightarrow> ('k :: linorder) position_in_partition \<Rightarrow> 'k position_in_partition \<Rightarrow> int option" where
  "composite_tri_compare types a b =
     (if pos_type a \<noteq> pos_type b then Some (region_rank (pos_type a) - region_rank (pos_type b))
      else case ck a of None \<Rightarrow> Some 0
      | Some p \<Rightarrow> map_option (\<lambda>q. lexicographical_tri_compare types p q (position_relation a) (position_relation b)) (ck b))"

definition position_tri_compare :: "('k :: linorder) position_in_partition \<Rightarrow> 'k position_in_partition \<Rightarrow> int option" where
  "position_tri_compare a b =
     (if pos_type a \<noteq> pos_type b then Some (region_rank (pos_type a) - region_rank (pos_type b))
      else case ck a of None \<Rightarrow> Some 0
      | Some p \<Rightarrow> map_option (\<lambda>q. bound_tri_compare p (bound_weight a) q (bound_weight b)) (ck b))"

definition position_less :: "('k :: linorder) position_in_partition \<Rightarrow> 'k position_in_partition \<Rightarrow> bool" where
  "position_less a b \<longleftrightarrow> (case position_tri_compare a b of Some c \<Rightarrow> c < 0 | None \<Rightarrow> False)"

definition position_equal :: "'k position_in_partition \<Rightarrow> 'k position_in_partition \<Rightarrow> bool" where
  "position_equal a b \<longleftrightarrow>
     pos_type a = pos_type b \<and> (ck a \<noteq> None) = (ck b \<noteq> None) \<and>
     (ck a = None \<or> (ck a = ck b \<and> bound_weight a = bound_weight b))"

definition no_clustering_row_between :: "'k position_in_partition \<Rightarrow> 'k position_in_partition \<Rightarrow> bool" where
  "no_clustering_row_between a b \<longleftrightarrow>
     (if ck a \<noteq> None \<and> ck b \<noteq> None
      then ck a = ck b \<and> (bound_weight a \<ge> 0 \<or> bound_weight b \<le> 0)
      else ck a = None \<and> ck b = None)"

record 'k position_range =
  pr_start :: "'k position_in_partition"
  pr_end :: "'k position_in_partition"

definition position_range_of :: "'k clustering_range \<Rightarrow> 'k position_range" where
  "position_range_of r = \<lparr>pr_start = for_range_start r, pr_end = for_range_end r\<rparr>"

definition position_range_full :: "'k position_range" where
  "position_range_full = \<lparr>pr_start = for_static_row, pr_end = after_all_clustered_rows\<rparr>"

definition position_range_static_row :: "'k position_range" where
  "position_range_static_row = \<lparr>pr_start = for_static_row, pr_end = position_of_bound bound_bottom\<rparr>"

definition all_clustered_rows :: "'k position_range" where
  "all_clustered_rows = \<lparr>pr_start = before_all_clustered_rows, pr_end = after_all_clustered_rows\<rparr>"

definition position_range_contains :: "('k :: linorder) position_range \<Rightarrow> 'k position_in_partition \<Rightarrow> bool" where
  "position_range_contains r pos \<longleftrightarrow> \<not> position_less pos (pr_start r) \<and> position_less pos (pr_end r)"

definition position_range_overlaps :: "('k :: linorder) position_range \<Rightarrow> 'k position_in_partition \<Rightarrow>
    'k position_in_partition \<Rightarrow> bool" where
  "position_range_overlaps r s e \<longleftrightarrow> \<not> position_less e (pr_start r) \<and> position_less s (pr_end r)"

section \<open>The order of weighted prefixes\<close>

lemma bound_tri_compare_simps [simp]:
  "bound_tri_compare [] w1 [] w2 = w1 - w2"
  "bound_tri_compare [] w1 (y # q) w2 = w1 - of_bool (w1 \<le> 0)"
  "bound_tri_compare (x # p) w1 [] w2 = - (w2 - of_bool (w2 \<le> 0))"
  "bound_tri_compare (x # p) w1 (y # q) w2 =
     (if x < y then -1 else if y < x then 1 else bound_tri_compare p w1 q w2)"
  by (simp_all add: bound_tri_compare_def type_compare_def Let_def)

lemma bound_tri_compare_antisym: "bound_tri_compare q w2 p w1 = - bound_tri_compare p w1 q w2"
  by (induction p q rule: list_induct2') auto

lemma bound_tri_compare_zero: "bound_tri_compare p w1 q w2 = 0 \<longleftrightarrow> p = q \<and> w1 = w2"
  by (induction p q rule: list_induct2') auto

lemma bound_tri_compare_trans:
  "bound_tri_compare p w1 q w2 \<le> 0 \<Longrightarrow> bound_tri_compare q w2 r w3 \<le> 0 \<Longrightarrow> bound_tri_compare p w1 r w3 \<le> 0"
proof (induction p arbitrary: q r)
  case Nil
  then show ?case by (cases q; cases r) (auto simp: of_bool_def split: if_splits)
next
  case (Cons x p)
  then show ?case by (cases q; cases r) (auto simp: of_bool_def split: if_splits)
qed

datatype 'k weighted = At "'k clustering_key_prefix" int

instantiation weighted :: (linorder) linorder
begin

fun less_eq_weighted :: "'a weighted \<Rightarrow> 'a weighted \<Rightarrow> bool" where
  "At p v \<le> At q w \<longleftrightarrow> bound_tri_compare p v q w \<le> 0"

fun less_weighted :: "'a weighted \<Rightarrow> 'a weighted \<Rightarrow> bool" where
  "At p v < At q w \<longleftrightarrow> bound_tri_compare p v q w < 0"

instance
proof
  fix x y z :: "'a weighted"
  obtain p u q v r w where eqs: "x = At p u" "y = At q v" "z = At r w" by (metis weighted.exhaust)
  show "(x < y) = (x \<le> y \<and> \<not> y \<le> x)"
    using bound_tri_compare_antisym [of q v p u] eqs by auto
  show "x \<le> x" using bound_tri_compare_zero [of p u p u] eqs by simp
  show "x \<le> z" if "x \<le> y" "y \<le> z" using that bound_tri_compare_trans [of p u q v r w] eqs by simp
  show "x = y" if "x \<le> y" "y \<le> x"
    using that bound_tri_compare_antisym [of q v p u] bound_tri_compare_zero [of p u q v] eqs by simp
  show "x \<le> y \<or> y \<le> x" using bound_tri_compare_antisym [of q v p u] eqs by auto
qed

end

section \<open>Bounds as cuts\<close>

text \<open>A bound splits the keys into those before and those after it. The inclusive start and the
  exclusive end of one prefix are the same cut, as are its exclusive start and inclusive end.\<close>

definition bound_at :: "'k bound_view \<Rightarrow> 'k weighted" where
  "bound_at b = At (bv_prefix b) (weight (bv_kind b))"

definition cut :: "'k bound_view \<Rightarrow> 'k weighted" where
  "cut b = At (bv_prefix b) (position_weight (bv_kind b))"

fun is_start :: "bound_kind \<Rightarrow> bool" where
  "is_start Incl_start = True"
| "is_start Excl_start = True"
| "is_start Excl_end = False"
| "is_start Incl_end = False"

definition start_bound :: "'k bound_view \<Rightarrow> bool" where
  "start_bound b \<longleftrightarrow> is_start (bv_kind b)"

definition invert_bound :: "'k bound_view \<Rightarrow> 'k bound_view" where
  "invert_bound b = Bound (bv_prefix b) (invert_kind (bv_kind b))"

lemma bound_tri_compare_sign:
  assumes "p \<noteq> q" "(0 < v) = (0 < v')" "(0 < w) = (0 < w')"
  shows "bound_tri_compare p v q w < 0 \<longleftrightarrow> bound_tri_compare p v' q w' < 0"
  using assms by (induction p q rule: list_induct2') auto

lemma bound_tri_compare_same [simp]: "bound_tri_compare p v p w = v - w"
  by (induction p) auto

lemma invert_kind_involutive [simp]: "invert_kind (invert_kind k) = k"
  by (cases k) simp_all

lemma is_start_invert [simp]: "is_start (invert_kind k) \<longleftrightarrow> \<not> is_start k"
  by (cases k) simp_all

lemma position_weight_invert [simp]: "position_weight (invert_kind k) = position_weight k"
  by (cases k) simp_all

lemma weight_sign: "0 < position_weight k \<longleftrightarrow> 0 < weight k"
  by (cases k) simp_all

lemma invert_bound_simps [simp]:
  "cut (invert_bound b) = cut b" "start_bound (invert_bound b) \<longleftrightarrow> \<not> start_bound b"
  "bv_prefix (invert_bound b) = bv_prefix b" "bv_kind (invert_bound b) = invert_kind (bv_kind b)"
  by (simp_all add: invert_bound_def cut_def start_bound_def)

lemma bound_less_cut:
  "bound_less b c \<longleftrightarrow>
     (if \<not> start_bound b \<and> start_bound c then cut b \<le> cut c else cut b < cut c)"
proof (cases "bv_prefix b = bv_prefix c")
  case True
  then show ?thesis
    by (cases "bv_kind b"; cases "bv_kind c") (simp_all add: bound_less_def cut_def start_bound_def)
next
  case False
  then have "cut b \<noteq> cut c" by (simp add: cut_def)
  moreover have "bound_less b c \<longleftrightarrow> cut b < cut c"
    using bound_tri_compare_sign [OF False weight_sign weight_sign]
    by (simp add: bound_less_def cut_def)
  ultimately show ?thesis by (simp add: less_le)
qed

lemma key_less_bound_cut: "key_less_bound k b \<longleftrightarrow> At k 0 < cut b"
proof (cases "k = bv_prefix b")
  case True
  then show ?thesis by (cases "bv_kind b") (simp_all add: key_less_bound_def cut_def)
next
  case False
  then show ?thesis
    using bound_tri_compare_sign [OF False refl weight_sign [symmetric], of 0 "bv_kind b"]
    by (simp add: key_less_bound_def cut_def)
qed

lemma cut_not_key [simp]: "cut b \<noteq> At k 0" "At k 0 \<noteq> cut b"
  by (cases "bv_kind b"; simp add: cut_def)+

lemma bound_less_key_cut: "bound_less_key b k \<longleftrightarrow> cut b < At k 0"
proof -
  have "bound_less_key b k \<longleftrightarrow> \<not> key_less_bound k b"
    using bound_tri_compare_antisym [of k 0 "bv_prefix b" "weight (bv_kind b)"]
      bound_tri_compare_zero [of k 0 "bv_prefix b" "weight (bv_kind b)"]
    by (cases "bv_kind b") (auto simp: bound_less_key_def key_less_bound_def)
  then show ?thesis using cut_not_key(1) [of b k] by (auto simp: key_less_bound_cut not_less le_less)
qed

lemma adjacent_cut: "\<not> start_bound b \<Longrightarrow> start_bound c \<Longrightarrow> adjacent b c \<longleftrightarrow> cut b = cut c"
  by (cases "bv_kind b"; cases "bv_kind c") (auto simp: adjacent_def cut_def start_bound_def)

lemma cut_inj: "start_bound b = start_bound c \<Longrightarrow> cut b = cut c \<Longrightarrow> b = c"
  by (cases b; cases c; cases "bv_kind b"; cases "bv_kind c") (auto simp: cut_def start_bound_def)

lemmas bound_cut = bound_less_cut key_less_bound_cut bound_less_key_cut adjacent_cut

end
