(* ===== verification/Range_Tombstones.thy ===== *)
theory Range_Tombstones
  imports Clustering Tombstones "HOL-Library.Monad_Syntax"
begin

text \<open>
  Range deletions: \<open>class range_tombstone\<close> and \<open>class range_tombstone_accumulator\<close>
  (\<open>src/Scylla-moon/range_tombstone.hh\<close>, \<open>range_tombstone.cc\<close>) and \<open>class range_tombstone_list\<close> with
  its undo log (\<open>range_tombstone_list.hh\<close>, \<open>range_tombstone_list.cc\<close>). The list is a
  \<open>boost::intrusive::set\<close>; it is modelled as the list of its nodes in order, a node being its address
  and its content, because the undo log refers to nodes by address. An iterator is a split of the list.
\<close>

section \<open>Range tombstones\<close>

record 'k range_tombstone =
  rt_start :: "'k clustering_key_prefix"
  rt_start_kind :: bound_kind
  rt_end :: "'k clustering_key_prefix"
  rt_end_kind :: bound_kind
  tomb_of :: tombstone

definition range_tombstone_of :: "'k bound_view \<Rightarrow> 'k bound_view \<Rightarrow> tombstone \<Rightarrow> 'k range_tombstone" where
  "range_tombstone_of s e t =
     \<lparr>rt_start = bv_prefix s, rt_start_kind = bv_kind s, rt_end = bv_prefix e, rt_end_kind = bv_kind e, tomb_of = t\<rparr>"

definition rt_start_bound :: "'k range_tombstone \<Rightarrow> 'k bound_view" where
  "rt_start_bound rt = Bound (rt_start rt) (rt_start_kind rt)"

definition rt_end_bound :: "'k range_tombstone \<Rightarrow> 'k bound_view" where
  "rt_end_bound rt = Bound (rt_end rt) (rt_end_kind rt)"

definition rt_position :: "'k range_tombstone \<Rightarrow> 'k position_in_partition" where
  "rt_position rt = position_of_bound (rt_start_bound rt)"

definition rt_end_position :: "'k range_tombstone \<Rightarrow> 'k position_in_partition" where
  "rt_end_position rt = position_of_bound (rt_end_bound rt)"

definition rt_equal :: "'k range_tombstone \<Rightarrow> 'k range_tombstone \<Rightarrow> bool" where
  "rt_equal rt other \<longleftrightarrow> tomb_of rt = tomb_of other \<and> bound_equal (rt_start_bound rt) (rt_start_bound other)
     \<and> bound_equal (rt_end_bound rt) (rt_end_bound other)"

definition is_single_clustering_row_tombstone :: "nat \<Rightarrow> 'k clustering_key_prefix \<Rightarrow> bound_kind \<Rightarrow>
    'k clustering_key_prefix \<Rightarrow> bound_kind \<Rightarrow> bool" where
  "is_single_clustering_row_tombstone key_size s s_kind e e_kind \<longleftrightarrow>
     length s = key_size \<and> s_kind = Incl_start \<and> e_kind = Incl_end \<and> s = e"

text \<open>\<open>apply\<close> of two tombstones with one start bound: the new content and the remainder.\<close>

definition range_tombstone_apply :: "('k :: linorder) range_tombstone \<Rightarrow> 'k range_tombstone \<Rightarrow>
    'k range_tombstone \<times> 'k range_tombstone option" where
  "range_tombstone_apply self src =
     (if tomb_of self = tomb_of src
      then (if bound_less (rt_end_bound self) (rt_end_bound src)
            then self\<lparr>rt_end := rt_end src, rt_end_kind := rt_end_kind src\<rparr> else self, None)
      else let (self, src) = (if tomb_of self < tomb_of src then (src, self) else (self, src)) in
           if bound_less (rt_end_bound self) (rt_end_bound src)
           then (self, Some \<lparr>rt_start = rt_end self, rt_start_kind = invert_kind (rt_end_kind self),
                            rt_end = rt_end src, rt_end_kind = rt_end_kind src, tomb_of = tomb_of src\<rparr>)
           else (self, None))"

text \<open>\<open>trim_front\<close>: whether there is an overlap, and the tombstone.\<close>

definition trim_front :: "('k :: linorder) position_in_partition \<Rightarrow> 'k range_tombstone \<Rightarrow>
    (bool \<times> 'k range_tombstone) option" where
  "trim_front pos rt =
     (if \<not> position_less pos (rt_end_position rt) then Some (False, rt)
      else if position_less (rt_position rt) pos
      then map_option (\<lambda>s. (True, rt\<lparr>rt_start := bv_prefix s, rt_start_kind := bv_kind s\<rparr>)) (as_start_bound_view pos)
      else Some (True, rt))"

section \<open>The accumulator\<close>

record 'k accumulator =
  partition_tombstone :: tombstone
  range_tombstones :: "'k range_tombstone list"
  current_tombstone :: tombstone
  reversed :: bool

definition accumulator_empty :: "bool \<Rightarrow> 'k accumulator" where
  "accumulator_empty rv = \<lparr>partition_tombstone = tombstone_none, range_tombstones = [],
     current_tombstone = tombstone_none, reversed = rv\<rparr>"

definition update_current_tombstone :: "'k accumulator \<Rightarrow> 'k accumulator" where
  "update_current_tombstone a =
     a\<lparr>current_tombstone := foldl (\<lambda>t rt. tomb_apply t (tomb_of rt)) (partition_tombstone a) (range_tombstones a)\<rparr>"

definition set_partition_tombstone :: "tombstone \<Rightarrow> 'k accumulator \<Rightarrow> 'k accumulator" where
  "set_partition_tombstone t a = update_current_tombstone (a\<lparr>partition_tombstone := t\<rparr>)"

definition drop_before :: "bool \<Rightarrow> ('k :: linorder) clustering_key_prefix \<Rightarrow> int \<Rightarrow> 'k range_tombstone \<Rightarrow> bool" where
  "drop_before rv k w rt =
     (if rv
      then let bv = rt_start_bound rt in bound_tri_compare k w (bv_prefix bv) (weight (bv_kind bv)) < 0
      else let bv = rt_end_bound rt in bound_tri_compare (bv_prefix bv) (weight (bv_kind bv)) k w < 0)"

definition drop_unneeded_tombstones :: "('k :: linorder) clustering_key_prefix \<Rightarrow> int \<Rightarrow> 'k accumulator \<Rightarrow> 'k accumulator" where
  "drop_unneeded_tombstones k w a =
     update_current_tombstone
       (a\<lparr>range_tombstones := dropWhile (drop_before (reversed a) k w) (range_tombstones a)\<rparr>)"

definition tombstone_for_row :: "('k :: linorder) clustering_key_prefix \<Rightarrow> 'k accumulator \<Rightarrow> tombstone \<times> 'k accumulator" where
  "tombstone_for_row k a = (let a = drop_unneeded_tombstones k 0 a in (current_tombstone a, a))"

definition accumulator_less :: "bool \<Rightarrow> ('k :: linorder) range_tombstone \<Rightarrow> 'k range_tombstone \<Rightarrow> bool" where
  "accumulator_less rv rt1 rt2 =
     (if rv then bound_less (rt_start_bound rt2) (rt_start_bound rt1)
      else bound_less (rt_end_bound rt1) (rt_end_bound rt2))"

text \<open>\<open>boost::upper_bound\<close> on a range ordered by the comparator.\<close>

definition accumulator_apply :: "('k :: linorder) range_tombstone \<Rightarrow> 'k accumulator \<Rightarrow> 'k accumulator" where
  "accumulator_apply rt a =
     (let a = (if reversed a then drop_unneeded_tombstones (rt_end rt) (weight (rt_end_kind rt)) a
               else drop_unneeded_tombstones (rt_start rt) (weight (rt_start_kind rt)) a);
          a = a\<lparr>current_tombstone := tomb_apply (current_tombstone a) (tomb_of rt)\<rparr>;
          before_it = takeWhile (\<lambda>x. \<not> accumulator_less (reversed a) rt x) (range_tombstones a);
          from_it = dropWhile (\<lambda>x. \<not> accumulator_less (reversed a) rt x) (range_tombstones a)
      in a\<lparr>range_tombstones := before_it @ rt # from_it\<rparr>)"

definition accumulator_clear :: "'k accumulator \<Rightarrow> 'k accumulator" where
  "accumulator_clear a =
     a\<lparr>range_tombstones := [], partition_tombstone := tombstone_none, current_tombstone := tombstone_none\<rparr>"

section \<open>The list and its undo log\<close>

type_synonym 'k rt_node = "nat \<times> 'k range_tombstone"

datatype 'k undo_op = Erase_undo "'k rt_node" | Insert_undo nat | Update_undo "'k range_tombstone" nat

text \<open>A reverter at work on its list: the nodes the iterator has passed (the last one first) and the
  ones from the iterator on, the undo log, the next free address, whether it is a \<open>reverter\<close> or a
  \<open>nop_reverter\<close>, and the number of modifications that succeed before an allocation fails (\<open>None\<close> if
  none fails). Every
  expression of the code that may throw stands before the modification it belongs to.\<close>

record 'k reverter =
  passed :: "'k rt_node list"
  rest :: "'k rt_node list"
  undo_ops :: "'k undo_op list"
  next_addr :: nat
  recording :: bool
  budget :: "nat option"

definition nodes :: "'k reverter \<Rightarrow> 'k rt_node list" where
  "nodes r = rev (passed r) @ rest r"

definition log_op :: "'k undo_op \<Rightarrow> 'k reverter \<Rightarrow> 'k reverter" where
  "log_op u r = r\<lparr>budget := map_option (\<lambda>b. b - 1) (budget r), undo_ops := (if recording r then undo_ops r @ [u] else undo_ops r)\<rparr>"

text \<open>\<open>insert\<close> before the iterator, which stays where it is.\<close>

definition rev_insert :: "'k range_tombstone \<Rightarrow> 'k reverter \<Rightarrow> 'k reverter option" where
  "rev_insert new_rt r =
     (if budget r = Some 0 then None
      else Some (log_op (Insert_undo (next_addr r))
                  (r\<lparr>passed := (next_addr r, new_rt) # passed r, next_addr := Suc (next_addr r)\<rparr>)))"

definition rev_erase :: "'k reverter \<Rightarrow> 'k reverter option" where
  "rev_erase r =
     (case rest r of
        [] \<Rightarrow> None
      | it # xs \<Rightarrow> if budget r = Some 0 then None else Some (log_op (Erase_undo it) (r\<lparr>rest := xs\<rparr>)))"

definition rev_erase_prev :: "'k reverter \<Rightarrow> 'k reverter option" where
  "rev_erase_prev r =
     (case passed r of
        [] \<Rightarrow> None
      | prev # xs \<Rightarrow> if budget r = Some 0 then None else Some (log_op (Erase_undo prev) (r\<lparr>passed := xs\<rparr>)))"

definition rev_update :: "'k range_tombstone \<Rightarrow> 'k reverter \<Rightarrow> 'k reverter option" where
  "rev_update new_rt r =
     (case rest r of
        [] \<Rightarrow> None
      | it # xs \<Rightarrow> if budget r = Some 0 then None
          else Some (log_op (Update_undo (snd it) (fst it)) (r\<lparr>rest := (fst it, new_rt) # xs\<rparr>)))"

text \<open>One round of the loop continues with new bounds, returns, or throws in the state it reached.\<close>

datatype 'k round = Continue "'k reverter" "'k bound_view" "'k bound_view" | Return "'k reverter" | Throw "'k reverter"

definition attempt :: "('k reverter \<Rightarrow> 'k reverter option) \<Rightarrow> 'k reverter \<Rightarrow> ('k reverter \<Rightarrow> 'k round) \<Rightarrow> 'k round" where
  "attempt m r k = (case m r of None \<Rightarrow> Throw r | Some r \<Rightarrow> k r)"

definition pass_node :: "'k rt_node \<Rightarrow> 'k rt_node list \<Rightarrow> 'k reverter \<Rightarrow> 'k reverter" where
  "pass_node it xs r = r\<lparr>passed := it # passed r, rest := xs\<rparr>"

text \<open>The branches of the loop body: the same deletion time, an older and a newer current tombstone.\<close>

definition merge_same :: "'k :: linorder rt_node \<Rightarrow> 'k bound_view \<Rightarrow> 'k bound_view \<Rightarrow> 'k reverter \<Rightarrow> 'k round" where
  "merge_same it s e r =
     (let s' = (if bound_less (rt_start_bound (snd it)) s then rt_start_bound (snd it) else s);
          e' = (if bound_less e (rt_end_bound (snd it)) then rt_end_bound (snd it) else e)
      in attempt rev_erase r (\<lambda>r. Continue r s' e'))"

definition overwrite_rest :: "'k :: linorder range_tombstone \<Rightarrow> 'k bound_view \<Rightarrow> 'k bound_view \<Rightarrow> tombstone \<Rightarrow>
    'k reverter \<Rightarrow> 'k round" where
  "overwrite_rest it s e t r =
     (if bound_less e (rt_end_bound it)
      then attempt (rev_update (range_tombstone_of (invert_bound e) (rt_end_bound it) (tomb_of it))) r (\<lambda>r.
           attempt (rev_insert (range_tombstone_of s e t)) r Return)
      else attempt rev_erase r (\<lambda>r. Continue r s e))"

definition overwrite :: "'k :: linorder rt_node \<Rightarrow> 'k bound_view \<Rightarrow> 'k bound_view \<Rightarrow> tombstone \<Rightarrow> 'k reverter \<Rightarrow> 'k round" where
  "overwrite it s e t r =
     (let i = snd it; new_end = invert_bound s in
      if bound_less (rt_start_bound i) s \<and> \<not> bound_less new_end (rt_start_bound i)
      then let i' = range_tombstone_of s (rt_end_bound i) (tomb_of i) in
           attempt (rev_update i') r (\<lambda>r.
           attempt (rev_insert (range_tombstone_of (rt_start_bound i) new_end (tomb_of i))) r (\<lambda>r.
           overwrite_rest i' s e t r))
      else overwrite_rest i s e t r)"

definition keep_rest :: "'k :: linorder rt_node \<Rightarrow> 'k rt_node list \<Rightarrow> 'k bound_view \<Rightarrow> 'k reverter \<Rightarrow> 'k round" where
  "keep_rest it xs e r =
     (if bound_less (rt_end_bound (snd it)) e
      then Continue (pass_node it xs r) (invert_bound (rt_end_bound (snd it))) e
      else Return r)"

definition keep :: "'k :: linorder rt_node \<Rightarrow> 'k rt_node list \<Rightarrow> 'k bound_view \<Rightarrow> 'k bound_view \<Rightarrow> tombstone \<Rightarrow>
    'k reverter \<Rightarrow> 'k round" where
  "keep it xs s e t r =
     (let i = snd it in
      if bound_less s (rt_start_bound i)
      then if bound_less (rt_start_bound i) e
           then let new_end = invert_bound (rt_start_bound i) in
                if \<not> bound_less new_end s
                then attempt (rev_insert (range_tombstone_of s new_end t)) r (keep_rest it xs e)
                else keep_rest it xs e r
           else attempt (rev_insert (range_tombstone_of s e t)) r Return
      else keep_rest it xs e r)"

definition insert_round :: "('k :: linorder) bound_view \<Rightarrow> 'k bound_view \<Rightarrow> tombstone \<Rightarrow> 'k reverter \<Rightarrow> 'k round" where
  "insert_round s e t r =
     (case rest r of
        [] \<Rightarrow> attempt (rev_insert (range_tombstone_of s e t)) r Return
      | it # xs \<Rightarrow>
          let i = snd it in
          if bound_less e s then Return r
          else if bound_less e (rt_start_bound i)
          then if tomb_of i = t \<and> adjacent e (rt_start_bound i)
               then attempt (rev_update (range_tombstone_of s (rt_end_bound i) t)) r Return
               else attempt (rev_insert (range_tombstone_of s e t)) r Return
          else let c = tomb_compare t (tomb_of i) in
               if c = 0 then merge_same it s e r
               else if c > 0 then overwrite it s e t r
               else keep it xs s e t r)"

partial_function (option) insert_loop :: "('k :: linorder) bound_view \<Rightarrow> 'k bound_view \<Rightarrow> tombstone \<Rightarrow> 'k reverter \<Rightarrow>
    (bool \<times> 'k reverter) option" where
  [code]: "insert_loop s e t r =
     (case insert_round s e t r of
        Continue r s e \<Rightarrow> insert_loop s e t r
      | Return r \<Rightarrow> Some (True, r)
      | Throw r \<Rightarrow> Some (False, r))"

text \<open>\<open>insert_from\<close> and \<open>apply_reversibly\<close>; the flag is false if an exception was thrown.\<close>

definition insert_from :: "('k :: linorder) bound_view \<Rightarrow> 'k bound_view \<Rightarrow> tombstone \<Rightarrow> 'k reverter \<Rightarrow>
    (bool \<times> 'k reverter) option" where
  "insert_from s e t r =
     (case passed r of
        [] \<Rightarrow> insert_loop s e t r
      | prev # _ \<Rightarrow>
          if tomb_of (snd prev) = t \<and> adjacent (rt_end_bound (snd prev)) s
          then (case rev_erase_prev r of
                  None \<Rightarrow> Some (False, r)
                | Some r \<Rightarrow> insert_loop (rt_start_bound (snd prev)) e t r)
          else insert_loop s e t r)"

definition seek :: "('k rt_node \<Rightarrow> bool) \<Rightarrow> 'k reverter \<Rightarrow> 'k reverter" where
  "seek P r = r\<lparr>passed := rev (takeWhile P (nodes r)), rest := dropWhile P (nodes r)\<rparr>"

definition apply_reversibly :: "('k :: linorder) bound_view \<Rightarrow> 'k bound_view \<Rightarrow> tombstone \<Rightarrow> 'k reverter \<Rightarrow>
    (bool \<times> 'k reverter) option" where
  "apply_reversibly s e t r =
     (if nodes r \<noteq> []
      then if bound_less s (rt_end_bound (snd (last (nodes r))))
           then insert_from s e t (seek (\<lambda>n. \<not> bound_less s (rt_end_bound (snd n))) r)
           else insert_from s e t (seek (\<lambda>n. True) r)
      else case rev_insert (range_tombstone_of s e t) (seek (\<lambda>n. True) r) of
             None \<Rightarrow> Some (False, r)
           | Some r \<Rightarrow> Some (True, r))"

text \<open>\<open>reverter::update\<close> and \<open>revert\<close>: \<open>find\<close> splits the list at the node with the given content.\<close>

definition find_rt :: "('k :: linorder) range_tombstone \<Rightarrow> 'k rt_node list \<Rightarrow>
    ('k rt_node list \<times> 'k rt_node \<times> 'k rt_node list) option" where
  "find_rt rt l =
     (let P = (\<lambda>n. bound_less (rt_end_bound (snd n)) (rt_end_bound rt)) in
      case dropWhile P l of
        [] \<Rightarrow> None
      | n # xs \<Rightarrow> if \<not> bound_less (rt_end_bound rt) (rt_end_bound (snd n)) \<and> rt_equal (snd n) rt
                then Some (takeWhile P l, n, xs) else None)"

text \<open>\<open>bi::set::insert\<close> of a node, ordered by start bound, no two equal.\<close>

definition set_insert_rt :: "('k :: linorder) rt_node \<Rightarrow> 'k rt_node list \<Rightarrow> 'k rt_node list" where
  "set_insert_rt n l =
     (let P = (\<lambda>m. bound_less (rt_start_bound (snd m)) (rt_start_bound (snd n))) in
      case dropWhile P l of
        [] \<Rightarrow> l @ [n]
      | m # xs \<Rightarrow> if bound_less (rt_start_bound (snd n)) (rt_start_bound (snd m))
                then takeWhile P l @ n # m # xs else l)"

text \<open>\<open>undo\<close> of one operation; no value if the node is not found (the code asserts that it is).\<close>

fun undo_rt :: "('k :: linorder) undo_op \<Rightarrow> 'k rt_node list \<Rightarrow> 'k rt_node list option" where
  "undo_rt (Insert_undo a) l = do {
     new_rt \<leftarrow> map_of l a;
     (xs, _, ys) \<leftarrow> find_rt new_rt l;
     Some (xs @ ys)
   }"
| "undo_rt (Erase_undo n) l = Some (set_insert_rt n l)"
| "undo_rt (Update_undo old_rt a) l = do {
     new_rt \<leftarrow> map_of l a;
     (xs, it, ys) \<leftarrow> find_rt new_rt l;
     Some (xs @ (fst it, old_rt) # ys)
   }"

fun undo_all :: "('k :: linorder) undo_op list \<Rightarrow> 'k rt_node list \<Rightarrow> 'k rt_node list option" where
  "undo_all [] l = Some l"
| "undo_all (u # us) l = do { l \<leftarrow> undo_rt u l; undo_all us l }"

definition cancel :: "'k reverter \<Rightarrow> 'k reverter" where
  "cancel r = r\<lparr>undo_ops := []\<rparr>"

definition revert :: "('k :: linorder) reverter \<Rightarrow> 'k reverter option" where
  "revert r = do {
     l \<leftarrow> undo_all (rev (undo_ops r)) (nodes r);
     Some (cancel (r\<lparr>passed := [], rest := l\<rparr>))
   }"

section \<open>The list's operations\<close>

text \<open>A list with the address of its next node. \<open>fails\<close> is the number of modifications that succeed
  before an allocation fails, \<open>None\<close> if none fails.\<close>

record 'k range_tombstone_list =
  tombstones :: "'k rt_node list"
  free_addr :: nat

definition rtl_empty :: "'k range_tombstone_list" where
  "rtl_empty = \<lparr>tombstones = [], free_addr = 0\<rparr>"

definition reverter_for :: "bool \<Rightarrow> nat option \<Rightarrow> 'k range_tombstone_list \<Rightarrow> 'k reverter" where
  "reverter_for rec fails l =
     \<lparr>passed = [], rest = tombstones l, undo_ops = [], next_addr = free_addr l, recording = rec, budget = fails\<rparr>"

definition rtl_of :: "'k reverter \<Rightarrow> 'k range_tombstone_list" where
  "rtl_of r = \<lparr>tombstones = nodes r, free_addr = next_addr r\<rparr>"

text \<open>\<open>apply\<close> of one tombstone, with a \<open>nop_reverter\<close>.\<close>

definition rtl_apply_bounds :: "('k :: linorder) bound_view \<Rightarrow> 'k bound_view \<Rightarrow> tombstone \<Rightarrow> nat option \<Rightarrow>
    'k range_tombstone_list \<Rightarrow> (bool \<times> nat option \<times> 'k range_tombstone_list) option" where
  "rtl_apply_bounds s e t fails l = do {
     (fine, r) \<leftarrow> apply_reversibly s e t (reverter_for False fails l);
     Some (fine, budget r, rtl_of r)
   }"

definition rtl_apply_one :: "('k :: linorder) range_tombstone \<Rightarrow> nat option \<Rightarrow>
    'k range_tombstone_list \<Rightarrow> (bool \<times> nat option \<times> 'k range_tombstone_list) option" where
  "rtl_apply_one rt fails l = rtl_apply_bounds (rt_start_bound rt) (rt_end_bound rt) (tomb_of rt) fails l"

fun rtl_apply :: "('k :: linorder) range_tombstone list \<Rightarrow> nat option \<Rightarrow> 'k range_tombstone_list \<Rightarrow>
    (bool \<times> nat option \<times> 'k range_tombstone_list) option" where
  "rtl_apply [] fails l = Some (True, fails, l)"
| "rtl_apply (rt # rts) fails l = do {
     (fine, fails, l) \<leftarrow> rtl_apply_one rt fails l;
     if fine then rtl_apply rts fails l else Some (False, fails, l)
   }"

text \<open>\<open>apply_reversibly\<close> of a list: all tombstones under one reverter, which is handed to the caller. An
  exception destroys the reverter, whose destructor reverts.\<close>

fun apply_reversibly_all :: "('k :: linorder) range_tombstone list \<Rightarrow> 'k reverter \<Rightarrow> (bool \<times> 'k reverter) option" where
  "apply_reversibly_all [] r = Some (True, r)"
| "apply_reversibly_all (rt # rts) r = do {
     (fine, r) \<leftarrow> apply_reversibly (rt_start_bound rt) (rt_end_bound rt) (tomb_of rt) r;
     if fine then apply_reversibly_all rts r else Some (False, r)
   }"

definition rtl_apply_reversibly :: "('k :: linorder) range_tombstone list \<Rightarrow> nat option \<Rightarrow> 'k range_tombstone_list \<Rightarrow>
    (bool \<times> 'k reverter) option" where
  "rtl_apply_reversibly rts fails l = do {
     (fine, r) \<leftarrow> apply_reversibly_all rts (reverter_for True fails l);
     if fine then Some (True, r) else do { r \<leftarrow> revert r; Some (False, r) }
   }"

definition apply_monotonically_one :: "('k :: linorder) range_tombstone \<Rightarrow> nat option \<Rightarrow> 'k range_tombstone_list \<Rightarrow>
    (bool \<times> nat option \<times> 'k range_tombstone_list) option" where
  "apply_monotonically_one rt fails l = do {
     (fine, r) \<leftarrow> apply_reversibly (rt_start_bound rt) (rt_end_bound rt) (tomb_of rt) (reverter_for True fails l);
     r \<leftarrow> (if fine then Some (cancel r) else revert r);
     Some (fine, budget r, rtl_of r)
   }"

text \<open>\<open>apply_monotonically\<close> of a list by move: every applied entry is erased from the source.\<close>

fun apply_monotonically :: "('k :: linorder) rt_node list \<Rightarrow> nat option \<Rightarrow> 'k range_tombstone_list \<Rightarrow>
    (bool \<times> 'k rt_node list \<times> 'k range_tombstone_list) option" where
  "apply_monotonically [] fails l = Some (True, [], l)"
| "apply_monotonically (n # ns) fails l = do {
     (fine, fails, l) \<leftarrow> apply_monotonically_one (snd n) fails l;
     if fine then apply_monotonically ns fails l else Some (False, n # ns, l)
   }"

definition search_tombstone_covering :: "('k :: linorder) clustering_key_prefix \<Rightarrow> 'k range_tombstone_list \<Rightarrow> tombstone" where
  "search_tombstone_covering key l =
     (case dropWhile (\<lambda>n. \<not> key_less_bound key (rt_end_bound (snd n))) (tombstones l) of
        [] \<Rightarrow> tombstone_none
      | it # _ \<Rightarrow> if key_less_bound key (rt_start_bound (snd it)) then tombstone_none else tomb_of (snd it))"

text \<open>\<open>difference\<close>: \<open>put\<close> is \<open>diff.apply\<close>; after a failed allocation (the flag is false) the result
  no longer changes.\<close>

type_synonym 'k rtl_result = "(bool \<times> nat option \<times> 'k range_tombstone_list) option"

definition put :: "bool \<Rightarrow> ('k :: linorder) bound_view \<Rightarrow> 'k bound_view \<Rightarrow> tombstone \<Rightarrow> 'k rtl_result \<Rightarrow> 'k rtl_result" where
  "put c s e t diff = do {
     (fine, fails, l) \<leftarrow> diff;
     if c \<and> fine then rtl_apply_bounds s e t fails l else Some (fine, fails, l)
   }"

definition first_bounds :: "'k rt_node list \<Rightarrow> 'k bound_view \<times> 'k bound_view" where
  "first_bounds this_rt = (case this_rt of
     [] \<Rightarrow> (bound_bottom, bound_top) | n # _ \<Rightarrow> (rt_start_bound (snd n), rt_end_bound (snd n)))"

fun rt_difference_loop :: "('k :: linorder) rt_node list \<Rightarrow> 'k rt_node list \<Rightarrow> 'k bound_view \<times> 'k bound_view \<Rightarrow>
    'k rtl_result \<Rightarrow> 'k rtl_result" where
  "rt_difference_loop [] other_rt cur diff = diff"
| "rt_difference_loop (n # this_rt) [] (cur_start, cur_end) diff =
     rt_difference_loop this_rt [] (first_bounds this_rt) (put True cur_start cur_end (tomb_of (snd n)) diff)"
| "rt_difference_loop (n # this_rt) (m # other_rt) (cur_start, cur_end) diff =
     (if bound_less cur_end (rt_start_bound (snd m))
      then rt_difference_loop this_rt (m # other_rt) (first_bounds this_rt) (put True cur_start cur_end (tomb_of (snd n)) diff)
      else if bound_less (rt_end_bound (snd m)) cur_start
      then rt_difference_loop (n # this_rt) other_rt (cur_start, cur_end) diff
      else let new_end = invert_bound (rt_start_bound (snd m));
               before = bound_less cur_start new_end;
               diff = put before cur_start new_end (tomb_of (snd n)) diff;
               cur_start = (if before then rt_start_bound (snd m) else cur_start);
               newer = tomb_of (snd m) < tomb_of (snd n)
           in if bound_less cur_end (rt_end_bound (snd m))
              then rt_difference_loop this_rt (m # other_rt) (first_bounds this_rt)
                     (put newer cur_start cur_end (tomb_of (snd n)) diff)
              else let e = rt_end_bound (snd m);
                       diff = put newer cur_start e (tomb_of (snd n)) diff;
                       cur_start = invert_bound e
                   in if bound_less cur_end cur_start
                      then rt_difference_loop this_rt other_rt (first_bounds this_rt) diff
                      else rt_difference_loop (n # this_rt) other_rt (cur_start, cur_end) diff)"

definition rtl_difference :: "('k :: linorder) range_tombstone_list \<Rightarrow> 'k range_tombstone_list \<Rightarrow> nat option \<Rightarrow> 'k rtl_result" where
  "rtl_difference l other fails =
     rt_difference_loop (tombstones l) (tombstones other) (first_bounds (tombstones l)) (Some (True, fails, rtl_empty))"

definition rtl_equal :: "'k range_tombstone_list \<Rightarrow> 'k range_tombstone_list \<Rightarrow> bool" where
  "rtl_equal a b \<longleftrightarrow> list_all2 (\<lambda>m n. rt_equal (snd m) (snd n)) (tombstones a) (tombstones b)"

text \<open>\<open>slice\<close> as the elements between the two iterators; no value if the second comes first.\<close>

definition between :: "nat \<Rightarrow> nat \<Rightarrow> 'a list \<Rightarrow> 'a list option" where
  "between i j xs = (if i \<le> j then Some (take (j - i) (drop i xs)) else None)"

definition slice_range :: "('k :: linorder) clustering_range \<Rightarrow> 'k range_tombstone_list \<Rightarrow> 'k rt_node list option" where
  "slice_range r l =
     (let bv_range = from_range r; ts = tombstones l in
      between (length (takeWhile (\<lambda>n. bound_less (rt_end_bound (snd n)) (fst bv_range)) ts))
              (length (takeWhile (\<lambda>n. \<not> bound_less (snd bv_range) (rt_start_bound (snd n))) ts)) ts)"

definition slice_positions :: "('k :: linorder) position_in_partition \<Rightarrow> 'k position_in_partition \<Rightarrow>
    'k range_tombstone_list \<Rightarrow> 'k rt_node list option" where
  "slice_positions s e l =
     (let ts = tombstones l in
      between (length (takeWhile (\<lambda>n. \<not> position_less s (rt_end_position (snd n))) ts))
              (length (takeWhile (\<lambda>n. position_less (rt_position (snd n)) e) ts)) ts)"

definition erase_where :: "('k range_tombstone \<Rightarrow> bool) \<Rightarrow> 'k range_tombstone_list \<Rightarrow> 'k range_tombstone_list" where
  "erase_where P l = l\<lparr>tombstones := filter (\<lambda>n. \<not> P (snd n)) (tombstones l)\<rparr>"

definition bound_max :: "('k :: linorder) bound_view \<Rightarrow> 'k bound_view \<Rightarrow> 'k bound_view" where
  "bound_max a b = (if bound_less a b then b else a)"

definition bound_min :: "('k :: linorder) bound_view \<Rightarrow> 'k bound_view \<Rightarrow> 'k bound_view" where
  "bound_min a b = (if bound_less b a then b else a)"

fun trim_range :: "('k :: linorder) bound_view \<Rightarrow> 'k bound_view \<Rightarrow> 'k rt_node list \<Rightarrow> 'k rtl_result \<Rightarrow> 'k rtl_result" where
  "trim_range s e [] l = l"
| "trim_range s e (n # ns) l =
     trim_range s e ns
       (put True (bound_max (rt_start_bound (snd n)) s) (bound_min (rt_end_bound (snd n)) e) (tomb_of (snd n)) l)"

fun trim_ranges :: "('k :: linorder) range_tombstone_list \<Rightarrow> 'k clustering_range list \<Rightarrow> 'k rtl_result \<Rightarrow> 'k rtl_result" where
  "trim_ranges self [] l = l"
| "trim_ranges self (r # rs) l = do {
     ns \<leftarrow> slice_range r self;
     trim_ranges self rs (trim_range (from_range_start r) (from_range_end r) ns l)
   }"

definition trim :: "('k :: linorder) clustering_range list \<Rightarrow> nat option \<Rightarrow> 'k range_tombstone_list \<Rightarrow> 'k rtl_result" where
  "trim ranges fails self = do {
     (fine, fails, l) \<leftarrow> trim_ranges self ranges (Some (True, fails, rtl_empty));
     Some (fine, fails, if fine then l else self)
   }"

end
