(* ===== verification/Range_Tombstone_Properties.thy ===== *)
theory Range_Tombstone_Properties
  imports Range_Tombstones "HOL-Library.Sublist"
begin

text \<open>
  What the range tombstone list guarantees. A list denotes, for every position, the newest deletion
  that covers it; \<open>insert_from\<close> adds one range to this function and keeps the list ordered and
  disjoint after every single modification, which is why the undo log can find its nodes again.
\<close>

section \<open>Well-formed lists\<close>

definition cs :: "('k :: linorder) range_tombstone \<Rightarrow> 'k weighted" where
  "cs rt = cut (rt_start_bound rt)"

definition ce :: "('k :: linorder) range_tombstone \<Rightarrow> 'k weighted" where
  "ce rt = cut (rt_end_bound rt)"

definition proper :: "('k :: linorder) range_tombstone \<Rightarrow> bool" where
  "proper rt \<longleftrightarrow> start_bound (rt_start_bound rt) \<and> \<not> start_bound (rt_end_bound rt) \<and> cs rt < ce rt
     \<and> tombstone_none \<le> tomb_of rt"

definition wf_rts :: "('k :: linorder) range_tombstone list \<Rightarrow> bool" where
  "wf_rts rts \<longleftrightarrow> (\<forall>rt \<in> set rts. proper rt) \<and> sorted_wrt (\<lambda>a b. ce a \<le> cs b) rts"

lemma rt_of_simps [simp]:
  "rt_start_bound (range_tombstone_of s e t) = s" "rt_end_bound (range_tombstone_of s e t) = e"
  "tomb_of (range_tombstone_of s e t) = t"
  "cs (range_tombstone_of s e t) = cut s" "ce (range_tombstone_of s e t) = cut e"
  by (simp_all add: range_tombstone_of_def rt_start_bound_def rt_end_bound_def cs_def ce_def)

lemma proper_of [simp]:
  "proper (range_tombstone_of s e t) \<longleftrightarrow>
     start_bound s \<and> \<not> start_bound e \<and> cut s < cut e \<and> tombstone_none \<le> t"
  by (simp add: proper_def)

lemma wf_rts_Nil [simp]: "wf_rts []" by (simp add: wf_rts_def)

lemma wf_rts_Cons [simp]:
  "wf_rts (a # xs) \<longleftrightarrow> proper a \<and> wf_rts xs \<and> (\<forall>b \<in> set xs. ce a \<le> cs b)"
  by (auto simp: wf_rts_def)

lemma wf_rts_append [simp]:
  "wf_rts (xs @ ys) \<longleftrightarrow> wf_rts xs \<and> wf_rts ys \<and> (\<forall>a \<in> set xs. \<forall>b \<in> set ys. ce a \<le> cs b)"
  by (auto simp: wf_rts_def sorted_wrt_append)

lemma properD:
  "proper rt \<Longrightarrow> start_bound (rt_start_bound rt)" "proper rt \<Longrightarrow> \<not> start_bound (rt_end_bound rt)"
  "proper rt \<Longrightarrow> cs rt < ce rt" "proper rt \<Longrightarrow> tombstone_none \<le> tomb_of rt"
  by (simp_all add: proper_def)

lemma wf_rts_proper: "wf_rts rts \<Longrightarrow> rt \<in> set rts \<Longrightarrow> proper rt"
  by (simp add: wf_rts_def)

section \<open>The deletions a list denotes\<close>

definition cov :: "'a :: linorder \<Rightarrow> 'a \<Rightarrow> tombstone \<Rightarrow> 'a \<Rightarrow> tombstone" where
  "cov s e t x = (if s \<le> x \<and> x < e then t else tombstone_none)"

fun deletion :: "('k :: linorder) range_tombstone list \<Rightarrow> 'k weighted \<Rightarrow> tombstone" where
  "deletion [] x = tombstone_none"
| "deletion (rt # rts) x = max (cov (cs rt) (ce rt) (tomb_of rt) x) (deletion rts x)"

lemma cov_ge: "tombstone_none \<le> t \<Longrightarrow> tombstone_none \<le> cov s e t x"
  by (simp add: cov_def)

lemma deletion_ge: "tombstone_none \<le> deletion rts x"
  by (induction rts) (auto simp: le_max_iff_disj)

lemma deletion_append [simp]: "deletion (xs @ ys) x = max (deletion xs x) (deletion ys x)"
  using deletion_ge [of ys x] by (induction xs) (auto simp: max.assoc max_absorb2)

lemma cov_split: "s \<le> m \<Longrightarrow> m \<le> e \<Longrightarrow> tombstone_none \<le> t \<Longrightarrow> cov s e t x = max (cov s m t x) (cov m e t x)"
  by (auto simp: cov_def max_def)

lemma cov_absorb: "s \<le> s' \<Longrightarrow> e' \<le> e \<Longrightarrow> t' \<le> t \<Longrightarrow> tombstone_none \<le> t' \<Longrightarrow>
    max (cov s' e' t' x) (cov s e t x) = cov s e t x"
  by (auto simp: cov_def max_def)

lemma cov_merge: "s \<le> e' \<Longrightarrow> s' \<le> e \<Longrightarrow> s < e \<Longrightarrow> s' < e' \<Longrightarrow> tombstone_none \<le> t \<Longrightarrow>
    max (cov s e t x) (cov s' e' t x) = cov (min s s') (max e e') t x"
  by (auto simp: cov_def max_def min_def)

lemma tomb_compare_sign: "tomb_compare a b = 0 \<longleftrightarrow> a = b" "0 < tomb_compare a b \<longleftrightarrow> b < a"
proof -
  have le: "a \<le> b \<longleftrightarrow> tomb_compare a b \<le> 0" and lt: "a < b \<longleftrightarrow> tomb_compare a b < 0"
    by (simp_all add: less_eq_tombstone_def less_tombstone_def)
  then show "0 < tomb_compare a b \<longleftrightarrow> b < a" by auto
  show "tomb_compare a b = 0 \<longleftrightarrow> a = b" using le lt by auto
qed

section \<open>The undo log\<close>

lemma takeWhile_dropWhile_split:
  "(\<And>a. a \<in> set xs \<Longrightarrow> P a) \<Longrightarrow> \<not> P y \<Longrightarrow> takeWhile P (xs @ y # ys) = xs \<and> dropWhile P (xs @ y # ys) = y # ys"
  by (simp add: takeWhile_append2 dropWhile_append2)

lemma find_rt_wf:
  assumes "wf_rts (map snd (xs @ n # ys))"
  shows "find_rt (snd n) (xs @ n # ys) = Some (xs, n, ys)"
proof -
  let ?P = "\<lambda>m. bound_less (rt_end_bound (snd m)) (rt_end_bound (snd n))"
  have "?P a" if "a \<in> set xs" for a
  proof -
    have "ce (snd a) \<le> cs (snd n)" "cs (snd n) < ce (snd n)" "proper (snd a)" "proper (snd n)"
      using that assms wf_rts_proper by (fastforce simp: properD)+
    then show ?thesis by (auto simp: bound_cut properD cs_def ce_def)
  qed
  moreover have "\<not> ?P n" by (auto simp: bound_cut)
  ultimately have "takeWhile ?P (xs @ n # ys) = xs" "dropWhile ?P (xs @ n # ys) = n # ys"
    using takeWhile_dropWhile_split by metis+
  moreover have "rt_equal (snd n) (snd n)" by (simp add: rt_equal_def bound_equal_def)
  ultimately show ?thesis using \<open>\<not> ?P n\<close> by (simp add: find_rt_def Let_def)
qed

lemma set_insert_rt_wf:
  assumes "wf_rts (map snd (xs @ n # ys))"
  shows "set_insert_rt n (xs @ ys) = xs @ n # ys"
proof -
  let ?P = "\<lambda>m. bound_less (rt_start_bound (snd m)) (rt_start_bound (snd n))"
  have P: "?P a" if "a \<in> set xs" for a
  proof -
    have "ce (snd a) \<le> cs (snd n)" "cs (snd a) < ce (snd a)" "proper (snd a)" "proper (snd n)"
      using that assms wf_rts_proper by (fastforce simp: properD)+
    then show ?thesis by (auto simp: bound_cut properD cs_def ce_def)
  qed
  have N: "bound_less (rt_start_bound (snd n)) (rt_start_bound (snd b))" "\<not> ?P b" if "b \<in> set ys" for b
  proof -
    have "ce (snd n) \<le> cs (snd b)" "cs (snd n) < ce (snd n)" "proper (snd b)" "proper (snd n)"
      using that assms wf_rts_proper by (fastforce simp: properD)+
    then show "bound_less (rt_start_bound (snd n)) (rt_start_bound (snd b))" "\<not> ?P b"
      by (auto simp: bound_cut properD cs_def ce_def)
  qed
  have tw: "takeWhile ?P (xs @ ys) = xs" and dw: "dropWhile ?P (xs @ ys) = ys"
    using P N by (cases ys; auto simp: takeWhile_append2 dropWhile_append2)+
  show ?thesis unfolding set_insert_rt_def Let_def tw dw using N by (cases ys) simp_all
qed

lemma map_of_middle: "a \<notin> fst ` set xs \<Longrightarrow> map_of (xs @ (a, b) # ys) a = Some b"
  by (induction xs) auto

lemma undo_all_append: "undo_all (us @ vs) l = Option.bind (undo_all us l) (undo_all vs)"
  by (induction us arbitrary: l) (auto split: bind_splits)

definition rev_ok :: "('k :: linorder) rt_node list \<Rightarrow> bool \<Rightarrow> bool \<Rightarrow> 'k reverter \<Rightarrow> bool" where
  "rev_ok l0 rc unlimited r \<longleftrightarrow> wf_rts (map snd (nodes r)) \<and> distinct (map fst (nodes r))
     \<and> (\<forall>n \<in> set (nodes r). fst n < next_addr r) \<and> recording r = rc \<and> (budget r = None) = unlimited
     \<and> (\<forall>n \<in> set l0. fst n < next_addr r)
     \<and> (rc \<longrightarrow> undo_all (rev (undo_ops r)) (nodes r) = Some l0)"

lemma rev_okD:
  assumes "rev_ok l0 rc ul r"
  shows "wf_rts (map snd (nodes r))" "distinct (map fst (nodes r))" "next_addr r \<notin> fst ` set (nodes r)"
    "n \<in> set (nodes r) \<Longrightarrow> fst n < next_addr r"
  using assms by (auto simp: rev_ok_def)

text \<open>A modification keeps the reverter sound if the new list is well formed and undoing it gives back
  the list there was.\<close>

lemma rev_ok_log:
  assumes "rev_ok l0 rc ul r"
    and "wf_rts (map snd (rev p @ q))" "distinct (map fst (rev p @ q))" "\<And>n. n \<in> set p \<union> set q \<Longrightarrow> fst n < a"
    and "undo_rt u (rev p @ q) = Some (nodes r)" "next_addr r \<le> a"
  shows "rev_ok l0 rc ul (log_op u (r\<lparr>passed := p, rest := q, next_addr := a\<rparr>))"
proof -
  let ?r = "log_op u (r\<lparr>passed := p, rest := q, next_addr := a\<rparr>)"
  have nodes: "nodes ?r = rev p @ q" by (simp add: log_op_def nodes_def)
  have undo: "undo_all (rev (undo_ops ?r)) (rev p @ q) = Some l0" if "rc"
    using assms(1,5) that by (simp add: rev_ok_def log_op_def)
  show ?thesis unfolding rev_ok_def nodes
    using assms(1-4,6) undo by (auto simp: rev_ok_def log_op_def)
qed

lemma rev_insert_ok:
  assumes "rev_ok l0 rc ul r" "rev_insert rt r = Some r'" "wf_rts (map snd (rev (passed r)) @ rt # map snd (rest r))"
  shows "rev_ok l0 rc ul r' \<and> passed r' = (next_addr r, rt) # passed r \<and> rest r' = rest r"
proof -
  let ?n = "(next_addr r, rt)"
  have r': "r' = log_op (Insert_undo (next_addr r)) (r\<lparr>passed := ?n # passed r, rest := rest r, next_addr := Suc (next_addr r)\<rparr>)"
    using assms(2) by (simp add: rev_insert_def split: if_splits)
  have wf: "wf_rts (map snd (rev (passed r) @ ?n # rest r))" using assms(3) by simp
  have "next_addr r \<notin> fst ` set (rev (passed r))" using rev_okD(3) [OF assms(1)] by (auto simp: nodes_def)
  from map_of_middle [OF this] find_rt_wf [OF wf]
  have "undo_rt (Insert_undo (next_addr r)) (rev (?n # passed r) @ rest r) = Some (nodes r)"
    by (simp add: nodes_def)
  moreover have "distinct (map fst (rev (?n # passed r) @ rest r))"
    using rev_okD(2,3) [OF assms(1)] by (auto simp: nodes_def)
  moreover have "fst n < Suc (next_addr r)" if "n \<in> set (?n # passed r) \<union> set (rest r)" for n
    using rev_okD(4) [OF assms(1), of n] that by (auto simp: nodes_def)
  ultimately have "rev_ok l0 rc ul r'" unfolding r'
    using wf by (intro rev_ok_log [OF assms(1)]) simp_all
  then show ?thesis by (simp add: r' log_op_def)
qed

lemma rev_erase_ok:
  assumes "rev_ok l0 rc ul r" "rev_erase r = Some r'"
  shows "rev_ok l0 rc ul r' \<and> passed r' = passed r \<and> rest r' = tl (rest r)"
proof -
  obtain it xs where rest: "rest r = it # xs" using assms(2) by (auto simp: rev_erase_def split: list.splits)
  have r': "r' = log_op (Erase_undo it) (r\<lparr>passed := passed r, rest := xs, next_addr := next_addr r\<rparr>)"
    using assms(2) rest by (simp add: rev_erase_def split: if_splits)
  have "wf_rts (map snd (rev (passed r) @ it # xs))" using rev_okD(1) [OF assms(1)] by (simp add: nodes_def rest)
  from set_insert_rt_wf [OF this]
  have "undo_rt (Erase_undo it) (rev (passed r) @ xs) = Some (nodes r)" by (simp add: nodes_def rest)
  then have "rev_ok l0 rc ul r'" unfolding r'
    using rev_okD [OF assms(1)] by (intro rev_ok_log [OF assms(1)]) (auto simp: nodes_def rest)
  then show ?thesis by (simp add: r' log_op_def rest)
qed

lemma rev_erase_prev_ok:
  assumes "rev_ok l0 rc ul r" "rev_erase_prev r = Some r'"
  shows "rev_ok l0 rc ul r' \<and> passed r' = tl (passed r) \<and> rest r' = rest r"
proof -
  obtain it xs where passed: "passed r = it # xs"
    using assms(2) by (auto simp: rev_erase_prev_def split: list.splits)
  have r': "r' = log_op (Erase_undo it) (r\<lparr>passed := xs, rest := rest r, next_addr := next_addr r\<rparr>)"
    using assms(2) passed by (simp add: rev_erase_prev_def split: if_splits)
  have "wf_rts (map snd (rev xs @ it # rest r))" using rev_okD(1) [OF assms(1)] by (simp add: nodes_def passed)
  from set_insert_rt_wf [OF this]
  have "undo_rt (Erase_undo it) (rev xs @ rest r) = Some (nodes r)" by (simp add: nodes_def passed)
  then have "rev_ok l0 rc ul r'" unfolding r'
    using rev_okD [OF assms(1)] by (intro rev_ok_log [OF assms(1)]) (auto simp: nodes_def passed)
  then show ?thesis by (simp add: r' log_op_def passed)
qed

lemma rev_update_ok:
  assumes "rev_ok l0 rc ul r" "rev_update rt r = Some r'" "rest r = it # xs"
    and "wf_rts (map snd (rev (passed r)) @ rt # map snd xs)"
  shows "rev_ok l0 rc ul r' \<and> passed r' = passed r \<and> rest r' = (fst it, rt) # xs"
proof -
  let ?n = "(fst it, rt)"
  have r': "r' = log_op (Update_undo (snd it) (fst it)) (r\<lparr>passed := passed r, rest := ?n # xs, next_addr := next_addr r\<rparr>)"
    using assms(2,3) by (simp add: rev_update_def split: if_splits)
  have wf: "wf_rts (map snd (rev (passed r) @ ?n # xs))" using assms(4) by simp
  have "fst it \<notin> fst ` set (rev (passed r))" using rev_okD(2) [OF assms(1)] assms(3) by (auto simp: nodes_def)
  from map_of_middle [OF this] find_rt_wf [OF wf]
  have "undo_rt (Update_undo (snd it) (fst it)) (rev (passed r) @ ?n # xs) = Some (nodes r)"
    by (simp add: nodes_def assms(3))
  moreover have "fst n < next_addr r" if "n \<in> set (passed r) \<union> set (?n # xs)" for n
    using rev_okD(4) [OF assms(1), of n] rev_okD(4) [OF assms(1), of it] that by (auto simp: nodes_def assms(3))
  moreover have "distinct (map fst (rev (passed r) @ ?n # xs))"
    using rev_okD(2) [OF assms(1)] by (simp add: nodes_def assms(3))
  ultimately have "rev_ok l0 rc ul r'" unfolding r'
    using wf by (intro rev_ok_log [OF assms(1)]) simp_all
  then show ?thesis by (simp add: r' log_op_def)
qed

section \<open>The loop\<close>

definition ready :: "('k :: linorder) bound_view \<Rightarrow> 'k bound_view \<Rightarrow> tombstone \<Rightarrow> 'k reverter \<Rightarrow> bool" where
  "ready s e t r \<longleftrightarrow> start_bound s \<and> \<not> start_bound e \<and> cut s < cut e \<and> tombstone_none \<le> t
     \<and> (\<forall>n \<in> set (passed r). ce (snd n) \<le> cut s) \<and> (rest r \<noteq> [] \<longrightarrow> cut s < ce (snd (hd (rest r))))"

definition pending :: "(('k :: linorder) weighted \<Rightarrow> tombstone) \<Rightarrow> 'k bound_view \<Rightarrow> 'k bound_view \<Rightarrow> tombstone \<Rightarrow>
    'k reverter \<Rightarrow> bool" where
  "pending d s e t r \<longleftrightarrow> (\<forall>x. max (deletion (map snd (nodes r)) x) (cov (cut s) (cut e) t x) = d x)"

text \<open>What holds after a round: the bounds still to be inserted complete the target deletions \<open>d\<close>.\<close>

fun good :: "('k :: linorder) rt_node list \<Rightarrow> bool \<Rightarrow> bool \<Rightarrow> ('k weighted \<Rightarrow> tombstone) \<Rightarrow> tombstone \<Rightarrow> 'k round \<Rightarrow> bool" where
  "good l0 rc ul d t (Continue r s e) \<longleftrightarrow> rev_ok l0 rc ul r \<and> ready s e t r \<and> pending d s e t r"
| "good l0 rc ul d t (Return r) \<longleftrightarrow> rev_ok l0 rc ul r \<and> (\<forall>x. deletion (map snd (nodes r)) x = d x)"
| "good l0 rc ul d t (Throw r) \<longleftrightarrow> rev_ok l0 rc ul r \<and> \<not> ul"

lemma deletion_nodes:
  "deletion (map snd (nodes r)) x = max (deletion (map snd (rev (passed r))) x) (deletion (map snd (rest r)) x)"
  by (simp add: nodes_def)

lemma attempt_good:
  assumes "rev_ok l0 rc ul r" "m r = None \<Longrightarrow> budget r = Some 0" "\<And>r'. m r = Some r' \<Longrightarrow> good l0 rc ul d t (k r')"
  shows "good l0 rc ul d t (attempt m r k)"
  using assms by (cases "m r") (auto simp: attempt_def rev_ok_def)

lemma prim_fails:
  "rev_insert rt r = None \<Longrightarrow> budget r = Some 0"
  "rest r = it # xs \<Longrightarrow> rev_erase r = None \<Longrightarrow> budget r = Some 0"
  "rest r = it # xs \<Longrightarrow> rev_update rt r = None \<Longrightarrow> budget r = Some 0"
  by (simp_all add: rev_insert_def rev_erase_def rev_update_def split: if_splits)

lemma max_cov: "tombstone_none \<le> t \<Longrightarrow> max (cov s e t x) tombstone_none = cov s e t x"
  using cov_ge by (metis max.absorb1)

lemma deletion_none [simp]:
  "max (deletion rts x) tombstone_none = deletion rts x" "max tombstone_none (deletion rts x) = deletion rts x"
  using deletion_ge [of rts x] by (simp_all add: max_absorb1 max_absorb2)

lemma insert_before_good:
  assumes ok: "rev_ok l0 rc ul r" and rd: "ready s e t r" and pd: "pending d s e t r"
    and front: "\<And>n. n \<in> set (rest r) \<Longrightarrow> cut e \<le> cs (snd n)"
  shows "good l0 rc ul d t (attempt (rev_insert (range_tombstone_of s e t)) r Return)"
proof (rule attempt_good [OF ok prim_fails(1)])
  fix r' assume r': "rev_insert (range_tombstone_of s e t) r = Some r'"
  have "wf_rts (map snd (rev (passed r)) @ range_tombstone_of s e t # map snd (rest r))"
    using rd front rev_okD(1) [OF ok] by (auto simp: ready_def nodes_def)
  from rev_insert_ok [OF ok r' this]
  show "good l0 rc ul d t (Return r')"
    using pd by (simp add: pending_def nodes_def max.assoc max.commute max.left_commute)
qed

lemma max_regroup:
  fixes a b c p q :: "'a :: linorder"
  shows "max a c = b \<Longrightarrow> max (max p (max a q)) c = max (max p q) b"
  by (drule sym) (simp add: max.assoc max.commute max.left_commute)

lemma max_swap:
  fixes a b c p q :: "'a :: linorder"
  shows "max a c = max b c' \<Longrightarrow> max (max p (max a q)) c = max (max p (max b q)) c'"
proof -
  assume eq: "max a c = max b c'"
  have "max (max p (max a q)) c = max (max p q) (max a c)" by (simp add: max.assoc max.commute max.left_commute)
  also have "... = max (max p (max b q)) c'" unfolding eq by (simp add: max.assoc max.commute max.left_commute)
  finally show ?thesis .
qed

lemma max_drop:
  fixes a c c' x :: "'a :: linorder"
  shows "c' = max x c \<Longrightarrow> max x a = a \<Longrightarrow> max a c = max a c'"
  by (metis max.assoc max.commute)

lemma max_absorb:
  fixes a c p q :: "'a :: linorder"
  shows "max a c = a \<Longrightarrow> max (max p (max a q)) c = max p (max a q)"
  using max_swap [of a c a a p q] by (simp add: max.assoc max.commute max.left_commute)

lemma pending_bounds:
  assumes "pending d s e t r" "nodes r' = nodes r" "rest r = it # xs"
    and "\<And>x. max (cov (cs (snd it)) (ce (snd it)) (tomb_of (snd it)) x) (cov (cut s) (cut e) t x) =
      max (cov (cs (snd it)) (ce (snd it)) (tomb_of (snd it)) x) (cov (cut s') (cut e') t x)"
  shows "pending d s' e' t r'"
  using assms(1) max_swap [OF assms(4)]
  by (simp only: pending_def assms(2) deletion_nodes assms(3) list.map deletion.simps) simp

lemma pending_erase:
  assumes "pending d s e t r" "rest r = it # xs" "passed r' = passed r" "rest r' = xs"
    and "\<And>x. max (cov (cs (snd it)) (ce (snd it)) (tomb_of (snd it)) x) (cov (cut s) (cut e) t x) = cov (cut s') (cut e') t x"
  shows "pending d s' e' t r'"
  using assms(1) max_regroup [OF assms(5)]
  by (simp only: pending_def deletion_nodes assms(2-4) list.map deletion.simps) simp

lemma pending_update:
  assumes "pending d s e t r" "rest r = it # xs" "passed r' = passed r" "rest r' = (a, i) # xs"
    and "\<And>x. max (cov (cs (snd it)) (ce (snd it)) (tomb_of (snd it)) x) (cov (cut s) (cut e) t x) =
      max (cov (cs i) (ce i) (tomb_of i) x) (cov (cut s) (cut e) t x)"
  shows "pending d s e t r'"
  using assms(1) max_swap [OF assms(5)]
  by (simp only: pending_def deletion_nodes assms(2-4) list.map deletion.simps snd_conv) simp

lemma pending_insert:
  assumes "pending d s e t r" "passed r' = (a, i) # passed r" "rest r' = rest r"
    and "\<And>x. cov (cut s) (cut e) t x = max (cov (cs i) (ce i) (tomb_of i) x) (cov (cut s') (cut e') t x)"
    and "tombstone_none \<le> tomb_of i"
  shows "pending d s' e' t r'"
proof -
  have ac: "max (max (max p n) q) c = max (max p q) (max n c)" for p n q c :: tombstone
    by (simp add: max.assoc max.left_commute)
  show ?thesis using assms(1) by (simp add: pending_def deletion_nodes assms(2-4) max_cov [OF assms(5)] ac)
qed

lemma pending_split:
  assumes "pending d s e t r" "rest r = it # xs" "passed r' = (a, i) # passed r" "rest r' = (b, j) # xs"
    and "\<And>x. cov (cs (snd it)) (ce (snd it)) (tomb_of (snd it)) x =
      max (cov (cs i) (ce i) (tomb_of i) x) (cov (cs j) (ce j) (tomb_of j) x)"
    and "tombstone_none \<le> tomb_of i"
  shows "pending d s e t r'"
  using assms(1) by (simp add: pending_def deletion_nodes assms(2-5) max_cov [OF assms(6)] max.assoc)

lemma at_node:
  assumes "rev_ok l0 rc ul r" "ready s e t r" "rest r = it # xs"
  shows "proper (snd it)" "cut s < ce (snd it)" "wf_rts (map snd (rev (passed r)))" "wf_rts (map snd xs)"
    "\<And>a. a \<in> set (passed r) \<Longrightarrow> ce (snd a) \<le> cs (snd it) \<and> ce (snd a) \<le> cut s"
    "\<And>b. b \<in> set xs \<Longrightarrow> ce (snd it) \<le> cs (snd b)"
    "\<And>a b. a \<in> set (passed r) \<Longrightarrow> b \<in> set xs \<Longrightarrow> ce (snd a) \<le> cs (snd b)"
    "start_bound s" "\<not> start_bound e" "cut s < cut e" "tombstone_none \<le> t"
  using assms rev_okD(1) [OF assms(1)] by (auto simp: ready_def nodes_def)

lemma next_node:
  assumes "rev_ok l0 rc ul r" "ready s e t r" "rest r = it # xs" "xs \<noteq> []"
  shows "ce (snd it) < ce (snd (hd xs))"
proof -
  have "hd xs \<in> set xs" using assms(4) by simp
  then have "ce (snd it) \<le> cs (snd (hd xs))" "proper (snd (hd xs))"
    using at_node(6) [OF assms(1-3)] wf_rts_proper [OF at_node(4) [OF assms(1-3)]] by auto
  then show ?thesis using properD(3) le_less_trans by blast
qed

lemma bound_less_node:
  assumes "proper i" "start_bound s" "\<not> start_bound e"
  shows "bound_less e s \<longleftrightarrow> cut e \<le> cut s" "bound_less e (rt_start_bound i) \<longleftrightarrow> cut e \<le> cs i"
    "bound_less e (rt_end_bound i) \<longleftrightarrow> cut e < ce i" "bound_less (rt_start_bound i) s \<longleftrightarrow> cs i < cut s"
    "bound_less s (rt_start_bound i) \<longleftrightarrow> cut s < cs i" "bound_less (rt_start_bound i) e \<longleftrightarrow> cs i < cut e"
    "bound_less (rt_end_bound i) e \<longleftrightarrow> ce i < cut e" "bound_less s (rt_end_bound i) \<longleftrightarrow> cut s < ce i"
    "bound_less (invert_bound s) (rt_start_bound i) \<longleftrightarrow> cut s \<le> cs i"
    "bound_less (invert_bound (rt_start_bound i)) s \<longleftrightarrow> cs i \<le> cut s"
    "adjacent e (rt_start_bound i) \<longleftrightarrow> cut e = cs i" "adjacent (rt_end_bound i) s \<longleftrightarrow> ce i = cut s"
    "bound_less (rt_end_bound i) s \<longleftrightarrow> ce i \<le> cut s"
    "bound_less e (invert_bound (rt_end_bound i)) \<longleftrightarrow> cut e \<le> ce i"
  using assms by (simp_all add: bound_cut properD cs_def ce_def)

lemma extend_good:
  assumes ok: "rev_ok l0 rc ul r" and rd: "ready s e t r" and pd: "pending d s e t r"
    and rest: "rest r = it # xs" and "cut e = cs (snd it)" "tomb_of (snd it) = t"
  shows "good l0 rc ul d t (attempt (rev_update (range_tombstone_of s (rt_end_bound (snd it)) t)) r Return)"
proof (rule attempt_good [OF ok prim_fails(3) [OF rest]])
  note at = at_node [OF ok rd rest]
  let ?n = "range_tombstone_of s (rt_end_bound (snd it)) t"
  fix r' assume r': "rev_update ?n r = Some r'"
  have "wf_rts (map snd (rev (passed r)) @ ?n # map snd xs)"
    using at by (auto simp: properD simp flip: ce_def)
  from rev_update_ok [OF ok r' rest this]
  have r'_ok: "rev_ok l0 rc ul r' \<and> passed r' = passed r \<and> rest r' = (fst it, ?n) # xs" .
  have "max (cov (cs (snd it)) (ce (snd it)) t x) (cov (cut s) (cut e) t x) = cov (cut s) (ce (snd it)) t x" for x
    using at properD(3) [OF at(1)] assms(5) by (subst cov_split [of "cut s" "cs (snd it)"]) (auto simp: max.commute)
  then show "good l0 rc ul d t (Return r')"
    using pd r'_ok assms(6)
    by (auto simp: pending_def nodes_def rest max.assoc max.commute max.left_commute simp flip: ce_def)
qed

lemma merge_same_good:
  assumes ok: "rev_ok l0 rc ul r" and rd: "ready s e t r" and pd: "pending d s e t r"
    and rest: "rest r = it # xs" and "cs (snd it) < cut e" "tomb_of (snd it) = t"
  shows "good l0 rc ul d t (merge_same it s e r)"
  unfolding merge_same_def Let_def
proof (rule attempt_good [OF ok prim_fails(2) [OF rest]])
  note at = at_node [OF ok rd rest]
  note less = bound_less_node [OF at(1,8,9)]
  fix r' assume "rev_erase r = Some r'"
  from rev_erase_ok [OF ok this] have r': "rev_ok l0 rc ul r'" "passed r' = passed r" "rest r' = xs"
    by (simp_all add: rest)
  let ?s = "if bound_less (rt_start_bound (snd it)) s then rt_start_bound (snd it) else s"
  let ?e = "if bound_less e (rt_end_bound (snd it)) then rt_end_bound (snd it) else e"
  have cuts: "cut ?s = min (cut s) (cs (snd it))" "cut ?e = max (cut e) (ce (snd it))"
    by (auto simp: less min_def max_def cs_def ce_def)
  have "min (cut s) (cs (snd it)) < ce (snd (hd xs))" if "xs \<noteq> []"
    using next_node [OF ok rd rest that] at(2) by (auto simp: min_less_iff_disj)
  then have "ready ?s ?e t r'"
    unfolding ready_def cuts using at(5,8,9,10,11) properD(1,2) [OF at(1)]
    by (auto simp: r' min_less_iff_disj less_max_iff_disj)
  moreover have "max (cov (cs (snd it)) (ce (snd it)) t x) (cov (cut s) (cut e) t x) = cov (cut ?s) (cut ?e) t x" for x
    unfolding cuts using cov_merge [of "cs (snd it)" "cut e" "cut s" "ce (snd it)" t x] at(2,10,11)
      properD(3) [OF at(1)] assms(5) by (simp add: min.commute max.commute)
  then have "pending d ?s ?e t r'"
    by (intro pending_erase [OF pd rest r'(2,3)]) (simp add: assms(6))
  ultimately show "good l0 rc ul d t (Continue r' ?s ?e)" using r' by simp
qed

lemma overwrite_rest_good:
  assumes ok: "rev_ok l0 rc ul r" and rd: "ready s e t r" and pd: "pending d s e t r"
    and rest: "rest r = it # xs" and older: "tomb_of (snd it) < t"
    and order: "cut s \<le> cs (snd it)" "cs (snd it) < cut e"
  shows "good l0 rc ul d t (overwrite_rest (snd it) s e t r)"
proof -
  note at = at_node [OF ok rd rest]
  note less = bound_less_node [OF at(1,8,9)]
  note i = properD [OF at(1)]
  show ?thesis
  proof (cases "cut e < ce (snd it)")
    case True
    let ?n = "range_tombstone_of (invert_bound e) (rt_end_bound (snd it)) (tomb_of (snd it))"
    have "good l0 rc ul d t (attempt (rev_insert (range_tombstone_of s e t)) r' Return)"
      if r': "rev_update ?n r = Some r'" for r'
    proof (rule insert_before_good)
      have "ce (snd a) \<le> cut e" if "a \<in> set (passed r)" for a using at(5) [OF that] at(10) by auto
      then have "wf_rts (map snd (rev (passed r)) @ ?n # map snd xs)"
        using at(3-7,9) i True by (auto simp flip: ce_def)
      from rev_update_ok [OF ok r' rest this]
      have r'_ok: "rev_ok l0 rc ul r'" "passed r' = passed r" "rest r' = (fst it, ?n) # xs" by simp_all
      then show "rev_ok l0 rc ul r'" by simp
      show "ready s e t r'" using rd at(2) by (auto simp: ready_def r'_ok simp flip: ce_def)
      show "pending d s e t r'"
      proof (rule pending_update [OF pd rest r'_ok(2,3)])
        fix x
        have "cov (cs (snd it)) (ce (snd it)) (tomb_of (snd it)) x =
            max (cov (cs (snd it)) (cut e) (tomb_of (snd it)) x) (cov (cut e) (ce (snd it)) (tomb_of (snd it)) x)"
          using order True i by (intro cov_split) auto
        moreover have "max (cov (cs (snd it)) (cut e) (tomb_of (snd it)) x) (cov (cut s) (cut e) t x) = cov (cut s) (cut e) t x"
          using order older i by (intro cov_absorb) auto
        ultimately show "max (cov (cs (snd it)) (ce (snd it)) (tomb_of (snd it)) x) (cov (cut s) (cut e) t x) =
            max (cov (cs ?n) (ce ?n) (tomb_of ?n) x) (cov (cut s) (cut e) t x)"
          by (simp add: max.assoc max.left_commute flip: ce_def)
      qed
      show "cut e \<le> cs (snd n)" if "n \<in> set (rest r')" for n
        using that True at(6) by (fastforce simp: r'_ok)
    qed
    then show ?thesis using True
      by (simp add: overwrite_rest_def less attempt_good [OF ok prim_fails(3) [OF rest]])
  next
    case False
    have "good l0 rc ul d t (Continue r' s e)" if "rev_erase r = Some r'" for r'
    proof -
      from rev_erase_ok [OF ok that] have r': "rev_ok l0 rc ul r'" "passed r' = passed r" "rest r' = xs"
        by (simp_all add: rest)
      have "ready s e t r'" using rd next_node [OF ok rd rest] at(2) by (auto simp: ready_def r')
      moreover have "pending d s e t r'"
        using order older i False by (intro pending_erase [OF pd rest r'(2,3)] cov_absorb) auto
      ultimately show ?thesis using r'(1) by simp
    qed
    then show ?thesis using False
      by (simp add: overwrite_rest_def less attempt_good [OF ok prim_fails(2) [OF rest]])
  qed
qed

lemma overwrite_good:
  assumes ok: "rev_ok l0 rc ul r" and rd: "ready s e t r" and pd: "pending d s e t r"
    and rest: "rest r = it # xs" and older: "tomb_of (snd it) < t" and overlap: "cs (snd it) < cut e"
  shows "good l0 rc ul d t (overwrite it s e t r)"
proof -
  note at = at_node [OF ok rd rest]
  note less = bound_less_node [OF at(1,8,9)]
  note i = properD [OF at(1)]
  show ?thesis
  proof (cases "cs (snd it) < cut s")
    case True
    let ?i = "range_tombstone_of s (rt_end_bound (snd it)) (tomb_of (snd it))"
    let ?n = "range_tombstone_of (rt_start_bound (snd it)) (invert_bound s) (tomb_of (snd it))"
    have "good l0 rc ul d t (attempt (rev_update ?i) r (\<lambda>r. attempt (rev_insert ?n) r (overwrite_rest ?i s e t)))"
    proof (rule attempt_good [OF ok prim_fails(3) [OF rest]])
      fix r1 assume r1: "rev_update ?i r = Some r1"
      have "wf_rts (map snd (rev (passed r)) @ ?i # map snd xs)" using at(2-8) i by (auto simp flip: ce_def)
      from rev_update_ok [OF ok r1 rest this]
      have r1_ok: "rev_ok l0 rc ul r1" "passed r1 = passed r" "rest r1 = (fst it, ?i) # xs" by simp_all
      show "good l0 rc ul d t (attempt (rev_insert ?n) r1 (overwrite_rest ?i s e t))"
      proof (rule attempt_good [OF r1_ok(1) prim_fails(1)])
        fix r2 assume r2: "rev_insert ?n r1 = Some r2"
        have "cut s \<le> cs (snd b)" if "b \<in> set xs" for b using at(2) at(6) [OF that] by simp
        then have "wf_rts (map snd (rev (passed r1)) @ ?n # map snd (rest r1))"
          using at(2-8) i True by (auto simp: r1_ok simp flip: ce_def cs_def)
        from rev_insert_ok [OF r1_ok(1) r2 this]
        have r2_ok: "rev_ok l0 rc ul r2" "passed r2 = (next_addr r1, ?n) # passed r" "rest r2 = (fst it, ?i) # xs"
          by (simp_all add: r1_ok)
        have "ready s e t r2" using rd at(2) by (auto simp: ready_def r2_ok rest simp flip: ce_def)
        moreover have "pending d s e t r2"
          using cov_split [of "cs (snd it)" "cut s" "ce (snd it)"] True at(2) i
          by (intro pending_split [OF pd rest r2_ok(2,3)]) (simp_all flip: ce_def cs_def)
        ultimately show "good l0 rc ul d t (overwrite_rest ?i s e t r2)"
          using overwrite_rest_good [OF r2_ok(1) _ _ r2_ok(3)] older at(10) by simp
      qed
    qed
    then show ?thesis using True by (simp add: overwrite_def Let_def less not_le)
  next
    case False
    then show ?thesis
      using overwrite_rest_good [OF ok rd pd rest older _ overlap] by (simp add: overwrite_def Let_def less)
  qed
qed

lemma keep_rest_good:
  assumes ok: "rev_ok l0 rc ul r" and pd: "pending d (rt_start_bound (snd it)) e t r" and rest: "rest r = it # xs"
    and newer: "t < tomb_of (snd it)" and e: "\<not> start_bound e" "tombstone_none \<le> t" "cs (snd it) < cut e"
  shows "good l0 rc ul d t (keep_rest it xs e r)"
proof -
  have it: "proper (snd it)" using rev_okD(1) [OF ok] by (simp add: nodes_def rest)
  note i = properD [OF it]
  have rd: "ready (rt_start_bound (snd it)) e t r"
    using rev_okD(1) [OF ok] i e by (auto simp: ready_def nodes_def rest simp flip: cs_def ce_def)
  note at = at_node [OF ok rd rest]
  have less: "bound_less (rt_end_bound (snd it)) e \<longleftrightarrow> ce (snd it) < cut e"
    using bound_less_node(7) [OF it at(8) e(1)] .
  show ?thesis
  proof (cases "ce (snd it) < cut e")
    case True
    let ?r = "pass_node it xs r" and ?s = "invert_bound (rt_end_bound (snd it))"
    have nodes: "nodes ?r = nodes r" by (simp add: pass_node_def nodes_def rest)
    then have "rev_ok l0 rc ul ?r" using ok by (simp add: rev_ok_def pass_node_def)
    moreover have "ready ?s e t ?r"
      using next_node [OF ok rd rest] at(5) i e True
      by (fastforce simp: ready_def pass_node_def simp flip: ce_def)
    moreover have "pending d ?s e t ?r"
    proof (rule pending_bounds [OF pd nodes rest])
      fix x
      have "cov (cs (snd it)) (cut e) t x = max (cov (cs (snd it)) (ce (snd it)) t x) (cov (ce (snd it)) (cut e) t x)"
        using i e True by (intro cov_split) auto
      moreover have "max (cov (cs (snd it)) (ce (snd it)) t x) (cov (cs (snd it)) (ce (snd it)) (tomb_of (snd it)) x) =
          cov (cs (snd it)) (ce (snd it)) (tomb_of (snd it)) x"
        using newer e by (intro cov_absorb) auto
      ultimately show "max (cov (cs (snd it)) (ce (snd it)) (tomb_of (snd it)) x) (cov (cut (rt_start_bound (snd it))) (cut e) t x) =
          max (cov (cs (snd it)) (ce (snd it)) (tomb_of (snd it)) x) (cov (cut ?s) (cut e) t x)"
        unfolding invert_bound_simps cs_def [symmetric] ce_def [symmetric] by (rule max_drop [THEN sym])
    qed
    ultimately show ?thesis using True by (simp add: keep_rest_def less)
  next
    case False
    then have absorb: "max (cov (cs (snd it)) (ce (snd it)) (tomb_of (snd it)) x) (cov (cs (snd it)) (cut e) t x) =
        cov (cs (snd it)) (ce (snd it)) (tomb_of (snd it)) x" for x
      using newer e by (subst max.commute, intro cov_absorb) auto
    have "deletion (map snd (nodes r)) x = d x" for x
    proof -
      have "d x = max (max (deletion (map snd (rev (passed r))) x) (max (cov (cs (snd it)) (ce (snd it)) (tomb_of (snd it)) x)
          (deletion (map snd xs) x))) (cov (cs (snd it)) (cut e) t x)"
        using pd by (simp add: pending_def deletion_nodes rest cs_def)
      also have "... = deletion (map snd (nodes r)) x"
        unfolding max_absorb [OF absorb] by (simp add: deletion_nodes rest)
      finally show ?thesis by simp
    qed
    then show ?thesis using False ok by (simp add: keep_rest_def less)
  qed
qed

lemma keep_good:
  assumes ok: "rev_ok l0 rc ul r" and rd: "ready s e t r" and pd: "pending d s e t r"
    and rest: "rest r = it # xs" and newer: "t < tomb_of (snd it)" and overlap: "cs (snd it) < cut e"
  shows "good l0 rc ul d t (keep it xs s e t r)"
proof -
  note at = at_node [OF ok rd rest]
  note less = bound_less_node [OF at(1,8,9)]
  note i = properD [OF at(1)]
  show ?thesis
  proof (cases "cut s < cs (snd it)")
    case True
    let ?n = "range_tombstone_of s (invert_bound (rt_start_bound (snd it))) t"
    have "good l0 rc ul d t (attempt (rev_insert ?n) r (keep_rest it xs e))"
    proof (rule attempt_good [OF ok prim_fails(1)])
      fix r' assume r': "rev_insert ?n r = Some r'"
      have "cs (snd it) \<le> cs (snd b)" if "b \<in> set xs" for b using i(3) at(6) [OF that] by simp
      then have "wf_rts (map snd (rev (passed r)) @ ?n # map snd (rest r))"
        using at i True by (auto simp: rest simp flip: cs_def ce_def)
      from rev_insert_ok [OF ok r' this]
      have r'_ok: "rev_ok l0 rc ul r'" "passed r' = (next_addr r, ?n) # passed r" "rest r' = it # xs"
        by (simp_all add: rest)
      have "cov (cut s) (cut e) t x = max (cov (cut s) (cs (snd it)) t x) (cov (cs (snd it)) (cut e) t x)" for x
        using True overlap at(11) by (intro cov_split) auto
      then have "pending d (rt_start_bound (snd it)) e t r'"
        using at(11) by (intro pending_insert [OF pd r'_ok(2)]) (simp_all add: r'_ok rest flip: cs_def)
      then show "good l0 rc ul d t (keep_rest it xs e r')"
        by (rule keep_rest_good [OF r'_ok(1) _ r'_ok(3) newer at(9,11) overlap])
    qed
    then show ?thesis using True overlap by (simp add: keep_def Let_def less not_le)
  next
    case False
    have "pending d (rt_start_bound (snd it)) e t r"
    proof (rule pending_bounds [OF pd refl rest])
      fix x
      have "cov (cs (snd it)) (cut e) t x = max (cov (cs (snd it)) (cut s) t x) (cov (cut s) (cut e) t x)"
        using False at(10,11) by (intro cov_split) auto
      moreover have "max (cov (cs (snd it)) (cut s) t x) (cov (cs (snd it)) (ce (snd it)) (tomb_of (snd it)) x) =
          cov (cs (snd it)) (ce (snd it)) (tomb_of (snd it)) x"
        using newer at(2,11) by (intro cov_absorb) auto
      ultimately show "max (cov (cs (snd it)) (ce (snd it)) (tomb_of (snd it)) x) (cov (cut s) (cut e) t x) =
          max (cov (cs (snd it)) (ce (snd it)) (tomb_of (snd it)) x) (cov (cut (rt_start_bound (snd it))) (cut e) t x)"
        unfolding cs_def [symmetric] by (rule max_drop)
    qed
    then show ?thesis using False keep_rest_good [OF ok _ rest newer at(9,11) overlap]
      by (simp add: keep_def Let_def less)
  qed
qed

lemma insert_round_good:
  assumes ok: "rev_ok l0 rc ul r" and rd: "ready s e t r" and pd: "pending d s e t r"
  shows "good l0 rc ul d t (insert_round s e t r)"
proof (cases "rest r")
  case Nil
  then show ?thesis using insert_before_good [OF assms] by (simp add: insert_round_def)
next
  case (Cons it xs)
  note at = at_node [OF ok rd Cons]
  note less = bound_less_node [OF at(1,8,9)]
  have nonempty: "\<not> cut e \<le> cut s" using at(10) by simp
  have front: "cut e \<le> cs (snd n)" if "cut e \<le> cs (snd it)" "n \<in> set (rest r)" for n
    using that at(6) [of n] properD(3) [OF at(1)] by (auto simp: Cons)
  show ?thesis
  proof (cases "cut e \<le> cs (snd it)")
    case True
    then show ?thesis
      using insert_before_good [OF assms front [OF True]] extend_good [OF assms Cons] nonempty
      by (simp add: insert_round_def Cons Let_def less)
  next
    case False
    then have "cs (snd it) < cut e" by simp
    then show ?thesis
      using merge_same_good [OF assms Cons] overwrite_good [OF assms Cons] keep_good [OF assms Cons] nonempty False
      by (cases t "tomb_of (snd it)" rule: linorder_cases)
        (auto simp: insert_round_def Cons Let_def less tomb_compare_sign)
  qed
qed

section \<open>Termination and the result of an insertion\<close>

lemma attempt_Continue:
  "attempt m r k = Continue r' s e \<longleftrightarrow> (\<exists>r1. m r = Some r1 \<and> k r1 = Continue r' s e)"
  by (simp add: attempt_def split: option.splits)

lemma prim_rest:
  "rev_insert rt r = Some r' \<Longrightarrow> rest r' = rest r"
  "rev_erase r = Some r' \<Longrightarrow> length (rest r) = Suc (length (rest r'))"
  "rev_update rt r = Some r' \<Longrightarrow> length (rest r') = length (rest r)"
  by (auto simp: rev_insert_def rev_erase_def rev_update_def log_op_def split: if_splits list.splits)

lemma overwrite_rest_decreases:
  "overwrite_rest i s e t r = Continue r' s' e' \<Longrightarrow> length (rest r') < length (rest r)"
  by (auto simp: overwrite_rest_def attempt_Continue dest!: prim_rest(2) split: if_splits)

lemma keep_rest_decreases:
  "keep_rest it xs e r = Continue r' s' e' \<Longrightarrow> rest r = it # xs \<Longrightarrow> length (rest r') < length (rest r)"
  by (auto simp: keep_rest_def pass_node_def split: if_splits)

text \<open>Every round that does not end the loop leaves fewer nodes in front of the iterator.\<close>

lemma insert_round_decreases:
  assumes "insert_round s e t r = Continue r' s' e'"
  shows "length (rest r') < length (rest r)"
proof -
  obtain it xs where rest: "rest r = it # xs"
    using assms by (cases "rest r") (auto simp: insert_round_def attempt_Continue)
  consider "merge_same it s e r = Continue r' s' e'" | "overwrite it s e t r = Continue r' s' e'"
    | "keep it xs s e t r = Continue r' s' e'"
    using assms by (auto simp: insert_round_def rest attempt_Continue Let_def split: if_splits)
  then show ?thesis
  proof cases
    case 1
    then show ?thesis by (auto simp: merge_same_def attempt_Continue Let_def dest!: prim_rest(2))
  next
    case 2
    then show ?thesis
      by (auto simp: overwrite_def Let_def attempt_Continue dest!: overwrite_rest_decreases prim_rest(1,3) split: if_splits)
  next
    case 3
    then show ?thesis
      by (auto simp: keep_def Let_def attempt_Continue rest dest!: keep_rest_decreases prim_rest(1) split: if_splits)
  qed
qed

text \<open>C31. The loop of \<open>insert_from\<close> ends for every input, also for bounds in the wrong order, lists that
  are not ordered and allocations that fail: it always returns or throws.\<close>

theorem insert_loop_terminates: "\<exists>res. insert_loop s e t r = Some res"
proof (induction "length (rest r)" arbitrary: s e r rule: less_induct)
  case less
  then show ?case
    using insert_round_decreases [of s e t r]
    by (subst insert_loop.simps) (cases "insert_round s e t r"; auto)
qed

lemma insert_loop_ok:
  assumes "rev_ok l0 rc ul r" "ready s e t r" "pending d s e t r"
  shows "\<exists>fine r'. insert_loop s e t r = Some (fine, r') \<and> rev_ok l0 rc ul r' \<and>
    (fine \<longrightarrow> (\<forall>x. deletion (map snd (nodes r')) x = d x)) \<and> (ul \<longrightarrow> fine)"
  using assms
proof (induction "length (rest r)" arbitrary: s e r rule: less_induct)
  case less
  have "good l0 rc ul d t (insert_round s e t r)" by (rule insert_round_good [OF less(2-4)])
  then show ?case
    using insert_round_decreases [of s e t r] less(1)
    by (subst insert_loop.simps) (cases "insert_round s e t r"; auto)
qed

lemma insert_from_ok:
  assumes ok: "rev_ok l0 rc ul r" and rd: "ready s e t r" and pd: "pending d s e t r"
  shows "\<exists>fine r'. insert_from s e t r = Some (fine, r') \<and> rev_ok l0 rc ul r' \<and>
    (fine \<longrightarrow> (\<forall>x. deletion (map snd (nodes r')) x = d x)) \<and> (ul \<longrightarrow> fine)"
proof (cases "\<exists>prev ps. passed r = prev # ps \<and> tomb_of (snd prev) = t \<and> adjacent (rt_end_bound (snd prev)) s")
  case True
  then obtain prev ps where prev: "passed r = prev # ps" "tomb_of (snd prev) = t" "adjacent (rt_end_bound (snd prev)) s"
    by blast
  have wf: "wf_rts (map snd (rev ps) @ snd prev # map snd (rest r))"
    using rev_okD(1) [OF ok] by (simp add: nodes_def prev)
  then have i: "proper (snd prev)" by simp
  have s: "start_bound s" "\<not> start_bound e" "cut s < cut e" "tombstone_none \<le> t" using rd by (auto simp: ready_def)
  have adj: "ce (snd prev) = cut s" using prev(3) bound_less_node(12) [OF i s(1,2)] by simp
  show ?thesis
  proof (cases "rev_erase_prev r")
    case None
    then have "budget r = Some 0" by (simp add: rev_erase_prev_def prev split: if_splits)
    then have "\<not> ul" using ok by (auto simp: rev_ok_def)
    then show ?thesis using None ok prev by (auto simp: insert_from_def)
  next
    case (Some r1)
    from rev_erase_prev_ok [OF ok Some]
    have r1: "rev_ok l0 rc ul r1" "passed r1 = ps" "rest r1 = rest r" by (simp_all add: prev)
    have "ready (rt_start_bound (snd prev)) e t r1"
      using rd wf properD [OF i] adj by (auto simp: ready_def r1 simp flip: cs_def)
    moreover have "cov (cs (snd prev)) (cut e) t x = max (cov (cs (snd prev)) (cut s) t x) (cov (cut s) (cut e) t x)" for x
      using s properD(3) [OF i] adj by (intro cov_split) auto
    then have "pending d (rt_start_bound (snd prev)) e t r1"
      using pd adj prev(2) s(4)
      by (simp add: pending_def deletion_nodes r1 prev max_cov max.assoc max.left_commute flip: cs_def)
    ultimately show ?thesis using insert_loop_ok [OF r1(1)] Some prev by (simp add: insert_from_def)
  qed
next
  case False
  then have "insert_from s e t r = insert_loop s e t r" by (auto simp: insert_from_def split: list.splits)
  then show ?thesis using insert_loop_ok [OF assms] by simp
qed

lemma nodes_seek [simp]: "nodes (seek P r) = nodes r"
  by (simp add: seek_def nodes_def)

lemma seek_ok: "rev_ok l0 rc ul r \<Longrightarrow> rev_ok l0 rc ul (seek P r)"
  by (simp add: rev_ok_def) (simp add: seek_def)

lemma last_end:
  assumes "wf_rts (map snd ns)" "ns \<noteq> []" "n \<in> set ns"
  shows "ce (snd n) \<le> ce (snd (last ns))"
proof -
  have ns: "ns = butlast ns @ [last ns]" using assms(2) by simp
  then have "map snd ns = map snd (butlast ns) @ [snd (last ns)]" by (metis list.map map_append)
  then have wf: "wf_rts (map snd (butlast ns) @ [snd (last ns)])" using assms(1) by simp
  have "n \<in> set (butlast ns @ [last ns])" using assms(3) ns by simp
  then show ?thesis using wf properD(3) [of "snd (last ns)"] by fastforce
qed

lemma seek_ready:
  assumes "rev_ok l0 rc ul r" "start_bound s" "\<not> start_bound e" "cut s < cut e" "tombstone_none \<le> t" "nodes r \<noteq> []"
    and P: "P = (if bound_less s (rt_end_bound (snd (last (nodes r)))) then (\<lambda>n. \<not> bound_less s (rt_end_bound (snd n))) else (\<lambda>n. True))"
  shows "ready s e t (seek P r)"
proof -
  have less: "bound_less s (rt_end_bound (snd n)) \<longleftrightarrow> cut s < ce (snd n)" if "n \<in> set (nodes r)" for n
    using wf_rts_proper [OF rev_okD(1) [OF assms(1)], of "snd n"] that assms(2,3) bound_less_node(8) by auto
  have "ce (snd n) \<le> cut s" if "n \<in> set (takeWhile P (nodes r))" for n
  proof -
    have n: "n \<in> set (nodes r)" "P n" using set_takeWhileD [OF that] by auto
    show ?thesis
    proof (cases "bound_less s (rt_end_bound (snd (last (nodes r))))")
      case True
      then show ?thesis using n less [OF n(1)] by (simp add: P)
    next
      case False
      then show ?thesis using less [of "last (nodes r)"] last_end [OF rev_okD(1) [OF assms(1)] assms(6) n(1)] assms(6) by simp
    qed
  qed
  moreover have "cut s < ce (snd (hd (dropWhile P (nodes r))))" if "dropWhile P (nodes r) \<noteq> []"
  proof -
    have "\<not> P (hd (dropWhile P (nodes r)))" using hd_dropWhile [OF that] .
    moreover have "hd (dropWhile P (nodes r)) \<in> set (nodes r)" using that by (metis hd_in_set set_dropWhileD)
    ultimately show ?thesis using less by (auto simp: P split: if_splits)
  qed
  ultimately show ?thesis using assms(2-5) by (simp add: ready_def seek_def)
qed

lemma apply_reversibly_ok:
  assumes ok: "rev_ok l0 rc ul r" and b: "start_bound s" "\<not> start_bound e" "cut s < cut e" "tombstone_none \<le> t"
  shows "\<exists>fine r'. apply_reversibly s e t r = Some (fine, r') \<and> rev_ok l0 rc ul r' \<and>
    (fine \<longrightarrow> (\<forall>x. deletion (map snd (nodes r')) x = max (deletion (map snd (nodes r)) x) (cov (cut s) (cut e) t x))) \<and>
    (ul \<longrightarrow> fine)"
proof (cases "nodes r = []")
  case True
  let ?r = "seek (\<lambda>n. True) r"
  let ?rt = "range_tombstone_of s e t"
  have r: "rev_ok l0 rc ul ?r" "passed ?r = []" "rest ?r = []" using seek_ok [OF ok] True by (auto simp: seek_def)
  show ?thesis
  proof (cases "rev_insert ?rt ?r")
    case None
    then have "budget r = Some 0" using prim_fails(1) [OF None] by (simp add: seek_def)
    then have "\<not> ul" using ok by (auto simp: rev_ok_def)
    then show ?thesis using None ok True by (auto simp: apply_reversibly_def)
  next
    case (Some r')
    have "wf_rts (map snd (rev (passed ?r)) @ ?rt # map snd (rest ?r))" using b by (simp add: r)
    from rev_insert_ok [OF r(1) Some this]
    show ?thesis using Some True b by (auto simp: apply_reversibly_def nodes_def r max_cov max.commute)
  qed
next
  case False
  let ?P = "if bound_less s (rt_end_bound (snd (last (nodes r)))) then (\<lambda>n. \<not> bound_less s (rt_end_bound (snd n))) else (\<lambda>n. True)"
  have "apply_reversibly s e t r = insert_from s e t (seek ?P r)" using False by (simp add: apply_reversibly_def)
  moreover have "pending (\<lambda>x. max (deletion (map snd (nodes r)) x) (cov (cut s) (cut e) t x)) s e t (seek ?P r)"
    by (simp add: pending_def)
  ultimately show ?thesis
    using insert_from_ok [OF seek_ok [OF ok] seek_ready [OF ok b False refl]] by simp
qed

section \<open>Search\<close>

definition rtl_ok :: "('k :: linorder) range_tombstone_list \<Rightarrow> bool" where
  "rtl_ok l \<longleftrightarrow> wf_rts (map snd (tombstones l)) \<and> distinct (map fst (tombstones l))
     \<and> (\<forall>n \<in> set (tombstones l). fst n < free_addr l)"

abbreviation deletions :: "('k :: linorder) range_tombstone_list \<Rightarrow> 'k weighted \<Rightarrow> tombstone" where
  "deletions l \<equiv> deletion (map snd (tombstones l))"

lemma rtl_ok_empty [simp]: "rtl_ok rtl_empty" by (simp add: rtl_ok_def rtl_empty_def)

lemma rev_ok_start: "rtl_ok l \<Longrightarrow> rev_ok (tombstones l) rc (fails = None) (reverter_for rc fails l)"
  by (auto simp: rtl_ok_def rev_ok_def reverter_for_def nodes_def)

lemma rtl_ok_of: "rev_ok l0 rc ul r \<Longrightarrow> rtl_ok (rtl_of r)"
  by (simp add: rtl_ok_def rtl_of_def rev_ok_def)

lemma deletion_before: "\<forall>rt \<in> set rts. x < cs rt \<Longrightarrow> deletion rts x = tombstone_none"
  by (induction rts) (auto simp: cov_def)

lemma deletion_Cons_covered:
  assumes "wf_rts (rt # rts)" "x < ce rt"
  shows "deletion (rt # rts) x = cov (cs rt) (ce rt) (tomb_of rt) x"
proof -
  have "deletion rts x = tombstone_none" using assms by (intro deletion_before) auto
  then show ?thesis using assms by (simp add: max_cov properD)
qed

lemma search_is_deletion:
  assumes "rtl_ok l"
  shows "search_tombstone_covering k l = deletions l (At k 0)"
proof -
  have "(case dropWhile (\<lambda>n. \<not> key_less_bound k (rt_end_bound (snd n))) ns of
        [] \<Rightarrow> tombstone_none
      | it # _ \<Rightarrow> if key_less_bound k (rt_start_bound (snd it)) then tombstone_none else tomb_of (snd it))
    = deletion (map snd ns) (At k 0)" if "wf_rts (map snd ns)" for ns
    using that
  proof (induction ns)
    case (Cons n ns)
    show ?case
    proof (cases "At k 0 < ce (snd n)")
      case True
      then show ?thesis using deletion_Cons_covered [of "snd n" "map snd ns" "At k 0"] Cons.prems
        by (auto simp: bound_cut cov_def simp flip: cs_def ce_def)
    next
      case False
      then have "cov (cs (snd n)) (ce (snd n)) (tomb_of (snd n)) (At k 0) = tombstone_none" by (simp add: cov_def)
      then show ?thesis using Cons False by (simp add: bound_cut flip: ce_def)
    qed
  qed simp
  from this [of "tombstones l"] assms show ?thesis by (simp add: search_tombstone_covering_def rtl_ok_def)
qed

section \<open>Merging\<close>

definition built :: "bool \<Rightarrow> (('k :: linorder) weighted \<Rightarrow> tombstone) \<Rightarrow> 'k rtl_result \<Rightarrow> bool" where
  "built unlimited g res \<longleftrightarrow> (\<exists>fine fails l. res = Some (fine, fails, l) \<and> rtl_ok l \<and>
     (unlimited \<longrightarrow> fine \<and> fails = None) \<and> (fine \<longrightarrow> (\<forall>x. deletions l x = g x)))"

lemma rtl_apply_bounds_ok:
  assumes "rtl_ok l" "start_bound s" "\<not> start_bound e" "cut s < cut e" "tombstone_none \<le> t"
  shows "built (fails = None) (\<lambda>x. max (deletions l x) (cov (cut s) (cut e) t x)) (rtl_apply_bounds s e t fails l)"
proof -
  let ?r = "reverter_for False fails l"
  obtain fine r' where r': "apply_reversibly s e t ?r = Some (fine, r')" "rev_ok (tombstones l) False (fails = None) r'"
    "fine \<longrightarrow> (\<forall>x. deletion (map snd (nodes r')) x = max (deletion (map snd (nodes ?r)) x) (cov (cut s) (cut e) t x))"
    "fails = None \<longrightarrow> fine"
    using apply_reversibly_ok [OF rev_ok_start [OF assms(1)] assms(2-5)] by blast
  have "nodes ?r = tombstones l" by (simp add: reverter_for_def nodes_def)
  then show ?thesis
    using r' rtl_ok_of [OF r'(2)] by (auto simp: built_def rtl_apply_bounds_def rtl_of_def rev_ok_def)
qed

lemma rtl_apply_one_ok:
  assumes "rtl_ok l" "proper rt"
  shows "built (fails = None) (\<lambda>x. max (deletions l x) (cov (cs rt) (ce rt) (tomb_of rt) x)) (rtl_apply_one rt fails l)"
  using rtl_apply_bounds_ok [OF assms(1) properD(1,2) [OF assms(2)] _ properD(4) [OF assms(2)]] properD(3) [OF assms(2)]
  by (simp add: rtl_apply_one_def cs_def ce_def)

text \<open>C18. Applying a range tombstone to a well-formed list gives a well-formed list in which the deletion
  found for a key is the newer of the one found before and the new one if the new range covers the key,
  and the one found before otherwise.\<close>

theorem range_apply_correct:
  assumes "rtl_ok l" "proper rt"
  shows "\<exists>l'. rtl_apply_one rt None l = Some (True, None, l') \<and> rtl_ok l' \<and>
    (\<forall>k. search_tombstone_covering k l' =
       (if \<not> key_less_bound k (rt_start_bound rt) \<and> key_less_bound k (rt_end_bound rt)
        then tomb_apply (search_tombstone_covering k l) (tomb_of rt) else search_tombstone_covering k l))"
proof -
  obtain l' where l': "rtl_apply_one rt None l = Some (True, None, l')" "rtl_ok l'"
    "\<And>x. deletions l' x = max (deletions l x) (cov (cs rt) (ce rt) (tomb_of rt) x)"
    using rtl_apply_one_ok [OF assms, of None] by (auto simp: built_def)
  have "\<not> key_less_bound k (rt_start_bound rt) \<longleftrightarrow> cs rt \<le> At k 0" "key_less_bound k (rt_end_bound rt) \<longleftrightarrow> At k 0 < ce rt" for k
    by (auto simp: bound_cut cs_def ce_def)
  then show ?thesis
    using l' assms(1) by (simp add: search_is_deletion tomb_apply_max cov_def)
qed

definition example_rt :: "nat \<Rightarrow> nat \<Rightarrow> i64 \<Rightarrow> nat range_tombstone" where
  "example_rt a b ts = range_tombstone_of (Bound [a] Incl_start) (Bound [b] Incl_end) (Tombstone ts 0)"

lemmas example_simps = example_rt_def start_bound_def cut_def tombstone_none_def missing_timestamp_def
  less_eq_tombstone_def less_tombstone_def tomb_compare_def tomb_apply_def key_less_bound_def search_tombstone_covering_def

theorem range_apply_correct_witness:
  "\<exists>l'. rtl_apply_one (example_rt 2 5 7) None rtl_empty = Some (True, None, l') \<and> rtl_ok l' \<and>
    search_tombstone_covering [3] l' = Tombstone 7 0 \<and> search_tombstone_covering [6] l' = tombstone_none"
proof -
  have "proper (example_rt 2 5 7)" by (simp add: example_simps)
  from range_apply_correct [OF rtl_ok_empty this]
  show ?thesis by (auto simp: example_simps rtl_empty_def)
qed

text \<open>Two lists: the keys 2 to 5 deleted at time 7, the keys 4 to 9 deleted at time 8.\<close>

definition example_rtl :: "nat \<Rightarrow> nat \<Rightarrow> i64 \<Rightarrow> nat range_tombstone_list" where
  "example_rtl a b ts = \<lparr>tombstones = [(0, example_rt a b ts)], free_addr = 1\<rparr>"

lemma example_rtl_ok: "rtl_ok (example_rtl 2 5 7)" "rtl_ok (example_rtl 4 9 8)"
  by (simp_all add: rtl_ok_def example_rtl_def example_simps)

lemma example_search:
  "search_tombstone_covering [4] (example_rtl 2 5 7) = Tombstone 7 0"
  "search_tombstone_covering [3] (example_rtl 2 5 7) = Tombstone 7 0"
  "search_tombstone_covering [4] (example_rtl 4 9 8) = Tombstone 8 0"
  "search_tombstone_covering [3] (example_rtl 4 9 8) = tombstone_none"
  by (simp_all add: example_rtl_def example_simps)

lemma apply_reversibly_all_ok:
  assumes "rev_ok l0 rc ul r" "\<forall>rt \<in> set rts. proper rt"
  shows "\<exists>fine r'. apply_reversibly_all rts r = Some (fine, r') \<and> rev_ok l0 rc ul r' \<and>
    (fine \<longrightarrow> (\<forall>x. deletion (map snd (nodes r')) x = max (deletion (map snd (nodes r)) x) (deletion rts x))) \<and> (ul \<longrightarrow> fine)"
  using assms
proof (induction rts arbitrary: r)
  case (Cons rt rts)
  have p: "proper rt" using Cons.prems by simp
  obtain fine r1 where r1: "apply_reversibly (rt_start_bound rt) (rt_end_bound rt) (tomb_of rt) r = Some (fine, r1)"
    "rev_ok l0 rc ul r1" "ul \<longrightarrow> fine"
    "fine \<Longrightarrow> deletion (map snd (nodes r1)) x = max (deletion (map snd (nodes r)) x) (cov (cs rt) (ce rt) (tomb_of rt) x)" for x
    using apply_reversibly_ok [OF Cons.prems(1) properD(1,2) [OF p] _ properD(4) [OF p]] properD(3) [OF p]
    by (auto simp: cs_def ce_def)
  show ?case
  proof (cases fine)
    case True
    obtain f r2 where "apply_reversibly_all rts r1 = Some (f, r2)" "rev_ok l0 rc ul r2" "ul \<longrightarrow> f"
      "f \<longrightarrow> (\<forall>x. deletion (map snd (nodes r2)) x = max (deletion (map snd (nodes r1)) x) (deletion rts x))"
      using Cons.IH [OF r1(2)] Cons.prems(2) by auto
    then show ?thesis using r1 True by (auto simp: max.assoc)
  next
    case False
    then show ?thesis using r1 by auto
  qed
qed auto

lemma revert_restores:
  assumes "rev_ok l0 True ul r"
  shows "\<exists>r'. revert r = Some r' \<and> nodes r' = l0 \<and> undo_ops r' = [] \<and> next_addr r' = next_addr r \<and> budget r' = budget r"
  using assms by (simp add: revert_def rev_ok_def cancel_def nodes_def)

lemma range_merge_outcome:
  assumes "rtl_ok l" "rtl_ok other"
  shows "\<exists>fine r. rtl_apply_reversibly (map snd (tombstones other)) fails l = Some (fine, r) \<and>
    (fails = None \<longrightarrow> fine) \<and>
    (if fine
     then rtl_ok (rtl_of r) \<and> (\<forall>k. search_tombstone_covering k (rtl_of r) =
             tomb_apply (search_tombstone_covering k l) (search_tombstone_covering k other)) \<and>
          (\<exists>r'. revert r = Some r' \<and> nodes r' = tombstones l)
     else nodes r = tombstones l)"
proof -
  let ?r = "reverter_for True fails l" and ?rts = "map snd (tombstones other)"
  have "\<forall>rt \<in> set ?rts. proper rt" using assms(2) by (simp add: rtl_ok_def wf_rts_def)
  then obtain fine r where r: "apply_reversibly_all ?rts ?r = Some (fine, r)" "rev_ok (tombstones l) True (fails = None) r"
    "fine \<longrightarrow> (\<forall>x. deletion (map snd (nodes r)) x = max (deletion (map snd (nodes ?r)) x) (deletion ?rts x))"
    "fails = None \<longrightarrow> fine"
    using apply_reversibly_all_ok [OF rev_ok_start [OF assms(1)]] by blast
  obtain r' where r': "revert r = Some r'" "nodes r' = tombstones l" using revert_restores [OF r(2)] by blast
  have "nodes ?r = tombstones l" by (simp add: reverter_for_def nodes_def)
  then show ?thesis
    using r r' rtl_ok_of [OF r(2)] search_is_deletion [OF assms(1)] search_is_deletion [OF assms(2)] search_is_deletion [OF rtl_ok_of [OF r(2)]]
    by (cases fine) (auto simp: rtl_apply_reversibly_def tomb_apply_max rtl_of_def)
qed

text \<open>C19. Merging a list of tombstones under a reverter can be undone: whenever an allocation fails, the
  reverter's destructor restores exactly the nodes the list had, and after a successful merge, which
  yields for every key the newer of the two deletions, calling \<open>revert\<close> does; the assertions of the undo
  operations never fail.\<close>

theorem range_merge_reversible:
  assumes "rtl_ok l" "rtl_ok other"
  shows "\<exists>fine r. rtl_apply_reversibly (map snd (tombstones other)) fails l = Some (fine, r) \<and>
    (fails = None \<longrightarrow> fine) \<and>
    (if fine
     then (\<forall>k. search_tombstone_covering k (rtl_of r) =
             tomb_apply (search_tombstone_covering k l) (search_tombstone_covering k other)) \<and>
          (\<exists>r'. revert r = Some r' \<and> nodes r' = tombstones l)
     else nodes r = tombstones l)"
  using range_merge_outcome [OF assms, of fails] by (auto split: if_splits)

theorem range_merge_reversible_witness:
  "\<exists>r r'. rtl_apply_reversibly (map snd (tombstones (example_rtl 4 9 8))) None (example_rtl 2 5 7) = Some (True, r) \<and>
    search_tombstone_covering [4] (rtl_of r) = Tombstone 8 0 \<and> search_tombstone_covering [3] (rtl_of r) = Tombstone 7 0 \<and>
    revert r = Some r' \<and> nodes r' = tombstones (example_rtl 2 5 7)"
  using range_merge_reversible [OF example_rtl_ok, of None]
  by (auto simp: example_search tomb_apply_def less_tombstone_def tomb_compare_def tombstone_none_def missing_timestamp_def)

lemma apply_monotonically_one_ok:
  assumes "rtl_ok l" "proper rt"
  shows "\<exists>fine f l'. apply_monotonically_one rt fails l = Some (fine, f, l') \<and> rtl_ok l' \<and> (fails = None \<longrightarrow> fine \<and> f = None) \<and>
    (if fine then \<forall>x. deletions l' x = max (deletions l x) (cov (cs rt) (ce rt) (tomb_of rt) x)
     else tombstones l' = tombstones l)"
proof -
  let ?r = "reverter_for True fails l"
  obtain fine r where r: "apply_reversibly (rt_start_bound rt) (rt_end_bound rt) (tomb_of rt) ?r = Some (fine, r)"
    "rev_ok (tombstones l) True (fails = None) r" "fails = None \<longrightarrow> fine"
    "fine \<longrightarrow> (\<forall>x. deletion (map snd (nodes r)) x = max (deletion (map snd (nodes ?r)) x) (cov (cs rt) (ce rt) (tomb_of rt) x))"
    using apply_reversibly_ok [OF rev_ok_start [OF assms(1)] properD(1,2) [OF assms(2)] _ properD(4) [OF assms(2)]]
      properD(3) [OF assms(2)] unfolding cs_def ce_def by blast
  have nodes: "nodes ?r = tombstones l" "nodes (cancel r) = nodes r" "next_addr (cancel r) = next_addr r" "budget (cancel r) = budget r"
    by (simp_all add: reverter_for_def nodes_def cancel_def)
  show ?thesis
  proof (cases fine)
    case True
    then show ?thesis
      using r rtl_ok_of [OF r(2)] by (auto simp: apply_monotonically_one_def nodes rtl_of_def rev_ok_def)
  next
    case False
    obtain r' where r': "revert r = Some r'" "nodes r' = tombstones l" "next_addr r' = next_addr r"
      using revert_restores [OF r(2)] by blast
    have "rtl_ok (rtl_of r')" using assms(1) r' r(2) by (simp add: rtl_ok_def rtl_of_def rev_ok_def)
    then show ?thesis using False r r' by (auto simp: apply_monotonically_one_def rtl_of_def)
  qed
qed

lemma apply_monotonically_ok:
  assumes "rtl_ok l" "\<forall>n \<in> set ns. proper (snd n)"
  shows "\<exists>fine ns' l'. apply_monotonically ns fails l = Some (fine, ns', l') \<and> rtl_ok l' \<and> suffix ns' ns \<and>
    (fails = None \<longrightarrow> fine) \<and> (fine \<longrightarrow> ns' = []) \<and>
    (\<forall>x. deletions l x \<le> deletions l' x \<and>
       max (deletions l' x) (deletion (map snd ns') x) = max (deletions l x) (deletion (map snd ns) x))"
  using assms
proof (induction ns arbitrary: l fails)
  case (Cons n ns)
  obtain fine f l1 where l1: "apply_monotonically_one (snd n) fails l = Some (fine, f, l1)" "rtl_ok l1"
    "fails = None \<longrightarrow> fine \<and> f = None"
    "if fine then \<forall>x. deletions l1 x = max (deletions l x) (cov (cs (snd n)) (ce (snd n)) (tomb_of (snd n)) x)
     else tombstones l1 = tombstones l"
    using apply_monotonically_one_ok [OF Cons.prems(1)] Cons.prems(2) by (meson list.set_intros(1))
  show ?case
  proof (cases fine)
    case True
    obtain g ns' l' where l': "apply_monotonically ns f l1 = Some (g, ns', l')" "rtl_ok l'" "suffix ns' ns"
      "f = None \<longrightarrow> g" "g \<longrightarrow> ns' = []"
      "\<And>x. deletions l1 x \<le> deletions l' x \<and>
         max (deletions l' x) (deletion (map snd ns') x) = max (deletions l1 x) (deletion (map snd ns) x)"
      using Cons.IH [OF l1(2)] Cons.prems(2) by (metis list.set_intros(2))
    have "deletions l x \<le> deletions l' x" for x using l'(6) [of x] l1(4) True by (auto intro: order.trans)
    then show ?thesis using l1 l' True by (auto simp: max.assoc suffix_ConsI)
  next
    case False
    then show ?thesis using l1 by auto
  qed
qed auto

text \<open>C27. \<open>apply_monotonically\<close> never loses information: wherever an allocation fails, the destination
  still has for every key at least the deletion it had, and what is left of the source completes it to
  the same deletions as a merge that did not fail.\<close>

theorem range_merge_monotonic:
  assumes "rtl_ok l" "rtl_ok src"
  shows "\<exists>fine ns l'. apply_monotonically (tombstones src) fails l = Some (fine, ns, l') \<and> rtl_ok l' \<and>
    (fails = None \<longrightarrow> fine) \<and> (fine \<longrightarrow> ns = []) \<and>
    (\<forall>k. search_tombstone_covering k l \<le> search_tombstone_covering k l' \<and>
       tomb_apply (search_tombstone_covering k l') (search_tombstone_covering k (src\<lparr>tombstones := ns\<rparr>)) =
       tomb_apply (search_tombstone_covering k l) (search_tombstone_covering k src))"
proof -
  have "\<forall>n \<in> set (tombstones src). proper (snd n)" using assms(2) by (simp add: rtl_ok_def wf_rts_def)
  from apply_monotonically_ok [OF assms(1) this]
  obtain fine ns l' where l': "apply_monotonically (tombstones src) fails l = Some (fine, ns, l')" "rtl_ok l'"
    "suffix ns (tombstones src)" "fails = None \<longrightarrow> fine" "fine \<longrightarrow> ns = []"
    "\<And>x. deletions l x \<le> deletions l' x \<and>
       max (deletions l' x) (deletion (map snd ns) x) = max (deletions l x) (deletion (map snd (tombstones src)) x)"
    by blast
  from l'(3) obtain zs where "tombstones src = zs @ ns" by (auto simp: suffix_def)
  then have "rtl_ok (src\<lparr>tombstones := ns\<rparr>)" using assms(2) by (simp add: rtl_ok_def)
  then show ?thesis using l' assms by (simp add: search_is_deletion tomb_apply_max)
qed

theorem range_merge_monotonic_witness:
  "\<exists>fine ns l'. apply_monotonically (tombstones (example_rtl 4 9 8)) (Some 1) (example_rtl 2 5 7) = Some (fine, ns, l') \<and> rtl_ok l' \<and>
    Tombstone 7 0 \<le> search_tombstone_covering [3] l' \<and>
    tomb_apply (search_tombstone_covering [4] l') (search_tombstone_covering [4] (example_rtl 4 9 8\<lparr>tombstones := ns\<rparr>)) = Tombstone 8 0"
proof -
  obtain fine ns l' where l': "apply_monotonically (tombstones (example_rtl 4 9 8)) (Some 1) (example_rtl 2 5 7) = Some (fine, ns, l')"
    "rtl_ok l'" "\<And>k. search_tombstone_covering k (example_rtl 2 5 7) \<le> search_tombstone_covering k l'"
    "\<And>k. tomb_apply (search_tombstone_covering k l') (search_tombstone_covering k (example_rtl 4 9 8\<lparr>tombstones := ns\<rparr>)) =
       tomb_apply (search_tombstone_covering k (example_rtl 2 5 7)) (search_tombstone_covering k (example_rtl 4 9 8))"
    using range_merge_monotonic [OF example_rtl_ok, of "Some 1"] by blast
  moreover have "tomb_apply (Tombstone 7 0) (Tombstone 8 0) = Tombstone 8 0"
    by (simp add: tomb_apply_def less_tombstone_def tomb_compare_def)
  ultimately show ?thesis using l'(3) [of "[3]"] l'(4) [of "[4]"] by (auto simp: example_search)
qed

section \<open>Difference\<close>

lemma put_built:
  assumes "built ul g res" "start_bound s" "\<not> start_bound e" "c \<Longrightarrow> cut s < cut e" "tombstone_none \<le> t"
    and "\<And>x. max (g x) (if c then cov (cut s) (cut e) t x else tombstone_none) = h x" "\<And>x. tombstone_none \<le> g x"
  shows "built ul h (put c s e t res)"
proof -
  obtain fine fails l where res: "res = Some (fine, fails, l)" "rtl_ok l" "ul \<longrightarrow> fine \<and> fails = None"
    "fine \<longrightarrow> (\<forall>x. deletions l x = g x)" using assms(1) by (auto simp: built_def)
  show ?thesis
  proof (cases "c \<and> fine")
    case True
    then have "built (fails = None) (\<lambda>x. max (deletions l x) (cov (cut s) (cut e) t x)) (rtl_apply_bounds s e t fails l)"
      using rtl_apply_bounds_ok [OF res(2) assms(2,3) _ assms(5)] assms(4) by blast
    then show ?thesis using True res assms(6) by (auto simp: built_def put_def)
  next
    case False
    then show ?thesis using res assms(6) assms(7) by (auto simp: built_def put_def max_absorb1)
  qed
qed

text \<open>What \<open>difference\<close> must leave of a range, and of a list, given the deletions of the other list.\<close>

definition dcov :: "('k :: linorder) weighted \<Rightarrow> 'k weighted \<Rightarrow> tombstone \<Rightarrow> 'k range_tombstone list \<Rightarrow> 'k weighted \<Rightarrow> tombstone" where
  "dcov s e t other x = (if s \<le> x \<and> x < e \<and> deletion other x < t then t else tombstone_none)"

fun remaining :: "('k :: linorder) range_tombstone list \<Rightarrow> 'k range_tombstone list \<Rightarrow> 'k weighted \<Rightarrow> tombstone" where
  "remaining [] other x = tombstone_none"
| "remaining (rt # rts) other x = max (dcov (cs rt) (ce rt) (tomb_of rt) other x) (remaining rts other x)"

lemma dcov_ge: "tombstone_none \<le> t \<Longrightarrow> tombstone_none \<le> dcov s e t other x"
  by (simp add: dcov_def)

lemma dcov_empty [simp]: "e \<le> s \<Longrightarrow> dcov s e t other x = tombstone_none"
  by (auto simp: dcov_def)

lemma dcov_split:
  "s \<le> m \<Longrightarrow> m \<le> e \<Longrightarrow> tombstone_none \<le> t \<Longrightarrow> dcov s e t other x = max (dcov s m t other x) (dcov m e t other x)"
  by (auto simp: dcov_def max_def)

lemma dcov_uncovered:
  assumes "\<forall>rt \<in> set other. e \<le> cs rt" "tombstone_none \<le> t"
  shows "dcov s e t other x = cov s e t x"
proof (cases "x < e")
  case True
  then have "deletion other x = tombstone_none" using assms(1) by (intro deletion_before) auto
  then show ?thesis using assms(2) True by (auto simp: dcov_def cov_def)
qed (simp add: dcov_def cov_def)

lemma dcov_covered:
  assumes "wf_rts (rt # other)" "cs rt \<le> s" "e \<le> ce rt"
  shows "dcov s e t (rt # other) x = (if tomb_of rt < t then cov s e t x else tombstone_none)"
proof (cases "s \<le> x \<and> x < e")
  case True
  then have "x < ce rt" "cs rt \<le> x" using assms(2,3) by auto
  then have "deletion (rt # other) x = tomb_of rt"
    using deletion_Cons_covered [OF assms(1), of x] by (simp only: cov_def simp_thms if_True)
  then show ?thesis using True by (simp add: dcov_def cov_def)
qed (auto simp: dcov_def cov_def)

lemma deletion_skip: "ce rt \<le> x \<Longrightarrow> deletion (rt # other) x = deletion other x"
  by (auto simp: cov_def)

lemma dcov_skip: "ce rt \<le> s \<Longrightarrow> dcov s e t (rt # other) x = dcov s e t other x"
  unfolding dcov_def by (cases "s \<le> x") (simp_all only: deletion_skip order.trans simp_thms if_False)

lemma remaining_skip:
  "\<forall>a \<in> set rts. ce rt \<le> cs a \<Longrightarrow> remaining rts (rt # other) x = remaining rts other x"
  by (induction rts) (auto simp: dcov_skip)

lemma remaining_ge: "wf_rts rts \<Longrightarrow> tombstone_none \<le> remaining rts other x"
  by (induction rts) (auto simp: le_max_iff_disj)

lemma remaining_spec:
  "wf_rts rts \<Longrightarrow> remaining rts other x = (if deletion other x < deletion rts x then deletion rts x else tombstone_none)"
proof (induction rts)
  case (Cons rt rts)
  show ?case
  proof (cases "cs rt \<le> x \<and> x < ce rt")
    case True
    then have "deletion rts x = tombstone_none" using Cons.prems by (intro deletion_before) auto
    then show ?thesis using True Cons deletion_ge [of other x]
      by (auto simp: dcov_def cov_def max_def properD)
  next
    case False
    then have "dcov (cs rt) (ce rt) (tomb_of rt) other x = tombstone_none" "cov (cs rt) (ce rt) (tomb_of rt) x = tombstone_none"
      by (auto simp: dcov_def cov_def)
    then show ?thesis using Cons remaining_ge [of rts other x] by (simp add: max_absorb2)
  qed
qed simp

lemma built_cong: "built ul g res \<Longrightarrow> (\<And>x. g x = h x) \<Longrightarrow> built ul h res"
  by (simp add: built_def)

definition current :: "('k :: linorder) rt_node list \<Rightarrow> 'k bound_view \<times> 'k bound_view \<Rightarrow> 'k range_tombstone list" where
  "current this_rt cur = (case this_rt of [] \<Rightarrow> [] | n # ns \<Rightarrow> range_tombstone_of (fst cur) (snd cur) (tomb_of (snd n)) # map snd ns)"

lemma current_simps [simp]:
  "current [] cur = []" "current (n # ns) cur = range_tombstone_of (fst cur) (snd cur) (tomb_of (snd n)) # map snd ns"
  "current ns (first_bounds ns) = map snd ns"
  by (simp_all add: current_def first_bounds_def range_tombstone_of_def rt_start_bound_def rt_end_bound_def split: list.splits)

text \<open>The part of the current range before the other one is put whole.\<close>

lemma put_front:
  assumes "built ul g res" "\<And>x. tombstone_none \<le> g x" "wf_rts (map snd (m # other))"
    and b: "start_bound s" "\<not> start_bound e" "cut s < cut e" "tombstone_none \<le> t"
    and before: "before = bound_less s (invert_bound (rt_start_bound (snd m)))"
    and s': "s' = (if before then rt_start_bound (snd m) else s)"
  shows "start_bound s'" "cut s' = max (cut s) (cs (snd m))"
    "built ul (\<lambda>x. max (g x) (dcov (cut s) (cut s') t (map snd (m # other)) x))
       (put before s (invert_bound (rt_start_bound (snd m))) t res)"
proof -
  have m: "proper (snd m)" "\<forall>rt \<in> set (map snd (m # other)). cs (snd m) \<le> cs rt"
    using assms(3) properD(3) [of "snd m"] by auto
  have bf: "before \<longleftrightarrow> cut s < cs (snd m)" using properD(1) [OF m(1)] b(1) by (simp add: before bound_cut cs_def)
  then show "start_bound s'" "cut s' = max (cut s) (cs (snd m))"
    using b(1) properD(1) [OF m(1)] by (auto simp: s' cs_def max_def)
  show "built ul (\<lambda>x. max (g x) (dcov (cut s) (cut s') t (map snd (m # other)) x))
       (put before s (invert_bound (rt_start_bound (snd m))) t res)"
  proof (rule put_built [OF assms(1) b(1) _ _ b(4) _ assms(2)])
    show "\<not> start_bound (invert_bound (rt_start_bound (snd m)))" using properD(1) [OF m(1)] by simp
    show "before \<Longrightarrow> cut s < cut (invert_bound (rt_start_bound (snd m)))" using bf by (simp add: cs_def)
    show "max (g x) (if before then cov (cut s) (cut (invert_bound (rt_start_bound (snd m)))) t x else tombstone_none) =
        max (g x) (dcov (cut s) (cut s') t (map snd (m # other)) x)" for x
      using dcov_uncovered [OF m(2) b(4)] by (simp add: s' flip: cs_def)
  qed
qed

lemma max_ge_none: "tombstone_none \<le> a \<Longrightarrow> tombstone_none \<le> max a b"
  by (simp add: le_max_iff_disj)

lemma put_overlap:
  assumes "built ul g res" "\<And>x. tombstone_none \<le> g x" "wf_rts (map snd (m # other))"
    and b: "start_bound s" "\<not> start_bound e" "cut s < cut e" "tombstone_none \<le> t"
    and before: "before = bound_less s (invert_bound (rt_start_bound (snd m)))"
    and s': "s' = (if before then rt_start_bound (snd m) else s)"
    and e: "cs (snd m) < cut e" "cut e \<le> ce (snd m)"
  shows "built ul (\<lambda>x. max (g x) (dcov (cut s) (cut e) t (map snd (m # other)) x))
    (put (tomb_of (snd m) < t) s' e t (put before s (invert_bound (rt_start_bound (snd m))) t res))"
proof -
  note front = put_front [OF assms(1-3) b before s']
  have s'e: "cut s \<le> cut s'" "cut s' < cut e" using front(2) b(3) e(1) by auto
  show ?thesis
  proof (rule put_built [OF front(3,1) b(2) _ b(4)])
    fix x
    have "dcov (cut s') (cut e) t (map snd (m # other)) x = (if tomb_of (snd m) < t then cov (cut s') (cut e) t x else tombstone_none)"
      unfolding list.map using assms(3) e(2) front(2) by (intro dcov_covered) auto
    moreover have "dcov (cut s) (cut e) t (map snd (m # other)) x =
        max (dcov (cut s) (cut s') t (map snd (m # other)) x) (dcov (cut s') (cut e) t (map snd (m # other)) x)"
      using s'e b(4) by (intro dcov_split) auto
    ultimately show "max (max (g x) (dcov (cut s) (cut s') t (map snd (m # other)) x))
        (if tomb_of (snd m) < t then cov (cut s') (cut e) t x else tombstone_none) =
        max (g x) (dcov (cut s) (cut e) t (map snd (m # other)) x)"
      by (simp only: max.assoc)
  qed (use s'e assms(2) max_ge_none in auto)
qed

lemma rt_difference_loop_overlap:
  assumes "proper (snd m)" "start_bound s" "\<not> start_bound e" "cs (snd m) < cut e" "cut s < ce (snd m)"
    and before: "before = bound_less s (invert_bound (rt_start_bound (snd m)))"
    and s': "s' = (if before then rt_start_bound (snd m) else s)"
  shows "rt_difference_loop (n # ns) (m # os) (s, e) diff =
    (let d = put before s (invert_bound (rt_start_bound (snd m))) (tomb_of (snd n)) diff;
         put' = (\<lambda>e. put (tomb_of (snd m) < tomb_of (snd n)) s' e (tomb_of (snd n)) d) in
     if cut e < ce (snd m) then rt_difference_loop ns (m # os) (first_bounds ns) (put' e)
     else if cut e \<le> ce (snd m) then rt_difference_loop ns os (first_bounds ns) (put' (rt_end_bound (snd m)))
     else rt_difference_loop (n # ns) os (invert_bound (rt_end_bound (snd m)), e) (put' (rt_end_bound (snd m))))"
proof -
  note less = bound_less_node [OF assms(1-3)]
  have "\<not> cut e \<le> cs (snd m)" "\<not> ce (snd m) \<le> cut s" using assms(4,5) by simp_all
  then show ?thesis
    unfolding s' by (simp only: rt_difference_loop.simps less Let_def if_False before)
qed

lemma difference_overlap_ok:
  assumes diff: "built ul g diff" "\<And>x. tombstone_none \<le> g x" and wf: "wf_rts (map snd (m # os))"
    and b: "start_bound s" "\<not> start_bound e" "cut s < cut e" "tombstone_none \<le> tomb_of (snd n)" "wf_rts (map snd ns)"
    and after: "\<And>a. a \<in> set ns \<Longrightarrow> cut e \<le> cs (snd a)"
    and overlap: "cs (snd m) < cut e" "cut s < ce (snd m)"
    and IH: "\<And>h d os'. built ul h d \<Longrightarrow> (\<And>x. tombstone_none \<le> h x) \<Longrightarrow> wf_rts (map snd os') \<Longrightarrow> length os' \<le> Suc (length os) \<Longrightarrow>
      built ul (\<lambda>x. max (h x) (remaining (map snd ns) (map snd os') x)) (rt_difference_loop ns os' (first_bounds ns) d)"
    and IH': "\<And>h d c. built ul h d \<Longrightarrow> (\<And>x. tombstone_none \<le> h x) \<Longrightarrow> wf_rts (current (n # ns) c) \<Longrightarrow>
      built ul (\<lambda>x. max (h x) (remaining (current (n # ns) c) (map snd os) x)) (rt_difference_loop (n # ns) os c d)"
  shows "built ul (\<lambda>x. max (g x) (remaining (current (n # ns) (s, e)) (map snd (m # os)) x))
    (rt_difference_loop (n # ns) (m # os) (s, e) diff)"
proof -
  let ?t = "tomb_of (snd n)" and ?B = "map snd (m # os)"
  have m: "proper (snd m)" "wf_rts (map snd os)" using wf by auto
  define before where "before = bound_less s (invert_bound (rt_start_bound (snd m)))"
  define s' where "s' = (if before then rt_start_bound (snd m) else s)"
  note eq = rt_difference_loop_overlap [OF m(1) b(1,2) overlap before_def s'_def, of n ns os diff]
  note put = put_overlap [OF diff wf b(1) _ _ b(4) before_def s'_def]
  have before_e: "cut s < ce (snd m)" "cs (snd m) < ce (snd m)" using overlap properD(3) [OF m(1)] by simp_all
  show ?thesis
  proof (cases "cut e < ce (snd m)")
    case True
    then have "built ul (\<lambda>x. max (max (g x) (dcov (cut s) (cut e) ?t ?B x)) (remaining (map snd ns) ?B x))
        (rt_difference_loop ns (m # os) (first_bounds ns) (put (tomb_of (snd m) < ?t) s' e ?t
          (put before s (invert_bound (rt_start_bound (snd m))) ?t diff)))"
      using IH [OF put [OF b(2,3) overlap(1)] _ wf] diff(2) by (simp add: max_ge_none)
    then show ?thesis unfolding eq Let_def using True by (simp add: max.assoc)
  next
    case False
    let ?d = "put (tomb_of (snd m) < ?t) s' (rt_end_bound (snd m)) ?t
      (put before s (invert_bound (rt_start_bound (snd m))) ?t diff)"
    let ?g = "\<lambda>x. max (g x) (dcov (cut s) (ce (snd m)) ?t ?B x)"
    have built: "built ul ?g ?d"
      using put [of "rt_end_bound (snd m)"] properD(2) [OF m(1)] before_e by (simp flip: ce_def)
    have split: "dcov (cut s) (cut e) ?t ?B x = max (dcov (cut s) (ce (snd m)) ?t ?B x) (dcov (ce (snd m)) (cut e) ?t ?B x)" for x
      using False before_e b(4) by (intro dcov_split) auto
    have "ce (snd m) \<le> cs (snd a)" if "a \<in> set ns" for a using False after [OF that] by simp
    then have rem: "remaining (map snd ns) ?B x = remaining (map snd ns) (map snd os) x" for x
      by (simp add: remaining_skip)
    show ?thesis
    proof (cases "cut e \<le> ce (snd m)")
      case True
      have "built ul (\<lambda>x. max (?g x) (remaining (map snd ns) ?B x)) (rt_difference_loop ns os (first_bounds ns) ?d)"
        using IH [OF built _ m(2)] diff(2) rem by (simp add: max_ge_none)
      then show ?thesis unfolding eq Let_def using True False split by (simp add: max.assoc)
    next
      case gt: False
      let ?cur = "(invert_bound (rt_end_bound (snd m)), e)"
      have "wf_rts (current (n # ns) ?cur)"
        using gt b after properD(2) [OF m(1)] by (auto simp flip: ce_def)
      then have "built ul (\<lambda>x. max (?g x) (remaining (current (n # ns) ?cur) (map snd os) x)) (rt_difference_loop (n # ns) os ?cur ?d)"
        using diff(2) by (intro IH' [OF built]) (simp_all only: max_ge_none)
      moreover have "dcov (ce (snd m)) (cut e) ?t (map snd os) x = dcov (ce (snd m)) (cut e) ?t ?B x" for x
        by (simp add: dcov_skip)
      ultimately show ?thesis unfolding eq Let_def
        using gt False split rem by (simp add: max.assoc del: rt_difference_loop.simps flip: ce_def)
    qed
  qed
qed

lemma rt_difference_loop_ok:
  assumes "built ul g diff" "\<And>x. tombstone_none \<le> g x" "wf_rts (current this_rt cur)" "wf_rts (map snd other)"
  shows "built ul (\<lambda>x. max (g x) (remaining (current this_rt cur) (map snd other) x)) (rt_difference_loop this_rt other cur diff)"
  using assms
proof (induction "length this_rt + length other" arbitrary: this_rt other cur diff g rule: less_induct)
  case less
  obtain s e where cur: "cur = (s, e)" by fastforce
  show ?case
  proof (cases this_rt)
    case Nil
    then show ?thesis using less.prems by (simp add: max_absorb1)
  next
    case (Cons n ns)
    let ?t = "tomb_of (snd n)" and ?B = "map snd other"
    have b: "start_bound s" "\<not> start_bound e" "cut s < cut e" "tombstone_none \<le> ?t" "wf_rts (map snd ns)"
      and after: "\<And>a. a \<in> set ns \<Longrightarrow> cut e \<le> cs (snd a)" using less.prems(3) by (auto simp: Cons cur)
    have IH: "built ul (\<lambda>x. max (h x) (remaining (map snd ns) (map snd os) x)) (rt_difference_loop ns os (first_bounds ns) d)"
      if "built ul h d" "\<And>x. tombstone_none \<le> h x" "wf_rts (map snd os)" "length os \<le> length other" for h d os
      using less.hyps [of ns os h d "first_bounds ns"] that b(5) by (simp add: Cons)
    have whole: "built ul (\<lambda>x. max (g x) (cov (cut s) (cut e) ?t x)) (put True s e ?t diff)"
      using put_built [OF less.prems(1) b(1,2) _ b(4) _ less.prems(2)] b(3) by simp
    show ?thesis
    proof (cases other)
      case Nil
      then show ?thesis using IH [OF whole, of "[]"] less.prems(2) b(4)
        by (simp add: Cons cur max.assoc max_ge_none dcov_uncovered)
    next
      case other: (Cons m os)
      have m: "proper (snd m)" "wf_rts (map snd os)" using less.prems(4) by (auto simp: other)
      note lessb = bound_less_node [OF m(1) b(1,2)]
      consider (front) "cut e \<le> cs (snd m)" | (skip) "cs (snd m) < cut e" "ce (snd m) \<le> cut s"
        | (overlap) "cs (snd m) < cut e" "cut s < ce (snd m)" by force
      then show ?thesis
      proof cases
        case front
        have "\<forall>rt \<in> set ?B. cut e \<le> cs rt" using front less.prems(4) properD(3) [OF m(1)] by (auto simp: other)
        note uncov = dcov_uncovered [OF this b(4)]
        show ?thesis using IH [OF whole _ less.prems(4)] less.prems(2) front uncov
          by (simp add: Cons cur other lessb max.assoc max_ge_none)
      next
        case skip
        have "ce (snd m) \<le> cs (snd a)" if "a \<in> set ns" for a using skip b(3) after [OF that] by simp
        moreover have "\<not> cut e \<le> cs (snd m)" using skip by simp
        ultimately show ?thesis
          using less.hyps [OF _ less.prems(1-3), of os] m skip
          by (simp add: Cons cur other lessb dcov_skip remaining_skip)
      next
        case overlap
        show ?thesis unfolding Cons cur other
        proof (rule difference_overlap_ok [OF less.prems(1,2) less.prems(4) [unfolded other] b after overlap])
          show "built ul (\<lambda>x. max (h x) (remaining (map snd ns) (map snd os') x)) (rt_difference_loop ns os' (first_bounds ns) d)"
            if "built ul h d" "\<And>x. tombstone_none \<le> h x" "wf_rts (map snd os')" "length os' \<le> Suc (length os)" for h d os'
            using IH [OF that(1-3)] that(4) by (simp add: other)
          show "built ul (\<lambda>x. max (h x) (remaining (current (n # ns) c) (map snd os) x)) (rt_difference_loop (n # ns) os c d)"
            if "built ul h d" "\<And>x. tombstone_none \<le> h x" "wf_rts (current (n # ns) c)" for h d c
            using less.hyps [OF _ that m(2)] by (simp add: Cons other)
        qed
      qed
    qed
  qed
qed

text \<open>C29. \<open>difference\<close> is exact: it returns a well-formed list in which a key is deleted by this list's
  deletion if that is newer than the other list's, and is not deleted otherwise.\<close>

theorem range_difference_exact:
  assumes "rtl_ok l" "rtl_ok other"
  shows "\<exists>fine fails' diff. rtl_difference l other fails = Some (fine, fails', diff) \<and> rtl_ok diff \<and> (fails = None \<longrightarrow> fine) \<and>
    (fine \<longrightarrow> (\<forall>k. search_tombstone_covering k diff =
       (if search_tombstone_covering k other < search_tombstone_covering k l
        then search_tombstone_covering k l else tombstone_none)))"
proof -
  have wf: "wf_rts (map snd (tombstones l))" "wf_rts (map snd (tombstones other))" using assms by (simp_all add: rtl_ok_def)
  have "built (fails = None) (\<lambda>x. tombstone_none) (Some (True, fails, rtl_empty :: 'a range_tombstone_list))"
    by (auto simp: built_def rtl_empty_def rtl_ok_def)
  from rt_difference_loop_ok [OF this order.refl, of "tombstones l" "first_bounds (tombstones l)" "tombstones other"]
  have "built (fails = None) (\<lambda>x. max tombstone_none (remaining (map snd (tombstones l)) (map snd (tombstones other)) x))
      (rtl_difference l other fails)"
    using wf by (simp add: rtl_difference_def)
  then obtain fine fails' diff where "rtl_difference l other fails = Some (fine, fails', diff)" "rtl_ok diff" "fails = None \<longrightarrow> fine"
    "fine \<longrightarrow> (\<forall>x. deletions diff x = remaining (map snd (tombstones l)) (map snd (tombstones other)) x)"
    using remaining_ge [OF wf(1)] by (auto simp: built_def max_absorb2)
  then show ?thesis using assms by (simp add: search_is_deletion remaining_spec [OF wf(1)])
qed

theorem range_difference_exact_witness:
  "\<exists>fails' diff. rtl_difference (example_rtl 2 5 7) (example_rtl 4 9 8) None = Some (True, fails', diff) \<and> rtl_ok diff \<and>
    search_tombstone_covering [3] diff = Tombstone 7 0 \<and> search_tombstone_covering [4] diff = tombstone_none"
  using range_difference_exact [OF example_rtl_ok, of None]
  by (auto simp: example_search less_tombstone_def tomb_compare_def tombstone_none_def missing_timestamp_def)

section \<open>Slices and trimming\<close>

lemma takeWhile_length_filter:
  assumes "sorted_wrt (\<lambda>a b. P b \<longrightarrow> P a) xs"
  shows "length (takeWhile P xs) = length (filter P xs)"
  using assms by (induction xs) (auto simp: filter_empty_conv)

end
