(* ===== verification/Mutation_Partition.thy ===== *)
theory Mutation_Partition
  imports Row Range_Tombstone_Properties "HOL-Library.Monad_Syntax"
begin

text \<open>
  Partitions (\<open>class deletable_row\<close>, \<open>class rows_entry\<close> and \<open>class mutation_partition\<close> in
  \<open>src/Scylla-moon/mutation_partition.hh\<close> and \<open>.cc\<close>): the contents of one version of a partition.
  A partition holds a tombstone, a static row, the list of its clustered rows ordered by position,
  and the range tombstones of \<open>Range_Tombstones\<close>; the rows are those of \<open>Row\<close>. Modelled are
  lookup and insertion of rows, the reversible merge of two partitions with its rollback, deletion,
  equality, difference, compaction, continuity and eviction, and the visitors that take a partition
  apart and build one (\<open>partition_builder.hh\<close>, \<open>mutation_partition_applier.hh\<close>,
  \<open>converting_mutation_partition_applier.hh\<close>).

  Undefined behaviour and failed assertions are \<^const>\<open>None\<close>; exceptions are values of \<open>error\<close>.
\<close>

section \<open>Schemas and failing allocations\<close>

text \<open>What a partition uses of its schema: the column types, the number of clustering columns,
  whether there are static columns, and \<open>gc_grace_seconds\<close>. \<open>cells_inline\<close> (how many cells fit in
  the row object) and \<open>mutable_views\<close> belong to the build and to the allocator, see \<open>Row\<close>.\<close>

record schema =
  regular_def :: row_schema
  static_def :: row_schema
  clustering_key_size :: nat
  has_static_columns :: bool
  gc_grace_seconds :: i32
  cells_inline :: nat
  mutable_views :: bool

text \<open>Which allocations of one merge fail: after how many changes of the range tombstones, in the static row
  (\<^const>\<open>None\<close> stands for \<open>reserve\<close>, see \<open>Row\<close>), and for a clustered row either its entry or an allocation in
  its cells.\<close>

record 'k allocation =
  range_fails :: "nat option"
  static_fails :: "column_id option \<Rightarrow> bool"
  entry_fails :: "'k position_in_partition \<Rightarrow> bool"
  cell_fails :: "'k position_in_partition \<Rightarrow> column_id option \<Rightarrow> bool"

definition no_failure :: "'k allocation" where
  "no_failure = \<lparr>range_fails = None, static_fails = (\<lambda>_. False), entry_fails = (\<lambda>_. False), cell_fails = (\<lambda>_ _. False)\<rparr>"

section \<open>Deletable rows\<close>

record deletable_row =
  deleted_at :: row_tombstone
  marker :: row_marker
  dr_cells :: row

definition dr_empty :: deletable_row where
  "dr_empty = \<lparr>deleted_at = row_tombstone_none, marker = row_marker_missing, dr_cells = row_empty\<rparr>"

definition dr_apply_tombstone :: "tombstone \<Rightarrow> deletable_row \<Rightarrow> deletable_row" where
  "dr_apply_tombstone t dr = dr\<lparr>deleted_at := rt_apply_regular (deleted_at dr) t\<rparr>"

definition dr_apply_shadowable :: "shadowable_tombstone \<Rightarrow> deletable_row \<Rightarrow> deletable_row" where
  "dr_apply_shadowable t dr = dr\<lparr>deleted_at := rt_apply_shadowable (deleted_at dr) t (marker dr)\<rparr>"

definition dr_apply_row_tombstone :: "row_tombstone \<Rightarrow> deletable_row \<Rightarrow> deletable_row" where
  "dr_apply_row_tombstone t dr = dr\<lparr>deleted_at := rt_apply (deleted_at dr) t (marker dr)\<rparr>"

definition dr_apply_marker :: "row_marker \<Rightarrow> deletable_row \<Rightarrow> deletable_row" where
  "dr_apply_marker rm dr =
     (let m = marker_apply (marker dr) rm in dr\<lparr>marker := m, deleted_at := rt_maybe_shadow (deleted_at dr) m\<rparr>)"

definition dr_remove_tombstone :: "deletable_row \<Rightarrow> deletable_row" where
  "dr_remove_tombstone dr = dr\<lparr>deleted_at := row_tombstone_none\<rparr>"

definition dr_is_empty :: "deletable_row \<Rightarrow> bool" where
  "dr_is_empty dr \<longleftrightarrow> \<not> rt_present (deleted_at dr) \<and> is_missing (marker dr) \<and> row_size (dr_cells dr) = 0"

text \<open>\<open>apply_reversibly\<close>: an exception leaves marker and tombstone alone.\<close>

definition dr_apply_reversibly :: "schema \<Rightarrow> (column_id option \<Rightarrow> bool) \<Rightarrow> deletable_row \<Rightarrow> deletable_row \<Rightarrow> u32 \<Rightarrow>
    (error option \<times> deletable_row \<times> deletable_row) option" where
  "dr_apply_reversibly s alloc_fails dst src version = do {
     (err, d, c) \<leftarrow> row_apply_reversibly (cells_inline s) (mutable_views s) (regular_def s) alloc_fails
       (dr_cells dst) (dr_cells src) version;
     let dst = dst\<lparr>dr_cells := d\<rparr>;
     let src = src\<lparr>dr_cells := c\<rparr>;
     if err \<noteq> None then Some (err, dst, src)
     else let (m, sm) = marker_apply_reversibly (marker dst) (marker src);
              (t, st) = rt_apply_reversibly m (deleted_at dst) (deleted_at src)
          in Some (None, dst\<lparr>marker := m, deleted_at := t\<rparr>, src\<lparr>marker := sm, deleted_at := st\<rparr>)
   }"

definition dr_revert :: "schema \<Rightarrow> deletable_row \<Rightarrow> deletable_row \<Rightarrow> (deletable_row \<times> deletable_row) option" where
  "dr_revert s dst src = do {
     (d, c) \<leftarrow> row_revert (regular_def s) (dr_cells dst) (dr_cells src);
     let (t, st) = rt_revert (deleted_at dst) (deleted_at src);
     let (m, sm) = marker_revert (marker dst) (marker src);
     Some (\<lparr>deleted_at = t, marker = m, dr_cells = d\<rparr>, \<lparr>deleted_at = st, marker = sm, dr_cells = c\<rparr>)
   }"

definition dr_apply :: "schema \<Rightarrow> deletable_row \<Rightarrow> deletable_row \<Rightarrow> error + deletable_row" where
  "dr_apply s dst src =
     and_then (row_apply (cells_inline s) (mutable_views s) (regular_def s) (dr_cells dst) (dr_cells src)) (\<lambda>cells.
     let m = marker_apply (marker dst) (marker src)
     in Inr \<lparr>deleted_at = rt_apply (deleted_at dst) (deleted_at src) m, marker = m, dr_cells = cells\<rparr>)"

definition dr_is_live :: "schema \<Rightarrow> deletable_row \<Rightarrow> tombstone \<Rightarrow> i32 \<Rightarrow> error + bool" where
  "dr_is_live s dr base_tombstone query_time =
     (let base_tombstone = tomb_apply base_tombstone (rt_tomb (deleted_at dr))
      in if marker_is_live_at (marker dr) base_tombstone query_time then Inr True
         else has_any_live_data (regular_def s) (dr_cells dr) base_tombstone query_time)"

text \<open>The relational operators of a row tombstone are those of its shadowable part.\<close>

definition dr_equal :: "(column_id \<Rightarrow> string) \<Rightarrow> deletable_row \<Rightarrow> (column_id \<Rightarrow> string) \<Rightarrow> deletable_row \<Rightarrow> bool" where
  "dr_equal names dr other_names other \<longleftrightarrow>
     rt_compare (deleted_at dr) (deleted_at other) = 0 \<and> marker_eq (marker dr) (marker other) \<and>
     row_equal names (dr_cells dr) other_names (dr_cells other)"

definition dr_difference :: "schema \<Rightarrow> deletable_row \<Rightarrow> deletable_row \<Rightarrow> error + deletable_row" where
  "dr_difference s this_row other =
     (let dr = dr_empty;
          dr = (if rt_compare (deleted_at this_row) (deleted_at other) > 0
                then dr_apply_row_tombstone (deleted_at this_row) dr else dr);
          dr = (if compare_row_marker_for_merge (marker this_row) (marker other) > 0
                then dr_apply_marker (marker this_row) dr else dr)
      in and_then (row_difference (regular_def s) (dr_cells this_row) (dr_cells other)) (\<lambda>cells.
         Inr (dr\<lparr>dr_cells := cells\<rparr>)))"

section \<open>Entries of the row set\<close>

record 'k rows_entry =
  re_key :: "'k clustering_key_prefix"
  re_row :: deletable_row
  before_ck :: bool
  after_ck :: bool
  continuous :: bool
  dummy :: bool
  erased :: bool

definition rows_entry_row :: "'k clustering_key_prefix \<Rightarrow> deletable_row \<Rightarrow> 'k rows_entry" where
  "rows_entry_row key dr =
     \<lparr>re_key = key, re_row = dr, before_ck = False, after_ck = False, continuous = True, dummy = False, erased = False\<rparr>"

definition rows_entry_of :: "'k clustering_key_prefix \<Rightarrow> 'k rows_entry" where
  "rows_entry_of key = rows_entry_row key dr_empty"

definition rows_entry_erased :: "'k rows_entry \<Rightarrow> 'k rows_entry" where
  "rows_entry_erased e =
     (rows_entry_of (re_key e))\<lparr>before_ck := before_ck e, after_ck := after_ck e, erased := True\<rparr>"

text \<open>The constructor from a position reads the key of the position.\<close>

definition rows_entry_at :: "'k position_in_partition \<Rightarrow> bool \<Rightarrow> bool \<Rightarrow> 'k rows_entry option" where
  "rows_entry_at pos is_dummy is_continuous = do {
     key \<leftarrow> ck pos;
     Some ((rows_entry_of key)\<lparr>before_ck := bound_weight pos < 0, after_ck := bound_weight pos > 0,
             continuous := is_continuous, dummy := is_dummy\<rparr>)
   }"

definition re_position :: "'k rows_entry \<Rightarrow> 'k position_in_partition" where
  "re_position e =
     \<lparr>pos_type = Clustered, bound_weight = of_bool (after_ck e) - of_bool (before_ck e), ck = Some (re_key e)\<rparr>"

definition rows_less :: "('k :: linorder) rows_entry \<Rightarrow> 'k rows_entry \<Rightarrow> bool" where
  "rows_less e1 e2 \<longleftrightarrow> position_less (re_position e1) (re_position e2)"

definition re_apply_reversibly :: "schema \<Rightarrow> (column_id option \<Rightarrow> bool) \<Rightarrow> 'k rows_entry \<Rightarrow> 'k rows_entry \<Rightarrow> u32 \<Rightarrow>
    (error option \<times> 'k rows_entry \<times> 'k rows_entry) option" where
  "re_apply_reversibly s alloc_fails e src version = do {
     (err, d, c) \<leftarrow> dr_apply_reversibly s alloc_fails (re_row e) (re_row src) version;
     Some (err, e\<lparr>re_row := d\<rparr>, src\<lparr>re_row := c\<rparr>)
   }"

definition re_revert :: "schema \<Rightarrow> 'k rows_entry \<Rightarrow> 'k rows_entry \<Rightarrow> ('k rows_entry \<times> 'k rows_entry) option" where
  "re_revert s e src = do {
     (d, c) \<leftarrow> dr_revert s (re_row e) (re_row src);
     Some (e\<lparr>re_row := d\<rparr>, src\<lparr>re_row := c\<rparr>)
   }"

definition re_equal :: "(column_id \<Rightarrow> string) \<Rightarrow> 'k rows_entry \<Rightarrow> (column_id \<Rightarrow> string) \<Rightarrow> 'k rows_entry \<Rightarrow> bool" where
  "re_equal names e other_names other \<longleftrightarrow>
     position_equal (re_position e) (re_position other) \<and> dr_equal names (re_row e) other_names (re_row other)"

text \<open>The intrusive set as the list of its entries: the entries before \<open>lower_bound\<close> of a position and
  those from there on, \<open>find\<close>, and \<open>insert\<close>, which leaves the set alone if it has the position.\<close>

type_synonym 'k rows_type = "'k rows_entry list"

definition rows_before :: "('k :: linorder) position_in_partition \<Rightarrow> 'k rows_type \<Rightarrow> 'k rows_type" where
  "rows_before pos rows = takeWhile (\<lambda>e. position_less (re_position e) pos) rows"

definition rows_from :: "('k :: linorder) position_in_partition \<Rightarrow> 'k rows_type \<Rightarrow> 'k rows_type" where
  "rows_from pos rows = dropWhile (\<lambda>e. position_less (re_position e) pos) rows"

definition rows_find :: "('k :: linorder) position_in_partition \<Rightarrow> 'k rows_type \<Rightarrow> 'k rows_entry option" where
  "rows_find pos rows =
     (case rows_from pos rows of
        [] \<Rightarrow> None | e # _ \<Rightarrow> if position_less pos (re_position e) then None else Some e)"

definition rows_insert :: "('k :: linorder) rows_entry \<Rightarrow> 'k rows_type \<Rightarrow> 'k rows_type" where
  "rows_insert e rows =
     (let p = re_position e in
      case rows_find p rows of None \<Rightarrow> rows_before p rows @ e # rows_from p rows | Some _ \<Rightarrow> rows)"

text \<open>Writing through a reference to the entry at a position, and erasing that entry.\<close>

definition rows_put :: "('k :: linorder) rows_entry \<Rightarrow> 'k rows_type \<Rightarrow> 'k rows_type" where
  "rows_put e rows = rows_before (re_position e) rows @ e # tl (rows_from (re_position e) rows)"

definition rows_erase :: "('k :: linorder) position_in_partition \<Rightarrow> 'k rows_type \<Rightarrow> 'k rows_type" where
  "rows_erase pos rows = rows_before pos rows @ tl (rows_from pos rows)"

section \<open>Merging sets of rows\<close>

text \<open>\<open>revert_intrusive_set_range\<close>: what becomes of one entry and of the destination, which is asserted
  to hold its position, and the loop over the entries from \<open>start\<close> to \<open>end\<close>.\<close>

definition revert_entry :: "schema \<Rightarrow> ('k :: linorder) rows_entry \<Rightarrow> 'k rows_type \<Rightarrow> ('k rows_entry \<times> 'k rows_type) option" where
  "revert_entry s e dst = do {
     dst_e \<leftarrow> rows_find (re_position e) dst;
     if erased e then Some (dst_e, rows_erase (re_position e) dst)
     else do { (d, e) \<leftarrow> re_revert s dst_e e; Some (e, rows_put d dst) }
   }"

fun revert_intrusive_set_range :: "schema \<Rightarrow> ('k :: linorder) rows_type \<Rightarrow> 'k rows_type \<Rightarrow>
    ('k rows_type \<times> 'k rows_type) option" where
  "revert_intrusive_set_range s [] dst = Some ([], dst)"
| "revert_intrusive_set_range s (e # es) dst = do {
     (e, dst) \<leftarrow> revert_entry s e dst;
     (es, dst) \<leftarrow> revert_intrusive_set_range s es dst;
     Some (e # es, dst)
   }"

text \<open>The loop of \<open>apply_reversibly_intrusive_set\<close>; \<open>handled\<close> are the entries before \<open>src_i\<close>. The
  result is the exception if there is one, the destination and the source.\<close>

fun set_apply_loop :: "schema \<Rightarrow> ('k :: linorder) allocation \<Rightarrow> u32 \<Rightarrow> 'k rows_type \<Rightarrow> 'k rows_type \<Rightarrow> 'k rows_type \<Rightarrow>
    (error option \<times> 'k rows_type \<times> 'k rows_type) option" where
  "set_apply_loop s fails version handled [] dst = Some (None, dst, handled)"
| "set_apply_loop s fails version handled (e # src) dst =
     (let p = re_position e in
      case rows_find p dst of
        None \<Rightarrow>
          if entry_fails fails p
          then do {
            (handled, dst) \<leftarrow> revert_intrusive_set_range s handled dst;
            Some (Some Bad_alloc, dst, handled @ e # src)
          }
          else set_apply_loop s fails version (handled @ [rows_entry_erased e]) src (rows_insert e dst)
      | Some i \<Rightarrow> do {
          (err, i, e) \<leftarrow> re_apply_reversibly s (cell_fails fails p) i e version;
          let dst = rows_put i dst;
          if err \<noteq> None
          then do {
            (handled, dst) \<leftarrow> revert_intrusive_set_range s handled dst;
            Some (err, dst, handled @ e # src)
          }
          else set_apply_loop s fails version (handled @ [e]) src dst
        })"

definition apply_reversibly_intrusive_set :: "schema \<Rightarrow> ('k :: linorder) allocation \<Rightarrow> 'k rows_type \<Rightarrow> 'k rows_type \<Rightarrow> u32 \<Rightarrow>
    (error option \<times> 'k rows_type \<times> 'k rows_type) option" where
  "apply_reversibly_intrusive_set s fails dst src version = set_apply_loop s fails version [] src dst"

section \<open>Partitions\<close>

record 'k mutation_partition =
  mp_tombstone :: tombstone
  static_row :: row
  mp_static_continuous :: bool
  mp_rows :: "'k rows_type"
  row_tombstones :: "'k range_tombstone_list"

definition mutation_partition_new :: "'k mutation_partition" where
  "mutation_partition_new =
     \<lparr>mp_tombstone = tombstone_none, static_row = row_empty, mp_static_continuous = True, mp_rows = [],
      row_tombstones = rtl_empty\<rparr>"

definition make_incomplete :: "schema \<Rightarrow> tombstone \<Rightarrow> 'k mutation_partition" where
  "make_incomplete s t =
     mutation_partition_new\<lparr>mp_tombstone := t, mp_static_continuous := \<not> has_static_columns s,
       mp_rows := [(rows_entry_of [])\<lparr>after_ck := True, continuous := False, dummy := True\<rparr>]\<rparr>"

definition ensure_last_dummy :: "'k mutation_partition \<Rightarrow> 'k mutation_partition" where
  "ensure_last_dummy mp =
     (if mp_rows mp = [] \<or> \<not> is_after_all_clustered_rows (re_position (last (mp_rows mp)))
      then mp\<lparr>mp_rows := mp_rows mp @ [(rows_entry_of [])\<lparr>after_ck := True, continuous := True, dummy := True\<rparr>]\<rparr>
      else mp)"

text \<open>\<open>apply(const schema&, mutation_partition&&, uint32_t)\<close>. The guards revert in the order opposite to
  that of their creation; the reverter of the range tombstones is declared first.\<close>

definition mp_apply :: "schema \<Rightarrow> ('k :: linorder) allocation \<Rightarrow> 'k mutation_partition \<Rightarrow> 'k mutation_partition \<Rightarrow> u32 \<Rightarrow>
    (error option \<times> 'k mutation_partition \<times> 'k mutation_partition) option" where
  "mp_apply s fails mp p version = do {
     (fine, r) \<leftarrow> rtl_apply_reversibly (map snd (tombstones (row_tombstones p))) (range_fails fails) (row_tombstones mp);
     if \<not> fine then Some (Some Bad_alloc, mp\<lparr>row_tombstones := rtl_of r\<rparr>, p)
     else do {
       (err, st, pst) \<leftarrow> row_apply_reversibly (cells_inline s) (mutable_views s) (static_def s) (static_fails fails)
         (static_row mp) (static_row p) 0;
       if err \<noteq> None
       then do {
         r \<leftarrow> revert r;
         Some (err, mp\<lparr>static_row := st, row_tombstones := rtl_of r\<rparr>, p\<lparr>static_row := pst\<rparr>)
       }
       else do {
         (err, rows, prows) \<leftarrow> apply_reversibly_intrusive_set s fails (mp_rows mp) (mp_rows p) version;
         if err \<noteq> None
         then do {
           (st, pst) \<leftarrow> row_revert (static_def s) st pst;
           r \<leftarrow> revert r;
           Some (err, mp\<lparr>static_row := st, mp_rows := rows, row_tombstones := rtl_of r\<rparr>,
                 p\<lparr>static_row := pst, mp_rows := prows\<rparr>)
         }
         else Some (None, mp\<lparr>mp_tombstone := tomb_apply (mp_tombstone mp) (mp_tombstone p), static_row := st,
                             mp_rows := rows, row_tombstones := rtl_of (cancel r)\<rparr>,
                    p\<lparr>static_row := pst, mp_rows := prows\<rparr>)
       }
     }
   }"

text \<open>Rows by key or position. \<open>clustered_row\<close> inserts the missing entry and returns a reference to its
  row, through which the caller writes: here the caller's update is an argument.\<close>

definition find_row :: "('k :: linorder) clustering_key_prefix \<Rightarrow> 'k mutation_partition \<Rightarrow> row option" where
  "find_row key mp = map_option (\<lambda>e. dr_cells (re_row e)) (rows_find (for_key key) (mp_rows mp))"

definition rows_update :: "('k :: linorder) position_in_partition \<Rightarrow> (deletable_row \<Rightarrow> deletable_row) \<Rightarrow> 'k rows_type \<Rightarrow>
    'k rows_type" where
  "rows_update pos f rows =
     (case rows_find pos rows of None \<Rightarrow> rows | Some e \<Rightarrow> rows_put (e\<lparr>re_row := f (re_row e)\<rparr>) rows)"

definition clustered_row :: "('k :: linorder) clustering_key_prefix \<Rightarrow> (deletable_row \<Rightarrow> deletable_row) \<Rightarrow>
    'k mutation_partition \<Rightarrow> 'k mutation_partition" where
  "clustered_row key f mp =
     mp\<lparr>mp_rows := rows_update (for_key key) f (rows_insert (rows_entry_of key) (mp_rows mp))\<rparr>"

definition clustered_row_at :: "('k :: linorder) position_in_partition \<Rightarrow> bool \<Rightarrow> bool \<Rightarrow> (deletable_row \<Rightarrow> deletable_row) \<Rightarrow>
    'k mutation_partition \<Rightarrow> 'k mutation_partition option" where
  "clustered_row_at pos is_dummy is_continuous f mp =
     (case rows_find pos (mp_rows mp) of
        Some _ \<Rightarrow> Some (mp\<lparr>mp_rows := rows_update pos f (mp_rows mp)\<rparr>)
      | None \<Rightarrow> do {
          e \<leftarrow> rows_entry_at pos is_dummy is_continuous;
          Some (mp\<lparr>mp_rows := rows_update pos f (rows_insert e (mp_rows mp))\<rparr>)
        })"

definition insert_row :: "('k :: linorder) clustering_key_prefix \<Rightarrow> deletable_row \<Rightarrow> 'k mutation_partition \<Rightarrow>
    'k mutation_partition" where
  "insert_row key dr mp = mp\<lparr>mp_rows := rows_insert (rows_entry_row key dr) (mp_rows mp)\<rparr>"

definition apply_insert :: "('k :: linorder) clustering_key_prefix \<Rightarrow> i64 \<Rightarrow> 'k mutation_partition \<Rightarrow> 'k mutation_partition" where
  "apply_insert key created_at mp = clustered_row key (dr_apply_marker (row_marker_at created_at)) mp"

section \<open>Deletions\<close>

definition mp_apply_tombstone :: "tombstone \<Rightarrow> 'k mutation_partition \<Rightarrow> 'k mutation_partition" where
  "mp_apply_tombstone t mp = mp\<lparr>mp_tombstone := tomb_apply (mp_tombstone mp) t\<rparr>"

definition range_tombstone_for_row :: "('k :: linorder) clustering_key_prefix \<Rightarrow> 'k mutation_partition \<Rightarrow> tombstone" where
  "range_tombstone_for_row key mp =
     (if tombstones (row_tombstones mp) \<noteq> []
      then tomb_apply (mp_tombstone mp) (search_tombstone_covering key (row_tombstones mp)) else mp_tombstone mp)"

definition tombstone_for_key :: "('k :: linorder) clustering_key_prefix \<Rightarrow> 'k mutation_partition \<Rightarrow> row_tombstone" where
  "tombstone_for_key key mp =
     (let t = row_tombstone_of (range_tombstone_for_row key mp) in
      case rows_find (for_key key) (mp_rows mp) of
        None \<Rightarrow> t | Some j \<Rightarrow> rt_apply t (deleted_at (re_row j)) (marker (re_row j)))"

definition tombstone_for_entry :: "('k :: linorder) rows_entry \<Rightarrow> 'k mutation_partition \<Rightarrow> row_tombstone" where
  "tombstone_for_entry e mp = rt_apply_regular (deleted_at (re_row e)) (range_tombstone_for_row (re_key e) mp)"

text \<open>\<open>apply_row_tombstone\<close>: the flag tells whether the allocations succeeded. The overload for a prefix
  asserts that the prefix is not full.\<close>

definition apply_row_tombstone :: "nat option \<Rightarrow> ('k :: linorder) range_tombstone \<Rightarrow> 'k mutation_partition \<Rightarrow>
    (bool \<times> 'k mutation_partition) option" where
  "apply_row_tombstone fails rt mp = do {
     (fine, _, l) \<leftarrow> rtl_apply_one rt fails (row_tombstones mp);
     Some (fine, mp\<lparr>row_tombstones := l\<rparr>)
   }"

definition apply_row_tombstone_prefix :: "schema \<Rightarrow> nat option \<Rightarrow> ('k :: linorder) clustering_key_prefix \<Rightarrow> tombstone \<Rightarrow>
    'k mutation_partition \<Rightarrow> (bool \<times> 'k mutation_partition) option" where
  "apply_row_tombstone_prefix s fails pfx t mp =
     (if length pfx = clustering_key_size s then None
      else apply_row_tombstone fails
             \<lparr>rt_start = pfx, rt_start_kind = Incl_start, rt_end = pfx, rt_end_kind = Incl_end, tomb_of = t\<rparr> mp)"

definition apply_delete_prefix :: "schema \<Rightarrow> nat option \<Rightarrow> ('k :: linorder) clustering_key_prefix \<Rightarrow> tombstone \<Rightarrow>
    'k mutation_partition \<Rightarrow> (bool \<times> 'k mutation_partition) option" where
  "apply_delete_prefix s fails pfx t mp =
     (if pfx = [] then Some (True, mp_apply_tombstone t mp)
      else if length pfx = clustering_key_size s then Some (True, clustered_row pfx (dr_apply_tombstone t) mp)
      else apply_row_tombstone_prefix s fails pfx t mp)"

definition apply_delete :: "schema \<Rightarrow> nat option \<Rightarrow> ('k :: linorder) range_tombstone \<Rightarrow>
    'k mutation_partition \<Rightarrow> (bool \<times> 'k mutation_partition) option" where
  "apply_delete s fails rt mp =
     (if is_single_clustering_row_tombstone (clustering_key_size s) (rt_start rt) (rt_start_kind rt) (rt_end rt) (rt_end_kind rt)
      then apply_delete_prefix s fails (rt_start rt) (tomb_of rt) mp
      else apply_row_tombstone fails rt mp)"

end
