(* ===== verification/Partition_Merge.thy ===== *)
theory Partition_Merge
  imports Mutation_Partition
begin

text \<open>
  Merging partitions: the set of rows as a finite map from positions to entries, the merge and the
  rollback of a deletable row and of the set of rows, and the exception safety of
  \<open>mutation_partition::apply\<close>. As in \<open>Row\<close>, the partitions hold no counter updates. The predicate \<open>allocation_fails\<close>
  says exactly when a merge reaches an allocation that fails.
\<close>

section \<open>The set of rows as a map\<close>

definition re_at :: "'k rows_entry \<Rightarrow> 'k weighted" where
  "re_at e = At (re_key e) (of_bool (after_ck e) - of_bool (before_ck e))"

definition pos_at :: "'k position_in_partition \<Rightarrow> 'k weighted" where
  "pos_at p = At (the (ck p)) (bound_weight p)"

definition clustered :: "'k position_in_partition \<Rightarrow> bool" where
  "clustered p \<longleftrightarrow> pos_type p = Clustered \<and> ck p \<noteq> None"

lemma position_less_at: "clustered p \<Longrightarrow> clustered q \<Longrightarrow> position_less p q \<longleftrightarrow> pos_at p < pos_at q"
  by (auto simp: clustered_def position_less_def position_tri_compare_def pos_at_def)

lemma clustered_simps [simp]: "clustered (re_position e)" "clustered (for_key k)" "pos_at (re_position e) = re_at e"
  "pos_at (for_key k) = At k 0"
  by (simp_all add: clustered_def re_position_def for_key_def re_at_def pos_at_def)

lemmas position_simps [simp] = position_less_at [OF clustered_simps(1) clustered_simps(1)]

definition rows_ok :: "('k :: linorder) rows_type \<Rightarrow> bool" where
  "rows_ok rows \<longleftrightarrow> sorted_wrt (\<lambda>a b. re_at a < re_at b) rows"

definition rows_map :: "'k rows_type \<Rightarrow> 'k weighted \<rightharpoonup> 'k rows_entry" where
  "rows_map rows = map_of (map (\<lambda>e. (re_at e, e)) rows)"

lemma rows_ok_simps [simp]:
  "rows_ok []" "rows_ok (e # rows) \<longleftrightarrow> (\<forall>d \<in> set rows. re_at e < re_at d) \<and> rows_ok rows"
  "rows_ok (xs @ ys) \<longleftrightarrow> rows_ok xs \<and> rows_ok ys \<and> (\<forall>x \<in> set xs. \<forall>y \<in> set ys. re_at x < re_at y)"
  by (auto simp: rows_ok_def sorted_wrt_append)

lemma rows_map_simps [simp]:
  "rows_map [] w = None" "rows_map (e # rows) w = (if re_at e = w then Some e else rows_map rows w)"
  "rows_map (xs @ ys) w = (case rows_map xs w of None \<Rightarrow> rows_map ys w | Some e \<Rightarrow> Some e)"
  by (auto simp: rows_map_def map_add_def split: option.splits)

lemma rows_map_None: "rows_map rows w = None \<longleftrightarrow> w \<notin> re_at ` set rows"
  by (induction rows) auto

lemma rows_map_Some: "rows_map rows w = Some e \<Longrightarrow> e \<in> set rows \<and> re_at e = w"
  by (induction rows) (auto split: if_splits)

lemma rows_map_in: "rows_ok rows \<Longrightarrow> e \<in> set rows \<Longrightarrow> rows_map rows (re_at e) = Some e"
  by (induction rows) auto

text \<open>A sorted set splits at a position.\<close>

lemma rows_split:
  assumes "rows_ok rows" "clustered p"
  shows "\<exists>xs ys. rows = xs @ ys \<and> rows_before p rows = xs \<and> rows_from p rows = ys \<and>
    (\<forall>x \<in> set xs. re_at x < pos_at p) \<and> (\<forall>y \<in> set ys. pos_at p \<le> re_at y)"
  using assms
proof (induction rows)
  case (Cons e rows)
  have less: "position_less (re_position e) p \<longleftrightarrow> re_at e < pos_at p"
    using position_less_at [OF _ Cons.prems(2), of "re_position e"] by simp
  show ?case
  proof (cases "re_at e < pos_at p")
    case True
    with Cons obtain xs ys where "rows = xs @ ys" "rows_before p rows = xs" "rows_from p rows = ys"
      "\<forall>x \<in> set xs. re_at x < pos_at p" "\<forall>y \<in> set ys. pos_at p \<le> re_at y" by auto
    then show ?thesis
      using True less by (intro exI [of _ "e # xs"] exI [of _ ys]) (simp add: rows_before_def rows_from_def)
  next
    case False
    then show ?thesis
      using Cons.prems(1) less
      by (intro exI [of _ "[]"] exI [of _ "e # rows"]) (auto simp: rows_before_def rows_from_def not_less intro: order.trans less_imp_le)
  qed
qed (simp add: rows_before_def rows_from_def)

lemma rows_find_map:
  assumes "rows_ok rows" "clustered p"
  shows "rows_find p rows = rows_map rows (pos_at p)"
proof -
  obtain xs ys where s: "rows = xs @ ys" "rows_from p rows = ys" "\<forall>x \<in> set xs. re_at x < pos_at p"
    "\<forall>y \<in> set ys. pos_at p \<le> re_at y" using rows_split [OF assms] by metis
  have x: "rows_map xs (pos_at p) = None" using s(3) by (auto simp: rows_map_None)
  show ?thesis
  proof (cases ys)
    case Nil
    then show ?thesis using s x by (simp add: rows_find_def)
  next
    case (Cons y zs)
    have "rows_map zs (pos_at p) = None" if "re_at y \<noteq> pos_at p"
      using that s(1,4) assms(1) Cons by (force simp: rows_map_None)
    moreover have "position_less p (re_position y) \<longleftrightarrow> pos_at p < re_at y"
      using position_less_at [OF assms(2), of "re_position y"] by simp
    ultimately show ?thesis using s x Cons by (auto simp: rows_find_def)
  qed
qed

lemma rows_insert_map:
  assumes "rows_ok rows" "rows_map rows (re_at e) = None"
  shows "rows_ok (rows_insert e rows)" "rows_map (rows_insert e rows) = (rows_map rows)(re_at e \<mapsto> e)"
proof -
  let ?p = "re_position e"
  obtain xs ys where s: "rows = xs @ ys" "rows_before ?p rows = xs" "rows_from ?p rows = ys"
    "\<forall>x \<in> set xs. re_at x < re_at e" "\<forall>y \<in> set ys. re_at e \<le> re_at y"
    using rows_split [OF assms(1), of ?p] by auto
  have i: "rows_insert e rows = xs @ e # ys"
    using s assms rows_find_map [OF assms(1), of ?p] by (simp add: rows_insert_def)
  have "re_at e \<notin> re_at ` set ys" using assms(2) unfolding rows_map_None s(1) by auto
  then have "\<forall>y \<in> set ys. re_at e < re_at y" using s(5) by (force simp: less_le)
  then show "rows_ok (rows_insert e rows)" using i s assms(1) by (auto intro: less_trans)
  have "rows_map xs (re_at e) = None" using s(4) by (auto simp: rows_map_None)
  then show "rows_map (rows_insert e rows) = (rows_map rows)(re_at e \<mapsto> e)"
    unfolding i unfolding s(1) fun_eq_iff by (auto split: option.splits)
qed

lemma rows_at_map:
  assumes "rows_ok rows" "clustered p" "rows_map rows (pos_at p) = Some d"
  shows "\<exists>xs ys. rows = xs @ d # ys \<and> rows_before p rows = xs \<and> rows_from p rows = d # ys \<and>
    (\<forall>x \<in> set xs. re_at x < re_at d) \<and> (\<forall>y \<in> set ys. re_at d < re_at y) \<and> re_at d = pos_at p"
proof -
  obtain xs ys where s: "rows = xs @ ys" "rows_before p rows = xs" "rows_from p rows = ys"
    "\<forall>x \<in> set xs. re_at x < pos_at p" "\<forall>y \<in> set ys. pos_at p \<le> re_at y" using rows_split [OF assms(1,2)] by metis
  have d: "re_at d = pos_at p" "d \<in> set rows" using rows_map_Some [OF assms(3)] by auto
  then have "d \<in> set ys" using s by auto
  then obtain y zs where y: "ys = y # zs" by (cases ys) auto
  have "y = d"
  proof (rule ccontr)
    assume "y \<noteq> d"
    then have "d \<in> set zs" using \<open>d \<in> set ys\<close> y by auto
    then have "re_at y < re_at d" using assms(1) s(1) y by auto
    then show False using s(5) y d by auto
  qed
  then show ?thesis using s y d assms(1) by (intro exI [of _ xs] exI [of _ zs]) auto
qed

lemma rows_put_map:
  assumes "rows_ok rows" "rows_map rows (re_at e) \<noteq> None"
  shows "rows_ok (rows_put e rows)" "rows_map (rows_put e rows) = (rows_map rows)(re_at e \<mapsto> e)"
    "map re_at (rows_put e rows) = map re_at rows"
proof -
  obtain d xs ys where s: "rows = xs @ d # ys" "rows_before (re_position e) rows = xs"
    "rows_from (re_position e) rows = d # ys" "\<forall>x \<in> set xs. re_at x < re_at d" "\<forall>y \<in> set ys. re_at d < re_at y" "re_at d = re_at e"
    using rows_at_map [OF assms(1), of "re_position e"] assms(2) by auto
  have p: "rows_put e rows = xs @ e # ys" using s by (simp add: rows_put_def)
  show "rows_ok (rows_put e rows)" using p s assms(1) by auto
  have "rows_map xs (re_at e) = None" using s by (auto simp: rows_map_None)
  then show "rows_map (rows_put e rows) = (rows_map rows)(re_at e \<mapsto> e)"
    using s(6) unfolding p unfolding s(1) fun_eq_iff by (auto split: option.splits)
  show "map re_at (rows_put e rows) = map re_at rows" using p s by simp
qed

lemma rows_erase_map:
  assumes "rows_ok rows" "clustered p" "rows_map rows (pos_at p) \<noteq> None"
  shows "rows_ok (rows_erase p rows)" "rows_map (rows_erase p rows) = (rows_map rows)(pos_at p := None)"
proof -
  obtain d xs ys where s: "rows = xs @ d # ys" "rows_before p rows = xs"
    "rows_from p rows = d # ys" "\<forall>x \<in> set xs. re_at x < re_at d" "\<forall>y \<in> set ys. re_at d < re_at y" "re_at d = pos_at p"
    using rows_at_map [OF assms(1,2)] assms(3) by auto
  have p: "rows_erase p rows = xs @ ys" using s by (simp add: rows_erase_def)
  show "rows_ok (rows_erase p rows)" using p s assms(1) by auto
  have "rows_map xs (pos_at p) = None" "rows_map ys (pos_at p) = None" using s by (auto simp: rows_map_None)
  then show "rows_map (rows_erase p rows) = (rows_map rows)(pos_at p := None)"
    using s(6) unfolding p unfolding s(1) fun_eq_iff by (auto split: option.splits)
qed

section \<open>Merging deletable rows\<close>

definition dr_fits :: "schema \<Rightarrow> deletable_row \<Rightarrow> bool" where
  "dr_fits s dr \<longleftrightarrow> row_fits (regular_def s) (dr_cells dr)"

text \<open>Equal up to the storage form of the cells.\<close>

definition dr_equiv :: "deletable_row \<Rightarrow> deletable_row \<Rightarrow> bool" where
  "dr_equiv a b \<longleftrightarrow> deleted_at a = deleted_at b \<and> marker a = marker b \<and>
     find_cell (dr_cells a) = find_cell (dr_cells b) \<and> (row_ok (dr_cells b) \<longrightarrow> row_ok (dr_cells a))"

definition dr_merged :: "schema \<Rightarrow> deletable_row \<Rightarrow> deletable_row \<Rightarrow> deletable_row \<Rightarrow> bool" where
  "dr_merged s dst src d \<longleftrightarrow> marker d = marker_apply (marker dst) (marker src) \<and>
     deleted_at d = rt_apply (deleted_at dst) (deleted_at src) (marker d) \<and> row_ok (dr_cells d) \<and>
     columns_merged (mutable_views s) (regular_def s) (dr_cells dst) (dr_cells src) (dr_cells d)"

lemma dr_equiv_refl [simp]: "dr_equiv a a"
  by (simp add: dr_equiv_def)

lemma dr_equiv_trans: "dr_equiv a b \<Longrightarrow> dr_equiv b c \<Longrightarrow> dr_equiv a c"
  by (simp add: dr_equiv_def)

lemma marker_apply_reversibly_eq: "marker_apply_reversibly a b = (marker_apply a b, a)"
  by (simp add: marker_apply_reversibly_def marker_apply_def)

lemma rt_apply_reversibly_eq: "rt_apply_reversibly m a b = (rt_apply a b m, a)"
  unfolding rt_apply_reversibly_def by (rule arg_cong [of _ _ "\<lambda>x. (x, a)"]) (rule rt_apply_comm)

lemma dr_apply_outcome:
  assumes "dr_fits s dst" "dr_fits s src"
  shows "\<exists>err d c. dr_apply_reversibly s alloc_fails dst src version = Some (err, d, c) \<and>
    (err \<noteq> None \<longleftrightarrow> row_throws (cells_inline s) alloc_fails (dr_cells dst) (dr_cells src)) \<and>
    (if err \<noteq> None then dr_equiv d dst
     else dr_merged s dst src d \<and> (\<exists>d0 c0. dr_revert s d c = Some (d0, c0) \<and> dr_equiv d0 dst))"
proof -
  have fits: "row_fits (regular_def s) (dr_cells dst)" "row_fits (regular_def s) (dr_cells src)"
    using assms by (simp_all add: dr_fits_def)
  obtain err d c where
    r: "row_apply_reversibly (cells_inline s) (mutable_views s) (regular_def s) alloc_fails
       (dr_cells dst) (dr_cells src) version = Some (err, d, c)"
    and e: "err \<noteq> None \<longleftrightarrow> row_throws (cells_inline s) alloc_fails (dr_cells dst) (dr_cells src)" and ok: "row_ok d"
    and res: "if err \<noteq> None then find_cell d = find_cell (dr_cells dst)
     else columns_merged (mutable_views s) (regular_def s) (dr_cells dst) (dr_cells src) d \<and>
       (\<exists>d0 c0. row_revert (regular_def s) d c = Some (d0, c0) \<and> row_ok d0 \<and> find_cell d0 = find_cell (dr_cells dst))"
    using row_apply_outcome [OF fits, of "cells_inline s" "mutable_views s" alloc_fails version]
    by (elim exE conjE) (rule that)
  show ?thesis
  proof (cases "err = None")
    case True
    let ?m = "marker_apply (marker dst) (marker src)"
    let ?d = "\<lparr>deleted_at = rt_apply (deleted_at dst) (deleted_at src) ?m, marker = ?m, dr_cells = d\<rparr>"
      and ?c = "\<lparr>deleted_at = deleted_at dst, marker = marker dst, dr_cells = c\<rparr>"
    obtain d0 c0 where u: "row_revert (regular_def s) d c = Some (d0, c0)" "row_ok d0" "find_cell d0 = find_cell (dr_cells dst)"
      using res True by auto
    have "dr_apply_reversibly s alloc_fails dst src version = Some (None, ?d, ?c)"
      using r True by (simp add: dr_apply_reversibly_def marker_apply_reversibly_eq rt_apply_reversibly_eq)
    moreover have "dr_merged s dst src ?d" using res True ok by (simp add: dr_merged_def)
    moreover have "\<exists>d0' c0'. dr_revert s ?d ?c = Some (d0', c0') \<and> dr_equiv d0' dst"
      using u by (simp add: dr_revert_def rt_revert_def marker_revert_def dr_equiv_def)
    ultimately show ?thesis using e True by auto
  next
    case False
    then show ?thesis using r e res ok by (simp add: dr_apply_reversibly_def dr_equiv_def)
  qed
qed

section \<open>Merging sets of rows\<close>

definition re_equiv :: "'k rows_entry \<Rightarrow> 'k rows_entry \<Rightarrow> bool" where
  "re_equiv a b \<longleftrightarrow> dr_equiv (re_row a) (re_row b) \<and> a = b\<lparr>re_row := re_row a\<rparr>"

definition re_merged :: "schema \<Rightarrow> 'k rows_entry \<Rightarrow> 'k rows_entry \<Rightarrow> 'k rows_entry \<Rightarrow> bool" where
  "re_merged s dst src d \<longleftrightarrow> dr_merged s (re_row dst) (re_row src) (re_row d) \<and> d = dst\<lparr>re_row := re_row d\<rparr>"

text \<open>What an entry of the source has to hold after its merge, so that the merge can be undone.\<close>

definition re_undoable :: "schema \<Rightarrow> 'k rows_entry \<Rightarrow> 'k rows_entry \<Rightarrow> 'k rows_entry \<Rightarrow> bool" where
  "re_undoable s d h d0 \<longleftrightarrow> (\<exists>d' h'. re_revert s d h = Some (d', h') \<and> re_equiv d' d0)"

lemma re_equiv_refl [simp]: "re_equiv a a"
  by (simp add: re_equiv_def)

lemma re_equiv_trans: "re_equiv a b \<Longrightarrow> re_equiv b c \<Longrightarrow> re_equiv a c"
  by (cases a; cases b; cases c) (auto simp: re_equiv_def intro: dr_equiv_trans)

lemma re_at_update [simp]: "re_at (e\<lparr>re_row := r\<rparr>) = re_at e" "re_at (rows_entry_erased e) = re_at e"
  "erased (rows_entry_erased e)"
  by (simp_all add: re_at_def rows_entry_erased_def rows_entry_of_def rows_entry_row_def)

lemma re_at_equiv: "re_equiv a b \<Longrightarrow> re_at a = re_at b"
  unfolding re_equiv_def by (metis re_at_update(1))

lemma re_position_update [simp]: "re_position (e\<lparr>re_row := r\<rparr>) = re_position e"
  by (simp add: re_position_def)

lemma re_apply_outcome:
  assumes "dr_fits s (re_row dst)" "dr_fits s (re_row src)"
  shows "\<exists>err d c. re_apply_reversibly s alloc_fails dst src version = Some (err, d, c) \<and>
    (err \<noteq> None \<longleftrightarrow> row_throws (cells_inline s) alloc_fails (dr_cells (re_row dst)) (dr_cells (re_row src))) \<and>
    re_at d = re_at dst \<and> re_at c = re_at src \<and> erased c = erased src \<and>
    (if err \<noteq> None then re_equiv d dst else re_merged s dst src d \<and> re_undoable s d c dst)"
proof -
  obtain err d c where
    r: "dr_apply_reversibly s alloc_fails (re_row dst) (re_row src) version = Some (err, d, c)"
    and e: "err \<noteq> None \<longleftrightarrow> row_throws (cells_inline s) alloc_fails (dr_cells (re_row dst)) (dr_cells (re_row src))"
    and res: "if err \<noteq> None then dr_equiv d (re_row dst)
     else dr_merged s (re_row dst) (re_row src) d \<and> (\<exists>d0 c0. dr_revert s d c = Some (d0, c0) \<and> dr_equiv d0 (re_row dst))"
    using dr_apply_outcome [OF assms, of alloc_fails version] by (elim exE conjE) (rule that)
  show ?thesis
    using r e res
    by (auto simp: re_apply_reversibly_def re_equiv_def re_merged_def re_undoable_def re_revert_def)
qed

definition undo_ok :: "schema \<Rightarrow> ('k :: linorder) rows_type \<Rightarrow> 'k rows_type \<Rightarrow> 'k rows_entry \<Rightarrow> bool" where
  "undo_ok s dst dst0 h \<longleftrightarrow>
     (if erased h then rows_map dst0 (re_at h) = None \<and> rows_map dst (re_at h) \<noteq> None
      else \<exists>d d0. rows_map dst (re_at h) = Some d \<and> rows_map dst0 (re_at h) = Some d0 \<and> re_undoable s d h d0)"

definition rows_equiv :: "('k :: linorder) rows_type \<Rightarrow> 'k rows_type \<Rightarrow> bool" where
  "rows_equiv a b \<longleftrightarrow> (\<forall>w. rel_option re_equiv (rows_map a w) (rows_map b w))"

lemma undo_ok_cong: "rows_map dst (re_at h) = rows_map dst' (re_at h) \<Longrightarrow> undo_ok s dst dst0 h = undo_ok s dst' dst0 h"
  by (simp add: undo_ok_def)

text \<open>Undoing one entry.\<close>

lemma undo_entry:
  assumes "rows_ok dst" "undo_ok s dst dst0 h"
  shows "\<exists>e dst'. revert_entry s h dst = Some (e, dst') \<and>
    rows_ok dst' \<and> rel_option re_equiv (rows_map dst' (re_at h)) (rows_map dst0 (re_at h)) \<and>
    (\<forall>w. w \<noteq> re_at h \<longrightarrow> rows_map dst' w = rows_map dst w)"
proof (cases "erased h")
  case True
  then show ?thesis
    using assms rows_find_map [OF assms(1), of "re_position h"] rows_erase_map [OF assms(1), of "re_position h"]
    by (auto simp: undo_ok_def revert_entry_def)
next
  case False
  then obtain d d0 d' h' where d: "rows_map dst (re_at h) = Some d" "rows_map dst0 (re_at h) = Some d0"
    "re_revert s d h = Some (d', h')" "re_equiv d' d0"
    using assms(2) by (auto simp: undo_ok_def re_undoable_def)
  have w: "re_at d' = re_at h" using re_at_equiv [OF d(4)] rows_map_Some [OF d(2)] by simp
  then show ?thesis
    using False d rows_find_map [OF assms(1), of "re_position h"] rows_put_map [OF assms(1), of d']
    by (auto simp: revert_entry_def)
qed

lemma revert_rows_restores:
  assumes "rows_ok dst" "distinct (map re_at handled)" "\<forall>h \<in> set handled. undo_ok s dst dst0 h"
    and "\<forall>w. w \<notin> re_at ` set handled \<longrightarrow> rel_option re_equiv (rows_map dst w) (rows_map dst0 w)"
  shows "\<exists>handled' dst'. revert_intrusive_set_range s handled dst = Some (handled', dst') \<and>
    rows_ok dst' \<and> rows_equiv dst' dst0"
  using assms
proof (induction handled arbitrary: dst)
  case Nil
  then show ?case by (simp add: rows_equiv_def)
next
  case (Cons h handled)
  have "undo_ok s dst dst0 h" using Cons.prems(3) by simp
  from undo_entry [OF Cons.prems(1) this] obtain e dst1 where
    u: "revert_entry s h dst = Some (e, dst1)"
    and ok: "rows_ok dst1" and at: "rel_option re_equiv (rows_map dst1 (re_at h)) (rows_map dst0 (re_at h))"
    and other: "\<forall>w. w \<noteq> re_at h \<longrightarrow> rows_map dst1 w = rows_map dst w"
    by blast
  have "\<forall>h' \<in> set handled. undo_ok s dst1 dst0 h'"
  proof
    fix h' assume h': "h' \<in> set handled"
    then have "re_at h' \<noteq> re_at h" using Cons.prems(2) by (auto simp: image_iff)
    then show "undo_ok s dst1 dst0 h'"
      using undo_ok_cong [of dst1 h' dst s dst0] other h' Cons.prems(3) by simp
  qed
  moreover have "\<forall>w. w \<notin> re_at ` set handled \<longrightarrow> rel_option re_equiv (rows_map dst1 w) (rows_map dst0 w)"
  proof (intro allI impI)
    fix w assume w: "w \<notin> re_at ` set handled"
    show "rel_option re_equiv (rows_map dst1 w) (rows_map dst0 w)"
      using w at other Cons.prems(4) by (cases "w = re_at h") auto
  qed
  ultimately obtain handled' dst' where
    "revert_intrusive_set_range s handled dst1 = Some (handled', dst')" "rows_ok dst'" "rows_equiv dst' dst0"
    using Cons.IH [OF ok] Cons.prems(2) by auto
  then show ?case
    using u by simp
qed

definition rows_fit :: "schema \<Rightarrow> ('k :: linorder) rows_type \<Rightarrow> bool" where
  "rows_fit s rows \<longleftrightarrow> rows_ok rows \<and> (\<forall>e \<in> set rows. dr_fits s (re_row e) \<and> \<not> erased e)"

text \<open>The entries at one position before the merge, in the source and after the merge.\<close>

definition entries_merged :: "schema \<Rightarrow> 'k rows_entry option \<Rightarrow> 'k rows_entry option \<Rightarrow> 'k rows_entry option \<Rightarrow> bool" where
  "entries_merged s dst src d \<longleftrightarrow>
     (case src of
        None \<Rightarrow> d = dst
      | Some e \<Rightarrow> (case dst of None \<Rightarrow> d = Some e | Some i \<Rightarrow> (\<exists>i'. d = Some i' \<and> re_merged s i e i')))"

definition rows_merged :: "schema \<Rightarrow> ('k :: linorder) rows_type \<Rightarrow> 'k rows_type \<Rightarrow> 'k rows_type \<Rightarrow> bool" where
  "rows_merged s dst src d \<longleftrightarrow> (\<forall>w. entries_merged s (rows_map dst w) (rows_map src w) (rows_map d w))"

text \<open>Whether an allocation fails when an entry is merged.\<close>

definition entry_throws :: "schema \<Rightarrow> ('k :: linorder) allocation \<Rightarrow> 'k rows_type \<Rightarrow> 'k rows_entry \<Rightarrow> bool" where
  "entry_throws s fails dst e \<longleftrightarrow>
     (case rows_map dst (re_at e) of
        None \<Rightarrow> entry_fails fails (re_position e)
      | Some i \<Rightarrow> row_throws (cells_inline s) (cell_fails fails (re_position e)) (dr_cells (re_row i)) (dr_cells (re_row e)))"

text \<open>The invariant of the loop: \<open>old\<close> are the entries of the source as they were, \<open>handled\<close> what they
  have become.\<close>

definition set_inv :: "schema \<Rightarrow> ('k :: linorder) rows_type \<Rightarrow> 'k rows_type \<Rightarrow> 'k rows_type \<Rightarrow> 'k rows_type \<Rightarrow> bool" where
  "set_inv s dst0 old handled dst \<longleftrightarrow> rows_ok dst \<and> map re_at handled = map re_at old \<and>
     (\<forall>h \<in> set handled. undo_ok s dst dst0 h) \<and> rows_merged s dst0 old dst"

lemma set_inv_start: "rows_ok dst \<Longrightarrow> set_inv s dst [] [] dst"
  by (simp add: set_inv_def rows_merged_def entries_merged_def)

lemma set_inv_step:
  assumes inv: "set_inv s dst0 old handled dst" and new: "re_at e \<notin> re_at ` set old" "re_at h = re_at e"
    and d: "rows_ok dst'" "rows_map dst' = (rows_map dst)(re_at e \<mapsto> d)"
    and u: "undo_ok s dst' dst0 h" and m: "entries_merged s (rows_map dst0 (re_at e)) (Some e) (Some d)"
  shows "set_inv s dst0 (old @ [e]) (handled @ [h]) dst'"
proof -
  have at: "re_at ` set handled = re_at ` set old" using inv by (metis set_inv_def set_map)
  have "undo_ok s dst' dst0 h'" if "h' \<in> set handled" for h'
  proof -
    have "re_at h' \<noteq> re_at e" using that new(1) at by (metis image_eqI)
    then show ?thesis
      using undo_ok_cong [of dst' h' dst s dst0] that inv d(2) by (simp add: set_inv_def)
  qed
  moreover have "rows_merged s dst0 (old @ [e]) dst'"
    unfolding rows_merged_def
  proof
    fix w
    have o: "rows_map old (re_at e) = None" using new(1) by (simp add: rows_map_None)
    show "entries_merged s (rows_map dst0 w) (rows_map (old @ [e]) w) (rows_map dst' w)"
    proof (cases "w = re_at e")
      case True
      then show ?thesis using o m d(2) by simp
    next
      case False
      then have "rows_map (old @ [e]) w = rows_map old w" "rows_map dst' w = rows_map dst w"
        using d(2) by (simp_all split: option.splits)
      then show ?thesis using inv by (simp add: set_inv_def rows_merged_def)
    qed
  qed
  ultimately show ?thesis using inv u d(1) new(2) by (auto simp: set_inv_def)
qed

lemma set_inv_rollback:
  assumes inv: "set_inv s dst0 old handled dst" and old: "rows_ok old"
    and d: "rows_ok dst'" "\<forall>w. w \<in> re_at ` set old \<longrightarrow> rows_map dst' w = rows_map dst w"
    "\<forall>w. rel_option re_equiv (rows_map dst' w) (rows_map dst w)"
  shows "\<exists>handled' dst''. revert_intrusive_set_range s handled dst' = Some (handled', dst'') \<and>
    rows_ok dst'' \<and> rows_equiv dst'' dst0"
proof (rule revert_rows_restores [OF d(1)])
  have keys: "map re_at handled = map re_at old" using inv by (simp add: set_inv_def)
  have at: "re_at ` set handled = re_at ` set old" using keys by (metis set_map)
  have "distinct (map re_at old)" using old by (induction old) auto
  then show "distinct (map re_at handled)" using keys by simp
  show "\<forall>h \<in> set handled. undo_ok s dst' dst0 h"
  proof
    fix h assume h: "h \<in> set handled"
    then have "rows_map dst' (re_at h) = rows_map dst (re_at h)" using d(2) at by (metis image_eqI)
    then show "undo_ok s dst' dst0 h"
      using undo_ok_cong [of dst' h dst s dst0] h inv by (simp add: set_inv_def)
  qed
  show "\<forall>w. w \<notin> re_at ` set handled \<longrightarrow> rel_option re_equiv (rows_map dst' w) (rows_map dst0 w)"
  proof (intro allI impI)
    fix w assume "w \<notin> re_at ` set handled"
    then have "rows_map old w = None" using at by (simp add: rows_map_None)
    moreover have "entries_merged s (rows_map dst0 w) (rows_map old w) (rows_map dst w)"
      using inv by (simp add: set_inv_def rows_merged_def)
    ultimately have "rows_map dst w = rows_map dst0 w" by (simp add: entries_merged_def)
    then show "rel_option re_equiv (rows_map dst' w) (rows_map dst0 w)" using d(3) by metis
  qed
qed

lemma set_merge_entry:
  assumes inv: "set_inv s dst0 old handled dst" and fit: "rows_fit s dst0" "dr_fits s (re_row e)" "\<not> erased e"
    and old: "rows_ok old" "re_at e \<notin> re_at ` set old" and i: "rows_map dst0 (re_at e) = Some i"
  shows "\<exists>err i' e'. re_apply_reversibly s (cell_fails fails (re_position e)) i e version = Some (err, i', e') \<and>
    (err \<noteq> None \<longleftrightarrow> entry_throws s fails dst0 e) \<and>
    (if err \<noteq> None
     then \<exists>handled' dst'. revert_intrusive_set_range s handled (rows_put i' dst) = Some (handled', dst') \<and>
            rows_ok dst' \<and> rows_equiv dst' dst0
     else set_inv s dst0 (old @ [e]) (handled @ [e']) (rows_put i' dst))"
proof -
  have ok: "rows_ok dst" and m: "rows_merged s dst0 old dst" using inv by (simp_all add: set_inv_def)
  have "entries_merged s (rows_map dst0 (re_at e)) (rows_map old (re_at e)) (rows_map dst (re_at e))"
    using m by (simp add: rows_merged_def)
  then have di: "rows_map dst (re_at e) = Some i" using old(2) i by (simp add: entries_merged_def rows_map_None [symmetric])
  have at: "re_at i = re_at e" "i \<in> set dst0" using rows_map_Some [OF i] by auto
  have "dr_fits s (re_row i)" using fit(1) at(2) by (simp add: rows_fit_def)
  from re_apply_outcome [OF this fit(2), of "cell_fails fails (re_position e)" version]
  obtain err i' e' where
    r: "re_apply_reversibly s (cell_fails fails (re_position e)) i e version = Some (err, i', e')"
    and err: "err \<noteq> None \<longleftrightarrow> row_throws (cells_inline s) (cell_fails fails (re_position e)) (dr_cells (re_row i)) (dr_cells (re_row e))"
    and at': "re_at i' = re_at i" "re_at e' = re_at e" "erased e' = erased e"
    and res: "if err \<noteq> None then re_equiv i' i else re_merged s i e i' \<and> re_undoable s i' e' i"
    by (elim exE conjE) (rule that)
  have put: "rows_ok (rows_put i' dst)" "rows_map (rows_put i' dst) = (rows_map dst)(re_at e \<mapsto> i')"
    using rows_put_map [OF ok, of i'] at' at(1) di by auto
  have thr: "err \<noteq> None \<longleftrightarrow> entry_throws s fails dst0 e" using err i by (simp add: entry_throws_def)
  show ?thesis
  proof (cases "err = None")
    case True
    then have "re_merged s i e i'" "re_undoable s i' e' i" using res by auto
    then have "undo_ok s (rows_put i' dst) dst0 e'" "entries_merged s (rows_map dst0 (re_at e)) (Some e) (Some i')"
      using put(2) i at' fit(3) by (auto simp: undo_ok_def entries_merged_def)
    from set_inv_step [OF inv old(2) at'(2) put this] show ?thesis using r thr True by auto
  next
    case False
    have eq: "re_equiv i' i" using res False by simp
    have "\<forall>w. w \<in> re_at ` set old \<longrightarrow> rows_map (rows_put i' dst) w = rows_map dst w"
      using put(2) old(2) by auto
    moreover have "\<forall>w. rel_option re_equiv (rows_map (rows_put i' dst) w) (rows_map dst w)"
      using put(2) di eq by (auto simp: option.rel_refl)
    ultimately show ?thesis
      using set_inv_rollback [OF inv old(1) put(1)] r thr False by auto
  qed
qed

lemma set_insert_entry:
  assumes inv: "set_inv s dst0 old handled dst"
    and old: "rows_ok old" "re_at e \<notin> re_at ` set old" and i: "rows_map dst0 (re_at e) = None"
  shows "rows_map dst (re_at e) = None" "set_inv s dst0 (old @ [e]) (handled @ [rows_entry_erased e]) (rows_insert e dst)"
proof -
  have ok: "rows_ok dst" and m: "rows_merged s dst0 old dst" using inv by (simp_all add: set_inv_def)
  have "entries_merged s (rows_map dst0 (re_at e)) (rows_map old (re_at e)) (rows_map dst (re_at e))"
    using m by (simp add: rows_merged_def)
  then show di: "rows_map dst (re_at e) = None"
    using old(2) i by (simp add: entries_merged_def rows_map_None [symmetric])
  note ins = rows_insert_map [OF ok di]
  have "undo_ok s (rows_insert e dst) dst0 (rows_entry_erased e)" "entries_merged s (rows_map dst0 (re_at e)) (Some e) (Some e)"
    using ins i by (simp_all add: undo_ok_def entries_merged_def)
  from set_inv_step [OF inv old(2) _ ins this]
  show "set_inv s dst0 (old @ [e]) (handled @ [rows_entry_erased e]) (rows_insert e dst)" by simp
qed

lemma set_apply_loop_outcome:
  assumes "set_inv s dst0 old handled dst" "rows_fit s dst0" "rows_fit s (old @ src)"
  shows "\<exists>err dst' src'. set_apply_loop s fails version handled src dst = Some (err, dst', src') \<and> rows_ok dst' \<and>
    (err \<noteq> None \<longleftrightarrow> (\<exists>e \<in> set src. entry_throws s fails dst0 e)) \<and>
    (if err \<noteq> None then rows_equiv dst' dst0 else rows_merged s dst0 (old @ src) dst')"
  using assms
proof (induction src arbitrary: old handled dst)
  case Nil
  then show ?case by (simp add: set_inv_def)
next
  case (Cons e src)
  have fit: "dr_fits s (re_row e)" "\<not> erased e" and old: "rows_ok old" "re_at e \<notin> re_at ` set old"
    using Cons.prems(3) by (auto simp: rows_fit_def)
  have ok: "rows_ok dst" using Cons.prems(1) by (simp add: set_inv_def)
  have fit': "rows_fit s ((old @ [e]) @ src)" using Cons.prems(3) by simp
  have find: "rows_find (re_position e) dst = rows_map dst (re_at e)" using rows_find_map [OF ok, of "re_position e"] by simp
  show ?case
  proof (cases "rows_map dst0 (re_at e)")
    case None
    note ins = set_insert_entry [OF Cons.prems(1) old None]
    show ?thesis
    proof (cases "entry_fails fails (re_position e)")
      case True
      obtain handled' dst' where "revert_intrusive_set_range s handled dst = Some (handled', dst')"
        "rows_ok dst'" "rows_equiv dst' dst0"
        using set_inv_rollback [OF Cons.prems(1) old(1) ok] by (auto simp: option.rel_refl)
      then show ?thesis using True ins(1) None by (simp add: find entry_throws_def)
    next
      case False
      then have thr: "(\<exists>e' \<in> set (e # src). entry_throws s fails dst0 e') \<longleftrightarrow> (\<exists>e' \<in> set src. entry_throws s fails dst0 e')"
        using None by (simp add: entry_throws_def)
      have "set_apply_loop s fails version handled (e # src) dst =
          set_apply_loop s fails version (handled @ [rows_entry_erased e]) src (rows_insert e dst)"
        using False ins(1) by (simp add: find)
      then show ?thesis
        using Cons.IH [OF ins(2) Cons.prems(2) fit'] unfolding thr append_assoc append_Cons append_Nil by simp
    qed
  next
    case (Some i)
    obtain err i' e' where r: "re_apply_reversibly s (cell_fails fails (re_position e)) i e version = Some (err, i', e')"
      and thr: "err \<noteq> None \<longleftrightarrow> entry_throws s fails dst0 e"
      and res: "if err \<noteq> None
       then \<exists>handled' dst'. revert_intrusive_set_range s handled (rows_put i' dst) = Some (handled', dst') \<and>
              rows_ok dst' \<and> rows_equiv dst' dst0
       else set_inv s dst0 (old @ [e]) (handled @ [e']) (rows_put i' dst)"
      using set_merge_entry [OF Cons.prems(1,2) fit old Some, of fails version] by (elim exE conjE) (rule that)
    have "entries_merged s (rows_map dst0 (re_at e)) (rows_map old (re_at e)) (rows_map dst (re_at e))"
      using Cons.prems(1) by (simp add: set_inv_def rows_merged_def)
    then have di: "rows_map dst (re_at e) = Some i" using old(2) Some by (simp add: entries_merged_def rows_map_None [symmetric])
    show ?thesis
    proof (cases "err = None")
      case True
      then have "set_inv s dst0 (old @ [e]) (handled @ [e']) (rows_put i' dst)" using res by simp
      note IH = Cons.IH [OF this Cons.prems(2) fit', unfolded append_assoc append_Cons append_Nil]
      have thr': "(\<exists>e' \<in> set (e # src). entry_throws s fails dst0 e') \<longleftrightarrow> (\<exists>e' \<in> set src. entry_throws s fails dst0 e')"
        using thr True by simp
      have "set_apply_loop s fails version handled (e # src) dst =
          set_apply_loop s fails version (handled @ [e']) src (rows_put i' dst)"
        using True r di by (simp add: find)
      then show ?thesis using IH unfolding thr' by simp
    next
      case False
      then obtain handled' dst' where "revert_intrusive_set_range s handled (rows_put i' dst) = Some (handled', dst')"
        "rows_ok dst'" "rows_equiv dst' dst0" using res by auto
      then show ?thesis using False r thr di by (simp add: find)
    qed
  qed
qed

section \<open>Merging partitions\<close>

definition mp_fits :: "schema \<Rightarrow> ('k :: linorder) mutation_partition \<Rightarrow> bool" where
  "mp_fits s mp \<longleftrightarrow> row_fits (static_def s) (static_row mp) \<and> rows_fit s (mp_rows mp) \<and> rtl_ok (row_tombstones mp)"

text \<open>Equal up to the storage form of rows and the addresses still free.\<close>

definition mp_equiv :: "('k :: linorder) mutation_partition \<Rightarrow> 'k mutation_partition \<Rightarrow> bool" where
  "mp_equiv a b \<longleftrightarrow> mp_tombstone a = mp_tombstone b \<and> mp_static_continuous a = mp_static_continuous b \<and>
     row_ok (static_row a) \<and> find_cell (static_row a) = find_cell (static_row b) \<and>
     rows_ok (mp_rows a) \<and> rows_equiv (mp_rows a) (mp_rows b) \<and>
     tombstones (row_tombstones a) = tombstones (row_tombstones b)"

text \<open>The sum of two partitions.\<close>

definition mp_merged :: "schema \<Rightarrow> ('k :: linorder) mutation_partition \<Rightarrow> 'k mutation_partition \<Rightarrow> 'k mutation_partition \<Rightarrow> bool" where
  "mp_merged s mp p mp' \<longleftrightarrow> mp_tombstone mp' = tomb_apply (mp_tombstone mp) (mp_tombstone p) \<and>
     mp_static_continuous mp' = mp_static_continuous mp \<and> row_ok (static_row mp') \<and>
     columns_merged (mutable_views s) (static_def s) (static_row mp) (static_row p) (static_row mp') \<and>
     rows_ok (mp_rows mp') \<and> rows_merged s (mp_rows mp) (mp_rows p) (mp_rows mp') \<and> rtl_ok (row_tombstones mp') \<and>
     (\<forall>k. search_tombstone_covering k (row_tombstones mp') =
        tomb_apply (search_tombstone_covering k (row_tombstones mp)) (search_tombstone_covering k (row_tombstones p)))"

text \<open>The failing allocations the merge runs into: the range tombstones are merged first, so whether they need
  the one that fails does not depend on the rest.\<close>

definition range_throws :: "('k :: linorder) allocation \<Rightarrow> 'k mutation_partition \<Rightarrow> 'k mutation_partition \<Rightarrow> bool" where
  "range_throws fails mp p \<longleftrightarrow>
     (\<exists>r. rtl_apply_reversibly (map snd (tombstones (row_tombstones p))) (range_fails fails) (row_tombstones mp) = Some (False, r))"

definition allocation_fails :: "schema \<Rightarrow> ('k :: linorder) allocation \<Rightarrow> 'k mutation_partition \<Rightarrow> 'k mutation_partition \<Rightarrow> bool" where
  "allocation_fails s fails mp p \<longleftrightarrow> range_throws fails mp p \<or>
     row_throws (cells_inline s) (static_fails fails) (static_row mp) (static_row p) \<or>
     (\<exists>e \<in> set (mp_rows p). entry_throws s fails (mp_rows mp) e)"

lemma rows_equiv_refl [simp]: "rows_equiv a a"
  by (simp add: rows_equiv_def option.rel_refl)

lemma rtl_of_simps [simp]: "tombstones (rtl_of r) = nodes r" "rtl_of (cancel r) = rtl_of r"
  by (simp_all add: rtl_of_def cancel_def nodes_def)

lemma mp_apply_outcome:
  assumes "mp_fits s mp" "mp_fits s p"
  shows "\<exists>err mp' p'. mp_apply s fails mp p version = Some (err, mp', p') \<and>
    (err \<noteq> None \<longleftrightarrow> allocation_fails s fails mp p) \<and> (range_fails fails = None \<longrightarrow> \<not> range_throws fails mp p) \<and>
    (if err \<noteq> None then mp_equiv mp' mp else mp_merged s mp p mp')"
proof -
  have st: "row_fits (static_def s) (static_row mp)" "row_fits (static_def s) (static_row p)"
    and ok: "row_ok (static_row mp)" "rows_ok (mp_rows mp)"
    and rows: "rows_fit s (mp_rows mp)" "rows_fit s ([] @ mp_rows p)"
    and rt: "rtl_ok (row_tombstones mp)" "rtl_ok (row_tombstones p)"
    using assms by (auto simp: mp_fits_def row_fits_def rows_fit_def)
  obtain fine r where r: "rtl_apply_reversibly (map snd (tombstones (row_tombstones p))) (range_fails fails) (row_tombstones mp) = Some (fine, r)"
    and fine: "range_fails fails = None \<longrightarrow> fine"
    and rres: "if fine then rtl_ok (rtl_of r) \<and> (\<forall>k. search_tombstone_covering k (rtl_of r) =
             tomb_apply (search_tombstone_covering k (row_tombstones mp)) (search_tombstone_covering k (row_tombstones p))) \<and>
          (\<exists>r'. revert r = Some r' \<and> nodes r' = tombstones (row_tombstones mp))
     else nodes r = tombstones (row_tombstones mp)"
    using range_merge_outcome [OF rt, of "range_fails fails"] by (elim exE conjE) (rule that)
  obtain err d c where t: "row_apply_reversibly (cells_inline s) (mutable_views s) (static_def s) (static_fails fails)
       (static_row mp) (static_row p) 0 = Some (err, d, c)"
    and terr: "err \<noteq> None \<longleftrightarrow> row_throws (cells_inline s) (static_fails fails) (static_row mp) (static_row p)" and tok: "row_ok d"
    and tres: "if err \<noteq> None then find_cell d = find_cell (static_row mp)
     else columns_merged (mutable_views s) (static_def s) (static_row mp) (static_row p) d \<and>
       (\<exists>d0 c0. row_revert (static_def s) d c = Some (d0, c0) \<and> row_ok d0 \<and> find_cell d0 = find_cell (static_row mp))"
    using row_apply_outcome [OF st, of "cells_inline s" "mutable_views s" "static_fails fails" 0] by (elim exE conjE) (rule that)
  obtain err2 dst src where w: "apply_reversibly_intrusive_set s fails (mp_rows mp) (mp_rows p) version = Some (err2, dst, src)"
    and wok: "rows_ok dst" and werr: "err2 \<noteq> None \<longleftrightarrow> (\<exists>e \<in> set (mp_rows p). entry_throws s fails (mp_rows mp) e)"
    and wres: "if err2 \<noteq> None then rows_equiv dst (mp_rows mp) else rows_merged s (mp_rows mp) ([] @ mp_rows p) dst"
    using set_apply_loop_outcome [OF set_inv_start [OF ok(2)] rows, of fails version,
        folded apply_reversibly_intrusive_set_def] by (elim exE conjE) (rule that)
  have thr: "range_throws fails mp p \<longleftrightarrow> \<not> fine" using r by (simp add: range_throws_def)
  consider "\<not> fine" | "fine" "err \<noteq> None" | "fine" "err = None" "err2 \<noteq> None" | "fine" "err = None" "err2 = None" by blast
  then show ?thesis
  proof cases
    case 1
    then show ?thesis using r fine rres ok thr by (auto simp: mp_apply_def mp_equiv_def allocation_fails_def)
  next
    case 2
    obtain r' where "revert r = Some r'" "nodes r' = tombstones (row_tombstones mp)" using rres 2 by auto
    then show ?thesis using 2 r t terr tres tok ok thr by (auto simp: mp_apply_def mp_equiv_def allocation_fails_def)
  next
    case 3
    obtain r' where "revert r = Some r'" "nodes r' = tombstones (row_tombstones mp)" using rres 3 by auto
    moreover obtain d0 c0 where "row_revert (static_def s) d c = Some (d0, c0)" "row_ok d0" "find_cell d0 = find_cell (static_row mp)"
      using tres 3 by auto
    ultimately show ?thesis using 3 r t w wok werr wres thr by (auto simp: mp_apply_def mp_equiv_def allocation_fails_def)
  next
    case 4
    then have "\<not> allocation_fails s fails mp p" using terr werr thr by (auto simp: allocation_fails_def)
    then show ?thesis using 4 r t w wok wres rres tres tok thr by (auto simp: mp_apply_def mp_merged_def)
  qed
qed

lemma no_failure_succeeds:
  assumes "mp_fits s mp" "mp_fits s p"
  shows "\<exists>mp' p'. mp_apply s no_failure mp p version = Some (None, mp', p') \<and> mp_merged s mp p mp'"
proof -
  obtain err mp' p' where m: "mp_apply s no_failure mp p version = Some (err, mp', p')"
    "err \<noteq> None \<longleftrightarrow> allocation_fails s no_failure mp p"
    "range_fails (no_failure :: 'a allocation) = None \<longrightarrow> \<not> range_throws no_failure mp p"
    "if err \<noteq> None then mp_equiv mp' mp else mp_merged s mp p mp'"
    using mp_apply_outcome [OF assms, of no_failure version] by (elim exE conjE) (rule that)
  then have "err = None"
    by (auto simp: allocation_fails_def no_failure_def entry_throws_def row_throws_def split: option.splits)
  then show ?thesis using m by auto
qed

section \<open>Properties\<close>

text \<open>C15. \<open>mutation_partition::apply\<close> of a moved partition leaves its destination alone when it throws, and
  otherwise adds the two partitions. Take two well-formed partitions without counter updates. Whichever
  allocations fail (for a range tombstone, in the static row, for the entry or in the cells of a clustered row,
  at any point of the merge), the merge throws exactly if it needs one of them; then the destination has the
  tombstone, static cells, rows, flags and range tombstones it had, and the assertions of the rollback have
  held (nothing is said of the moved source). Otherwise partition tombstones, static columns, deletions of
  keys, and for each position the tombstone, the marker and each column of the row are the merges of those
  of the two partitions.\<close>

theorem partition_apply_exception_safe:
  assumes "mp_fits s mp" "mp_fits s p"
  shows "\<exists>err mp' p'. mp_apply s fails mp p version = Some (err, mp', p') \<and>
    (err \<noteq> None \<longleftrightarrow> allocation_fails s fails mp p) \<and>
    (range_fails fails = None \<longrightarrow> \<not> range_throws fails mp p) \<and>
    (err \<noteq> None \<longrightarrow> mp_equiv mp' mp) \<and> (err = None \<longrightarrow> mp_merged s mp p mp')"
proof -
  obtain err mp' p' where "mp_apply s fails mp p version = Some (err, mp', p')"
    "err \<noteq> None \<longleftrightarrow> allocation_fails s fails mp p" "range_fails fails = None \<longrightarrow> \<not> range_throws fails mp p"
    "if err \<noteq> None then mp_equiv mp' mp else mp_merged s mp p mp'"
    using mp_apply_outcome [OF assms, of fails version] by (elim exE conjE) (rule that)
  then show ?thesis by (intro exI [of _ err] exI [of _ mp'] exI [of _ p']) (cases err; simp)
qed

definition example_schema :: schema where
  "example_schema = \<lparr>regular_def = (\<lambda>_. Atomic_column), static_def = (\<lambda>_. Atomic_column), clustering_key_size = 1,
     has_static_columns = False, gc_grace_seconds = 864000, cells_inline = 5, mutable_views = True\<rparr>"

definition example_mp :: "i64 \<Rightarrow> nat mutation_partition" where
  "example_mp t = mutation_partition_new\<lparr>mp_rows := [rows_entry_row [5]
     \<lparr>deleted_at = row_tombstone_none, marker = row_marker_at t, dr_cells = example_row 40 t\<rparr>]\<rparr>"

lemma example_mp_fits: "mp_fits example_schema (example_mp t)"
  using example_row_fits [of t]
  by (simp add: mp_fits_def example_mp_def mutation_partition_new_def rows_fit_def rows_entry_row_def dr_fits_def example_schema_def)
    (simp add: row_fits_def row_empty_def row_ok_def row_cells_def max_vector_size_def)

text \<open>A merge whose only cell cannot be allocated.\<close>

theorem partition_apply_exception_safe_witness:
  "\<exists>err mp' p'. mp_apply example_schema (no_failure\<lparr>cell_fails := \<lambda>_ i. i = Some 40\<rparr>) (example_mp 3) (example_mp 7) 9 =
      Some (Some err, mp', p') \<and> mp_equiv mp' (example_mp 3)"
proof -
  let ?fails = "no_failure\<lparr>cell_fails := \<lambda>_ i. i = Some 40\<rparr> :: nat allocation"
  have "find_cell (example_row 40 7) 40 \<noteq> None"
    by (simp add: example_row_def append_cell_def row_empty_def row_cells_def set_insert_def max_vector_size_def find_cell_def)
  then have "40 \<in> dom (find_cell (example_row 40 7))" by (simp add: domIff)
  then have "allocation_fails example_schema ?fails (example_mp 3) (example_mp 7)"
    by (auto simp: allocation_fails_def entry_throws_def row_throws_def example_mp_def rows_entry_row_def re_at_def)
  then show ?thesis
    using partition_apply_exception_safe [OF example_mp_fits [of 3] example_mp_fits [of 7], of ?fails 9] by auto
qed

end
