(* ===== verification/Partition_Visitors.thy ===== *)
theory Partition_Visitors
  imports Partition_Merge
begin

text \<open>
  Taking partitions apart and building them (\<open>src/Scylla-moon/mutation_partition.cc\<close>,
  \<open>partition_builder.hh\<close>, \<open>mutation_partition_applier.hh\<close>,
  \<open>converting_mutation_partition_applier.hh\<close>): \<open>mutation_partition::accept\<close> as the list of the calls
  it makes on a visitor, the visitors that build a partition, apply to one and convert to another
  schema, and the operations made of them: merging a serialized partition, upgrading, applying a
  fragment, equality and difference.
\<close>

section \<open>Visiting\<close>

text \<open>One call on a \<open>mutation_partition_visitor\<close>. A cell is passed as a view of its bytes, whether it is
  atomic or a collection.\<close>

datatype 'k visit =
    Accept_partition_tombstone tombstone
  | Accept_static_cell column_id bytes
  | Accept_row_tombstone "'k range_tombstone"
  | Accept_row "'k position_in_partition" row_tombstone row_marker bool bool
  | Accept_row_cell column_id bytes

definition visit_cells :: "(column_id \<Rightarrow> bytes \<Rightarrow> 'k visit) \<Rightarrow> row \<Rightarrow> 'k visit list" where
  "visit_cells f r = map (\<lambda>(i, c). f i (cell_data c)) (row_cells r)"

definition visit_entry :: "'k rows_entry \<Rightarrow> 'k visit list" where
  "visit_entry e =
     (let dr = re_row e in
      Accept_row (re_position e) (deleted_at dr) (marker dr) (dummy e) (continuous e) #
      visit_cells Accept_row_cell (dr_cells dr))"

definition mp_accept :: "'k mutation_partition \<Rightarrow> 'k visit list" where
  "mp_accept mp =
     Accept_partition_tombstone (mp_tombstone mp) #
     visit_cells Accept_static_cell (static_row mp) @
     map (\<lambda>n. Accept_row_tombstone (snd n)) (tombstones (row_tombstones mp)) @
     concat (map visit_entry (mp_rows mp))"

text \<open>The visitors share the state: the partition and the row \<open>_current_row\<close> points to, given by its
  position, \<^const>\<open>None\<close> while the pointer is not set.\<close>

type_synonym 'k visitor = "'k mutation_partition \<times> 'k position_in_partition option"

definition visit_row :: "('k :: linorder) position_in_partition \<Rightarrow> row_tombstone \<Rightarrow> row_marker \<Rightarrow> bool \<Rightarrow> bool \<Rightarrow>
    'k mutation_partition \<Rightarrow> 'k visitor option" where
  "visit_row key deleted rm is_dummy is_continuous mp =
     map_option (\<lambda>mp. (mp, Some key))
       (clustered_row_at key is_dummy is_continuous (\<lambda>r. dr_apply_row_tombstone deleted (dr_apply_marker rm r)) mp)"

definition visit_row_tombstone :: "('k :: linorder) range_tombstone \<Rightarrow> 'k visitor \<Rightarrow> 'k visitor option" where
  "visit_row_tombstone rt v = do { (_, mp) \<leftarrow> apply_row_tombstone None rt (fst v); Some (mp, snd v) }"

definition update_current_cells :: "(row \<Rightarrow> row) \<Rightarrow> ('k :: linorder) visitor \<Rightarrow> 'k visitor option" where
  "update_current_cells f v = do {
     pos \<leftarrow> snd v;
     Some ((fst v)\<lparr>mp_rows := rows_update pos (\<lambda>dr. dr\<lparr>dr_cells := f (dr_cells dr)\<rparr>) (mp_rows (fst v))\<rparr>, snd v)
   }"

section \<open>Building a partition\<close>

fun builder_step :: "('k :: linorder) visit \<Rightarrow> 'k visitor \<Rightarrow> 'k visitor option" where
  "builder_step (Accept_partition_tombstone t) v = Some (mp_apply_tombstone t (fst v), snd v)"
| "builder_step (Accept_static_cell i c) v =
     Some ((fst v)\<lparr>static_row := append_cell (static_row (fst v)) i (cell_of c)\<rparr>, snd v)"
| "builder_step (Accept_row_tombstone rt) v = visit_row_tombstone rt v"
| "builder_step (Accept_row key deleted rm is_dummy is_continuous) v =
     visit_row key deleted rm is_dummy is_continuous (fst v)"
| "builder_step (Accept_row_cell i c) v = update_current_cells (\<lambda>r. append_cell r i (cell_of c)) v"

fun visit_all :: "('k visit \<Rightarrow> 'k visitor \<Rightarrow> 'k visitor option) \<Rightarrow> 'k visit list \<Rightarrow> 'k visitor \<Rightarrow> 'k visitor option" where
  "visit_all f [] v = Some v"
| "visit_all f (c # calls) v = do { v \<leftarrow> f c v; visit_all f calls v }"

definition partition_builder :: "('k :: linorder) visit list \<Rightarrow> 'k mutation_partition option" where
  "partition_builder calls = map_option fst (visit_all builder_step calls (mutation_partition_new, None))"

section \<open>Applying to a partition\<close>

text \<open>\<open>row::apply(column, cell)\<close> inside the appliers; an exception of it leaves through the visitor, here
  as \<^const>\<open>None\<close>.\<close>

definition row_apply_visited :: "bool \<Rightarrow> column_type \<Rightarrow> column_id \<Rightarrow> bytes \<Rightarrow> row \<Rightarrow> row option" where
  "row_apply_visited mv def i c r =
     (case row_apply_cell mv def r i (cell_of c) 0 of Inl _ \<Rightarrow> None | Inr (r, _) \<Rightarrow> Some r)"

definition apply_current_cell :: "(row \<Rightarrow> row option) \<Rightarrow> ('k :: linorder) visitor \<Rightarrow> 'k visitor option" where
  "apply_current_cell f v = do {
     pos \<leftarrow> snd v;
     e \<leftarrow> rows_find pos (mp_rows (fst v));
     r \<leftarrow> f (dr_cells (re_row e));
     update_current_cells (\<lambda>_. r) v
   }"

fun applier_step :: "schema \<Rightarrow> ('k :: linorder) visit \<Rightarrow> 'k visitor \<Rightarrow> 'k visitor option" where
  "applier_step s (Accept_partition_tombstone t) v = Some (mp_apply_tombstone t (fst v), snd v)"
| "applier_step s (Accept_static_cell i c) v = do {
     r \<leftarrow> row_apply_visited (mutable_views s) (static_def s i) i c (static_row (fst v));
     Some ((fst v)\<lparr>static_row := r\<rparr>, snd v)
   }"
| "applier_step s (Accept_row_tombstone rt) v = visit_row_tombstone rt v"
| "applier_step s (Accept_row key deleted rm is_dummy is_continuous) v =
     visit_row key deleted rm is_dummy is_continuous (fst v)"
| "applier_step s (Accept_row_cell i c) v =
     apply_current_cell (row_apply_visited (mutable_views s) (regular_def s i) i c) v"

definition mutation_partition_applier :: "schema \<Rightarrow> ('k :: linorder) visit list \<Rightarrow> 'k mutation_partition \<Rightarrow>
    'k mutation_partition option" where
  "mutation_partition_applier s calls mp = map_option fst (visit_all (applier_step s) calls (mp, None))"

section \<open>Converting to another schema\<close>

text \<open>Where a column of the visited schema goes: the definition found by its name in the target schema,
  with \<open>is_compatible\<close> of the two types and kinds and the time the new column was dropped.\<close>

record converted_column =
  new_id :: column_id
  new_type :: column_type
  compatible :: bool
  dropped_at :: i64

record column_mapping =
  static_column_at :: "column_id \<Rightarrow> converted_column option"
  regular_column_at :: "column_id \<Rightarrow> converted_column option"

definition convert_collection :: "i64 \<Rightarrow> bytes \<Rightarrow> bytes option" where
  "convert_collection dropped c =
     (case deserialize_mutation_form c of
        Inl _ \<Rightarrow> None
      | Inr m \<Rightarrow> Some (serialize_mutation_form
          (m\<lparr>coll_tomb := (if sint (timestamp (coll_tomb m)) > sint dropped then coll_tomb m else tombstone_none),
             coll_cells := filter (\<lambda>kc. sint (cell_timestamp (snd kc)) > sint dropped) (coll_cells m)\<rparr>)))"

text \<open>\<open>accept_cell\<close> of both kinds; the old type of the column tells which.\<close>

definition accept_cell :: "bool \<Rightarrow> column_type \<Rightarrow> converted_column option \<Rightarrow> bytes \<Rightarrow> row \<Rightarrow> row option" where
  "accept_cell mv old_type def c r =
     (case def of
        None \<Rightarrow> Some r
      | Some d \<Rightarrow>
          if \<not> compatible d then Some r
          else case old_type of
            Collection_column _ _ \<Rightarrow> do {
              c \<leftarrow> convert_collection (dropped_at d) c;
              row_apply_visited mv (new_type d) (new_id d) c r
            }
          | _ \<Rightarrow> if sint (cell_timestamp c) > sint (dropped_at d)
                then row_apply_visited mv (new_type d) (new_id d) c r else Some r)"

fun converting_step :: "schema \<Rightarrow> column_mapping \<Rightarrow> ('k :: linorder) visit \<Rightarrow> 'k visitor \<Rightarrow> 'k visitor option" where
  "converting_step old cm (Accept_partition_tombstone t) v = Some (mp_apply_tombstone t (fst v), snd v)"
| "converting_step old cm (Accept_static_cell i c) v = do {
     r \<leftarrow> accept_cell (mutable_views old) (static_def old i) (static_column_at cm i) c (static_row (fst v));
     Some ((fst v)\<lparr>static_row := r\<rparr>, snd v)
   }"
| "converting_step old cm (Accept_row_tombstone rt) v = visit_row_tombstone rt v"
| "converting_step old cm (Accept_row key deleted rm is_dummy is_continuous) v =
     visit_row key deleted rm is_dummy is_continuous (fst v)"
| "converting_step old cm (Accept_row_cell i c) v =
     apply_current_cell (accept_cell (mutable_views old) (regular_def old i) (regular_column_at cm i) c) v"

text \<open>\<open>upgrade\<close> builds the new partition beside the old one, which is replaced only when all calls have
  succeeded.\<close>

definition mutation_partition_upgrade :: "schema \<Rightarrow> column_mapping \<Rightarrow> ('k :: linorder) mutation_partition \<Rightarrow> 'k mutation_partition option" where
  "mutation_partition_upgrade old cm mp =
     map_option fst (visit_all (converting_step old cm) (mp_accept mp) (mutation_partition_new, None))"

section \<open>Merging serialized and constant partitions\<close>

text \<open>\<open>apply(const schema&, mutation_partition_view, const schema&, uint32_t)\<close>: the view is the list of the
  calls it makes on a visitor, \<open>conv\<close> the mapping to this schema if the schemas differ.\<close>

definition mp_apply_serialized :: "schema \<Rightarrow> schema \<Rightarrow> column_mapping option \<Rightarrow> ('k :: linorder) allocation \<Rightarrow>
    'k mutation_partition \<Rightarrow> 'k visit list \<Rightarrow> u32 \<Rightarrow> (error option \<times> 'k mutation_partition) option" where
  "mp_apply_serialized s p_schema conv fails mp view version = do {
     p2 \<leftarrow> partition_builder view;
     p2 \<leftarrow> (case conv of None \<Rightarrow> Some p2 | Some cm \<Rightarrow> mutation_partition_upgrade p_schema cm p2);
     (err, mp, _) \<leftarrow> mp_apply s fails mp p2 version;
     Some (err, mp)
   }"

text \<open>\<open>apply(const schema&, const mutation_partition&, const schema&)\<close> merges a copy; the overload for a
  moved partition of another schema calls it.\<close>

definition mp_apply_copy :: "schema \<Rightarrow> schema \<Rightarrow> column_mapping option \<Rightarrow> ('k :: linorder) allocation \<Rightarrow>
    'k mutation_partition \<Rightarrow> 'k mutation_partition \<Rightarrow> (error option \<times> 'k mutation_partition) option" where
  "mp_apply_copy s p_schema conv fails mp p = do {
     p2 \<leftarrow> (case conv of None \<Rightarrow> Some p | Some cm \<Rightarrow> mutation_partition_upgrade p_schema cm p);
     (err, mp, _) \<leftarrow> mp_apply s fails mp p2 0;
     Some (err, mp)
   }"

text \<open>\<open>mutation_fragment_applier\<close>.\<close>

datatype 'k mutation_fragment =
    Fragment_tombstone tombstone
  | Fragment_range_tombstone "'k range_tombstone"
  | Fragment_static_row row
  | Fragment_partition_start tombstone
  | Fragment_partition_end
  | Fragment_clustering_row "'k clustering_key_prefix" row_tombstone row_marker row

fun apply_fragment :: "schema \<Rightarrow> ('k :: linorder) mutation_fragment \<Rightarrow> 'k mutation_partition \<Rightarrow> 'k mutation_partition option" where
  "apply_fragment s (Fragment_tombstone t) mp = Some (mp_apply_tombstone t mp)"
| "apply_fragment s (Fragment_range_tombstone rt) mp = map_option snd (apply_row_tombstone None rt mp)"
| "apply_fragment s (Fragment_static_row r) mp =
     (case row_apply (cells_inline s) (mutable_views s) (static_def s) (static_row mp) r of
        Inl _ \<Rightarrow> None | Inr st \<Rightarrow> Some (mp\<lparr>static_row := st\<rparr>))"
| "apply_fragment s (Fragment_partition_start t) mp = Some (mp_apply_tombstone t mp)"
| "apply_fragment s Fragment_partition_end mp = Some mp"
| "apply_fragment s (Fragment_clustering_row key t m r) mp = do {
     let mp = clustered_row key (\<lambda>dr. dr_apply_marker m (dr_apply_row_tombstone t dr)) mp;
     cells \<leftarrow> find_row key mp;
     (case row_apply (cells_inline s) (mutable_views s) (regular_def s) cells r of
        Inl _ \<Rightarrow> None | Inr cells \<Rightarrow> Some (clustered_row key (\<lambda>dr. dr\<lparr>dr_cells := cells\<rparr>) mp))
   }"

section \<open>Equality and difference\<close>

definition non_dummy_rows :: "'k mutation_partition \<Rightarrow> 'k rows_type" where
  "non_dummy_rows mp = filter (\<lambda>e. \<not> dummy e) (mp_rows mp)"

definition mp_equal :: "(column_id \<Rightarrow> string) \<times> (column_id \<Rightarrow> string) \<Rightarrow> 'k mutation_partition \<Rightarrow>
    (column_id \<Rightarrow> string) \<times> (column_id \<Rightarrow> string) \<Rightarrow> 'k mutation_partition \<Rightarrow> bool" where
  "mp_equal names mp p_names p \<longleftrightarrow>
     mp_tombstone mp = mp_tombstone p \<and>
     list_all2 (\<lambda>e1 e2. re_equal (fst names) e1 (fst p_names) e2) (non_dummy_rows mp) (non_dummy_rows p) \<and>
     rtl_equal (row_tombstones mp) (row_tombstones p) \<and>
     row_equal (snd names) (static_row mp) (snd p_names) (static_row p)"

definition equal_continuity :: "'k mutation_partition \<Rightarrow> 'k mutation_partition \<Rightarrow> bool" where
  "equal_continuity mp p \<longleftrightarrow> mp_static_continuous mp = mp_static_continuous p \<and>
     list_all2 (\<lambda>e1 e2. position_equal (re_position e1) (re_position e2) \<and> continuous e1 = continuous e2 \<and>
       dummy e1 = dummy e2) (mp_rows mp) (mp_rows p)"

text \<open>The loop of \<open>difference\<close> over the rows, with the iterator into the other set.\<close>

fun mp_difference_loop :: "schema \<Rightarrow> ('k :: linorder) rows_type \<Rightarrow> 'k rows_type \<Rightarrow> 'k mutation_partition \<Rightarrow>
    error + 'k mutation_partition" where
  "mp_difference_loop s [] it_r mp = Inr mp"
| "mp_difference_loop s (r # rows) it_r mp =
     (if dummy r then mp_difference_loop s rows it_r mp
      else let it_r = dropWhile (\<lambda>e. dummy e \<or> rows_less e r) it_r in
           case it_r of
             [] \<Rightarrow> mp_difference_loop s rows it_r (insert_row (re_key r) (re_row r) mp)
           | e # _ \<Rightarrow>
               if re_key e \<noteq> re_key r
               then mp_difference_loop s rows it_r (insert_row (re_key r) (re_row r) mp)
               else and_then (dr_difference s (re_row r) (re_row e)) (\<lambda>dr.
                    mp_difference_loop s rows it_r
                      (if dr_is_empty dr then mp else insert_row (re_key r) dr mp)))"

definition mp_difference :: "schema \<Rightarrow> ('k :: linorder) mutation_partition \<Rightarrow> 'k mutation_partition \<Rightarrow>
    (error + 'k mutation_partition) option" where
  "mp_difference s this_mp other = do {
     let mp = mutation_partition_new;
     let mp = (if mp_tombstone this_mp > mp_tombstone other then mp_apply_tombstone (mp_tombstone this_mp) mp else mp);
     (_, _, rts) \<leftarrow> rtl_difference (row_tombstones this_mp) (row_tombstones other) None;
     Some (and_then (row_difference (static_def s) (static_row this_mp) (static_row other)) (\<lambda>st.
       mp_difference_loop s (mp_rows this_mp) (mp_rows other) (mp\<lparr>static_row := st, row_tombstones := rts\<rparr>)))
   }"

section \<open>Rebuilding rows\<close>

text \<open>One past the last column a row has room for.\<close>

definition row_end :: "row \<Rightarrow> nat" where
  "row_end r = (case row_storage r of Vector_storage pr v \<Rightarrow> length v
     | Set_storage es \<Rightarrow> if es = [] then 0 else Suc (fst (last es)))"

lemma sorted_last:
  assumes "sorted_wrt (<) (map fst (es :: (nat \<times> 'a) list))" "e \<in> set es"
  shows "fst e \<le> fst (last es)"
  using assms by (induction es) (auto simp: less_imp_le split: if_splits)

lemma row_end_find: "row_ok r \<Longrightarrow> row_end r \<le> i \<Longrightarrow> find_cell r i = None"
  using sorted_last [where 'a = cell] map_of_SomeD
  by (cases r) (fastforce simp: row_end_def row_ok_set map_of_eq_None_iff split: if_splits)+

lemma set_insert_end: "\<forall>e \<in> set es. fst e < i \<Longrightarrow> set_insert es i c = es @ [(i, c)]"
  by (simp add: set_insert_def)

lemma append_cell_new:
  assumes "row_ok r" "row_end r \<le> i" "cell_present c"
  shows "row_ok (append_cell r i c)" "find_cell (append_cell r i c) = (find_cell r)(i := Some c)"
    "row_end (append_cell r i c) = Suc i"
proof -
  have none: "find_cell r i = None" by (rule row_end_find [OF assms(1,2)])
  have "\<exists>c'. row_apply_cell True Atomic_column r i c 0 = Inr (append_cell r i c, c')"
    using assms(2) none row_cells_ok(2) [OF assms(1)]
    by (cases r) (auto simp: row_apply_cell_def append_cell_def row_end_def set_apply_cell_def)
  then show "row_ok (append_cell r i c)" "find_cell (append_cell r i c) = (find_cell r)(i := Some c)"
    using row_apply_cell_new [OF assms(1) none assms(3), of True Atomic_column 0] by auto
  show "row_end (append_cell r i c) = Suc i"
  proof (cases r)
    case (Vector pr v n)
    have "fst e < i" if "e \<in> set (row_cells r)" "max_vector_size \<le> i" for e
      using that assms(1) Vector by (auto simp: row_cells_def row_ok_vector)
    then show ?thesis
      using Vector assms(2) by (simp add: append_cell_def row_end_def resize_def set_insert_end)
  next
    case (Set es n)
    have "fst e < i" if "e \<in> set es" for e
      using that sorted_last [of es e] assms(1,2) Set by (force simp: row_ok_set row_end_def split: if_splits)
    then show ?thesis using Set by (simp add: append_cell_def row_end_def set_insert_end)
  qed
qed

text \<open>A cell read from a view has version 0.\<close>

abbreviation plain :: "cell \<Rightarrow> cell" where
  "plain c \<equiv> cell_of (cell_data c)"

definition row_rebuilt :: "row \<Rightarrow> row \<Rightarrow> bool" where
  "row_rebuilt r r' \<longleftrightarrow> row_ok r' \<and> (\<forall>i. find_cell r' i = map_option plain (find_cell r i))"

definition append_cells :: "(column_id \<times> cell) list \<Rightarrow> row \<Rightarrow> row" where
  "append_cells cells r = foldl (\<lambda>r (i, c). append_cell r i (plain c)) r cells"

lemma append_cells_simps [simp]:
  "append_cells [] r = r" "append_cells ((i, c) # cells) r = append_cells cells (append_cell r i (plain c))"
  by (simp_all add: append_cells_def)

lemma append_cells_new:
  assumes "row_ok r" "sorted_wrt (<) (map fst cells)" "\<forall>e \<in> set cells. row_end r \<le> fst e \<and> cell_present (snd e)"
  shows "row_ok (append_cells cells r) \<and>
    (\<forall>i. find_cell (append_cells cells r) i =
       (case map_of cells i of None \<Rightarrow> find_cell r i | Some c \<Rightarrow> Some (plain c)))"
  using assms
proof (induction cells arbitrary: r)
  case (Cons e cells)
  obtain i c where e: "e = (i, c)" by fastforce
  have "cell_present (plain c)" "row_end r \<le> i"
    using Cons.prems(3) e by (auto simp: cell_present_def cell_of_def)
  note new = append_cell_new [OF Cons.prems(1) this(2,1)]
  have "\<forall>e' \<in> set cells. row_end (append_cell r i (plain c)) \<le> fst e' \<and> cell_present (snd e')"
    using Cons.prems(2,3) e new(3) by (auto simp: Suc_le_eq)
  moreover have "map_of cells i = None" using Cons.prems(2) e by (auto simp: map_of_eq_None_iff)
  ultimately show ?case
    using Cons.IH [OF new(1)] Cons.prems(2) e new(2) by (auto split: option.splits)
qed simp

lemma row_empty_ok [simp]: "row_ok row_empty" "row_end row_empty = 0" "find_cell row_empty i = None"
  by (simp_all add: row_empty_def row_ok_vector row_end_def)

lemma append_cells_rebuilt: "row_ok r \<Longrightarrow> row_rebuilt r (append_cells (row_cells r) row_empty)"
  using append_cells_new [OF row_empty_ok(1), of "row_cells r"] row_cells_ok [of r]
  by (auto simp: row_rebuilt_def split: option.splits)

section \<open>Rebuilding deletable rows\<close>

text \<open>The class invariant of \<open>deletable_row\<close>: the shadowable tombstone is not older than the regular one,
  and it is not left standing when a newer live marker shadows it.\<close>

definition dr_ok :: "deletable_row \<Rightarrow> bool" where
  "dr_ok dr \<longleftrightarrow> rt_ok (deleted_at dr) \<and> tombstone_none \<le> regular (deleted_at dr) \<and>
     (is_shadowed_by (shadowable (deleted_at dr)) (marker dr) \<longrightarrow> tomb (shadowable (deleted_at dr)) = regular (deleted_at dr))"

lemma rt_maybe_shadow_idle:
  "(is_shadowed_by (shadowable t) m \<Longrightarrow> tomb (shadowable t) = regular t) \<Longrightarrow> rt_maybe_shadow t m = t"
  by (auto simp: rt_maybe_shadow_def shadowable_maybe_shadow_def row_tombstone_eq_iff)

lemma marker_apply_missing:
  "marker_eq (marker_apply row_marker_missing m) m \<and>
   (marker_is_live (marker_apply row_marker_missing m) \<longrightarrow> marker_apply row_marker_missing m = m) \<and>
   (marker_is_live m \<longrightarrow> marker_apply row_marker_missing m = m)"
proof (cases "is_missing m")
  case True
  then show ?thesis
    by (simp add: marker_apply_def marker_eq_def is_missing_def marker_is_live_def row_marker_missing_def)
next
  case False
  then have "compare_row_marker_for_merge row_marker_missing m < 0"
    using missing_timestamp_least [of "rm_timestamp m"]
    by (auto simp: compare_row_marker_for_merge_def row_marker_missing_def is_missing_def)
  then show ?thesis by (simp add: marker_apply_def marker_eq_def)
qed

lemma shadow_same_live:
  assumes "marker_is_live m' \<longrightarrow> m' = m" "marker_is_live m \<longrightarrow> m' = m"
  shows "is_shadowed_by t m' \<longleftrightarrow> is_shadowed_by t m"
  using assms by (auto simp: is_shadowed_by_def)

lemma dr_rebuild:
  assumes "dr_ok dr"
  shows "deleted_at (dr_apply_row_tombstone (deleted_at dr) (dr_apply_marker (marker dr) dr_empty)) = deleted_at dr"
    "marker_eq (marker (dr_apply_row_tombstone (deleted_at dr) (dr_apply_marker (marker dr) dr_empty))) (marker dr)"
    "dr_cells (dr_apply_row_tombstone t (dr_apply_marker m dr_empty)) = row_empty"
proof -
  let ?t = "deleted_at dr" and ?m = "marker_apply row_marker_missing (marker dr)"
  have m: "marker (dr_apply_row_tombstone ?t (dr_apply_marker (marker dr) dr_empty)) = ?m"
    by (simp add: dr_apply_row_tombstone_def dr_apply_marker_def dr_empty_def Let_def)
  then show "marker_eq (marker (dr_apply_row_tombstone ?t (dr_apply_marker (marker dr) dr_empty))) (marker dr)"
    using marker_apply_missing [of "marker dr"] by simp
  have sh: "is_shadowed_by t ?m \<longleftrightarrow> is_shadowed_by t (marker dr)" for t
    using shadow_same_live marker_apply_missing [of "marker dr"] by blast
  have none: "rt_maybe_shadow row_tombstone_none ?m = row_tombstone_none"
    by (rule rt_maybe_shadow_idle) (simp add: row_tombstone_none_def shadowable_none_def)
  have ge: "tombstone_none \<le> regular ?t" "tombstone_none \<le> tomb (shadowable ?t)"
    using assms by (auto simp: dr_ok_def rt_ok_def)
  have "rt_apply row_tombstone_none ?t ?m = rt_maybe_shadow ?t ?m"
    using ge by (simp add: rt_apply_def rt_maybe_shadow_def row_tombstone_eq_iff row_tombstone_none_def shadowable_none_def
        tomb_apply_max shadowable_apply_def Let_def max_absorb2)
  also have "\<dots> = ?t" using assms sh by (intro rt_maybe_shadow_idle) (simp add: dr_ok_def)
  finally show "deleted_at (dr_apply_row_tombstone ?t (dr_apply_marker (marker dr) dr_empty)) = ?t"
    using none by (simp add: dr_apply_row_tombstone_def dr_apply_marker_def dr_empty_def Let_def)
qed (simp add: dr_apply_row_tombstone_def dr_apply_marker_def dr_empty_def Let_def)

text \<open>Shadowing establishes the invariant.\<close>

lemma dr_ok_shadow:
  assumes "rt_ok t" "tombstone_none \<le> regular t" "deleted_at dr = rt_maybe_shadow t (marker dr)"
  shows "dr_ok dr"
  using assms rt_ok_maybe_shadow [OF assms(1), of "marker dr"]
  by (auto simp: dr_ok_def rt_maybe_shadow_def shadowable_maybe_shadow_def)

lemma dr_ok_rt_apply:
  assumes "rt_ok a" "rt_ok b" "tombstone_none \<le> regular a" "deleted_at dr = rt_apply a b (marker dr)"
  shows "dr_ok dr"
proof (rule dr_ok_shadow)
  let ?t = "\<lparr>regular = max (regular a) (regular b), shadowable = Shadowable (max (tomb (shadowable a)) (tomb (shadowable b)))\<rparr>"
  show "rt_ok ?t" using assms(1,2) by (auto simp: rt_ok_def le_max_iff_disj)
  show "tombstone_none \<le> regular ?t" using assms(3) by (simp add: le_max_iff_disj)
  show "deleted_at dr = rt_maybe_shadow ?t (marker dr)"
    using assms(4) by (simp add: rt_apply_def rt_maybe_shadow_def tomb_apply_max shadowable_apply_def Let_def)
qed

lemma dr_ok_apply_tombstone:
  assumes "dr_ok a" shows "dr_ok (dr_apply_tombstone t a)"
proof -
  let ?s = "tomb (shadowable (deleted_at a))" and ?r = "regular (deleted_at a)"
  have a: "?r \<le> ?s" "tombstone_none \<le> ?r" "is_shadowed_by (Shadowable ?s) (marker a) \<longrightarrow> ?s = ?r"
    using assms by (simp_all add: dr_ok_def rt_ok_def)
  have "sint (timestamp ?s) \<le> sint (timestamp (max ?s t))" by (simp add: timestamp_max)
  then have "is_shadowed_by (Shadowable (max ?s t)) (marker a) \<longrightarrow> ?s = ?r"
    using a(3) by (auto simp: is_shadowed_by_def)
  then show ?thesis
    using a by (auto simp: dr_ok_def rt_ok_def dr_apply_tombstone_def rt_apply_regular_def shadowable_apply_tomb_def tomb_apply_max
        Let_def le_max_iff_disj)
qed

text \<open>The tombstone and the marker of a difference.\<close>

definition dr_difference_head :: "deletable_row \<Rightarrow> deletable_row \<Rightarrow> deletable_row" where
  "dr_difference_head a b =
     (let dr = (if rt_compare (deleted_at a) (deleted_at b) > 0 then dr_apply_row_tombstone (deleted_at a) dr_empty else dr_empty)
      in if compare_row_marker_for_merge (marker a) (marker b) > 0 then dr_apply_marker (marker a) dr else dr)"

lemma dr_difference_parts:
  "dr_difference s a b = Inr c \<Longrightarrow>
     deleted_at c = deleted_at (dr_difference_head a b) \<and> marker c = marker (dr_difference_head a b)"
  by (auto simp: dr_difference_def dr_difference_head_def and_then_def Let_def split: sum.splits)

lemma dr_ok_empty: "dr_ok dr_empty"
  by (simp add: dr_ok_def dr_empty_def) (simp add: row_tombstone_none_def shadowable_none_def)

lemma dr_ok_apply_marker: "dr_ok a \<Longrightarrow> dr_ok (dr_apply_marker m a)"
  by (rule dr_ok_shadow [of "deleted_at a"]) (simp_all add: dr_ok_def dr_apply_marker_def Let_def)

lemma dr_ok_apply_row_tombstone: "dr_ok a \<Longrightarrow> rt_ok rt \<Longrightarrow> dr_ok (dr_apply_row_tombstone rt a)"
  by (rule dr_ok_rt_apply [of "deleted_at a" rt]) (simp_all add: dr_ok_def dr_apply_row_tombstone_def)

lemma dr_ok_difference: "rt_ok (deleted_at a) \<Longrightarrow> dr_ok (dr_difference_head a b)"
  by (auto simp: dr_difference_head_def Let_def intro: dr_ok_empty dr_ok_apply_marker dr_ok_apply_row_tombstone)

text \<open>C32. The operations of \<open>deletable_row\<close> that write the tombstone or the marker keep its class invariant, that
  the shadowable tombstone is at least the regular one, and equal to it whenever the row's live marker is newer
  than it: the constructor, \<open>apply\<close> of a tombstone, of a shadowable tombstone, of a row tombstone, of a marker
  and of a row, \<open>remove_tombstone\<close>, \<open>difference\<close>, \<open>apply_reversibly\<close> with and without an exception, and
  \<open>revert\<close>, the last two for both rows they write.\<close>

theorem deletable_row_invariant:
  assumes "dr_ok a" "dr_ok b" "tombstone_none \<le> t" "rt_ok rt" "tombstone_none \<le> regular rt"
  shows "dr_ok dr_empty \<and> dr_ok (dr_apply_tombstone t a) \<and> dr_ok (dr_apply_shadowable (Shadowable t) a) \<and>
    dr_ok (dr_apply_row_tombstone rt a) \<and> dr_ok (dr_apply_marker m a) \<and> dr_ok (dr_remove_tombstone a) \<and>
    (\<forall>s c. dr_apply s a b = Inr c \<longrightarrow> dr_ok c) \<and> (\<forall>s c. dr_difference s a b = Inr c \<longrightarrow> dr_ok c) \<and>
    (\<forall>s fails v err c src. dr_apply_reversibly s fails a b v = Some (err, c, src) \<longrightarrow> dr_ok c \<and> dr_ok src) \<and>
    (\<forall>s c src. dr_revert s a b = Some (c, src) \<longrightarrow> dr_ok c \<and> dr_ok src)"
proof (intro conjI allI impI)
  have ra: "rt_ok (deleted_at a)" "tombstone_none \<le> regular (deleted_at a)" and rb: "rt_ok (deleted_at b)"
    using assms by (simp_all add: dr_ok_def)
  show "dr_ok dr_empty" by (rule dr_ok_empty)
  show "dr_ok (dr_remove_tombstone a)"
    by (simp add: dr_ok_def dr_remove_tombstone_def) (simp add: row_tombstone_none_def shadowable_none_def)
  show "dr_ok (dr_apply_tombstone t a)" by (rule dr_ok_apply_tombstone [OF assms(1)])
  show "dr_ok (dr_apply_shadowable (Shadowable t) a)"
  proof (rule dr_ok_shadow)
    let ?t = "(deleted_at a)\<lparr>shadowable := shadowable_apply_tomb (shadowable (deleted_at a)) t\<rparr>"
    show "rt_ok ?t" "tombstone_none \<le> regular ?t"
      using ra by (auto simp: rt_ok_def shadowable_apply_tomb_def tomb_apply_max le_max_iff_disj)
    show "deleted_at (dr_apply_shadowable (Shadowable t) a) = rt_maybe_shadow ?t (marker (dr_apply_shadowable (Shadowable t) a))"
      by (simp add: dr_apply_shadowable_def rt_apply_shadowable_def rt_maybe_shadow_def Let_def)
  qed
  show "dr_ok (dr_apply_row_tombstone rt a)" by (rule dr_ok_apply_row_tombstone [OF assms(1,4)])
  show "dr_ok (dr_apply_marker m a)" by (rule dr_ok_apply_marker [OF assms(1)])
  show "dr_ok c" if "dr_apply s a b = Inr c" for s c
    using that dr_ok_rt_apply [OF ra(1) rb ra(2), of c] by (auto simp: dr_apply_def and_then_def Let_def split: sum.splits)
  show "dr_ok c" if "dr_difference s a b = Inr c" for s c
    using dr_difference_parts [OF that] dr_ok_difference [OF ra(1), of b] by (simp add: dr_ok_def)
  show "dr_ok c" "dr_ok src" if "dr_apply_reversibly s fails a b v = Some (err, c, src)" for s fails v err c src
    using that dr_ok_rt_apply [OF ra(1) rb ra(2), of c] assms(1,2)
    by (auto simp: dr_apply_reversibly_def marker_apply_reversibly_eq rt_apply_reversibly_eq dr_ok_def Let_def split: bind_splits if_splits)
  show "dr_ok c" "dr_ok src" if "dr_revert s a b = Some (c, src)" for s c src
    using that assms(1,2) by (auto simp: dr_revert_def rt_revert_def marker_revert_def dr_ok_def Let_def split: bind_splits)
qed

theorem deletable_row_invariant_witness:
  "dr_ok dr_empty \<and> dr_ok (dr_apply_shadowable (Shadowable (Tombstone 3 0)) dr_empty) \<and>
   dr_ok (dr_apply_marker (row_marker_at 5) dr_empty) \<and> dr_ok (dr_apply_row_tombstone (row_tombstone_of (Tombstone 3 0)) dr_empty)"
proof -
  have e: "dr_ok dr_empty" by (rule dr_ok_empty)
  have t: "tombstone_none \<le> Tombstone 3 0"
    by (simp add: less_eq_tombstone_def tomb_compare_def tombstone_none_def missing_timestamp_def)
  then have r: "tombstone_none \<le> regular (row_tombstone_of (Tombstone 3 0))" by (simp add: row_tombstone_of_def)
  show ?thesis using deletable_row_invariant [OF e e t rt_ok_none(2) r, of "row_marker_at 5"] by blast
qed

section \<open>Rebuilding partitions\<close>

definition entry_rebuilt :: "'k rows_entry \<Rightarrow> 'k rows_entry \<Rightarrow> bool" where
  "entry_rebuilt e e' \<longleftrightarrow> e' = e\<lparr>re_row := re_row e'\<rparr> \<and> deleted_at (re_row e') = deleted_at (re_row e) \<and>
     marker_eq (marker (re_row e')) (marker (re_row e)) \<and> row_rebuilt (dr_cells (re_row e)) (dr_cells (re_row e'))"

definition mp_canonical :: "'k mutation_partition \<Rightarrow> bool" where
  "mp_canonical mp \<longleftrightarrow> tombstone_none \<le> mp_tombstone mp \<and>
     (\<forall>e \<in> set (mp_rows mp). dr_ok (re_row e) \<and> \<not> (before_ck e \<and> after_ck e))"

lemma visit_all_append: "visit_all f (xs @ ys) v = Option.bind (visit_all f xs v) (visit_all f ys)"
  by (induction xs arbitrary: v) (auto split: bind_splits)

lemma visit_static_cells:
  "visit_all builder_step (map (\<lambda>(i, c). Accept_static_cell i (cell_data c)) cells) (mp, cur) =
     Some (mp\<lparr>static_row := append_cells cells (static_row mp)\<rparr>, cur)"
  by (induction cells arbitrary: mp) auto

lemma visit_row_tombstones:
  assumes "rtl_ok (row_tombstones mp)" "\<forall>n \<in> set ns. proper (snd n)"
  shows "\<exists>l. visit_all builder_step (map (\<lambda>n. Accept_row_tombstone (snd n)) ns) (mp, cur) =
      Some (mp\<lparr>row_tombstones := l\<rparr>, cur) \<and> rtl_ok l \<and>
    (\<forall>x. deletions l x = max (deletions (row_tombstones mp) x) (deletion (map snd ns) x))"
  using assms
proof (induction ns arbitrary: mp)
  case Nil
  have "deletion [] x \<le> deletions (row_tombstones mp) x" for x using deletion_ge by simp
  then show ?case using Nil by (intro exI [of _ "row_tombstones mp"]) (simp add: max_absorb1)
next
  case (Cons n ns)
  have "proper (snd n)" using Cons.prems(2) by simp
  from rtl_apply_one_ok [OF Cons.prems(1) this, of None]
  obtain l where l: "rtl_apply_one (snd n) None (row_tombstones mp) = Some (True, None, l)" "rtl_ok l"
    "\<And>x. deletions l x = max (deletions (row_tombstones mp) x) (cov (cs (snd n)) (ce (snd n)) (tomb_of (snd n)) x)"
    by (auto simp: built_def)
  obtain l' where "visit_all builder_step (map (\<lambda>n. Accept_row_tombstone (snd n)) ns) (mp\<lparr>row_tombstones := l\<rparr>, cur) =
      Some (mp\<lparr>row_tombstones := l'\<rparr>, cur)" "rtl_ok l'"
    "\<forall>x. deletions l' x = max (deletions l x) (deletion (map snd ns) x)"
    using Cons.IH [of "mp\<lparr>row_tombstones := l\<rparr>"] l(2) Cons.prems(2) by auto
  then show ?case
    using l by (auto simp: visit_row_tombstone_def apply_row_tombstone_def max.assoc)
qed

text \<open>The row under construction is the last one.\<close>

lemma rows_at_end:
  assumes "rows_ok (rows @ [e])"
  shows "rows_find (re_position e) rows = None" "rows_insert e rows = rows @ [e]"
    "rows_update (re_position e) f (rows @ [e]) = rows @ [e\<lparr>re_row := f (re_row e)\<rparr>]"
proof -
  have before: "\<forall>d \<in> set rows. position_less (re_position d) (re_position e)" using assms by simp
  have b: "rows_before (re_position e) (rows @ ys) = rows @ rows_before (re_position e) ys"
    "rows_from (re_position e) (rows @ ys) = rows_from (re_position e) ys" for ys
    using before by (simp_all add: rows_before_def rows_from_def)
  have n: "rows_before (re_position e) [] = []" "rows_from (re_position e) [] = []"
    "rows_before (re_position e) [e] = []" "rows_from (re_position e) [e] = [e]"
    by (simp_all add: rows_before_def rows_from_def)
  show none: "rows_find (re_position e) rows = None" using b [of "[]"] n by (simp add: rows_find_def)
  show "rows_insert e rows = rows @ [e]" using b [of "[]"] n none by (simp add: rows_insert_def Let_def)
  have "rows_find (re_position e) (rows @ [e]) = Some e" using b [of "[e]"] n by (simp add: rows_find_def)
  then show "rows_update (re_position e) f (rows @ [e]) = rows @ [e\<lparr>re_row := f (re_row e)\<rparr>]"
    using b [of "[e]"] n by (simp add: rows_update_def rows_put_def)
qed

lemma visit_row_cells:
  assumes "rows_ok (rows @ [e])"
  shows "visit_all builder_step (map (\<lambda>(i, c). Accept_row_cell i (cell_data c)) cells)
      (mp\<lparr>mp_rows := rows @ [e]\<rparr>, Some (re_position e)) =
    Some (mp\<lparr>mp_rows := rows @ [e\<lparr>re_row := (re_row e)\<lparr>dr_cells := append_cells cells (dr_cells (re_row e))\<rparr>\<rparr>]\<rparr>,
      Some (re_position e))"
  using assms
proof (induction cells arbitrary: e)
  case (Cons ic cells)
  obtain i c where ic: "ic = (i, c)" by fastforce
  let ?e = "e\<lparr>re_row := (re_row e)\<lparr>dr_cells := append_cell (dr_cells (re_row e)) i (plain c)\<rparr>\<rparr>"
  have ok: "rows_ok (rows @ [?e])" using Cons.prems by simp
  from Cons.IH [OF this] show ?case
    using rows_at_end(3) [OF Cons.prems] by (simp add: ic update_current_cells_def)
qed simp

lemma visit_one_entry:
  assumes e: "rows_ok (rows @ [e])" "row_ok (dr_cells (re_row e))" "\<not> erased e" "dr_ok (re_row e)" "\<not> (before_ck e \<and> after_ck e)"
    and mp: "mp_rows mp = rows'" "map re_at rows' = map re_at rows"
  shows "\<exists>e' cur'. visit_all builder_step (visit_entry e) (mp, cur) = Some (mp\<lparr>mp_rows := rows' @ [e']\<rparr>, cur') \<and> entry_rebuilt e e'"
proof -
  let ?f = "\<lambda>r. dr_apply_row_tombstone (deleted_at (re_row e)) (dr_apply_marker (marker (re_row e)) r)"
  let ?e0 = "e\<lparr>re_row := dr_empty\<rparr>"
  let ?e1 = "e\<lparr>re_row := ?f dr_empty\<rparr>"
  have "re_at ` set rows' = re_at ` set rows" using mp(2) by (metis set_map)
  then have less: "\<forall>d \<in> set rows'. re_at d < re_at e" using e(1) by (auto simp: image_iff) (metis imageE image_eqI)
  have sorted: "rows_ok rows'"
  proof -
    have "rows_ok rows" using e(1) by simp
    then have "sorted_wrt (<) (map re_at rows)" by (simp only: rows_ok_def sorted_wrt_map)
    then show ?thesis using mp(2) by (simp only: rows_ok_def sorted_wrt_map [symmetric])
  qed
  have ok: "rows_ok (rows' @ [?e0])" "rows_ok (rows' @ [?e1])" using sorted less by simp_all
  have at: "rows_entry_at (re_position e) (dummy e) (continuous e) = Some ?e0"
    using e(3,5) by (cases "before_ck e"; cases "after_ck e"; cases e)
      (simp_all add: rows_entry_at_def re_position_def rows_entry_of_def rows_entry_row_def)
  have "clustered_row_at (re_position e) (dummy e) (continuous e) ?f mp = Some (mp\<lparr>mp_rows := rows' @ [?e1]\<rparr>)"
    using rows_at_end [OF ok(1)] mp(1) at by (simp add: clustered_row_at_def)
  moreover have "visit_all builder_step (visit_cells Accept_row_cell (dr_cells (re_row e)))
      (mp\<lparr>mp_rows := rows' @ [?e1]\<rparr>, Some (re_position e)) =
    Some (mp\<lparr>mp_rows := rows' @ [?e1\<lparr>re_row := (re_row ?e1)\<lparr>dr_cells := append_cells (row_cells (dr_cells (re_row e))) row_empty\<rparr>\<rparr>]\<rparr>,
      Some (re_position e))"
    using visit_row_cells [OF ok(2), of "row_cells (dr_cells (re_row e))" mp] dr_rebuild(3) [OF e(4)]
    by (simp add: visit_cells_def)
  ultimately show ?thesis
    using dr_rebuild [OF e(4)] append_cells_rebuilt [OF e(2)]
    by (intro exI [of _ "?e1\<lparr>re_row := (re_row ?e1)\<lparr>dr_cells := append_cells (row_cells (dr_cells (re_row e))) row_empty\<rparr>\<rparr>"]
        exI [of _ "Some (re_position e)"]) (simp add: visit_entry_def visit_row_def entry_rebuilt_def Let_def)
qed

lemma visit_entries:
  assumes "rows_ok (old @ rows)" "\<forall>e \<in> set rows. row_ok (dr_cells (re_row e)) \<and> \<not> erased e \<and> dr_ok (re_row e) \<and> \<not> (before_ck e \<and> after_ck e)"
    and "list_all2 entry_rebuilt old (mp_rows mp)"
  shows "\<exists>rows' cur'. visit_all builder_step (concat (map visit_entry rows)) (mp, cur) = Some (mp\<lparr>mp_rows := rows'\<rparr>, cur') \<and>
    list_all2 entry_rebuilt (old @ rows) rows'"
  using assms
proof (induction rows arbitrary: old mp cur)
  case Nil
  then show ?case by (intro exI [of _ "mp_rows mp"]) auto
next
  case (Cons e rows)
  have "re_at a = re_at b" if "entry_rebuilt a b" for a b :: "'a rows_entry"
    using that unfolding entry_rebuilt_def by (metis re_at_update(1))
  then have keys: "map re_at (mp_rows mp) = map re_at old"
    using Cons.prems(3) by (auto simp: list_all2_conv_all_nth intro!: nth_equalityI)
  have "rows_ok (old @ [e])" using Cons.prems(1) by simp
  moreover have "row_ok (dr_cells (re_row e))" "\<not> erased e" "dr_ok (re_row e)" "\<not> (before_ck e \<and> after_ck e)"
    using Cons.prems(2) by simp_all
  ultimately obtain e' cur1 where v: "visit_all builder_step (visit_entry e) (mp, cur) = Some (mp\<lparr>mp_rows := mp_rows mp @ [e']\<rparr>, cur1)"
    and e': "entry_rebuilt e e'"
    using visit_one_entry [of old e mp, OF _ _ _ _ _ refl keys] by blast
  have "list_all2 entry_rebuilt (old @ [e]) (mp_rows (mp\<lparr>mp_rows := mp_rows mp @ [e']\<rparr>))"
    using Cons.prems(3) e' by (simp add: list_all2_appendI)
  moreover have "rows_ok ((old @ [e]) @ rows)" using Cons.prems(1) by simp
  ultimately obtain rows' cur' where
    "visit_all builder_step (concat (map visit_entry rows)) (mp\<lparr>mp_rows := mp_rows mp @ [e']\<rparr>, cur1) = Some (mp\<lparr>mp_rows := rows'\<rparr>, cur')"
    "list_all2 entry_rebuilt ((old @ [e]) @ rows) rows'"
    using Cons.IH [of "old @ [e]" "mp\<lparr>mp_rows := mp_rows mp @ [e']\<rparr>" cur1] Cons.prems(2) by auto
  then show ?case using v by (auto simp: visit_all_append)
qed

lemma partition_rebuilt:
  assumes "mp_fits s mp" "mp_canonical mp"
  shows "\<exists>mp'. partition_builder (mp_accept mp) = Some mp' \<and> mp_tombstone mp' = mp_tombstone mp \<and>
    row_rebuilt (static_row mp) (static_row mp') \<and> list_all2 entry_rebuilt (mp_rows mp) (mp_rows mp') \<and>
    rtl_ok (row_tombstones mp') \<and> (\<forall>k. search_tombstone_covering k (row_tombstones mp') = search_tombstone_covering k (row_tombstones mp)) \<and>
    mp_static_continuous mp'"
proof -
  have st: "row_ok (static_row mp)" and rt: "rtl_ok (row_tombstones mp)" and rows: "rows_ok (mp_rows mp)"
    and es: "\<forall>e \<in> set (mp_rows mp). row_ok (dr_cells (re_row e)) \<and> \<not> erased e \<and> dr_ok (re_row e) \<and> \<not> (before_ck e \<and> after_ck e)"
    and t: "tombstone_none \<le> mp_tombstone mp"
    using assms by (auto simp: mp_fits_def mp_canonical_def rows_fit_def dr_fits_def row_fits_def)
  let ?st = "append_cells (row_cells (static_row mp)) row_empty"
  let ?mp1 = "mutation_partition_new\<lparr>mp_tombstone := mp_tombstone mp, static_row := ?st\<rparr>"
  have v1: "visit_all builder_step (Accept_partition_tombstone (mp_tombstone mp) # visit_cells Accept_static_cell (static_row mp))
      (mutation_partition_new, None) = Some (?mp1, None)"
    using t by (simp add: visit_static_cells visit_cells_def mp_apply_tombstone_def tomb_apply_max mutation_partition_new_def max_absorb2)
  have "rtl_ok (row_tombstones ?mp1)" "\<forall>n \<in> set (tombstones (row_tombstones mp)). proper (snd n)"
    using rt by (simp add: mutation_partition_new_def, simp add: rtl_ok_def wf_rts_def)
  from visit_row_tombstones [OF this, of None] obtain l where
    v2: "visit_all builder_step (map (\<lambda>n. Accept_row_tombstone (snd n)) (tombstones (row_tombstones mp))) (?mp1, None) =
      Some (?mp1\<lparr>row_tombstones := l\<rparr>, None)" and l: "rtl_ok l"
    "\<And>x. deletions l x = max (deletions (row_tombstones ?mp1) x) (deletions (row_tombstones mp) x)" by auto
  let ?mp2 = "?mp1\<lparr>row_tombstones := l\<rparr>"
  have "list_all2 entry_rebuilt [] (mp_rows ?mp2)" by (simp add: mutation_partition_new_def)
  with rows es obtain rows' cur' where
    v3: "visit_all builder_step (concat (map visit_entry (mp_rows mp))) (?mp2, None) = Some (?mp2\<lparr>mp_rows := rows'\<rparr>, cur')"
    and rows': "list_all2 entry_rebuilt (mp_rows mp) rows'"
    using visit_entries [of "[]" "mp_rows mp" ?mp2 None] by auto
  have calls: "mp_accept mp = (Accept_partition_tombstone (mp_tombstone mp) # visit_cells Accept_static_cell (static_row mp)) @
      map (\<lambda>n. Accept_row_tombstone (snd n)) (tombstones (row_tombstones mp)) @ concat (map visit_entry (mp_rows mp))"
    by (simp add: mp_accept_def)
  have "partition_builder (mp_accept mp) = Some (?mp2\<lparr>mp_rows := rows'\<rparr>)"
    unfolding partition_builder_def calls visit_all_append v1 Option.bind.bind_lunit v2 v3 by simp
  moreover have "deletions l x = deletions (row_tombstones mp) x" for x
    using l(2) [of x] deletion_ge [of "map snd (tombstones (row_tombstones mp))" x]
    by (simp add: mutation_partition_new_def rtl_empty_def max_absorb2)
  then have "search_tombstone_covering k l = search_tombstone_covering k (row_tombstones mp)" for k
    using search_is_deletion [OF l(1)] search_is_deletion [OF rt] by simp
  moreover have "mp_static_continuous (mutation_partition_new :: 'a mutation_partition)" by (simp add: mutation_partition_new_def)
  ultimately show ?thesis
    using rows' l(1) append_cells_rebuilt [OF st] by (intro exI [of _ "?mp2\<lparr>mp_rows := rows'\<rparr>"]) simp
qed

text \<open>C22. Taking a partition apart with \<open>accept\<close> and feeding the calls to a \<open>partition_builder\<close>, as freezing
  and unfreezing a mutation does, rebuilds it. For a well-formed partition the build succeeds, with the same
  partition tombstone, the same entries in the same order with their positions, flags and tombstones, equal
  markers, the same data in the cells of the static row and of every row, and range tombstones that delete
  every key at the same time (as a list they may differ). Two things are not carried over: the version stamps
  of the cells are 0, and the static row is marked continuous.\<close>

theorem partition_round_trip:
  assumes "mp_fits s mp" "mp_canonical mp"
  shows "\<exists>mp'. partition_builder (mp_accept mp) = Some mp' \<and> mp_tombstone mp' = mp_tombstone mp \<and>
    row_rebuilt (static_row mp) (static_row mp') \<and> list_all2 entry_rebuilt (mp_rows mp) (mp_rows mp') \<and>
    (\<forall>k. search_tombstone_covering k (row_tombstones mp') = search_tombstone_covering k (row_tombstones mp)) \<and>
    mp_static_continuous mp'"
  using partition_rebuilt [OF assms] by blast

theorem partition_round_trip_witness:
  "\<exists>mp'. partition_builder (mp_accept (example_mp 3)) = Some mp' \<and> mp_tombstone mp' = tombstone_none \<and>
    list_all2 entry_rebuilt (mp_rows (example_mp 3)) (mp_rows mp') \<and> length (mp_rows mp') = 1"
proof -
  have c: "mp_canonical (example_mp 3)"
    by (simp add: mp_canonical_def example_mp_def mutation_partition_new_def rows_entry_row_def dr_ok_def)
      (simp add: row_tombstone_none_def shadowable_none_def)
  have "length (mp_rows (example_mp 3)) = 1" "mp_tombstone (example_mp 3) = tombstone_none"
    by (simp_all add: example_mp_def mutation_partition_new_def)
  then show ?thesis using partition_round_trip [OF example_mp_fits c] list_all2_lengthD by fastforce
qed

text \<open>The difference of two rows with equal shadowable tombstones and different regular ones drops the
  regular tombstone: \<open>operator>\<close> looks at the shadowable one only.\<close>

lemma difference_drops_regular_tombstone:
  fixes s :: schema
  defines "a \<equiv> dr_empty\<lparr>deleted_at := row_tombstone_of (Tombstone 5 0)\<rparr>"
    and "b \<equiv> dr_empty\<lparr>deleted_at := \<lparr>regular = tombstone_none, shadowable = Shadowable (Tombstone 5 0)\<rparr>\<rparr>"
  shows "dr_difference s a b = Inr dr_empty" "deleted_at b \<noteq> rt_apply (deleted_at b) (deleted_at a) (marker a)"
  by (simp_all add: a_def b_def dr_difference_def dr_empty_def rt_compare_def row_tombstone_of_def tomb_compare_def
      compare_row_marker_for_merge_def row_difference_def row_range_def row_empty_def row_tombstone_eq_iff
      tombstone_none_def missing_timestamp_def less_tombstone_def max_def less_eq_tombstone_def)

end
