(* ===== verification/Partition_Compaction.thy ===== *)
theory Partition_Compaction
  imports Partition_Visitors
begin

text \<open>
  Compaction, liveness and continuity of partitions (\<open>src/Scylla-moon/mutation_partition.cc\<close>): row
  ranges, \<open>trim_rows\<close> in both directions, \<open>do_compact\<close> with its two entry points, the live row count,
  the continuity flags, eviction and slices.
  Failed assertions and invalid iterator ranges are the error \<open>Assertion_failed\<close>; row counts and limits,
  \<open>uint32_t\<close> in the code, are natural numbers, which agree with them while a partition has fewer than \<open>2 ^ 32\<close> rows.
\<close>

section \<open>Ranges of rows\<close>

text \<open>Whether an entry comes before \<open>lower_bound\<close> and \<open>upper_bound\<close> of a range.\<close>

definition rows_lower :: "('k :: linorder) clustering_range \<Rightarrow> 'k rows_entry \<Rightarrow> bool" where
  "rows_lower r e \<longleftrightarrow> range_start r \<noteq> None \<and> position_less (re_position e) (for_range_start r)"

definition rows_upper :: "('k :: linorder) clustering_range \<Rightarrow> 'k rows_entry \<Rightarrow> bool" where
  "rows_upper r e \<longleftrightarrow> range_end r = None \<or> position_less (re_position e) (for_range_end r)"

definition mp_range :: "('k :: linorder) clustering_range \<Rightarrow> 'k mutation_partition \<Rightarrow> 'k rows_type option" where
  "mp_range r mp =
     between (length (takeWhile (rows_lower r) (mp_rows mp))) (length (takeWhile (rows_upper r) (mp_rows mp))) (mp_rows mp)"

definition range_is_full :: "'k clustering_range \<Rightarrow> bool" where
  "range_is_full r \<longleftrightarrow> range_start r = None \<and> range_end r = None"

definition full_range :: "'k clustering_range" where
  "full_range = \<lparr>range_start = None, range_end = None\<rparr>"

definition has_ck_selector :: "'k clustering_range list \<Rightarrow> bool" where
  "has_ck_selector ranges \<longleftrightarrow> ranges = [] \<or> (\<exists>r \<in> set ranges. \<not> range_is_full r)"

section \<open>Trimming\<close>

text \<open>The function that \<open>trim_rows\<close> calls on an entry, with the row count as its state: whether to stop, the
  entry and the count.\<close>

type_synonym 'k trim_func = "'k rows_entry \<Rightarrow> nat \<Rightarrow> error + (bool \<times> 'k rows_entry \<times> nat)"

text \<open>The walk over the entries of one range: the entries kept, those left, the count and the stop flag.\<close>

fun trim_walk :: "'k trim_func \<Rightarrow> ('k rows_entry \<Rightarrow> bool) \<Rightarrow> 'k rows_type \<Rightarrow> 'k rows_type \<Rightarrow> nat \<Rightarrow>
    error + (bool \<times> 'k rows_type \<times> 'k rows_type \<times> nat)" where
  "trim_walk func before_end kept [] n = Inr (False, kept, [], n)"
| "trim_walk func before_end kept (e # todo) n =
     (if \<not> before_end e then Inr (False, kept, e # todo, n)
      else and_then (func e n) (\<lambda>(stop, e, n).
           let kept = (if dr_is_empty (re_row e) then kept else kept @ [e]) in
           if stop then Inr (True, kept, todo, n) else trim_walk func before_end kept todo n))"

text \<open>The loop over the ranges. With \<open>rv\<close> the entries are walked backwards. An iterator of the range that
  lies before the current one makes the erased range or the walk invalid.\<close>

fun trim_rows_loop :: "'k trim_func \<Rightarrow> bool \<Rightarrow> ('k :: linorder) clustering_range list \<Rightarrow> bool \<Rightarrow> 'k rows_type \<Rightarrow> 'k rows_type \<Rightarrow>
    nat \<Rightarrow> error + ('k rows_type \<times> nat)" where
  "trim_rows_loop func rv [] stop kept todo n = Inr (kept, n)"
| "trim_rows_loop func rv (r # ranges) stop kept todo n =
     (if stop then Inr (kept, n)
      else let before_begin = (if rv then (\<lambda>e. \<not> rows_upper r e) else rows_lower r);
               before_end = (if rv then (\<lambda>e. \<not> rows_lower r e) else rows_upper r)
           in if \<exists>e \<in> set kept. \<not> before_begin e \<or> \<not> before_end e then Inl Assertion_failed
              else and_then (trim_walk func before_end kept (dropWhile before_begin todo) n) (\<lambda>(stop, kept, todo, n).
                   trim_rows_loop func rv ranges stop kept todo n))"

definition trim_rows :: "'k trim_func \<Rightarrow> bool \<Rightarrow> ('k :: linorder) clustering_range list \<Rightarrow> 'k rows_type \<Rightarrow>
    error + ('k rows_type \<times> nat)" where
  "trim_rows func rv ranges rows =
     and_then (trim_rows_loop func rv ranges False [] (if rv then rev rows else rows) 0) (\<lambda>(kept, n).
     Inr (if rv then rev kept else kept, n))"

section \<open>Compaction\<close>

text \<open>\<open>saturating_subtract\<close> (\<open>clocks-impl.hh\<close>) on the 32-bit seconds of \<open>gc_clock\<close>.\<close>

definition gc_min :: i32 where
  "gc_min = word_of_int (- (2 ^ 31))"

definition saturating_subtract :: "i32 \<Rightarrow> i32 \<Rightarrow> i32" where
  "saturating_subtract t d = (if sint t < sint (gc_min + d) then gc_min + d else t) - d"

definition compact_row :: "schema \<Rightarrow> i32 \<Rightarrow> i32 \<Rightarrow> (tombstone \<Rightarrow> bool) \<Rightarrow> nat \<Rightarrow> ('k :: linorder) mutation_partition \<Rightarrow>
    'k trim_func" where
  "compact_row s query_time gc_before can_gc row_limit mp e row_count =
     (if dummy e then Inr (False, e, row_count)
      else let row = re_row e; t = tombstone_for_entry e mp in
           and_then (row_compact_and_expire (regular_def s) (dr_cells row) t query_time can_gc gc_before) (\<lambda>(live, cells).
           let (m, marker_live) = marker_compact_and_expire can_gc (rt_tomb t) query_time gc_before (marker row);
               is_live = (live \<or> marker_live);
               row = row\<lparr>dr_cells := cells, marker := m\<rparr>;
               row = (if sint (rt_max_deletion_time (deleted_at row)) < sint gc_before \<and> can_gc (rt_tomb (deleted_at row))
                      then dr_remove_tombstone row else row);
               row_count = row_count + of_bool is_live
           in Inr (is_live \<and> row_count = row_limit, e\<lparr>re_row := row\<rparr>, row_count)))"

definition do_compact :: "schema \<Rightarrow> i32 \<Rightarrow> ('k :: linorder) clustering_range list \<Rightarrow> bool \<Rightarrow> nat \<Rightarrow> (tombstone \<Rightarrow> bool) \<Rightarrow>
    'k mutation_partition \<Rightarrow> error + (nat \<times> 'k mutation_partition)" where
  "do_compact s query_time row_ranges rv row_limit can_gc mp =
     (if row_limit = 0 then Inl Assertion_failed
      else let gc_before = saturating_subtract query_time (gc_grace_seconds s);
               purge = (\<lambda>t. sint (deletion_time t) < sint gc_before \<and> can_gc t)
           in and_then (row_compact_and_expire (static_def s) (static_row mp) (row_tombstone_of (mp_tombstone mp))
                query_time can_gc gc_before) (\<lambda>(static_row_live, st).
              and_then (trim_rows (compact_row s query_time gc_before can_gc row_limit mp) rv row_ranges (mp_rows mp)) (\<lambda>(rows, row_count).
              let row_count = (if row_count = 0 \<and> static_row_live \<and> \<not> has_ck_selector row_ranges then 1 else row_count);
                  rts = erase_where (\<lambda>rt. purge (tomb_of rt) \<or> sint (timestamp (tomb_of rt)) \<le> sint (timestamp (mp_tombstone mp)))
                          (row_tombstones mp)
              in Inr (row_count, mp\<lparr>static_row := st, mp_rows := rows, row_tombstones := rts,
                   mp_tombstone := (if purge (mp_tombstone mp) then tombstone_none else mp_tombstone mp)\<rparr>))))"

definition mp_compact_for_query :: "schema \<Rightarrow> i32 \<Rightarrow> ('k :: linorder) clustering_range list \<Rightarrow> bool \<Rightarrow> nat \<Rightarrow>
    'k mutation_partition \<Rightarrow> error + (nat \<times> 'k mutation_partition)" where
  "mp_compact_for_query s query_time row_ranges rv row_limit mp =
     do_compact s query_time row_ranges rv row_limit (\<lambda>_. True) mp"

definition compact_for_compaction :: "schema \<Rightarrow> (tombstone \<Rightarrow> bool) \<Rightarrow> i32 \<Rightarrow> ('k :: linorder) mutation_partition \<Rightarrow>
    error + 'k mutation_partition" where
  "compact_for_compaction s can_gc compaction_time mp =
     map_sum id snd (do_compact s compaction_time [full_range] False (2 ^ 32 - 1) can_gc mp)"

section \<open>Liveness\<close>

definition mp_is_empty :: "'k mutation_partition \<Rightarrow> bool" where
  "mp_is_empty mp \<longleftrightarrow> timestamp (mp_tombstone mp) = missing_timestamp \<and>
     row_size (static_row mp) = 0 \<and> mp_rows mp = [] \<and> tombstones (row_tombstones mp) = []"

definition is_static_row_live :: "schema \<Rightarrow> 'k mutation_partition \<Rightarrow> i32 \<Rightarrow> error + bool" where
  "is_static_row_live s mp query_time = has_any_live_data (static_def s) (static_row mp) (mp_tombstone mp) query_time"

fun count_live :: "schema \<Rightarrow> ('k :: linorder) mutation_partition \<Rightarrow> i32 \<Rightarrow> 'k rows_type \<Rightarrow> nat \<Rightarrow> error + nat" where
  "count_live s mp query_time [] n = Inr n"
| "count_live s mp query_time (e # rows) n =
     and_then (dr_is_live s (re_row e) (range_tombstone_for_row (re_key e) mp) query_time) (\<lambda>live.
     count_live s mp query_time rows (if live then n + 1 else n))"

definition live_row_count :: "schema \<Rightarrow> ('k :: linorder) mutation_partition \<Rightarrow> i32 \<Rightarrow> error + nat" where
  "live_row_count s mp query_time =
     and_then (count_live s mp query_time (non_dummy_rows mp) 0) (\<lambda>n.
     if n = 0 then and_then (is_static_row_live s mp query_time) (\<lambda>live. Inr (if live then 1 else 0)) else Inr n)"

section \<open>Continuity and eviction\<close>

definition is_fully_continuous :: "'k mutation_partition \<Rightarrow> bool" where
  "is_fully_continuous mp \<longleftrightarrow> mp_static_continuous mp \<and> (\<forall>e \<in> set (mp_rows mp). continuous e)"

definition make_fully_continuous :: "'k mutation_partition \<Rightarrow> 'k mutation_partition" where
  "make_fully_continuous mp =
     mp\<lparr>mp_static_continuous := True, mp_rows := map (\<lambda>e. e\<lparr>continuous := True\<rparr>) (filter (\<lambda>e. \<not> dummy e) (mp_rows mp))\<rparr>"

text \<open>\<open>evict\<close> keeps the last entry, with its key, as a dummy.\<close>

definition mutation_partition_evict :: "'k mutation_partition \<Rightarrow> 'k mutation_partition" where
  "mutation_partition_evict mp =
     mp\<lparr>mp_rows := (if mp_rows mp = [] then []
                    else [(last (mp_rows mp))\<lparr>before_ck := False, after_ck := True, dummy := True, continuous := False,
                            re_row := dr_empty\<rparr>]),
        row_tombstones := (row_tombstones mp)\<lparr>tombstones := []\<rparr>, mp_static_continuous := False, static_row := row_empty\<rparr>"

text \<open>\<open>check_continuity\<close>: \<open>end\<close> comes after \<open>i\<close> once the range is not empty.\<close>

definition check_continuity :: "('k :: linorder) position_range \<Rightarrow> bool \<Rightarrow> 'k mutation_partition \<Rightarrow> bool" where
  "check_continuity r cont mp =
     (let rows = mp_rows mp;
          i = length (rows_before (pr_start r) rows);
          j = length (rows_before (pr_end r) rows);
          at_end = ((if j = length rows then True else continuous (rows ! j)) = cont)
      in if \<not> position_less (pr_start r) (pr_end r) then cont
         else if i \<noteq> j
         then let i = (if no_clustering_row_between (pr_start r) (re_position (rows ! i)) then i + 1 else i) in
              if \<exists>e \<in> set (take (j - i) (drop i rows)). continuous e \<noteq> cont then False
              else if j \<noteq> 0 \<and> no_clustering_row_between (re_position (rows ! (j - 1))) (pr_end r) then True
              else at_end
         else at_end)"

definition fully_continuous :: "('k :: linorder) position_range \<Rightarrow> 'k mutation_partition \<Rightarrow> bool" where
  "fully_continuous r mp = check_continuity r True mp"

definition fully_discontinuous :: "('k :: linorder) position_range \<Rightarrow> 'k mutation_partition \<Rightarrow> bool" where
  "fully_discontinuous r mp = check_continuity r False mp"

section \<open>Slices\<close>

text \<open>The constructor that copies the rows and range tombstones of some ranges.\<close>

fun copy_ranges :: "('k :: linorder) mutation_partition \<Rightarrow> 'k clustering_range list \<Rightarrow> 'k mutation_partition \<Rightarrow>
    'k mutation_partition option" where
  "copy_ranges x [] mp = Some mp"
| "copy_ranges x (r # ranges) mp = do {
     es \<leftarrow> mp_range r x;
     ns \<leftarrow> slice_range r (row_tombstones x);
     (_, _, l) \<leftarrow> rtl_apply (map snd ns) None (row_tombstones mp);
     copy_ranges x ranges (mp\<lparr>mp_rows := foldl (\<lambda>rows e. rows_insert e rows) (mp_rows mp) es, row_tombstones := l\<rparr>)
   }"

definition mp_copy_ranges :: "('k :: linorder) clustering_range list \<Rightarrow> 'k mutation_partition \<Rightarrow> 'k mutation_partition option" where
  "mp_copy_ranges ranges x = copy_ranges x ranges (x\<lparr>mp_rows := [], row_tombstones := rtl_empty\<rparr>)"

definition sliced :: "('k :: linorder) clustering_range list \<Rightarrow> 'k mutation_partition \<Rightarrow> 'k mutation_partition option" where
  "sliced ranges x = do {
     p \<leftarrow> mp_copy_ranges ranges x;
     (_, _, l) \<leftarrow> trim ranges None (row_tombstones p);
     Some (p\<lparr>row_tombstones := l\<rparr>)
   }"

section \<open>Compaction and liveness\<close>

text \<open>The markers a partition may hold: a time to live that is not negative, or the one of a dead marker.\<close>

definition marker_ok :: "row_marker \<Rightarrow> bool" where
  "marker_ok m \<longleftrightarrow> 0 \<le> sint (rm_ttl m) \<or> rm_ttl m = dead_ttl"

definition entry_live :: "schema \<Rightarrow> ('k :: linorder) mutation_partition \<Rightarrow> i32 \<Rightarrow> 'k rows_entry \<Rightarrow> bool" where
  "entry_live s mp now e \<longleftrightarrow> \<not> dummy e \<and> dr_is_live s (re_row e) (range_tombstone_for_row (re_key e) mp) now = Inr True"

definition entry_ok :: "schema \<Rightarrow> 'k rows_entry \<Rightarrow> bool" where
  "entry_ok s e \<longleftrightarrow> dr_fits s (re_row e) \<and> rt_ok (deleted_at (re_row e)) \<and> marker_ok (marker (re_row e))"

lemma tombstone_for_entry_tomb:
  "rt_tomb (tombstone_for_entry e mp) = tomb_apply (range_tombstone_for_row (re_key e) mp) (rt_tomb (deleted_at (re_row e)))"
  by (simp add: tombstone_for_entry_def rt_tomb_def rt_apply_regular_def shadowable_apply_tomb_def tomb_apply_max Let_def max.commute)

lemma compact_row_live:
  assumes "entry_ok s e"
  shows "\<exists>e'. compact_row s now gc_before can_gc row_limit mp e n =
      Inr (entry_live s mp now e \<and> n + 1 = row_limit, e', n + of_bool (entry_live s mp now e))"
    and "\<not> dummy e \<Longrightarrow> dr_is_live s (re_row e) (range_tombstone_for_row (re_key e) mp) now = Inr (entry_live s mp now e)"
proof -
  let ?t = "tombstone_for_entry e mp" and ?row = "re_row e"
  have fits: "row_fits (regular_def s) (dr_cells ?row)" "rt_ok ?t"
    using assms row_tombstone_invariant [of "deleted_at ?row" row_tombstone_none]
    by (auto simp: entry_ok_def dr_fits_def tombstone_for_entry_def)
  obtain live cells where c: "row_compact_and_expire (regular_def s) (dr_cells ?row) ?t now can_gc gc_before = Inr (live, cells)"
    and h: "has_any_live_data (regular_def s) (dr_cells ?row) (rt_tomb ?t) now = Inr live"
    using row_compact_reports_liveness [OF fits] by blast
  have m: "snd (marker_compact_and_expire can_gc (rt_tomb ?t) now gc_before (marker ?row)) = marker_is_live_at (marker ?row) (rt_tomb ?t) now"
    using assms by (intro marker_compact_reports_liveness) (simp add: entry_ok_def marker_ok_def)
  have d: "dr_is_live s ?row (range_tombstone_for_row (re_key e) mp) now = Inr (live \<or> marker_is_live_at (marker ?row) (rt_tomb ?t) now)"
    using h by (simp add: dr_is_live_def tombstone_for_entry_tomb Let_def)
  then show "\<not> dummy e \<Longrightarrow> dr_is_live s ?row (range_tombstone_for_row (re_key e) mp) now = Inr (entry_live s mp now e)"
    by (simp add: entry_live_def)
  show "\<exists>e'. compact_row s now gc_before can_gc row_limit mp e n =
      Inr (entry_live s mp now e \<and> n + 1 = row_limit, e', n + of_bool (entry_live s mp now e))"
  proof (cases "dummy e")
    case True
    then show ?thesis by (simp add: compact_row_def entry_live_def)
  next
    case False
    then have "entry_live s mp now e \<longleftrightarrow> live \<or> marker_is_live_at (marker ?row) (rt_tomb ?t) now"
      using d by (simp add: entry_live_def)
    then show ?thesis
      using False c m by (auto simp: compact_row_def Let_def split: prod.splits)
  qed
qed

lemma trim_walk_count:
  assumes "\<forall>e \<in> set rows. entry_ok s e" "n < row_limit"
  shows "\<exists>stop kept' todo. trim_walk (compact_row s now gc_before can_gc row_limit mp) (\<lambda>_. True) kept rows n =
      Inr (stop, kept', todo, min row_limit (n + length (filter (entry_live s mp now) rows)))"
  using assms
proof (induction rows arbitrary: kept n)
  case (Cons e rows)
  let ?live = "entry_live s mp now e"
  obtain e' where e': "compact_row s now gc_before can_gc row_limit mp e n = Inr (?live \<and> n + 1 = row_limit, e', n + of_bool ?live)"
    using compact_row_live(1) Cons.prems(1) by (metis list.set_intros(1))
  show ?case
  proof (cases "?live \<and> n + 1 = row_limit")
    case True
    then show ?thesis using e' by (auto simp: Let_def)
  next
    case False
    then have "n + of_bool ?live < row_limit" using Cons.prems(2) by (cases ?live) auto
    from Cons.IH [OF _ this] Cons.prems(1) False e' show ?thesis by (cases ?live) (auto simp: Let_def)
  qed
qed auto

lemma count_live_eq:
  assumes "\<forall>e \<in> set rows. entry_ok s e \<and> \<not> dummy e"
  shows "count_live s mp now rows n = Inr (n + length (filter (entry_live s mp now) rows))"
  using assms
proof (induction rows arbitrary: n)
  case (Cons e rows)
  have "dr_is_live s (re_row e) (range_tombstone_for_row (re_key e) mp) now = Inr (entry_live s mp now e)"
    using compact_row_live(2) Cons.prems by (metis list.set_intros(1))
  then show ?case using Cons by simp
qed simp

text \<open>C24. Compacting for a query over all rows, forwards or backwards, agrees with the count of live rows:
  for a well-formed partition \<open>compact_for_query\<close> neither fails nor asserts, and the number of rows it
  returns is \<open>live_row_count\<close> at the same time, cut at the limit; a partition without live rows but with a
  live static row counts as one.\<close>

theorem compaction_counts_live_rows:
  assumes "mp_fits s mp" "\<forall>e \<in> set (mp_rows mp). rt_ok (deleted_at (re_row e)) \<and> marker_ok (marker (re_row e))" "0 < row_limit"
  shows "\<exists>n mp' c. mp_compact_for_query s now [full_range] rv row_limit mp = Inr (n, mp') \<and>
    live_row_count s mp now = Inr c \<and> n = min row_limit c"
proof -
  let ?gc = "saturating_subtract now (gc_grace_seconds s)" and ?rows = "if rv then rev (mp_rows mp) else mp_rows mp"
  let ?live = "entry_live s mp now" and ?t = "row_tombstone_of (mp_tombstone mp)"
  have es: "\<forall>e \<in> set (mp_rows mp). entry_ok s e"
    using assms(1,2) by (auto simp: mp_fits_def rows_fit_def entry_ok_def)
  have st: "row_fits (static_def s) (static_row mp)" using assms(1) by (simp add: mp_fits_def)
  obtain slive st' where c: "row_compact_and_expire (static_def s) (static_row mp) ?t now (\<lambda>_. True) ?gc = Inr (slive, st')"
    and h: "is_static_row_live s mp now = Inr slive"
    using row_compact_reports_liveness [OF st rt_ok_none(2)]
    by (auto simp: is_static_row_live_def rt_tomb_def row_tombstone_of_def) blast
  let ?k = "length (filter ?live (mp_rows mp))"
  have "\<forall>e \<in> set ?rows. entry_ok s e" using es by simp
  from trim_walk_count [OF this assms(3), of now ?gc "\<lambda>_. True" mp "[]"] obtain stop kept todo where
    w: "trim_walk (compact_row s now ?gc (\<lambda>_. True) row_limit mp) (\<lambda>_. True) [] ?rows 0 =
      Inr (stop, kept, todo, min row_limit (length (filter ?live ?rows)))" by auto
  have k: "length (filter ?live ?rows) = ?k" by (simp flip: rev_filter)
  have all: "rows_upper full_range = (\<lambda>_. True)" "rows_lower full_range = (\<lambda>_. False)"
    by (simp_all add: fun_eq_iff rows_upper_def rows_lower_def full_range_def)
  have "trim_rows (compact_row s now ?gc (\<lambda>_. True) row_limit mp) rv [full_range] (mp_rows mp) =
      Inr (if rv then rev kept else kept, min row_limit ?k)"
    using w k by (cases rv) (simp_all add: trim_rows_def all Let_def dropWhile_eq_self_iff)
  then have compact: "\<exists>mp'. mp_compact_for_query s now [full_range] rv row_limit mp =
      Inr (if min row_limit ?k = 0 \<and> slive then 1 else min row_limit ?k, mp')"
    using c assms(3) by (simp add: mp_compact_for_query_def do_compact_def Let_def has_ck_selector_def range_is_full_def full_range_def)
  have "filter ?live (non_dummy_rows mp) = filter ?live (mp_rows mp)"
    unfolding non_dummy_rows_def filter_filter by (rule filter_cong) (auto simp: entry_live_def)
  then have "count_live s mp now (non_dummy_rows mp) 0 = Inr ?k"
    using count_live_eq [of "non_dummy_rows mp" s mp now 0] es by (simp add: non_dummy_rows_def)
  then have "live_row_count s mp now = Inr (if ?k = 0 then of_bool slive else ?k)"
    using h by (simp add: live_row_count_def of_bool_def)
  then show ?thesis using compact assms(3) by auto
qed

theorem compaction_counts_live_rows_witness:
  "\<exists>n mp' c. mp_compact_for_query example_schema 100 [full_range] True 1 (example_mp 3) = Inr (n, mp') \<and>
    live_row_count example_schema (example_mp 3) 100 = Inr c \<and> n = min 1 c"
proof (rule compaction_counts_live_rows [OF example_mp_fits])
  show "\<forall>e \<in> set (mp_rows (example_mp 3)). rt_ok (deleted_at (re_row e)) \<and> marker_ok (marker (re_row e))"
    by (simp add: example_mp_def mutation_partition_new_def rows_entry_row_def marker_ok_def row_marker_at_def no_ttl_def)
qed simp

end
