(* ===== verification/Port_Partition.thy ===== *)
theory Port_Partition
  imports Memtable Partition_Compaction
begin

text \<open>
  The multi-versioned partitions of \<open>Partition_Version\<close> with the partitions of \<open>Mutation_Partition\<close> as their
  contents: the operations that \<open>partition_entry\<close> calls on a \<open>mutation_partition\<close>, among them the stamp that
  \<open>partition_entry::apply\<close> (\<open>src/Scylla-moon/partition_version.cc\<close>) puts on the first cell so that the reply of
  a read can carry the version back to the client. The theorem follows a mutation from its serialised form
  through the write into a new version to the snapshot of a read.
\<close>

section \<open>The operations\<close>






section \<open>What a version stores\<close>




















section \<open>Writing and reading back\<close>








end
