(* ===== verification/Query_Reader.thy ===== *)
theory Query_Reader
  imports Partition_Compaction
begin

text \<open>
  The stream of mutation fragments a replica reads from a snapshot of a partition:
  \<open>partition_snapshot_flat_reader\<close> (\<open>src/Scylla-moon/partition_snapshot_reader.hh\<close>), the stream of range
  tombstones it draws on (\<open>streamed_mutation.cc\<close>) and the two summaries it takes from all versions
  (\<open>partition_version.cc\<close>); and the compaction of such a stream, \<open>compact_mutation\<close>
  (\<open>mutation_compactor.hh\<close>), with the adapter that feeds it (\<open>flat_mutation_reader.hh\<close>).

  The reader looks at the rows and range tombstones of the first version only, so the heap of row positions
  has at most one element, which is modelled as the rows it has left. A version of a snapshot does not change
  while it is read (\<open>Mvcc_Properties\<close>), so the rows are taken once for every range. Fragments go through a
  buffer in order; the buffer is left out. Undefined iterator ranges are the error \<open>Assertion_failed\<close>; row
  counts and limits are natural numbers.
\<close>

section \<open>Fragments\<close>

datatype ('p, 'k) fragment =
    Start_fragment 'p tombstone
  | Static_fragment row
  | Row_fragment "'k clustering_key_prefix" deletable_row
  | Range_fragment "'k range_tombstone"
  | End_fragment

definition or_fail :: "'a option \<Rightarrow> error + 'a" where
  "or_fail x = (case x of None \<Rightarrow> Inl Assertion_failed | Some y \<Rightarrow> Inr y)"

lemma or_fail_simps [simp]: "or_fail None = Inl Assertion_failed" "or_fail (Some x) = Inr x"
  by (simp_all add: or_fail_def)

section \<open>What the versions of a snapshot add up to\<close>

definition snapshot_partition_tombstone :: "'k mutation_partition \<Rightarrow> 'k mutation_partition list \<Rightarrow> tombstone" where
  "snapshot_partition_tombstone v older = foldl (\<lambda>t mp. tomb_apply t (mp_tombstone mp)) (mp_tombstone v) older"

definition snapshot_static_row :: "schema \<Rightarrow> 'k mutation_partition \<Rightarrow> 'k mutation_partition list \<Rightarrow> error + row" where
  "snapshot_static_row s v older =
     foldl (\<lambda>r mp. and_then r (\<lambda>r. row_apply (cells_inline s) (mutable_views s) (static_def s) r (static_row mp)))
       (Inr (static_row v)) older"

section \<open>The stream of range tombstones\<close>

definition stream_get_next :: "('k :: linorder) position_in_partition \<Rightarrow> 'k range_tombstone_list \<Rightarrow>
    'k range_tombstone option \<times> 'k range_tombstone_list" where
  "stream_get_next upper_bound l =
     (case tombstones l of
        [] \<Rightarrow> (None, l)
      | n # ns \<Rightarrow> if position_less (rt_position (snd n)) upper_bound then (Some (snd n), l\<lparr>tombstones := ns\<rparr>) else (None, l))"

definition stream_apply :: "('k :: linorder) range_tombstone_list \<Rightarrow> 'k clustering_range \<Rightarrow> 'k range_tombstone_list \<Rightarrow>
    'k range_tombstone_list option" where
  "stream_apply list r l = do {
     ns \<leftarrow> slice_range r list;
     (fine, _, l) \<leftarrow> rtl_apply (map snd ns) None l;
     Some l
   }"

section \<open>The reader of a snapshot\<close>

record 'k reader =
  clustering_rows :: "'k rows_type"
  next_row_of :: "('k clustering_key_prefix \<times> deletable_row) option"
  no_more_rows_in_range :: bool
  tombstone_stream :: "'k range_tombstone_list"

text \<open>\<open>next_row\<close>: dummies are skipped, entries at the position of the row are applied to it.\<close>

fun apply_equal_rows :: "schema \<Rightarrow> 'k clustering_key_prefix \<Rightarrow> deletable_row \<Rightarrow> 'k rows_type \<Rightarrow>
    error + (deletable_row \<times> 'k rows_type)" where
  "apply_equal_rows s key dr [] = Inr (dr, [])"
| "apply_equal_rows s key dr (e # rows) =
     (if position_equal (re_position e) (for_key key)
      then and_then (dr_apply s dr (re_row e)) (\<lambda>dr. apply_equal_rows s key dr rows)
      else Inr (dr, e # rows))"

fun reader_next_row :: "schema \<Rightarrow> 'k rows_type \<Rightarrow>
    error + (('k clustering_key_prefix \<times> deletable_row) option \<times> 'k rows_type)" where
  "reader_next_row s [] = Inr (None, [])"
| "reader_next_row s (e # rows) =
     (if dummy e then reader_next_row s rows
      else and_then (apply_equal_rows s (re_key e) (re_row e) rows) (\<lambda>(dr, rows). Inr (Some (re_key e, dr), rows)))"

definition read_next :: "schema \<Rightarrow> ('k :: linorder) clustering_range \<Rightarrow> 'k reader \<Rightarrow>
    error + (('p, 'k) fragment option \<times> 'k reader)" where
  "read_next s ck_range rd =
     and_then
       (if next_row_of rd = None \<and> \<not> no_more_rows_in_range rd
        then and_then (reader_next_row s (clustering_rows rd)) (\<lambda>(r, rows).
             Inr (rd\<lparr>next_row_of := r, clustering_rows := rows\<rparr>))
        else Inr rd)
       (\<lambda>rd. Inr (case next_row_of rd of
          Some (key, dr) \<Rightarrow>
            (case stream_get_next (for_key key) (tombstone_stream rd) of
               (Some rt, l) \<Rightarrow> (Some (Range_fragment rt), rd\<lparr>tombstone_stream := l\<rparr>)
             | (None, l) \<Rightarrow> (Some (Row_fragment key dr), rd\<lparr>next_row_of := None\<rparr>))
        | None \<Rightarrow>
            let (rt, l) = stream_get_next (for_range_end ck_range) (tombstone_stream rd)
            in (map_option Range_fragment rt, rd\<lparr>no_more_rows_in_range := True, tombstone_stream := l\<rparr>)))"

text \<open>\<open>do_fill_buffer\<close> within one range. The bound on the rounds, one for every row and every range tombstone
  that is left and one to find the end, is never exhausted (\<open>fill_range_weave\<close> in \<open>Query_Properties\<close>); the
  error it would give is one no reader raises.\<close>

fun fill_range :: "schema \<Rightarrow> ('k :: linorder) clustering_range \<Rightarrow> nat \<Rightarrow> 'k reader \<Rightarrow>
    error + (('p, 'k) fragment list \<times> 'k range_tombstone_list)" where
  "fill_range s ck_range 0 rd = Inl Out_of_range"
| "fill_range s ck_range (Suc n) rd =
     and_then (read_next s ck_range rd) (\<lambda>(mf, rd).
     case mf of
       None \<Rightarrow> Inr ([], tombstone_stream rd)
     | Some mf \<Rightarrow> and_then (fill_range s ck_range n rd) (\<lambda>(mfs, l). Inr (mf # mfs, l)))"

definition read_range :: "schema \<Rightarrow> ('k :: linorder) mutation_partition \<Rightarrow> 'k clustering_range \<Rightarrow> 'k range_tombstone_list \<Rightarrow>
    error + (('p, 'k) fragment list \<times> 'k range_tombstone_list)" where
  "read_range s v ck_range l =
     and_then (or_fail (stream_apply (row_tombstones v) ck_range l)) (\<lambda>l.
     and_then (or_fail (mp_range ck_range v)) (\<lambda>rows.
     fill_range s ck_range (length rows + length (tombstones l) + 1)
       \<lparr>clustering_rows = rows, next_row_of = None, no_more_rows_in_range = False, tombstone_stream = l\<rparr>))"

fun read_ranges :: "schema \<Rightarrow> ('k :: linorder) mutation_partition \<Rightarrow> 'k clustering_range list \<Rightarrow> 'k range_tombstone_list \<Rightarrow>
    error + ('p, 'k) fragment list" where
  "read_ranges s v [] l = Inr [End_fragment]"
| "read_ranges s v (r # rs) l =
     and_then (read_range s v r l) (\<lambda>(mfs, l).
     and_then (read_ranges s v rs l) (\<lambda>rest. Inr (mfs @ rest)))"

definition snapshot_flat_reader :: "schema \<Rightarrow> 'p \<Rightarrow> ('k :: linorder) clustering_range list \<Rightarrow> 'k mutation_partition \<Rightarrow>
    'k mutation_partition list \<Rightarrow> error + ('p, 'k) fragment list" where
  "snapshot_flat_reader s dk ranges v older =
     and_then (snapshot_static_row s v older) (\<lambda>sr.
     and_then (read_ranges s v ranges rtl_empty) (\<lambda>mfs.
     Inr (Start_fragment dk (snapshot_partition_tombstone v older) #
          (if row_size sr = 0 then [] else [Static_fragment sr]) @ mfs)))"

section \<open>Compaction of a stream\<close>

text \<open>The consumer of the compacted stream is a template parameter of \<open>compact_mutation\<close>; its methods return
  whether to stop.\<close>

record ('p, 'k, 'c) consumer =
  consume_new_partition :: "'p \<Rightarrow> 'c \<Rightarrow> 'c"
  consume_tombstone :: "tombstone \<Rightarrow> 'c \<Rightarrow> 'c"
  consume_static_row :: "row \<Rightarrow> tombstone \<Rightarrow> bool \<Rightarrow> 'c \<Rightarrow> error + (bool \<times> 'c)"
  consume_clustering_row :: "'k clustering_key_prefix \<Rightarrow> deletable_row \<Rightarrow> row_tombstone \<Rightarrow> bool \<Rightarrow> 'c \<Rightarrow> error + (bool \<times> 'c)"
  consume_range_tombstone :: "'k range_tombstone \<Rightarrow> 'c \<Rightarrow> bool \<times> 'c"
  consume_end_of_partition :: "'c \<Rightarrow> error + (bool \<times> 'c)"

text \<open>The constant members: the two template flags, the times, \<open>_get_max_purgeable\<close>, the ranges and row limit
  of the slice.\<close>

record ('p, 'k) compaction =
  only_live :: bool
  sstable_compaction :: bool
  query_time :: i32
  gc_before :: i32
  get_max_purgeable :: "'p \<Rightarrow> i64"
  ranges_for :: "'p \<Rightarrow> 'k clustering_range list"
  partition_row_limit :: nat

record ('p, 'k, 'c) compactor =
  row_limit :: nat
  partition_limit :: nat
  the_consumer :: 'c
  cm_tombstones :: "'k accumulator"
  static_row_live :: bool
  rows_in_current_partition :: nat
  current_partition_limit :: nat
  empty_partition :: bool
  current_dk :: "'p option"
  cm_has_ck_selector :: bool

definition cm_can_gc :: "('p, 'k) compaction \<Rightarrow> 'p option \<Rightarrow> tombstone \<Rightarrow> bool" where
  "cm_can_gc cf dk t \<longleftrightarrow>
     \<not> sstable_compaction cf \<or>
     (tomb_present t \<and> (case dk of None \<Rightarrow> False | Some dk \<Rightarrow> sint (timestamp t) < sint (get_max_purgeable cf dk)))"

definition can_purge_tombstone :: "('p, 'k) compaction \<Rightarrow> 'p option \<Rightarrow> tombstone \<Rightarrow> bool" where
  "can_purge_tombstone cf dk t \<longleftrightarrow> sint (deletion_time t) < sint (gc_before cf) \<and> cm_can_gc cf dk t"

definition can_purge_row_tombstone :: "('p, 'k) compaction \<Rightarrow> 'p option \<Rightarrow> row_tombstone \<Rightarrow> bool" where
  "can_purge_row_tombstone cf dk t \<longleftrightarrow> sint (rt_max_deletion_time t) < sint (gc_before cf) \<and> cm_can_gc cf dk (rt_tomb t)"

definition partition_is_not_empty :: "('p, 'k, 'c) consumer \<Rightarrow> ('p, 'k) compaction \<Rightarrow> ('p, 'k, 'c) compactor \<Rightarrow>
    ('p, 'k, 'c) compactor" where
  "partition_is_not_empty cns cf cm =
     (case current_dk cm of
        None \<Rightarrow> cm
      | Some dk \<Rightarrow>
          if empty_partition cm
          then let c = consume_new_partition cns dk (the_consumer cm);
                   pt = partition_tombstone (cm_tombstones cm);
                   c = (if tomb_present pt \<and> \<not> can_purge_tombstone cf (Some dk) pt then consume_tombstone cns pt c else c)
               in cm\<lparr>empty_partition := False, the_consumer := c\<rparr>
          else cm)"

definition cm_new_partition :: "('p, 'k) compaction \<Rightarrow> 'p \<Rightarrow> ('p, 'k, 'c) compactor \<Rightarrow> ('p, 'k, 'c) compactor" where
  "cm_new_partition cf dk cm =
     cm\<lparr>current_dk := Some dk, cm_has_ck_selector := has_ck_selector (ranges_for cf dk), empty_partition := True,
        rows_in_current_partition := 0, static_row_live := False, cm_tombstones := accumulator_clear (cm_tombstones cm),
        current_partition_limit := min (row_limit cm) (partition_row_limit cf)\<rparr>"

definition cm_consume_tombstone :: "('p, 'k, 'c) consumer \<Rightarrow> ('p, 'k) compaction \<Rightarrow> tombstone \<Rightarrow> ('p, 'k, 'c) compactor \<Rightarrow>
    ('p, 'k, 'c) compactor" where
  "cm_consume_tombstone cns cf t cm =
     (let cm = cm\<lparr>cm_tombstones := set_partition_tombstone t (cm_tombstones cm)\<rparr> in
      if \<not> only_live cf \<and> \<not> can_purge_tombstone cf (current_dk cm) t then partition_is_not_empty cns cf cm else cm)"

definition cm_consume_static_row :: "schema \<Rightarrow> ('p, 'k, 'c) consumer \<Rightarrow> ('p, 'k) compaction \<Rightarrow> row \<Rightarrow> ('p, 'k, 'c) compactor \<Rightarrow>
    error + (bool \<times> ('p, 'k, 'c) compactor)" where
  "cm_consume_static_row s cns cf sr cm =
     (let t = partition_tombstone (cm_tombstones cm) in
      and_then (row_compact_and_expire (static_def s) sr (row_tombstone_of t) (query_time cf)
        (cm_can_gc cf (current_dk cm)) (gc_before cf)) (\<lambda>(is_live, sr).
      let cm = cm\<lparr>static_row_live := is_live\<rparr> in
      if is_live \<or> (\<not> only_live cf \<and> row_size sr \<noteq> 0)
      then let cm = partition_is_not_empty cns cf cm in
           and_then (consume_static_row cns sr t is_live (the_consumer cm)) (\<lambda>(stop, c).
           Inr (stop, cm\<lparr>the_consumer := c\<rparr>))
      else Inr (False, cm)))"

definition cm_consume_row :: "schema \<Rightarrow> ('p, 'k, 'c) consumer \<Rightarrow> ('p, 'k :: linorder) compaction \<Rightarrow>
    'k clustering_key_prefix \<Rightarrow> deletable_row \<Rightarrow> ('p, 'k, 'c) compactor \<Rightarrow> error + (bool \<times> ('p, 'k, 'c) compactor)" where
  "cm_consume_row s cns cf key cr cm =
     (let (current, acc) = tombstone_for_row key (cm_tombstones cm);
          cm = cm\<lparr>cm_tombstones := acc\<rparr>;
          can_gc = cm_can_gc cf (current_dk cm);
          t = deleted_at cr;
          cr = (if rt_tomb t \<le> current \<or> can_purge_row_tombstone cf (current_dk cm) t then dr_remove_tombstone cr else cr);
          t = rt_apply_regular t current;
          (m, marker_live) = marker_compact_and_expire can_gc (rt_tomb t) (query_time cf) (gc_before cf) (marker cr)
      in and_then (row_compact_and_expire (regular_def s) (dr_cells cr) t (query_time cf) can_gc (gc_before cf)) (\<lambda>(cells_live, cells).
         let is_live = (marker_live \<or> cells_live);
             cr = cr\<lparr>marker := m, dr_cells := cells\<rparr>
         in if only_live cf
            then if is_live
                 then let cm = partition_is_not_empty cns cf cm in
                      and_then (consume_clustering_row cns key cr t True (the_consumer cm)) (\<lambda>(stop, c).
                      let n = rows_in_current_partition cm + 1;
                          cm = cm\<lparr>the_consumer := c, rows_in_current_partition := n\<rparr>
                      in Inr (if n = current_partition_limit cm then True else stop, cm))
                 else Inr (False, cm)
            else and_then
                   (if dr_is_empty cr then Inr (False, cm)
                    else let cm = partition_is_not_empty cns cf cm in
                         and_then (consume_clustering_row cns key cr t is_live (the_consumer cm)) (\<lambda>(stop, c).
                         Inr (stop, cm\<lparr>the_consumer := c\<rparr>)))
                   (\<lambda>(stop, cm).
                    if \<not> sstable_compaction cf \<and> is_live
                    then let n = rows_in_current_partition cm + 1; cm = cm\<lparr>rows_in_current_partition := n\<rparr>
                         in Inr (if n = current_partition_limit cm then True else stop, cm)
                    else Inr (stop, cm))))"

definition cm_consume_range_tombstone :: "('p, 'k, 'c) consumer \<Rightarrow> ('p, 'k :: linorder) compaction \<Rightarrow> 'k range_tombstone \<Rightarrow>
    ('p, 'k, 'c) compactor \<Rightarrow> bool \<times> ('p, 'k, 'c) compactor" where
  "cm_consume_range_tombstone cns cf rt cm =
     (let cm = cm\<lparr>cm_tombstones := accumulator_apply rt (cm_tombstones cm)\<rparr> in
      if \<not> can_purge_tombstone cf (current_dk cm) (tomb_of rt) \<and> tomb_of rt > partition_tombstone (cm_tombstones cm)
      then let cm = partition_is_not_empty cns cf cm;
               (stop, c) = consume_range_tombstone cns rt (the_consumer cm)
           in (stop, cm\<lparr>the_consumer := c\<rparr>)
      else (False, cm))"

definition cm_end_of_partition :: "('p, 'k, 'c) consumer \<Rightarrow> ('p, 'k) compaction \<Rightarrow> ('p, 'k, 'c) compactor \<Rightarrow>
    error + (bool \<times> ('p, 'k, 'c) compactor)" where
  "cm_end_of_partition cns cf cm =
     (if empty_partition cm then Inr (False, cm)
      else let n = (if rows_in_current_partition cm = 0 \<and> static_row_live cm \<and> \<not> cm_has_ck_selector cm
                    then rows_in_current_partition cm + 1 else rows_in_current_partition cm);
               cm = cm\<lparr>rows_in_current_partition := n, row_limit := row_limit cm - n,
                       partition_limit := partition_limit cm - of_bool (n > 0)\<rparr>
           in and_then (consume_end_of_partition cns (the_consumer cm)) (\<lambda>(stop, c).
              let cm = cm\<lparr>the_consumer := c\<rparr> in
              Inr (if sstable_compaction cf then False
                   else \<not> (row_limit cm \<noteq> 0 \<and> partition_limit cm \<noteq> 0 \<and> \<not> stop), cm)))"

section \<open>Feeding the compaction\<close>

text \<open>\<open>consumer_adapter\<close> and \<open>consume\<close>: when the consumer stops inside a partition, the partition is ended and
  the reader moves to the next one.\<close>

definition next_partition :: "('p, 'k) fragment list \<Rightarrow> ('p, 'k) fragment list" where
  "next_partition mfs = dropWhile (\<lambda>mf. case mf of Start_fragment _ _ \<Rightarrow> False | _ \<Rightarrow> True) mfs"

definition consume_fragment :: "schema \<Rightarrow> ('p, 'k, 'c) consumer \<Rightarrow> ('p, 'k :: linorder) compaction \<Rightarrow> ('p, 'k) fragment \<Rightarrow>
    ('p, 'k, 'c) compactor \<Rightarrow> error + (bool \<times> ('p, 'k, 'c) compactor)" where
  "consume_fragment s cns cf mf cm =
     (case mf of
        Static_fragment sr \<Rightarrow> cm_consume_static_row s cns cf sr cm
      | Row_fragment key cr \<Rightarrow> cm_consume_row s cns cf key cr cm
      | Range_fragment rt \<Rightarrow> Inr (cm_consume_range_tombstone cns cf rt cm)
      | Start_fragment dk t \<Rightarrow>
          let cm = cm_new_partition cf dk cm in
          Inr (False, if tomb_present t then cm_consume_tombstone cns cf t cm else cm)
      | End_fragment \<Rightarrow> cm_end_of_partition cns cf cm)"

function consume_stream :: "schema \<Rightarrow> ('p, 'k, 'c) consumer \<Rightarrow> ('p, 'k :: linorder) compaction \<Rightarrow>
    ('p, 'k) fragment list \<Rightarrow> ('p, 'k, 'c) compactor \<Rightarrow> error + ('p, 'k, 'c) compactor" where
  "consume_stream s cns cf [] cm = Inr cm"
| "consume_stream s cns cf (mf # mfs) cm =
     (case consume_fragment s cns cf mf cm of
        Inl err \<Rightarrow> Inl err
      | Inr (stop, cm) \<Rightarrow>
          if \<not> stop then consume_stream s cns cf mfs cm
          else case mf of
                 End_fragment \<Rightarrow> Inr cm
               | _ \<Rightarrow> (case cm_end_of_partition cns cf cm of
                         Inl err \<Rightarrow> Inl err
                       | Inr (stop, cm) \<Rightarrow> if stop then Inr cm else consume_stream s cns cf (next_partition mfs) cm))"
  by pat_completeness auto
termination
  by (relation "measure (\<lambda>(s, cns, cf, mfs, cm). length mfs)")
    (auto simp: next_partition_def less_Suc_eq_le length_dropWhile_le)

end
