(* ===== verification/Query.thy ===== *)
theory Query
  imports Query_Reader
begin

text \<open>
  The result of a data query on a replica: how the cells of compacted rows are written
  (\<open>write_cell\<close>, \<open>write_counter_cell\<close>, \<open>get_compacted_row_slice\<close>, \<open>mutation_querier\<close>,
  \<open>query_result_builder\<close>, \<open>query_compacted\<close> and \<open>data_query\<close> in
  \<open>src/Scylla-moon/mutation_partition.cc\<close>), the values of collections (\<open>types.cc\<close>), and the writer of a
  partition (\<open>query-result-writer.hh\<close>).

  The serializers of the result are generated by the build, so a written object is the value that was
  written. The digest is the sequence of the objects fed to the hasher. The memory accounter compares sizes
  of serialized data with limits of the shard: its answers, in the order of the calls, are the argument
  \<open>qe_full\<close>. Queries run forwards.
\<close>

section \<open>Requests and results\<close>

datatype result_request = Only_result | Only_digest | Result_and_digest

datatype collection_kind = Map_type | Set_type | List_type

record ('p, 'k) partition_slice =
  send_clustering_key :: bool
  send_partition_key :: bool
  send_timestamp :: bool
  send_expiry :: bool
  send_ttl :: bool
  distinct_option :: bool
  collections_as_maps :: bool
  allow_short_read :: bool
  row_ranges :: "'p \<Rightarrow> 'k clustering_range list"
  static_columns :: "column_id list"
  regular_columns :: "column_id list"
  using_32_bits_for_collections :: bool
  slice_row_limit :: nat

record qr_cell =
  qr_timestamp :: "i64 option"
  qr_expiry :: "i32 option"
  qr_value :: bytes
  qr_most_recent_version :: u32
  qr_ttl :: "i32 option"

record 'k qr_row =
  qr_key :: "'k clustering_key_prefix option"
  qr_cells :: "qr_cell option list"

record ('p, 'k) qr_partition =
  qr_partition_key :: "'p option"
  qr_static_cells :: "qr_cell option list"
  qr_rows :: "'k qr_row list"

datatype ('p, 'k) hashed =
    Hash_partition_key 'p
  | Hash_key "'k clustering_key_prefix"
  | Hash_tombstone tombstone
  | Hash_row_tombstone row_tombstone
  | Hash_column column_id
  | Hash_cell column_type bytes

text \<open>What a query is about: the schema with the kinds of its collections, the slice, the request, and the
  accounter.\<close>

record ('p, 'k) query_env =
  qe_schema :: schema
  qe_static_kind :: "column_id \<Rightarrow> collection_kind"
  qe_regular_kind :: "column_id \<Rightarrow> collection_kind"
  qe_slice :: "('p, 'k) partition_slice"
  qe_request :: result_request
  qe_full :: "nat \<Rightarrow> bool"

definition requested_digest :: "result_request \<Rightarrow> bool" where
  "requested_digest r \<longleftrightarrow> r \<noteq> Only_result"

definition requested_result :: "result_request \<Rightarrow> bool" where
  "requested_result r \<longleftrightarrow> r \<noteq> Only_digest"

section \<open>Values of collections\<close>

definition write_collection_size :: "bool \<Rightarrow> nat \<Rightarrow> bytes" where
  "write_collection_size wide n = (if wide then hton 4 (of_nat n :: i32) else hton 2 (of_nat n :: 16 word))"

definition write_collection_value :: "bool \<Rightarrow> bytes \<Rightarrow> bytes" where
  "write_collection_value wide v = write_collection_size wide (length v) @ v"

definition pack_collection :: "bool \<Rightarrow> bytes list \<Rightarrow> nat \<Rightarrow> bytes" where
  "pack_collection wide vs elements = write_collection_size wide elements @ concat (map (write_collection_value wide) vs)"

definition to_value :: "collection_kind \<Rightarrow> bool \<Rightarrow> coll_mutation \<Rightarrow> bytes" where
  "to_value kind wide m =
     (let live = filter (\<lambda>e. cell_is_live_under (snd e) (coll_tomb m) False) (coll_cells m) in
      case kind of
        Map_type \<Rightarrow>
          let tmp = concat (map (\<lambda>e. [fst e, do_get_value (snd e)]) live) in pack_collection wide tmp (length tmp div 2)
      | Set_type \<Rightarrow> pack_collection wide (map fst live) (length live)
      | List_type \<Rightarrow> pack_collection wide (map (\<lambda>e. do_get_value (snd e)) live) (length live))"

section \<open>Writing cells\<close>

definition write_cell :: "('p, 'k) partition_slice \<Rightarrow> bytes \<Rightarrow> u32 \<Rightarrow> qr_cell" where
  "write_cell sl c version =
     \<lparr>qr_timestamp = (if send_timestamp sl then Some (cell_timestamp c) else None),
      qr_expiry = (if send_expiry sl \<and> is_live_and_has_ttl c then Some (cell_expiry c) else None),
      qr_value = do_get_value c,
      qr_most_recent_version = version,
      qr_ttl = (if send_ttl sl \<and> is_live_and_has_ttl c then Some (cell_ttl c) else None)\<rparr>"

definition write_collection_cell :: "('p, 'k) partition_slice \<Rightarrow> collection_kind \<Rightarrow> bytes \<Rightarrow> error + qr_cell" where
  "write_collection_cell sl kind v =
     (let kind = (if collections_as_maps sl then Map_type else kind) in
      and_then (deserialize_mutation_form v) (\<lambda>m.
      Inr \<lparr>qr_timestamp = None, qr_expiry = None, qr_value = to_value kind (using_32_bits_for_collections sl) m,
           qr_most_recent_version = 0, qr_ttl = None\<rparr>))"

definition write_counter_cell :: "('p, 'k) partition_slice \<Rightarrow> bytes \<Rightarrow> qr_cell" where
  "write_counter_cell sl c =
     \<lparr>qr_timestamp = (if send_timestamp sl then Some (cell_timestamp c) else None), qr_expiry = None,
      qr_value = hton 8 (total_value c), qr_most_recent_version = 0, qr_ttl = None\<rparr>"

fun hash_row_slice :: "row_schema \<Rightarrow> row \<Rightarrow> column_id list \<Rightarrow> i64 \<Rightarrow> error + (('p, 'k) hashed list \<times> i64)" where
  "hash_row_slice s cells [] mx = Inr ([], mx)"
| "hash_row_slice s cells (i # ids) mx =
     (case find_cell cells i of
        None \<Rightarrow> hash_row_slice s cells ids mx
      | Some c \<Rightarrow>
          and_then
            (case s i of
               Collection_column lt eq \<Rightarrow> coll_last_update (cell_data c)
             | _ \<Rightarrow> Inr (cell_timestamp (cell_data c)))
            (\<lambda>t. and_then (hash_row_slice s cells ids (if sint mx < sint t then t else mx)) (\<lambda>(hs, mx).
             Inr (Hash_column i # Hash_cell (s i) (cell_data c) # hs, mx))))"

definition compacted_cell :: "('p, 'k) partition_slice \<Rightarrow> column_type \<Rightarrow> collection_kind \<Rightarrow> cell \<Rightarrow> error + qr_cell option" where
  "compacted_cell sl def kind c =
     (case def of
        Collection_column lt eq \<Rightarrow>
          and_then (coll_is_any_live (cell_data c) tombstone_none gc_min) (\<lambda>live.
          if \<not> live then Inr None else map_sum id Some (write_collection_cell sl kind (cell_data c)))
      | Counter_column \<Rightarrow> Inr (if \<not> cell_is_live (cell_data c) then None else Some (write_counter_cell sl (cell_data c)))
      | Atomic_column \<Rightarrow>
          Inr (if \<not> cell_is_live (cell_data c) then None
               else Some (write_cell sl (cell_data c) (most_recent_version c))))"

fun get_compacted_row_slice :: "row_schema \<Rightarrow> (column_id \<Rightarrow> collection_kind) \<Rightarrow> ('p, 'k) partition_slice \<Rightarrow> row \<Rightarrow>
    column_id list \<Rightarrow> error + qr_cell option list" where
  "get_compacted_row_slice s kinds sl cells [] = Inr []"
| "get_compacted_row_slice s kinds sl cells (i # ids) =
     and_then (case find_cell cells i of None \<Rightarrow> Inr None | Some c \<Rightarrow> compacted_cell sl (s i) (kinds i) c) (\<lambda>w.
     and_then (get_compacted_row_slice s kinds sl cells ids) (\<lambda>ws. Inr (w # ws)))"

section \<open>The result builder\<close>

text \<open>The members of \<open>result::builder\<close>, of the current \<open>partition_writer\<close>, of \<open>mutation_querier\<close> and of
  \<open>query_result_builder\<close>; \<open>rows_wr\<close> is the list of the rows written once the static row is closed, and
  \<open>checks\<close> counts the questions to the accounter.\<close>

record ('p, 'k) result_builder =
  partitions :: "('p, 'k) qr_partition list"
  digest :: "('p, 'k) hashed list"
  row_count :: nat
  partition_count :: nat
  last_modified :: i64
  short_read :: bool
  checks :: nat
  pw_key :: "'p option"
  pw_ranges :: "'k clustering_range list"
  digest_pos :: "('p, 'k) hashed list"
  static_cells_wr :: "qr_cell option list"
  rows_wr :: "'k qr_row list option"
  live_data_in_static_row :: bool
  live_clustering_rows :: nat
  qrb_stop :: bool

definition result_builder_empty :: "('p, 'k) result_builder" where
  "result_builder_empty =
     \<lparr>partitions = [], digest = [], row_count = 0, partition_count = 0, last_modified = missing_timestamp,
      short_read = False, checks = 0, pw_key = None, pw_ranges = [], digest_pos = [], static_cells_wr = [],
      rows_wr = None, live_data_in_static_row = False, live_clustering_rows = 0, qrb_stop = False\<rparr>"

text \<open>\<open>add_partition\<close> feeds the key to the digest before the writer remembers its position; then the
  constructors of the writer and of the querier.\<close>

definition add_partition :: "('p, 'k) query_env \<Rightarrow> 'p \<Rightarrow> ('p, 'k) result_builder \<Rightarrow> ('p, 'k) result_builder" where
  "add_partition env dk b =
     (let sl = qe_slice env;
          d = (if requested_digest (qe_request env) then digest b @ [Hash_partition_key dk] else digest b)
      in b\<lparr>digest := d, digest_pos := d, pw_key := (if send_partition_key sl then Some dk else None),
           pw_ranges := row_ranges sl dk\<rparr>)"

definition qrb_new_partition :: "('p, 'k) query_env \<Rightarrow> 'p \<Rightarrow> ('p, 'k) result_builder \<Rightarrow> ('p, 'k) result_builder" where
  "qrb_new_partition env dk b =
     (add_partition env dk b)\<lparr>static_cells_wr := [], rows_wr := None, live_data_in_static_row := False, live_clustering_rows := 0\<rparr>"

definition pw_retract :: "('p, 'k) result_builder \<Rightarrow> ('p, 'k) result_builder" where
  "pw_retract b = b\<lparr>digest := digest_pos b\<rparr>"

definition pw_end :: "('p, 'k) result_builder \<Rightarrow> ('p, 'k) result_builder" where
  "pw_end b =
     b\<lparr>partitions := partitions b @ [\<lparr>qr_partition_key = pw_key b, qr_static_cells = static_cells_wr b,
          qr_rows = (case rows_wr b of None \<Rightarrow> [] | Some rs \<Rightarrow> rs)\<rparr>]\<rparr>"

definition max_timestamp :: "i64 \<Rightarrow> i64 \<Rightarrow> i64" where
  "max_timestamp a b = (if sint a < sint b then b else a)"

definition query_static_row :: "('p, 'k) query_env \<Rightarrow> row \<Rightarrow> tombstone \<Rightarrow> ('p, 'k) result_builder \<Rightarrow>
    error + ('p, 'k) result_builder" where
  "query_static_row env r t b =
     (let sl = qe_slice env; s = static_def (qe_schema env) in
      and_then
        (if static_columns sl = [] then Inr b
         else and_then
                (if requested_result (qe_request env) \<or> allow_short_read sl
                 then and_then (get_compacted_row_slice s (qe_static_kind env) sl r (static_columns sl)) (\<lambda>ws.
                      Inr (b\<lparr>static_cells_wr := static_cells_wr b @ ws\<rparr>))
                 else Inr b)
                (\<lambda>b. if requested_digest (qe_request env)
                     then and_then (hash_row_slice s r (static_columns sl) missing_timestamp) (\<lambda>(hs, mx).
                          Inr (b\<lparr>digest := digest b @ Hash_tombstone t # hs,
                                 last_modified := max_timestamp (max_timestamp (last_modified b) (timestamp t)) mx\<rparr>))
                     else Inr b))
        (\<lambda>b. Inr (b\<lparr>rows_wr := Some []\<rparr>)))"

definition querier_static_row :: "('p, 'k) query_env \<Rightarrow> row \<Rightarrow> tombstone \<Rightarrow> ('p, 'k) result_builder \<Rightarrow>
    error + (bool \<times> ('p, 'k) result_builder)" where
  "querier_static_row env sr t b =
     and_then (query_static_row env sr t b) (\<lambda>b. Inr (False, b\<lparr>live_data_in_static_row := True\<rparr>))"

definition prepare_writers :: "('p, 'k) query_env \<Rightarrow> ('p, 'k) result_builder \<Rightarrow> error + ('p, 'k) result_builder" where
  "prepare_writers env b =
     (if rows_wr b = None
      then and_then (query_static_row env row_empty tombstone_none b) (\<lambda>b. Inr (b\<lparr>live_data_in_static_row := False\<rparr>))
      else Inr b)"

definition querier_clustering_row :: "('p, 'k) query_env \<Rightarrow> 'k clustering_key_prefix \<Rightarrow> deletable_row \<Rightarrow> row_tombstone \<Rightarrow>
    ('p, 'k) result_builder \<Rightarrow> error + (bool \<times> ('p, 'k) result_builder)" where
  "querier_clustering_row env key cr t b =
     (let sl = qe_slice env; s = regular_def (qe_schema env) in
      and_then (prepare_writers env b) (\<lambda>b.
      and_then
        (if requested_digest (qe_request env)
         then and_then (hash_row_slice s (dr_cells cr) (regular_columns sl) missing_timestamp) (\<lambda>(hs, mx).
              Inr (b\<lparr>digest := digest b @ Hash_key key # Hash_row_tombstone t # hs,
                     last_modified := max_timestamp (max_timestamp (last_modified b) (timestamp (rt_tomb t))) mx\<rparr>))
         else Inr b)
        (\<lambda>b. and_then
           (if requested_result (qe_request env) \<or> allow_short_read sl
            then and_then (get_compacted_row_slice s (qe_regular_kind env) sl (dr_cells cr) (regular_columns sl)) (\<lambda>ws.
                 let r = \<lparr>qr_key = (if send_clustering_key sl then Some key else None), qr_cells = ws\<rparr>;
                     stop = qe_full env (checks b);
                     b = (if requested_result (qe_request env) then b\<lparr>rows_wr := map_option (\<lambda>rs. rs @ [r]) (rows_wr b)\<rparr> else b)
                 in Inr (stop, b\<lparr>checks := checks b + 1\<rparr>))
            else Inr (False, b))
           (\<lambda>(stop, b). Inr (stop \<and> allow_short_read sl, b\<lparr>live_clustering_rows := live_clustering_rows b + 1\<rparr>)))))"

definition querier_end :: "('p, 'k) query_env \<Rightarrow> ('p, 'k) result_builder \<Rightarrow> error + (nat \<times> ('p, 'k) result_builder)" where
  "querier_end env b =
     and_then (prepare_writers env b) (\<lambda>b.
     if live_clustering_rows b = 0 \<and> (has_ck_selector (pw_ranges b) \<or> \<not> live_data_in_static_row b)
     then Inr (0, pw_retract b)
     else let live_rows = max (live_clustering_rows b) 1 in
          Inr (live_rows, pw_end (b\<lparr>row_count := row_count b + live_rows, partition_count := partition_count b + 1\<rparr>)))"

definition qrb_end_of_partition :: "('p, 'k) query_env \<Rightarrow> ('p, 'k) result_builder \<Rightarrow>
    error + (bool \<times> ('p, 'k) result_builder)" where
  "qrb_end_of_partition env b =
     and_then (querier_end env b) (\<lambda>(live_rows, b).
     let b = (if allow_short_read (qe_slice env) \<and> live_rows > 0 \<and> \<not> qrb_stop b
              then b\<lparr>qrb_stop := qe_full env (checks b), checks := checks b + 1\<rparr> else b);
         b = (if qrb_stop b then b\<lparr>short_read := True\<rparr> else b)
     in Inr (qrb_stop b, b))"

definition remember_stop :: "('p, 'k) query_env \<Rightarrow> error + (bool \<times> ('p, 'k) result_builder) \<Rightarrow>
    error + (bool \<times> ('p, 'k) result_builder)" where
  "remember_stop env res =
     and_then res (\<lambda>(stop, b).
     let stop = (stop \<and> allow_short_read (qe_slice env)) in Inr (stop, b\<lparr>qrb_stop := stop\<rparr>))"

definition query_result_builder :: "('p, 'k) query_env \<Rightarrow> ('p, 'k, ('p, 'k) result_builder) consumer" where
  "query_result_builder env =
     \<lparr>consume_new_partition = qrb_new_partition env,
      consume_tombstone = (\<lambda>t b. b),
      consume_static_row = (\<lambda>sr t is_live b. remember_stop env (querier_static_row env sr t b)),
      consume_clustering_row = (\<lambda>key cr t is_live b. remember_stop env (querier_clustering_row env key cr t b)),
      consume_range_tombstone = (\<lambda>rt b. (False, b\<lparr>qrb_stop := False\<rparr>)),
      consume_end_of_partition = qrb_end_of_partition env\<rparr>"

section \<open>Data queries\<close>

definition compactor_start :: "nat \<Rightarrow> nat \<Rightarrow> 'c \<Rightarrow> ('p, 'k, 'c) compactor" where
  "compactor_start rows parts c =
     \<lparr>row_limit = rows, partition_limit = parts, the_consumer = c, cm_tombstones = accumulator_empty False,
      static_row_live = False, rows_in_current_partition = 0, current_partition_limit = 0, empty_partition = False,
      current_dk = None, cm_has_ck_selector = False\<rparr>"

definition compact_for_query :: "('p, 'k) query_env \<Rightarrow> i32 \<Rightarrow> ('p, 'k) compaction" where
  "compact_for_query env now =
     \<lparr>only_live = True, sstable_compaction = False, query_time = now,
      gc_before = saturating_subtract now (gc_grace_seconds (qe_schema env)), get_max_purgeable = (\<lambda>_. missing_timestamp),
      ranges_for = row_ranges (qe_slice env),
      partition_row_limit = (if distinct_option (qe_slice env) then 1 else slice_row_limit (qe_slice env))\<rparr>"

definition data_query :: "('p, 'k :: linorder) query_env \<Rightarrow> ('p, 'k) fragment list \<Rightarrow> nat \<Rightarrow> nat \<Rightarrow> i32 \<Rightarrow>
    error + ('p, 'k) result_builder" where
  "data_query env mfs rows parts now =
     (if rows = 0 \<or> slice_row_limit (qe_slice env) = 0 \<or> parts = 0 then Inr result_builder_empty
      else map_sum id the_consumer
             (consume_stream (qe_schema env) (query_result_builder env) (compact_for_query env now) mfs
               (compactor_start rows parts result_builder_empty)))"

text \<open>A data query of one partition through the snapshot of its newest version \<open>v\<close>.\<close>

definition snapshot_query :: "('p, 'k :: linorder) query_env \<Rightarrow> 'p \<Rightarrow> 'k mutation_partition \<Rightarrow> 'k mutation_partition list \<Rightarrow>
    nat \<Rightarrow> nat \<Rightarrow> i32 \<Rightarrow> error + ('p, 'k) result_builder" where
  "snapshot_query env dk v older rows parts now =
     and_then (snapshot_flat_reader (qe_schema env) dk (row_ranges (qe_slice env) dk) v older) (\<lambda>mfs.
     data_query env mfs rows parts now)"

end
