(* ===== verification/Query_Properties.thy ===== *)
theory Query_Properties
  imports Query
begin

text \<open>
  What a data query returns. The compaction of the stream finds for every row the newest deletion that covers
  it, although it sees every range tombstone once and forgets it as soon as it can; the result holds exactly
  the live rows of the version that is read, in order and up to the limit, and of every requested column the
  cell that is live at the time of the query, with its value and with the version for the client.
\<close>

section \<open>What compaction leaves of a row\<close>

definition cell_left :: "row_schema \<Rightarrow> row_tombstone \<Rightarrow> i32 \<Rightarrow> (tombstone \<Rightarrow> bool) \<Rightarrow> i32 \<Rightarrow> column_id \<Rightarrow> cell \<Rightarrow> cell option" where
  "cell_left s t now can_gc gcb i c = (case compact_cell (s i) t now can_gc gcb c of Inl _ \<Rightarrow> None | Inr (_, left) \<Rightarrow> left)"

lemma compact_cells_left:
  assumes "row_ok r" "rt_ok t" "distinct (map fst cells)"
    and "\<forall>e \<in> set cells. cell_ok (s (fst e)) (snd e) \<and> find_cell r (fst e) = Some (snd e)"
    and "compact_cells s t now can_gc gcb cells any_live r = Inr (live, r')"
  shows "find_cell r' i = (case map_of cells i of None \<Rightarrow> find_cell r i | Some c \<Rightarrow> cell_left s t now can_gc gcb i c)"
  using assms(1,3-5)
proof (induction cells arbitrary: any_live r)
  case (Cons e cells)
  obtain j c where e: "e = (j, c)" by fastforce
  have c: "cell_ok (s j) c" "find_cell r j = Some c" using Cons.prems(3) e by simp_all
  obtain l left where l: "compact_cell (s j) t now can_gc gcb c = Inr (l, left)" "\<forall>c'. left = Some c' \<longrightarrow> cell_present c'"
    using compact_cell_live [OF c(1) assms(2), of now can_gc gcb] by blast
  let ?r = "case left of None \<Rightarrow> row_remove_cell r j | Some c \<Rightarrow> row_set_cell r j c"
  have r: "row_ok ?r" "find_cell ?r = (find_cell r)(j := left)"
    using row_remove_cell_ok [OF Cons.prems(1) c(2)] row_set_cell_ok [OF Cons.prems(1) c(2)] l(2)
    by (auto split: option.splits)
  have "\<forall>e \<in> set cells. cell_ok (s (fst e)) (snd e) \<and> find_cell ?r (fst e) = Some (snd e)"
    using Cons.prems(2,3) e unfolding r(2) by (auto simp: image_iff)
  moreover have "compact_cells s t now can_gc gcb cells (any_live \<or> l) ?r = Inr (live, r')"
    using Cons.prems(4) l(1) by (simp add: e)
  moreover have "distinct (map fst cells)" "map_of cells j = None"
    using Cons.prems(2) e by (simp_all add: map_of_eq_None_iff)
  ultimately show ?case
    using Cons.IH [OF r(1), of "any_live \<or> l"] l(1) unfolding r(2) by (auto simp: e cell_left_def split: option.splits)
qed simp

lemma row_compact_left:
  assumes "row_fits s r" "rt_ok t" "row_compact_and_expire s r t now can_gc gcb = Inr (live, r')"
  shows "find_cell r' i = Option.bind (find_cell r i) (cell_left s t now can_gc gcb i)"
proof -
  have ok: "row_ok r" using assms(1) by (simp add: row_fits_def)
  have "\<forall>e \<in> set (row_cells r). cell_ok (s (fst e)) (snd e) \<and> find_cell r (fst e) = Some (snd e)"
    using assms(1) row_cells_ok(2) [OF ok] row_cells_ids(2) [OF ok]
    by (metis (no_types, lifting) map_of_eq_Some_iff prod.collapse row_fits_def)
  from compact_cells_left [OF ok assms(2) row_cells_ids(2) [OF ok] this assms(3) [unfolded row_compact_and_expire_def]]
  show ?thesis by (simp add: row_cells_ok(2) [OF ok] split: option.splits)
qed

text \<open>The cell of a column as the client sees it.\<close>

definition plain_column :: "column_type \<Rightarrow> bool" where
  "plain_column def \<longleftrightarrow> def = Atomic_column \<or> def = Counter_column"

definition visible_cell :: "('p, 'k) partition_slice \<Rightarrow> column_type \<Rightarrow> tombstone \<Rightarrow> i32 \<Rightarrow> cell \<Rightarrow> qr_cell option" where
  "visible_cell sl def t now c =
     (if \<not> cell_is_live_at (cell_data c) t now (def = Counter_column) then None
      else Some \<lparr>qr_timestamp = (if send_timestamp sl then Some (cell_timestamp (cell_data c)) else None),
        qr_expiry = (if def \<noteq> Counter_column \<and> send_expiry sl \<and> is_live_and_has_ttl (cell_data c)
          then Some (cell_expiry (cell_data c)) else None),
        qr_value = (if def = Counter_column then hton 8 (total_value (cell_data c)) else do_get_value (cell_data c)),
        qr_most_recent_version = (if def = Counter_column then 0 else most_recent_version c),
        qr_ttl = (if def \<noteq> Counter_column \<and> send_ttl sl \<and> is_live_and_has_ttl (cell_data c)
          then Some (cell_ttl (cell_data c)) else None)\<rparr>)"

lemma compacted_cell_left:
  assumes "plain_column (s i)" "rt_ok t"
  shows "(case cell_left s t now can_gc gcb i c of None \<Rightarrow> Inr None | Some c \<Rightarrow> compacted_cell sl (s i) kind c) =
    Inr (visible_cell sl (s i) (rt_tomb t) now c)"
proof -
  have cov: "is_covered_by (cell_data c) (regular t) k \<Longrightarrow> is_covered_by (cell_data c) (rt_tomb t) k" for k
    unfolding rt_tomb_def by (rule is_covered_by_mono [OF assms(2) [unfolded rt_ok_def]])
  note defs = cell_left_def compact_cell_def Let_def compacted_cell_def visible_cell_def cell_is_live_at_def cell_of_def
    write_cell_def write_counter_cell_def
  let ?c = "cell_data c"
  from assms(1) show ?thesis
    unfolding plain_column_def
  proof
    assume "s i = Atomic_column"
    then show ?thesis
      using cov [of False] unfolding rt_tomb_def
      by (cases "is_covered_by ?c (regular t) False"; cases "has_expired ?c now"; cases "cell_is_live ?c";
          cases "is_covered_by ?c (tomb (shadowable t)) False") (simp_all add: defs)
  next
    assume "s i = Counter_column"
    then show ?thesis
      using cov [of True] unfolding rt_tomb_def
      by (cases "is_covered_by ?c (regular t) True"; cases "has_expired ?c now"; cases "cell_is_live ?c";
          cases "is_covered_by ?c (tomb (shadowable t)) True") (simp_all add: defs)
  qed
qed

lemma get_compacted_row_slice_visible:
  assumes "row_fits s r" "rt_ok t" "row_compact_and_expire s r t now can_gc gcb = Inr (live, r')"
    and "\<forall>i \<in> set ids. plain_column (s i)"
  shows "get_compacted_row_slice s kinds sl r' ids =
    Inr (map (\<lambda>i. Option.bind (find_cell r i) (visible_cell sl (s i) (rt_tomb t) now)) ids)"
  using assms(4)
proof (induction ids)
  case (Cons i ids)
  have "(case find_cell r' i of None \<Rightarrow> Inr None | Some c \<Rightarrow> compacted_cell sl (s i) (kinds i) c) =
      Inr (Option.bind (find_cell r i) (visible_cell sl (s i) (rt_tomb t) now))"
    using compacted_cell_left [OF _ assms(2), of s i sl "kinds i" now can_gc gcb] Cons.prems
    unfolding row_compact_left [OF assms(1-3)] by (cases "find_cell r i") auto
  then show ?case using Cons by simp
qed simp

section \<open>The deletions the compaction sees\<close>

text \<open>After the range tombstones \<open>seen\<close>, with the rows at the positions \<open>P\<close> still to come: the accumulator may
  have forgotten those that end before all of these rows.\<close>

definition acc_inv :: "tombstone \<Rightarrow> ('k :: linorder) range_tombstone list \<Rightarrow> 'k weighted set \<Rightarrow> 'k accumulator \<Rightarrow> bool" where
  "acc_inv T seen P acc \<longleftrightarrow> \<not> reversed acc \<and> partition_tombstone acc = T \<and>
     (\<exists>gone. seen = gone @ range_tombstones acc \<and> (\<forall>d \<in> set gone. \<forall>x \<in> P. ce d \<le> x))"

lemma acc_inv_start: "\<not> reversed acc \<Longrightarrow> acc_inv T [] P (set_partition_tombstone T (accumulator_clear acc))"
  by (simp add: acc_inv_def set_partition_tombstone_def update_current_tombstone_def accumulator_clear_def)

lemma acc_inv_subset: "acc_inv T seen P acc \<Longrightarrow> Q \<subseteq> P \<Longrightarrow> acc_inv T seen Q acc"
  by (fastforce simp: acc_inv_def)

lemma dropWhile_none: "\<forall>x \<in> set xs. P x \<Longrightarrow> dropWhile P xs = []"
  by simp

lemma acc_inv_apply:
  assumes "acc_inv T seen P acc" "wf_rts (seen @ [rt])" "\<forall>x \<in> P. cs rt \<le> x"
  shows "acc_inv T (seen @ [rt]) P (accumulator_apply rt acc)"
proof -
  obtain gone where acc: "\<not> reversed acc" "partition_tombstone acc = T" "seen = gone @ range_tombstones acc"
    using assms(1) by (auto simp: acc_inv_def)
  have "drop_before False (rt_start rt) (weight (rt_start_kind rt)) d" if "d \<in> set (range_tombstones acc)" for d
  proof -
    have "proper d" "proper rt" "ce d \<le> cs rt" using that assms(2) acc(3) wf_rts_proper by (fastforce, simp, auto)
    then have "bound_less (rt_end_bound d) (rt_start_bound rt)" using properD(1,2) by (auto simp: bound_cut simp flip: cs_def ce_def)
    then show ?thesis by (simp add: drop_before_def bound_less_def rt_start_bound_def Let_def)
  qed
  then have "range_tombstones (accumulator_apply rt acc) = [rt]"
    using acc(1) by (simp add: accumulator_apply_def drop_unneeded_tombstones_def update_current_tombstone_def Let_def dropWhile_none)
  moreover have "\<forall>d \<in> set seen. \<forall>x \<in> P. ce d \<le> x" using assms(2,3) by fastforce
  ultimately show ?thesis
    using acc(1,2) by (simp add: acc_inv_def accumulator_apply_def drop_unneeded_tombstones_def update_current_tombstone_def Let_def)
qed

lemma fold_covering:
  assumes "\<forall>rt \<in> set rts. cs rt \<le> x \<and> x < ce rt" "tombstone_none \<le> T"
  shows "foldl (\<lambda>t rt. tomb_apply t (tomb_of rt)) T rts = max T (deletion rts x)"
  using assms
proof (induction rts arbitrary: T)
  case (Cons rt rts)
  have "tombstone_none \<le> tomb_apply T (tomb_of rt)" using Cons.prems(2) by (simp add: tomb_apply_max le_max_iff_disj)
  from Cons.IH [OF _ this] Cons.prems(1) show ?case by (simp add: tomb_apply_max cov_def max.assoc)
qed (simp add: max_absorb1)

lemma deletion_gone: "\<forall>d \<in> set gone. ce d \<le> x \<Longrightarrow> deletion gone x = tombstone_none"
  by (induction gone) (auto simp: cov_def)

lemma tombstone_for_row_seen:
  assumes "acc_inv T seen P acc" "wf_rts seen" "\<forall>d \<in> set seen. cs d \<le> At k 0" "\<forall>x \<in> P. At k 0 \<le> x" "At k 0 \<in> P" "tombstone_none \<le> T"
  obtains acc' where "tombstone_for_row k acc = (max T (deletion seen (At k 0)), acc')" "acc_inv T seen P acc'"
proof -
  obtain gone where acc: "\<not> reversed acc" "partition_tombstone acc = T" "seen = gone @ range_tombstones acc"
    "\<forall>d \<in> set gone. \<forall>x \<in> P. ce d \<le> x"
    using assms(1) by (auto simp: acc_inv_def)
  let ?drop = "\<lambda>d. ce d < At k 0" and ?rts = "range_tombstones acc"
  let ?kept = "dropWhile ?drop ?rts" and ?left = "takeWhile ?drop ?rts"
  have drop: "drop_before False k 0 = ?drop"
    by (simp add: fun_eq_iff drop_before_def Let_def ce_def flip: bound_less_key_cut) (simp add: bound_less_key_def)
  have kept: "cs d \<le> At k 0 \<and> At k 0 < ce d" if d: "d \<in> set ?kept" for d
  proof -
    obtain e es where kept: "?kept = e # es" using d by (cases ?kept) auto
    then have e: "\<not> ce e < At k 0" using hd_dropWhile [of ?drop ?rts] by simp
    have "wf_rts (?left @ ?kept)" using assms(2) unfolding acc(3) takeWhile_dropWhile_id by simp
    then have "ce e \<le> ce d" using d kept by (auto dest!: wf_rts_proper properD(3) intro: order_trans less_imp_le)
    then have "At k 0 \<le> ce d" using e by (simp add: not_less)
    moreover have "ce d \<noteq> At k 0" by (simp add: ce_def)
    ultimately show ?thesis using d assms(3) acc(3) by (auto simp: le_less dest: set_dropWhileD)
  qed
  let ?acc = "snd (tombstone_for_row k acc)"
  have "fst (tombstone_for_row k acc) = max T (deletion ?kept (At k 0))"
    using fold_covering [of ?kept "At k 0" T] kept assms(6) acc(1,2)
    by (simp add: tombstone_for_row_def drop_unneeded_tombstones_def update_current_tombstone_def drop)
  moreover have "deletion gone (At k 0) = tombstone_none" using acc(4) assms(5) by (intro deletion_gone) auto
  moreover have left: "\<forall>d \<in> set ?left. ce d \<le> At k 0" by (auto dest: set_takeWhileD)
  then have "deletion ?left (At k 0) = tombstone_none" by (rule deletion_gone)
  moreover have "seen = (gone @ ?left) @ ?kept" using acc(3) by simp
  then have "deletion seen (At k 0) = max (max (deletion gone (At k 0)) (deletion ?left (At k 0))) (deletion ?kept (At k 0))"
    by (metis deletion_append)
  ultimately have "fst (tombstone_for_row k acc) = max T (deletion seen (At k 0))" by simp
  moreover have "acc_inv T seen P ?acc"
    unfolding acc_inv_def
  proof (intro conjI exI [of _ "gone @ ?left"])
    show "\<not> reversed ?acc" "partition_tombstone ?acc = T"
      using acc(1,2) by (simp_all add: tombstone_for_row_def drop_unneeded_tombstones_def update_current_tombstone_def)
    show "seen = (gone @ ?left) @ range_tombstones ?acc"
      using acc(1,3) by (simp add: tombstone_for_row_def drop_unneeded_tombstones_def update_current_tombstone_def drop)
    show "\<forall>d \<in> set (gone @ ?left). \<forall>x \<in> P. ce d \<le> x" using acc(4) left assms(4) by (auto intro: order_trans)
  qed
  ultimately show thesis by (intro that [of ?acc]) (auto simp: prod_eq_iff)
qed

section \<open>The stream of a range\<close>

type_synonym 'k plain_row = "'k clustering_key_prefix \<times> deletable_row"

fun weave :: "('k :: linorder) plain_row list \<Rightarrow> 'k range_tombstone list \<Rightarrow> ('p, 'k) fragment list" where
  "weave [] rts = map Range_fragment rts"
| "weave (r # rows) rts =
     map Range_fragment (takeWhile (\<lambda>rt. cs rt < At (fst r) 0) rts) @ Row_fragment (fst r) (snd r) #
     weave rows (dropWhile (\<lambda>rt. cs rt < At (fst r) 0) rts)"

definition plain_rows :: "'k rows_type \<Rightarrow> 'k plain_row list" where
  "plain_rows rows = map (\<lambda>e. (re_key e, re_row e)) (filter (\<lambda>e. \<not> dummy e) rows)"

definition at_keys :: "'k rows_type \<Rightarrow> bool" where
  "at_keys rows \<longleftrightarrow> (\<forall>e \<in> set rows. \<not> dummy e \<longrightarrow> re_at e = At (re_key e) 0)"

lemma reader_next_row_plain:
  assumes "rows_ok rows" "at_keys rows"
  shows "reader_next_row s rows =
    Inr (case dropWhile dummy rows of [] \<Rightarrow> (None, []) | e # es \<Rightarrow> (Some (re_key e, re_row e), es))"
  using assms
proof (induction rows)
  case (Cons e rows)
  have "apply_equal_rows s (re_key e) dr rows = Inr (dr, rows)" if "\<not> dummy e" for dr
  proof (cases rows)
    case (Cons d ds)
    have "re_at e < re_at d" "re_at e = At (re_key e) 0" using Cons.prems that Cons by (auto simp: at_keys_def)
    then have "\<not> position_equal (re_position d) (for_key (re_key e))"
      by (auto simp: position_equal_def re_position_def for_key_def re_at_def)
    then show ?thesis by (simp add: Cons)
  qed simp
  then show ?case using Cons by (auto simp: at_keys_def)
qed simp

lemma rt_before_key: "position_less (rt_position rt) (for_key k) \<longleftrightarrow> cs rt < At k 0"
  by (simp add: position_less_def position_tri_compare_def rt_position_def position_of_bound_def for_key_def cs_def cut_def)

lemma stream_get_next_key:
  "stream_get_next (for_key k) l =
     (case tombstones l of [] \<Rightarrow> (None, l)
      | n # ns \<Rightarrow> if cs (snd n) < At k 0 then (Some (snd n), l\<lparr>tombstones := ns\<rparr>) else (None, l))"
  by (simp add: stream_get_next_def rt_before_key split: list.splits)

text \<open>What a reader has still to deliver within its range.\<close>

definition pending_rows :: "'k reader \<Rightarrow> 'k plain_row list" where
  "pending_rows rd = (case next_row_of rd of None \<Rightarrow> [] | Some r \<Rightarrow> [r]) @ plain_rows (clustering_rows rd)"

definition reader_ok :: "('k :: linorder) clustering_range \<Rightarrow> 'k reader \<Rightarrow> bool" where
  "reader_ok ck_range rd \<longleftrightarrow> rows_ok (clustering_rows rd) \<and> at_keys (clustering_rows rd) \<and>
     (no_more_rows_in_range rd \<longrightarrow> clustering_rows rd = [] \<and> next_row_of rd = None) \<and>
     (\<forall>n \<in> set (tombstones (tombstone_stream rd)). position_less (rt_position (snd n)) (for_range_end ck_range))"

definition work :: "'k reader \<Rightarrow> nat" where
  "work rd = length (clustering_rows rd) + of_bool (next_row_of rd \<noteq> None) + length (tombstones (tombstone_stream rd))"

abbreviation pending_stream :: "('k :: linorder) reader \<Rightarrow> ('p, 'k) fragment list" where
  "pending_stream rd \<equiv> weave (pending_rows rd) (map snd (tombstones (tombstone_stream rd)))"

lemma rows_ok_dropWhile: "rows_ok rows \<Longrightarrow> rows_ok (dropWhile P rows)"
  unfolding rows_ok_def by (metis sorted_wrt_append takeWhile_dropWhile_id)

lemma plain_rows_dropWhile: "plain_rows rows = plain_rows (dropWhile dummy rows)"
  by (induction rows) (auto simp: plain_rows_def)

text \<open>The preparation of a row, and one round with a row at hand.\<close>

lemma fetch_row:
  assumes "reader_ok ck_range rd" "next_row_of rd = None" "\<not> no_more_rows_in_range rd"
  obtains rd' where "read_next s ck_range rd = read_next s ck_range rd'" "reader_ok ck_range rd'"
    "pending_stream rd = pending_stream rd'" "next_row_of rd' = None \<longrightarrow> clustering_rows rd' = []" "work rd' \<le> work rd"
proof -
  let ?rows = "dropWhile dummy (clustering_rows rd)"
  have ok: "rows_ok (clustering_rows rd)" "at_keys (clustering_rows rd)" using assms(1) by (simp_all add: reader_ok_def)
  have len: "length ?rows \<le> length (clustering_rows rd)" by (rule length_dropWhile_le)
  have rows: "rows_ok ?rows" "at_keys ?rows" using ok rows_ok_dropWhile by (auto simp: at_keys_def dest: set_dropWhileD)
  show thesis
  proof (cases ?rows)
    case Nil
    then have nil: "plain_rows (clustering_rows rd) = []"
      using plain_rows_dropWhile [of "clustering_rows rd"] by (simp add: plain_rows_def)
    show thesis
    proof (rule that [of "rd\<lparr>clustering_rows := []\<rparr>"])
      show "read_next s ck_range rd = read_next s ck_range (rd\<lparr>clustering_rows := []\<rparr>)"
        using assms(2,3) unfolding read_next_def reader_next_row_plain [OF ok] Nil by (cases rd) simp
    qed (use assms nil in \<open>auto simp: reader_ok_def at_keys_def pending_rows_def plain_rows_def work_def\<close>)
  next
    case (Cons e es)
    then have nd: "\<not> dummy e" using hd_dropWhile [of dummy "clustering_rows rd"] by fastforce
    have plain: "plain_rows (clustering_rows rd) = (re_key e, re_row e) # plain_rows es"
      using plain_rows_dropWhile [of "clustering_rows rd"] nd unfolding Cons by (simp add: plain_rows_def)
    show thesis
    proof (rule that [of "rd\<lparr>next_row_of := Some (re_key e, re_row e), clustering_rows := es\<rparr>"])
      show "read_next s ck_range rd = read_next s ck_range (rd\<lparr>next_row_of := Some (re_key e, re_row e), clustering_rows := es\<rparr>)"
        using assms(2,3) unfolding read_next_def reader_next_row_plain [OF ok] Cons by simp
      show "pending_stream rd = pending_stream (rd\<lparr>next_row_of := Some (re_key e, re_row e), clustering_rows := es\<rparr>)"
        using assms(2) plain by (simp add: pending_rows_def)
    qed (use assms rows len Cons in \<open>auto simp: reader_ok_def at_keys_def work_def\<close>)
  qed
qed

lemma read_next_row:
  assumes "reader_ok ck_range rd" "next_row_of rd = Some r"
  obtains mf rd' where "read_next s ck_range rd = Inr (Some mf, rd')" "reader_ok ck_range rd'"
    "pending_stream rd = mf # pending_stream rd'" "work rd' < work rd"
proof (cases "\<exists>n ns. tombstones (tombstone_stream rd) = n # ns \<and> cs (snd n) < At (fst r) 0")
  case True
  then obtain n ns where n: "tombstones (tombstone_stream rd) = n # ns" "cs (snd n) < At (fst r) 0" by blast
  show thesis
    by (rule that [of "Range_fragment (snd n)" "rd\<lparr>tombstone_stream := (tombstone_stream rd)\<lparr>tombstones := ns\<rparr>\<rparr>"])
      (use assms n in \<open>auto simp: read_next_def stream_get_next_key reader_ok_def pending_rows_def work_def split: prod.splits\<close>)
next
  case False
  then have none: "stream_get_next (for_key (fst r)) (tombstone_stream rd) = (None, tombstone_stream rd)"
    by (auto simp: stream_get_next_key split: list.splits)
  have "takeWhile (\<lambda>rt. cs rt < At (fst r) 0) (map snd (tombstones (tombstone_stream rd))) = []"
    "dropWhile (\<lambda>rt. cs rt < At (fst r) 0) (map snd (tombstones (tombstone_stream rd))) = map snd (tombstones (tombstone_stream rd))"
    using False by (cases "tombstones (tombstone_stream rd)"; simp)+
  then show thesis
    by (intro that [of "Row_fragment (fst r) (snd r)" "rd\<lparr>next_row_of := None\<rparr>"])
      (use assms none in \<open>auto simp: read_next_def reader_ok_def pending_rows_def work_def split: prod.splits\<close>)
qed

text \<open>The end of the rows: what is left are range tombstones.\<close>

lemma read_next_end:
  assumes "reader_ok ck_range rd" "next_row_of rd = None" "clustering_rows rd = []"
  obtains (Done) rd' where "read_next s ck_range rd = Inr (None, rd')" "tombstones (tombstone_stream rd') = []"
      "pending_stream rd = []"
  | (More) mf rd' where "read_next s ck_range rd = Inr (Some mf, rd')" "reader_ok ck_range rd'"
    "pending_stream rd = mf # pending_stream rd'" "work rd' < work rd"
proof (cases "tombstones (tombstone_stream rd)")
  case Nil
  show thesis
    by (rule Done [of "rd\<lparr>no_more_rows_in_range := True\<rparr>"])
      (use assms Nil in \<open>simp_all add: read_next_def stream_get_next_def Let_def pending_rows_def plain_rows_def\<close>)
next
  case (Cons n ns)
  show thesis
    by (rule More [of "Range_fragment (snd n)"
          "rd\<lparr>no_more_rows_in_range := True, tombstone_stream := (tombstone_stream rd)\<lparr>tombstones := ns\<rparr>\<rparr>"])
      (use assms Cons in \<open>auto simp: read_next_def stream_get_next_def reader_ok_def Let_def pending_rows_def plain_rows_def work_def\<close>)
qed

lemma fill_range_weave:
  assumes "reader_ok ck_range rd" "work rd < n"
  shows "\<exists>l. (fill_range s ck_range n rd :: error + (('p, 'k :: linorder) fragment list \<times> 'k range_tombstone_list)) =
      Inr (pending_stream rd, l) \<and> tombstones l = []"
  using assms
proof (induction n arbitrary: rd)
  case (Suc n)
  have step: ?case if mf: "read_next s ck_range rd = Inr (Some mf, rd')" "reader_ok ck_range rd'"
      "pending_stream rd = mf # pending_stream rd'" "work rd' < work rd" for mf :: "('p, 'k) fragment" and rd'
  proof -
    obtain l where "fill_range s ck_range n rd' = Inr (pending_stream rd' :: ('p, 'k) fragment list, l)" "tombstones l = []"
      using Suc.IH [of rd'] mf(2,4) Suc.prems(2) by auto
    then show ?thesis using mf(1,3) by simp
  qed
  have round: ?case if ok: "reader_ok ck_range r" "next_row_of r = None \<Longrightarrow> clustering_rows r = []" "work r \<le> work rd"
      and eq: "read_next s ck_range rd = (read_next s ck_range r :: error + (('p, 'k) fragment option \<times> 'k reader))"
        "(pending_stream rd :: ('p, 'k) fragment list) = pending_stream r" for r
  proof (cases "next_row_of r")
    case (Some row)
    obtain mf :: "('p, 'k) fragment" and rd' where "read_next s ck_range r = Inr (Some mf, rd')" "reader_ok ck_range rd'"
      "pending_stream r = mf # pending_stream rd'" "work rd' < work r"
      by (rule read_next_row [OF ok(1) Some])
    then show ?thesis using eq ok(3) by (intro step [of mf rd']) simp_all
  next
    case None
    consider (Done) rd' where "read_next s ck_range r = Inr (None :: ('p, 'k) fragment option, rd')"
        "tombstones (tombstone_stream rd') = []" "(pending_stream r :: ('p, 'k) fragment list) = []"
      | (More) mf :: "('p, 'k) fragment" and rd' where "read_next s ck_range r = Inr (Some mf, rd')" "reader_ok ck_range rd'"
        "pending_stream r = mf # pending_stream rd'" "work rd' < work r"
      by (rule read_next_end [OF ok(1) None ok(2) [OF None]])
    then show ?thesis
    proof cases
      case (Done rd')
      then show ?thesis using eq by simp
    next
      case (More mf rd')
      then show ?thesis using eq ok(3) by (intro step [of mf rd']) simp_all
    qed
  qed
  show ?case
  proof (cases "next_row_of rd = None \<and> \<not> no_more_rows_in_range rd")
    case True
    obtain rd' where "read_next s ck_range rd = (read_next s ck_range rd' :: error + (('p, 'k) fragment option \<times> 'k reader))"
      "reader_ok ck_range rd'" "(pending_stream rd :: ('p, 'k) fragment list) = pending_stream rd'"
      "next_row_of rd' = None \<longrightarrow> clustering_rows rd' = []" "work rd' \<le> work rd"
      by (rule fetch_row [OF Suc.prems(1) True [THEN conjunct1] True [THEN conjunct2]])
    then show ?thesis by (intro round [of rd']) simp_all
  next
    case False
    then show ?thesis using Suc.prems(1) by (intro round [of rd]) (auto simp: reader_ok_def)
  qed
qed simp

lemma cut_bottom: "At [] (- 1) \<le> cut b"
  by (cases "bv_prefix b"; cases "bv_kind b") (simp_all add: cut_def)

lemma cut_top: "cut b \<le> At [] 1"
  by (cases "bv_prefix b"; cases "bv_kind b") (simp_all add: cut_def)

lemma cut_extremes: "cut bound_bottom = At [] (- 1)" "start_bound bound_bottom" "cut bound_top = At [] 1" "\<not> start_bound bound_top"
  by (simp_all add: cut_def bound_bottom_def bound_top_def start_bound_def)

lemma takeWhile_all_length: "(\<And>x. x \<in> set xs \<Longrightarrow> P x) \<Longrightarrow> length (takeWhile P xs) = length xs"
  by (induction xs) auto

lemma takeWhile_first: "(\<And>x. x \<in> set xs \<Longrightarrow> \<not> P x) \<Longrightarrow> takeWhile P xs = []"
  by (cases xs) auto

lemma slice_full_range:
  assumes "rtl_ok l"
  shows "slice_range full_range l = Some (tombstones l)"
proof -
  have proper: "proper (snd n)" if "n \<in> set (tombstones l)" for n
    using assms that wf_rts_proper by (fastforce simp: rtl_ok_def)
  have "\<not> bound_less (rt_end_bound (snd n)) bound_bottom" if "n \<in> set (tombstones l)" for n
    using properD(2,3) [OF proper [OF that]] cut_bottom [of "rt_start_bound (snd n)"]
    by (simp add: bound_less_cut cut_extremes flip: cs_def ce_def)
  moreover have "\<not> bound_less bound_top (rt_start_bound (snd n))" if "n \<in> set (tombstones l)" for n
    using properD(1,3) [OF proper [OF that]] cut_top [of "rt_end_bound (snd n)"]
    by (simp add: bound_less_cut cut_extremes flip: cs_def ce_def)
  ultimately show ?thesis
    by (simp add: slice_range_def from_range_def from_range_start_def from_range_end_def full_range_def between_def
        takeWhile_first takeWhile_all_length)
qed

lemma rtl_apply_ok:
  assumes "rtl_ok l" "\<forall>rt \<in> set rts. proper rt"
  obtains l' where "rtl_apply rts None l = Some (True, None, l')" "rtl_ok l'"
    "\<And>x. deletions l' x = max (deletions l x) (deletion rts x)"
proof -
  have "\<exists>l'. rtl_apply rts None l = Some (True, None, l') \<and> rtl_ok l' \<and> (\<forall>x. deletions l' x = max (deletions l x) (deletion rts x))"
    using assms
  proof (induction rts arbitrary: l)
    case (Cons rt rts)
    then obtain l1 where "rtl_apply_one rt None l = Some (True, None, l1)" "rtl_ok l1"
      "\<And>x. deletions l1 x = max (deletions l x) (cov (cs rt) (ce rt) (tomb_of rt) x)"
      using rtl_apply_one_ok [of l rt None] by (auto simp: built_def)
    with Cons.IH [of l1] Cons.prems(2) show ?case by (auto simp: max.assoc)
  qed simp
  then show thesis using that by blast
qed

text \<open>The reader of the full range delivers all rows, and range tombstones with the deletions of the version.\<close>

lemma read_range_reads:
  assumes "rtl_ok (row_tombstones v)" "rows_ok (mp_rows v)" "at_keys (mp_rows v)"
  obtains rts l where "read_range s v full_range rtl_empty = Inr (weave (plain_rows (mp_rows v)) rts :: ('p, 'k :: linorder) fragment list, l)"
    "wf_rts rts"
    "\<forall>x. deletion rts x = deletions (row_tombstones v) x"
proof -
  have "\<forall>rt \<in> set (map snd (tombstones (row_tombstones v))). proper rt"
    using assms(1) by (simp add: rtl_ok_def wf_rts_def)
  from rtl_apply_ok [OF rtl_ok_empty this] obtain l where
    l: "rtl_apply (map snd (tombstones (row_tombstones v))) None rtl_empty = Some (True, None, l)" "rtl_ok l"
    "\<And>x. deletions l x = max (deletions rtl_empty x) (deletions (row_tombstones v) x)" by metis
  let ?rd = "\<lparr>clustering_rows = mp_rows v, next_row_of = None, no_more_rows_in_range = False, tombstone_stream = l\<rparr>"
  have "position_less (rt_position (snd n)) (for_range_end full_range)" if "n \<in> set (tombstones l)" for n
  proof -
    have "cs (snd n) < At [] 1"
      using l(2) that wf_rts_proper [of "map snd (tombstones l)" "snd n"] properD(3) [of "snd n"] cut_top [of "rt_end_bound (snd n)"]
      by (auto simp: rtl_ok_def ce_def intro: less_le_trans)
    then show ?thesis
      by (simp add: position_less_def position_tri_compare_def rt_position_def position_of_bound_def for_range_end_def
          from_range_end_def full_range_def bound_top_def cs_def cut_def)
  qed
  then have ok: "reader_ok full_range ?rd" using assms(2,3) by (simp add: reader_ok_def)
  have rows: "mp_range full_range v = Some (mp_rows v)"
    by (simp add: mp_range_def rows_lower_def rows_upper_def full_range_def between_def takeWhile_first takeWhile_all_length)
  have pend: "pending_rows ?rd = plain_rows (mp_rows v)" "work ?rd = length (mp_rows v) + length (tombstones l)"
    by (simp_all add: pending_rows_def work_def)
  obtain l' where "fill_range s full_range (length (mp_rows v) + length (tombstones l) + 1) ?rd =
      Inr (weave (plain_rows (mp_rows v)) (map snd (tombstones l)) :: ('p, 'k) fragment list, l')"
    using fill_range_weave [OF ok, of "length (mp_rows v) + length (tombstones l) + 1" s] unfolding pend by auto
  then have "read_range s v full_range rtl_empty = Inr (weave (plain_rows (mp_rows v)) (map snd (tombstones l)) :: ('p, 'k) fragment list, l')"
    using l(1) rows by (simp add: read_range_def stream_apply_def slice_full_range [OF assms(1)])
  then show thesis
  proof (rule that)
    show "wf_rts (map snd (tombstones l))" using l(2) by (simp add: rtl_ok_def)
    show "\<forall>x. deletions l x = deletions (row_tombstones v) x" using l(3) by (simp add: rtl_empty_def)
  qed
qed

section \<open>What the builder collects\<close>

text \<open>The queries considered: a result is requested, short reads are not allowed, and no requested column is a
  collection.\<close>

definition plain_query :: "('p, 'k) query_env \<Rightarrow> bool" where
  "plain_query env \<longleftrightarrow> requested_result (qe_request env) \<and> \<not> allow_short_read (qe_slice env) \<and>
     (\<forall>i \<in> set (regular_columns (qe_slice env)). plain_column (regular_def (qe_schema env) i))"

definition no_static_cells :: "('p, 'k) query_env \<Rightarrow> qr_cell option list" where
  "no_static_cells env = replicate (length (static_columns (qe_slice env))) None"

definition builder_has :: "('p, 'k) query_env \<Rightarrow> 'p \<Rightarrow> 'k qr_row list \<Rightarrow> ('p, 'k) result_builder \<Rightarrow> bool" where
  "builder_has env dk R b \<longleftrightarrow>
     partitions b = [] \<and> row_count b = 0 \<and> partition_count b = 0 \<and> \<not> short_read b \<and> \<not> qrb_stop b \<and>
     pw_key b = (if send_partition_key (qe_slice env) then Some dk else None) \<and>
     live_clustering_rows b = length R \<and> \<not> live_data_in_static_row b \<and>
     (rows_wr b = None \<and> static_cells_wr b = [] \<and> R = [] \<or> rows_wr b = Some R \<and> static_cells_wr b = no_static_cells env)"

definition result_has :: "('p, 'k) query_env \<Rightarrow> 'p \<Rightarrow> 'k qr_row list \<Rightarrow> ('p, 'k) result_builder \<Rightarrow> bool" where
  "result_has env dk R b \<longleftrightarrow>
     partitions b = (if R = [] then [] else
       [\<lparr>qr_partition_key = (if send_partition_key (qe_slice env) then Some dk else None),
         qr_static_cells = no_static_cells env, qr_rows = R\<rparr>]) \<and>
     row_count b = length R \<and> partition_count b = of_bool (R \<noteq> []) \<and> \<not> short_read b"

lemma find_cell_row_empty [simp]: "find_cell row_empty i = None"
  by (simp add: row_empty_def)

lemma empty_row_slices:
  "get_compacted_row_slice s kinds sl row_empty ids = Inr (replicate (length ids) None)"
  "hash_row_slice s row_empty ids mx = Inr ([], mx)"
  by (induction ids) simp_all

lemma hash_row_slice_plain:
  assumes "\<forall>i \<in> set ids. plain_column (s i)"
  shows "\<exists>hs mx'. hash_row_slice s r ids mx = Inr (hs :: ('p, 'k) hashed list, mx')"
  using assms
proof (induction ids arbitrary: mx)
  case (Cons i ids)
  show ?case
  proof (cases "find_cell r i")
    case None
    then show ?thesis using Cons by simp
  next
    case (Some c)
    let ?t = "cell_timestamp (cell_data c)"
    obtain hs mx' where "hash_row_slice s r ids (if sint mx < sint ?t then ?t else mx) = Inr (hs :: ('p, 'k) hashed list, mx')"
      using Cons.IH [of "if sint mx < sint ?t then ?t else mx"] Cons.prems by auto
    then have "hash_row_slice s r (i # ids) mx = Inr (Hash_column i # Hash_cell (s i) (cell_data c) # hs, mx')"
      using Cons.prems Some by (auto simp: plain_column_def)
    then show ?thesis by blast
  qed
qed simp

lemma prepare_writers_has:
  assumes "plain_query env" "builder_has env dk R b"
  obtains b' where "prepare_writers env b = Inr b'" "builder_has env dk R b'" "rows_wr b' = Some R"
    "static_cells_wr b' = no_static_cells env"
proof (cases "rows_wr b = None")
  case True
  then have "R = []" "static_cells_wr b = []" using assms(2) by (auto simp: builder_has_def)
  then show thesis
    using assms True
    by (intro that [of "case prepare_writers env b of Inr b' \<Rightarrow> b'"])
      (auto simp: prepare_writers_def query_static_row_def empty_row_slices plain_query_def builder_has_def no_static_cells_def Let_def)
next
  case False
  then show thesis using assms(2) by (intro that [of b]) (auto simp: prepare_writers_def builder_has_def)
qed

lemma querier_row_has:
  assumes "plain_query env" "builder_has env dk R b"
    and "get_compacted_row_slice (regular_def (qe_schema env)) (qe_regular_kind env) (qe_slice env) (dr_cells cr)
      (regular_columns (qe_slice env)) = Inr ws"
  obtains b' where "remember_stop env (querier_clustering_row env key cr t b) = Inr (False, b')"
    "builder_has env dk (R @ [\<lparr>qr_key = (if send_clustering_key (qe_slice env) then Some key else None), qr_cells = ws\<rparr>]) b'"
proof -
  obtain b1 where b1: "prepare_writers env b = Inr b1" "builder_has env dk R b1" "rows_wr b1 = Some R"
    "static_cells_wr b1 = no_static_cells env"
    by (rule prepare_writers_has [OF assms(1,2)])
  obtain hs mx where h: "hash_row_slice (regular_def (qe_schema env)) (dr_cells cr) (regular_columns (qe_slice env)) missing_timestamp =
      Inr (hs :: ('a, 'b) hashed list, mx)"
    using hash_row_slice_plain assms(1) by (fastforce simp: plain_query_def)
  show thesis
    using assms(1) b1 h assms(3)
    by (intro that [of "case remember_stop env (querier_clustering_row env key cr t b) of Inr (_, b') \<Rightarrow> b'"])
      (auto simp: querier_clustering_row_def remember_stop_def plain_query_def builder_has_def Let_def)
qed

lemma builder_end:
  assumes "plain_query env" "builder_has env dk R b"
  obtains b' where "qrb_end_of_partition env b = Inr (False, b')" "result_has env dk R b'"
proof -
  obtain b1 where "prepare_writers env b = Inr b1" "builder_has env dk R b1" "rows_wr b1 = Some R"
    "static_cells_wr b1 = no_static_cells env"
    by (rule prepare_writers_has [OF assms])
  note b1 = this
  show thesis
  proof (cases "R = []")
    case True
    have "qrb_end_of_partition env b = Inr (False, pw_retract b1)"
      using assms(1) b1 True by (simp add: qrb_end_of_partition_def querier_end_def plain_query_def builder_has_def pw_retract_def Let_def)
    then show thesis
      using b1 True by (intro that) (auto simp: result_has_def builder_has_def pw_retract_def)
  next
    case False
    let ?b = "pw_end (b1\<lparr>row_count := length R, partition_count := 1\<rparr>)"
    have "max (length R) 1 = length R" using False by (cases R) simp_all
    then have "qrb_end_of_partition env b = Inr (False, ?b)"
      using assms(1) b1 False by (simp add: qrb_end_of_partition_def querier_end_def plain_query_def builder_has_def pw_end_def Let_def)
    then show thesis
      using b1 False by (intro that) (auto simp: result_has_def builder_has_def pw_end_def)
  qed
qed

section \<open>One fragment\<close>

definition cm_has :: "('p, 'k) query_env \<Rightarrow> 'p \<Rightarrow> nat \<Rightarrow> 'k qr_row list \<Rightarrow> ('p, 'k, ('p, 'k) result_builder) compactor \<Rightarrow> bool" where
  "cm_has env dk lim R cm \<longleftrightarrow>
     current_dk cm = Some dk \<and> rows_in_current_partition cm = length R \<and> current_partition_limit cm = lim \<and>
     \<not> static_row_live cm \<and>
     (if empty_partition cm then R = [] \<and> the_consumer cm = result_builder_empty else builder_has env dk R (the_consumer cm))"

lemma compact_for_query_simps [simp]:
  "only_live (compact_for_query env now)" "\<not> sstable_compaction (compact_for_query env now)"
  "query_time (compact_for_query env now) = now" "cm_can_gc (compact_for_query env now) k = (\<lambda>_. True)"
  "ranges_for (compact_for_query env now) = row_ranges (qe_slice env)"
  by (simp_all add: compact_for_query_def cm_can_gc_def fun_eq_iff)

lemma query_result_builder_simps [simp]:
  "consume_new_partition (query_result_builder env) = qrb_new_partition env"
  "consume_tombstone (query_result_builder env) t b = b"
  "consume_static_row (query_result_builder env) sr t l b = remember_stop env (querier_static_row env sr t b)"
  "consume_clustering_row (query_result_builder env) key cr rt l b = remember_stop env (querier_clustering_row env key cr rt b)"
  "consume_range_tombstone (query_result_builder env) r b = (False, b\<lparr>qrb_stop := False\<rparr>)"
  "consume_end_of_partition (query_result_builder env) = qrb_end_of_partition env"
  by (simp_all add: query_result_builder_def)

lemma builder_new: "builder_has env dk [] (qrb_new_partition env dk result_builder_empty)"
  by (simp add: builder_has_def qrb_new_partition_def add_partition_def result_builder_empty_def Let_def)

lemma not_empty_has:
  assumes "cm_has env dk lim R cm"
  obtains cm' where "partition_is_not_empty (query_result_builder env) (compact_for_query env now) cm = cm'"
    "cm_has env dk lim R cm'" "\<not> empty_partition cm'" "cm_tombstones cm' = cm_tombstones cm"
  using assms builder_new [of env dk]
  by (intro that [OF HOL.refl]) (auto simp: partition_is_not_empty_def cm_has_def Let_def)

lemma range_fragment_has:
  assumes "cm_has env dk lim R cm"
  obtains cm' where "consume_fragment s (query_result_builder env) (compact_for_query env now) (Range_fragment rt) cm = Inr (False, cm')"
    "cm_has env dk lim R cm'" "cm_tombstones cm' = accumulator_apply rt (cm_tombstones cm)"
proof -
  let ?cm = "cm\<lparr>cm_tombstones := accumulator_apply rt (cm_tombstones cm)\<rparr>"
  have "cm_has env dk lim R ?cm" using assms by (simp add: cm_has_def)
  then obtain cm1 where cm1: "partition_is_not_empty (query_result_builder env) (compact_for_query env now) ?cm = cm1"
    "cm_has env dk lim R cm1" "\<not> empty_partition cm1" "cm_tombstones cm1 = cm_tombstones ?cm"
    by (rule not_empty_has)
  show thesis
  proof (cases "\<not> can_purge_tombstone (compact_for_query env now) (Some dk) (tomb_of rt) \<and>
      tomb_of rt > partition_tombstone (accumulator_apply rt (cm_tombstones cm))")
    case True
    then show thesis
      using assms cm1
      by (intro that [of "cm1\<lparr>the_consumer := (the_consumer cm1)\<lparr>qrb_stop := False\<rparr>\<rparr>"])
        (auto simp: consume_fragment_def cm_consume_range_tombstone_def cm_has_def builder_has_def Let_def)
  next
    case False
    then show thesis
      using assms by (intro that [of ?cm]) (auto simp: consume_fragment_def cm_consume_range_tombstone_def cm_has_def Let_def)
  qed
qed

lemma end_fragment_has:
  assumes "plain_query env" "cm_has env dk lim R cm"
  obtains stop cm' where "cm_end_of_partition (query_result_builder env) (compact_for_query env now) cm = Inr (stop, cm')"
    "result_has env dk R (the_consumer cm')"
proof (cases "empty_partition cm")
  case True
  then show thesis
    using assms(2) by (intro that [of False cm]) (auto simp: cm_end_of_partition_def cm_has_def result_has_def result_builder_empty_def)
next
  case False
  then obtain b where "qrb_end_of_partition env (the_consumer cm) = Inr (False, b)" "result_has env dk R b"
    using builder_end [OF assms(1), of dk R "the_consumer cm"] assms(2) by (auto simp: cm_has_def)
  then show thesis
    using False assms(2) by (intro that) (auto simp: cm_end_of_partition_def cm_has_def Let_def)
qed

text \<open>A row: compaction tells whether it is live, and the live row is written.\<close>

lemma entry_compacts:
  assumes "entry_ok s e" "\<not> dummy e"
  obtains live cells m where
    "row_compact_and_expire (regular_def s) (dr_cells (re_row e)) (tombstone_for_entry e mp) now can_gc gcb = Inr (live, cells)"
    "marker_compact_and_expire can_gc (rt_tomb (tombstone_for_entry e mp)) now gcb (marker (re_row e)) =
       (m, marker_is_live_at (marker (re_row e)) (rt_tomb (tombstone_for_entry e mp)) now)"
    "entry_live s mp now e \<longleftrightarrow> marker_is_live_at (marker (re_row e)) (rt_tomb (tombstone_for_entry e mp)) now \<or> live"
    "row_fits (regular_def s) (dr_cells (re_row e))" "rt_ok (tombstone_for_entry e mp)"
proof -
  let ?t = "tombstone_for_entry e mp" and ?row = "re_row e"
  have fits: "row_fits (regular_def s) (dr_cells ?row)" "rt_ok ?t"
    using assms(1) row_tombstone_invariant [of "deleted_at ?row" row_tombstone_none]
    by (auto simp: entry_ok_def dr_fits_def tombstone_for_entry_def)
  obtain live cells where c: "row_compact_and_expire (regular_def s) (dr_cells ?row) ?t now can_gc gcb = Inr (live, cells)"
    and h: "has_any_live_data (regular_def s) (dr_cells ?row) (rt_tomb ?t) now = Inr live"
    using row_compact_reports_liveness [OF fits] by blast
  have "snd (marker_compact_and_expire can_gc (rt_tomb ?t) now gcb (marker ?row)) = marker_is_live_at (marker ?row) (rt_tomb ?t) now"
    using assms(1) by (intro marker_compact_reports_liveness) (simp add: entry_ok_def marker_ok_def)
  moreover have "entry_live s mp now e \<longleftrightarrow> marker_is_live_at (marker ?row) (rt_tomb ?t) now \<or> live"
    using h assms(2) by (auto simp: entry_live_def dr_is_live_def tombstone_for_entry_tomb Let_def)
  ultimately show thesis
    using c fits by (intro that [of live cells "fst (marker_compact_and_expire can_gc (rt_tomb ?t) now gcb (marker ?row))"])
      (auto simp: prod_eq_iff)
qed

definition row_result :: "('p, 'k :: linorder) query_env \<Rightarrow> 'k mutation_partition \<Rightarrow> i32 \<Rightarrow> 'k rows_entry \<Rightarrow> 'k qr_row" where
  "row_result env mp now e =
     \<lparr>qr_key = (if send_clustering_key (qe_slice env) then Some (re_key e) else None),
      qr_cells = map (\<lambda>i. Option.bind (find_cell (dr_cells (re_row e)) i)
        (visible_cell (qe_slice env) (regular_def (qe_schema env) i) (rt_tomb (tombstone_for_entry e mp)) now))
        (regular_columns (qe_slice env))\<rparr>"

lemma row_fragment_has:
  assumes "plain_query env" "cm_has env dk lim R cm" "entry_ok (qe_schema env) e" "\<not> dummy e"
    and acc: "tombstone_for_row (re_key e) (cm_tombstones cm) = (range_tombstone_for_row (re_key e) mp, acc)"
  obtains cm' where
    "consume_fragment (qe_schema env) (query_result_builder env) (compact_for_query env now) (Row_fragment (re_key e) (re_row e)) cm =
       Inr (entry_live (qe_schema env) mp now e \<and> length R + 1 = lim, cm')"
    "cm_has env dk lim (R @ (if entry_live (qe_schema env) mp now e then [row_result env mp now e] else [])) cm'"
    "cm_tombstones cm' = acc"
proof -
  let ?t = "tombstone_for_entry e mp" and ?cf = "compact_for_query env now" and ?s = "qe_schema env"
  let ?cm = "cm\<lparr>cm_tombstones := acc\<rparr>"
  obtain live cells m where c:
    "row_compact_and_expire (regular_def ?s) (dr_cells (re_row e)) ?t now (\<lambda>_. True) (gc_before ?cf) = Inr (live, cells)"
    "marker_compact_and_expire (\<lambda>_. True) (rt_tomb ?t) now (gc_before ?cf) (marker (re_row e)) =
       (m, marker_is_live_at (marker (re_row e)) (rt_tomb ?t) now)"
    "entry_live ?s mp now e \<longleftrightarrow> marker_is_live_at (marker (re_row e)) (rt_tomb ?t) now \<or> live"
    "row_fits (regular_def ?s) (dr_cells (re_row e))" "rt_ok ?t"
    by (rule entry_compacts [OF assms(3,4)])
  define cr where "cr = (if rt_tomb (deleted_at (re_row e)) \<le> range_tombstone_for_row (re_key e) mp \<or>
    can_purge_row_tombstone ?cf (Some dk) (deleted_at (re_row e)) then dr_remove_tombstone (re_row e) else re_row e)"
  have cr: "marker cr = marker (re_row e)" "dr_cells cr = dr_cells (re_row e)" by (simp_all add: cr_def dr_remove_tombstone_def)
  have dk: "current_dk cm = Some dk" using assms(2) by (simp add: cm_has_def)
  have t: "rt_apply_regular (deleted_at (re_row e)) (range_tombstone_for_row (re_key e) mp) = ?t"
    by (simp add: tombstone_for_entry_def)
  have "cm_has env dk lim R ?cm" using assms(2) by (simp add: cm_has_def)
  then obtain cm1 where cm1: "partition_is_not_empty (query_result_builder env) ?cf ?cm = cm1"
    "cm_has env dk lim R cm1" "\<not> empty_partition cm1" "cm_tombstones cm1 = acc"
    using not_empty_has [of env dk lim R ?cm now] by auto
  have row: "consume_fragment ?s (query_result_builder env) ?cf (Row_fragment (re_key e) (re_row e)) cm =
    (if entry_live ?s mp now e
     then and_then (remember_stop env (querier_clustering_row env (re_key e) (cr\<lparr>marker := m, dr_cells := cells\<rparr>) ?t (the_consumer cm1)))
       (\<lambda>(stop, b). let n = rows_in_current_partition cm1 + 1; cm = cm1\<lparr>the_consumer := b, rows_in_current_partition := n\<rparr>
         in Inr (if n = current_partition_limit cm then True else stop, cm))
     else Inr (False, ?cm))"
    unfolding consume_fragment_def cm_consume_row_def
    using acc c(1,2) by (simp add: cr c(3) cm1(1) t dk flip: cr_def)
  show thesis
  proof (cases "entry_live ?s mp now e")
    case True
    have has: "builder_has env dk R (the_consumer cm1)" using cm1(2,3) by (simp add: cm_has_def)
    have result: "\<lparr>qr_key = (if send_clustering_key (qe_slice env) then Some (re_key e) else None),
        qr_cells = qr_cells (row_result env mp now e)\<rparr> = row_result env mp now e"
      by (simp add: row_result_def)
    have cells: "get_compacted_row_slice (regular_def ?s) (qe_regular_kind env) (qe_slice env)
        (dr_cells (cr\<lparr>marker := m, dr_cells := cells\<rparr>)) (regular_columns (qe_slice env)) = Inr (qr_cells (row_result env mp now e))"
      using get_compacted_row_slice_visible [OF c(4,5,1), of "regular_columns (qe_slice env)" "qe_regular_kind env" "qe_slice env"] assms(1) by (simp add: plain_query_def row_result_def)
    obtain b where "remember_stop env (querier_clustering_row env (re_key e) (cr\<lparr>marker := m, dr_cells := cells\<rparr>) ?t (the_consumer cm1)) = Inr (False, b)"
      "builder_has env dk (R @ [row_result env mp now e]) b"
      using querier_row_has [OF assms(1) has cells, of "re_key e" ?t] unfolding result by blast
    then show thesis
      using True cm1 row
      by (intro that [of "cm1\<lparr>the_consumer := b, rows_in_current_partition := rows_in_current_partition cm1 + 1\<rparr>"])
        (auto simp: cm_has_def Let_def)
  next
    case False
    then show thesis using row assms(2) by (intro that [of ?cm]) (auto simp: cm_has_def)
  qed
qed

section \<open>The whole stream\<close>

lemma consume_ranges:
  assumes "cm_has env dk lim R cm" "acc_inv T seen P (cm_tombstones cm)" "wf_rts (seen @ rts)" "\<forall>rt \<in> set rts. \<forall>x \<in> P. cs rt \<le> x"
  obtains cm' where
    "\<forall>mfs. consume_stream s (query_result_builder env) (compact_for_query env now) (map Range_fragment rts @ mfs) cm =
       consume_stream s (query_result_builder env) (compact_for_query env now) mfs cm'"
    "cm_has env dk lim R cm'" "acc_inv T (seen @ rts) P (cm_tombstones cm')"
  using assms
proof (induction rts arbitrary: seen cm thesis)
  case (Cons rt rts)
  obtain cm1 where cm1: "consume_fragment s (query_result_builder env) (compact_for_query env now) (Range_fragment rt) cm = Inr (False, cm1)"
    "cm_has env dk lim R cm1" "cm_tombstones cm1 = accumulator_apply rt (cm_tombstones cm)"
    by (rule range_fragment_has [OF Cons.prems(2)])
  have "acc_inv T (seen @ [rt]) P (cm_tombstones cm1)"
    unfolding cm1(3) using Cons.prems(3-5) by (intro acc_inv_apply) auto
  from Cons.IH [OF _ cm1(2) this] Cons.prems(4,5) obtain cm' where
    "\<forall>mfs. consume_stream s (query_result_builder env) (compact_for_query env now) (map Range_fragment rts @ mfs) cm1 =
       consume_stream s (query_result_builder env) (compact_for_query env now) mfs cm'"
    "cm_has env dk lim R cm'" "acc_inv T ((seen @ [rt]) @ rts) P (cm_tombstones cm')"
    by auto
  then show ?case using cm1(1) by (intro Cons.prems(1) [of cm']) simp_all
qed auto

lemma next_partition_weave: "next_partition (weave rows rts @ [End_fragment]) = []"
proof -
  have "\<forall>mf \<in> set (weave rows rts). case mf of Start_fragment _ _ \<Rightarrow> False | _ \<Rightarrow> True"
    by (induction rows rts rule: weave.induct) auto
  then show ?thesis by (simp add: next_partition_def)
qed

lemma deletion_split:
  assumes "wf_rts rts"
  shows "deletion rts (At k 0) = deletion (takeWhile (\<lambda>rt. cs rt < At k 0) rts) (At k 0)"
proof -
  let ?P = "\<lambda>rt. cs rt < At k 0"
  have "At k 0 < cs d" if d: "d \<in> set (dropWhile ?P rts)" for d
  proof -
    obtain e es where es: "dropWhile ?P rts = e # es" using d by (cases "dropWhile ?P rts") auto
    have "\<not> cs e < At k 0" using hd_dropWhile [of ?P rts] es by simp
    then have "At k 0 < cs e" by (simp add: not_less le_less) (simp add: cs_def)
    moreover have "wf_rts (takeWhile ?P rts @ e # es)" using assms by (metis es takeWhile_dropWhile_id)
    then have "d = e \<or> ce e \<le> cs d" "cs e < ce e" using d es by (auto dest: properD(3))
    then have "cs e \<le> cs d" by auto
    ultimately show ?thesis by (rule less_le_trans)
  qed
  then have "deletion (dropWhile ?P rts) (At k 0) = tombstone_none" by (intro deletion_before) simp
  moreover have "deletion rts (At k 0) = max (deletion (takeWhile ?P rts) (At k 0)) (deletion (dropWhile ?P rts) (At k 0))"
    by (metis deletion_append takeWhile_dropWhile_id)
  ultimately show ?thesis by simp
qed

definition row_positions :: "'k rows_entry list \<Rightarrow> 'k weighted set" where
  "row_positions es = (\<lambda>e. At (re_key e) 0) ` set es"

text \<open>With the rows \<open>R\<close> already written and the tombstones \<open>seen\<close> already consumed, what is left of the stream
  adds the live rows that are left, up to the limit.\<close>

lemma consume_weave:
  assumes query: "plain_query env" and T: "tombstone_none \<le> T"
    and "cm_has env dk lim R cm" "length R < lim" "acc_inv T seen (row_positions es) (cm_tombstones cm)" "wf_rts (seen @ rts)"
    and "\<forall>d \<in> set seen. \<forall>x \<in> row_positions es. cs d \<le> x" "sorted_wrt (\<lambda>d e. At (re_key d) 0 < At (re_key e) 0) es"
    and "\<forall>e \<in> set es. entry_ok (qe_schema env) e \<and> \<not> dummy e \<and>
      range_tombstone_for_row (re_key e) mp = max T (deletion (seen @ rts) (At (re_key e) 0))"
  shows "\<exists>cm'. consume_stream (qe_schema env) (query_result_builder env) (compact_for_query env now)
      (weave (map (\<lambda>e. (re_key e, re_row e)) es) rts @ [End_fragment]) cm = Inr cm' \<and>
    result_has env dk (R @ map (row_result env mp now) (take (lim - length R) (filter (entry_live (qe_schema env) mp now) es)))
      (the_consumer cm')"
  using assms(3-)
proof (induction es arbitrary: R cm seen rts)
  case Nil
  let ?stream = "consume_stream (qe_schema env) (query_result_builder env) (compact_for_query env now)"
  obtain cm1 where cm1: "\<forall>mfs. ?stream (map Range_fragment rts @ mfs) cm = ?stream mfs cm1" "cm_has env dk lim R cm1"
    by (rule consume_ranges [OF Nil(1,3,4)]) (simp add: row_positions_def)
  obtain stop cm' where "cm_end_of_partition (query_result_builder env) (compact_for_query env now) cm1 = Inr (stop, cm')"
    "result_has env dk R (the_consumer cm')"
    by (rule end_fragment_has [OF query cm1(2)])
  then show ?case by (cases stop) (simp_all add: cm1(1) consume_fragment_def)
next
  case (Cons e es)
  let ?stream = "consume_stream (qe_schema env) (query_result_builder env) (compact_for_query env now)"
  let ?P = "\<lambda>rt. cs rt < At (re_key e) 0" and ?live = "entry_live (qe_schema env) mp now"
  let ?here = "takeWhile ?P rts" and ?later = "dropWhile ?P rts"
  have first: "\<forall>x \<in> row_positions (e # es). At (re_key e) 0 \<le> x"
    using Cons.prems(6) by (auto simp: row_positions_def)
  have wf: "wf_rts ((seen @ ?here) @ ?later)" using Cons.prems(4) by simp
  have wf_rts: "wf_rts rts" "wf_rts (seen @ ?here)"
    using Cons.prems(4) wf_rts_append [of seen rts] wf wf_rts_append [of "seen @ ?here" ?later] by blast+
  have here: "\<forall>rt \<in> set ?here. \<forall>x \<in> row_positions (e # es). cs rt \<le> x"
  proof (intro ballI)
    fix rt x assume "rt \<in> set ?here" "x \<in> row_positions (e # es)"
    then have "cs rt < At (re_key e) 0" "At (re_key e) 0 \<le> x" using first set_takeWhileD [of rt ?P rts] by simp_all
    then show "cs rt \<le> x" by simp
  qed
  obtain cm1 where cm1: "\<forall>mfs. ?stream (map Range_fragment ?here @ mfs) cm = ?stream mfs cm1" "cm_has env dk lim R cm1"
    "acc_inv T (seen @ ?here) (row_positions (e # es)) (cm_tombstones cm1)"
    by (rule consume_ranges [OF Cons.prems(1,3) wf_rts(2) here])
  have seen: "\<forall>d \<in> set (seen @ ?here). \<forall>x \<in> row_positions (e # es). cs d \<le> x" using Cons.prems(5) here by auto
  then have "\<forall>d \<in> set (seen @ ?here). cs d \<le> At (re_key e) 0" by (simp add: row_positions_def)
  moreover have "At (re_key e) 0 \<in> row_positions (e # es)" by (simp add: row_positions_def)
  ultimately obtain acc where
    "tombstone_for_row (re_key e) (cm_tombstones cm1) = (max T (deletion (seen @ ?here) (At (re_key e) 0)), acc)"
    and acc: "acc_inv T (seen @ ?here) (row_positions (e # es)) acc"
    using tombstone_for_row_seen [OF cm1(3) wf_rts(2) _ first _ T] by metis
  moreover have del: "deletion (seen @ ?here) (At (re_key e) 0) = deletion (seen @ rts) (At (re_key e) 0)"
    using deletion_split [OF wf_rts(1)] by simp
  ultimately have t: "tombstone_for_row (re_key e) (cm_tombstones cm1) = (range_tombstone_for_row (re_key e) mp, acc)"
    using Cons.prems(7) by simp
  obtain cm2 where cm2: "consume_fragment (qe_schema env) (query_result_builder env) (compact_for_query env now)
      (Row_fragment (re_key e) (re_row e)) cm1 = Inr (?live e \<and> length R + 1 = lim, cm2)"
    "cm_has env dk lim (R @ (if ?live e then [row_result env mp now e] else [])) cm2" "cm_tombstones cm2 = acc"
    by (rule row_fragment_has [OF query cm1(2) _ _ t]) (use Cons.prems(7) in auto)
  let ?R = "R @ (if ?live e then [row_result env mp now e] else [])"
  let ?rest = "weave (map (\<lambda>e. (re_key e, re_row e)) es) ?later @ [End_fragment]"
  show ?case
  proof (cases "?live e \<and> length R + 1 = lim")
    case True
    obtain stop cm3 where "cm_end_of_partition (query_result_builder env) (compact_for_query env now) cm2 = Inr (stop, cm3)"
      "result_has env dk ?R (the_consumer cm3)"
      by (rule end_fragment_has [OF query cm2(2)])
    then show ?thesis using True cm2(1) by (cases stop) (auto simp: cm1(1) next_partition_weave)
  next
    case False
    have sub: "row_positions es \<subseteq> row_positions (e # es)" by (auto simp: row_positions_def)
    have "\<exists>cm'. ?stream ?rest cm2 = Inr cm' \<and>
        result_has env dk (?R @ map (row_result env mp now) (take (lim - length ?R) (filter ?live es))) (the_consumer cm')"
    proof (rule Cons.IH [OF cm2(2)])
      show "length ?R < lim" using False Cons.prems(2) by auto
      show "acc_inv T (seen @ ?here) (row_positions es) (cm_tombstones cm2)"
        unfolding cm2(3) by (rule acc_inv_subset [OF acc sub])
      show "\<forall>d \<in> set (seen @ ?here). \<forall>x \<in> row_positions es. cs d \<le> x" using seen sub by blast
    qed (use wf Cons.prems(6,7) in simp_all)
    moreover have "?R @ map (row_result env mp now) (take (lim - length ?R) (filter ?live es)) =
        R @ map (row_result env mp now) (take (lim - length R) (filter ?live (e # es)))"
      using Suc_diff_Suc [OF Cons.prems(2), symmetric] by simp
    ultimately show ?thesis using False cm2(1) by (simp add: cm1(1))
  qed
qed

lemma positions_sorted:
  assumes "rows_ok rows" "at_keys rows"
  shows "sorted_wrt (\<lambda>d e. At (re_key d) 0 < At (re_key e) 0) (filter (\<lambda>e. \<not> dummy e) rows)"
  using assms by (induction rows) (auto simp: at_keys_def)

definition partition_view :: "'k mutation_partition \<Rightarrow> 'k mutation_partition list \<Rightarrow> 'k mutation_partition" where
  "partition_view v older = v\<lparr>mp_tombstone := snapshot_partition_tombstone v older\<rparr>"

lemma covering_deletion:
  assumes "rtl_ok (row_tombstones v)" "tombstone_none \<le> snapshot_partition_tombstone v older"
  shows "range_tombstone_for_row k (partition_view v older) =
    max (snapshot_partition_tombstone v older) (deletions (row_tombstones v) (At k 0))"
  using assms search_is_deletion [OF assms(1), of k]
  by (auto simp: range_tombstone_for_row_def partition_view_def tomb_apply_max max_absorb1)

lemma present_or_none: "T = tombstone_none \<or> tomb_present T \<Longrightarrow> tombstone_none \<le> T"
proof (elim disjE)
  assume "tomb_present T"
  then have "sint (timestamp T) \<noteq> sint missing_timestamp" by (simp add: tomb_present_def)
  then have "sint missing_timestamp < sint (timestamp T)" using missing_timestamp_least [of "timestamp T"] by linarith
  then show ?thesis by (simp add: less_eq_tombstone_def tomb_compare_def tombstone_none_def)
qed simp

lemma start_fragment_has:
  assumes "T = tombstone_none \<or> tomb_present T"
  obtains cm where "consume_fragment s (query_result_builder env) (compact_for_query env now) (Start_fragment dk T)
      (compactor_start rows parts result_builder_empty) = Inr (False, cm)"
    "cm_has env dk (min rows (partition_row_limit (compact_for_query env now))) [] cm"
    "acc_inv T [] P (cm_tombstones cm)"
  using assms
  by (intro that [of "case consume_fragment s (query_result_builder env) (compact_for_query env now) (Start_fragment dk T)
      (compactor_start rows parts result_builder_empty) of Inr (_, cm) \<Rightarrow> cm"])
    (auto simp: consume_fragment_def cm_new_partition_def cm_consume_tombstone_def compactor_start_def cm_has_def acc_inv_def
      accumulator_clear_def accumulator_empty_def set_partition_tombstone_def update_current_tombstone_def Let_def)

lemma snapshot_query_live_rows:
  assumes query: "plain_query env" "row_ranges (qe_slice env) dk = [full_range]"
    and v: "mp_fits (qe_schema env) v" "at_keys (mp_rows v)"
      "\<forall>e \<in> set (mp_rows v). rt_ok (deleted_at (re_row e)) \<and> marker_ok (marker (re_row e))"
    and static: "snapshot_static_row (qe_schema env) v older = Inr sr" "row_size sr = 0"
    and T: "snapshot_partition_tombstone v older = tombstone_none \<or> tomb_present (snapshot_partition_tombstone v older)"
    and lim: "0 < rows" "0 < parts" "0 < slice_row_limit (qe_slice env)"
  shows "\<exists>b. snapshot_query env dk v older rows parts now = Inr b \<and>
    result_has env dk (map (row_result env (partition_view v older) now)
      (take (min rows (partition_row_limit (compact_for_query env now)))
        (filter (entry_live (qe_schema env) (partition_view v older) now) (mp_rows v)))) b"
proof -
  let ?s = "qe_schema env" and ?T = "snapshot_partition_tombstone v older" and ?mp = "partition_view v older"
  let ?lim = "min rows (partition_row_limit (compact_for_query env now))" and ?es = "filter (\<lambda>e. \<not> dummy e) (mp_rows v)"
  have ok: "rtl_ok (row_tombstones v)" "rows_ok (mp_rows v)" using v(1) by (simp_all add: mp_fits_def rows_fit_def)
  have none: "tombstone_none \<le> ?T" using T by (rule present_or_none)
  obtain rts l where rts: "read_range ?s v full_range rtl_empty = Inr (weave (plain_rows (mp_rows v)) rts :: ('a, 'b) fragment list, l)"
    "wf_rts rts" "\<forall>x. deletion rts x = deletions (row_tombstones v) x"
    by (rule read_range_reads [OF ok v(2)])
  obtain cm where cm: "consume_fragment ?s (query_result_builder env) (compact_for_query env now) (Start_fragment dk ?T)
      (compactor_start rows parts result_builder_empty) = Inr (False, cm)" "cm_has env dk ?lim [] cm"
    "acc_inv ?T [] (row_positions ?es) (cm_tombstones cm)"
    by (rule start_fragment_has [OF T])
  have "\<exists>cm'. consume_stream ?s (query_result_builder env) (compact_for_query env now)
      (weave (map (\<lambda>e. (re_key e, re_row e)) ?es) rts @ [End_fragment]) cm = Inr cm' \<and>
    result_has env dk ([] @ map (row_result env ?mp now) (take (?lim - length ([] :: 'b qr_row list)) (filter (entry_live ?s ?mp now) ?es)))
      (the_consumer cm')"
  proof (rule consume_weave [OF query(1) none cm(2) _ cm(3)])
    show "length ([] :: 'b qr_row list) < ?lim" using lim by (simp add: compact_for_query_def)
    show "wf_rts ([] @ rts)" using rts(2) by simp
    show "\<forall>d \<in> set []. \<forall>x \<in> row_positions ?es. cs d \<le> x" by simp
    show "sorted_wrt (\<lambda>d e. At (re_key d) 0 < At (re_key e) 0) ?es" by (rule positions_sorted [OF ok(2) v(2)])
    show "\<forall>e \<in> set ?es. entry_ok ?s e \<and> \<not> dummy e \<and>
        range_tombstone_for_row (re_key e) ?mp = max ?T (deletion ([] @ rts) (At (re_key e) 0))"
      using v(1,3) covering_deletion [OF ok(1) none] rts(3) by (simp add: entry_ok_def mp_fits_def rows_fit_def)
  qed
  then obtain cm' where cm': "consume_stream ?s (query_result_builder env) (compact_for_query env now)
      (weave (plain_rows (mp_rows v)) rts @ [End_fragment]) cm = Inr cm'"
    "result_has env dk (map (row_result env ?mp now) (take ?lim (filter (entry_live ?s ?mp now) ?es))) (the_consumer cm')"
    unfolding plain_rows_def by (simp del: filter_filter) blast
  have "filter (entry_live ?s ?mp now) ?es = filter (entry_live ?s ?mp now) (mp_rows v)"
    unfolding filter_filter by (rule filter_cong) (auto simp: entry_live_def)
  moreover have "snapshot_query env dk v older rows parts now = Inr (the_consumer cm')"
    using cm(1) cm'(1) rts(1) static lim by (simp add: snapshot_query_def snapshot_flat_reader_def query(2) data_query_def)
  ultimately show ?thesis using cm'(2) by simp
qed

text \<open>C8. A data query returns exactly the live rows. Take a snapshot whose newest version \<open>v\<close> is well formed and
  whose static row is empty, and a query of all rows for columns that are not collections, without short
  reads: the query succeeds, and its result holds the rows of \<open>v\<close> that are live at the time of the query under the
  partition tombstone of all versions, in order and up to the limits, and no partition at all if there is none.
  In each row stand, column by column, the cells that no tombstone covers and that have not expired, with their
  value and with the most recent version for the client.\<close>

theorem query_returns_live_rows:
  assumes "plain_query env" "row_ranges (qe_slice env) dk = [full_range]"
    and "mp_fits (qe_schema env) v" "at_keys (mp_rows v)"
      "\<forall>e \<in> set (mp_rows v). rt_ok (deleted_at (re_row e)) \<and> marker_ok (marker (re_row e))"
    and "snapshot_static_row (qe_schema env) v older = Inr sr" "row_size sr = 0"
    and "snapshot_partition_tombstone v older = tombstone_none \<or> tomb_present (snapshot_partition_tombstone v older)"
    and "0 < rows" "0 < parts" "0 < slice_row_limit (qe_slice env)"
  shows "\<exists>b. snapshot_query env dk v older rows parts now = Inr b \<and>
    result_has env dk (map (row_result env (partition_view v older) now)
      (take (min rows (partition_row_limit (compact_for_query env now)))
        (filter (entry_live (qe_schema env) (partition_view v older) now) (mp_rows v)))) b"
  by (rule snapshot_query_live_rows [OF assms])

definition example_slice :: "(nat, nat) partition_slice" where
  "example_slice =
     \<lparr>send_clustering_key = True, send_partition_key = False, send_timestamp = True, send_expiry = False, send_ttl = False,
      distinct_option = False, collections_as_maps = False, allow_short_read = False, row_ranges = (\<lambda>_. [full_range]),
      static_columns = [], regular_columns = [0, 40], using_32_bits_for_collections = True, slice_row_limit = 10\<rparr>"

definition example_env :: "(nat, nat) query_env" where
  "example_env =
     \<lparr>qe_schema = example_schema, qe_static_kind = (\<lambda>_. Map_type), qe_regular_kind = (\<lambda>_. Map_type), qe_slice = example_slice,
      qe_request = Result_and_digest, qe_full = (\<lambda>_. False)\<rparr>"

lemma example_query:
  "plain_query example_env" "row_ranges (qe_slice example_env) dk = [full_range]" "qe_schema example_env = example_schema"
  "0 < slice_row_limit (qe_slice example_env)"
  by (simp_all add: plain_query_def example_env_def example_slice_def requested_result_def plain_column_def example_schema_def)

lemma example_mp_query:
  "at_keys (mp_rows (example_mp 3))"
  "\<forall>e \<in> set (mp_rows (example_mp 3)). rt_ok (deleted_at (re_row e)) \<and> marker_ok (marker (re_row e))"
  "snapshot_static_row example_schema (example_mp 3) [] = Inr row_empty" "row_size row_empty = 0"
  "snapshot_partition_tombstone (example_mp 3) [] = tombstone_none"
  by (simp_all add: at_keys_def example_mp_def mutation_partition_new_def rows_entry_row_def re_at_def marker_ok_def
      row_marker_at_def no_ttl_def snapshot_static_row_def snapshot_partition_tombstone_def row_empty_def)

lemma example_mp_tombstone:
  "mp_rows (example_mp 3) = [rows_entry_row [5] \<lparr>deleted_at = row_tombstone_none, marker = row_marker_at 3, dr_cells = example_row 40 3\<rparr>]"
  "range_tombstone_for_row k (partition_view (example_mp 3) []) = tombstone_none"
  by (simp_all add: example_mp_def mutation_partition_new_def partition_view_def range_tombstone_for_row_def rtl_empty_def
      snapshot_partition_tombstone_def)

lemma example_live:
  "marker_is_live_at (row_marker_at 3) tombstone_none 100" "cell_is_live_at (make_live 3 [7]) tombstone_none 100 False"
  by (simp_all add: marker_is_live_at_def cell_is_live_at_def is_covered_by_def has_expired_def row_marker_at_def tombstone_none_def
      missing_timestamp_def is_missing_def no_ttl_def dead_ttl_def)

lemma example_mp_rows:
  "filter (entry_live example_schema (partition_view (example_mp 3) []) 100) (mp_rows (example_mp 3)) = mp_rows (example_mp 3)"
  using example_live(1)
  by (simp add: example_mp_tombstone entry_live_def dr_is_live_def rows_entry_row_def tomb_apply_max Let_def
      rt_tomb_def row_tombstone_none_def shadowable_none_def)

lemma example_row_40: "find_cell (example_row 40 3) 0 = None" "find_cell (example_row 40 3) 40 = Some (cell_of (make_live 3 [7]))"
  by (simp_all add: example_row_def append_cell_def row_empty_def row_cells_def set_insert_def max_vector_size_def find_cell_def)

lemma example_row_result:
  "map (row_result example_env (partition_view (example_mp 3) []) 100) (mp_rows (example_mp 3)) =
    [\<lparr>qr_key = Some [5], qr_cells = [None, Some \<lparr>qr_timestamp = Some 3, qr_expiry = None, qr_value = [7],
       qr_most_recent_version = 0, qr_ttl = None\<rparr>]\<rparr>]"
  using example_live(2)
  by (simp add: example_mp_tombstone row_result_def example_env_def example_slice_def example_schema_def rows_entry_row_def
      example_row_40 tombstone_for_entry_def visible_cell_def cell_of_def rt_tomb_def rt_apply_regular_def
      row_tombstone_none_def shadowable_none_def shadowable_apply_tomb_def tomb_apply_max Let_def)

theorem query_returns_live_rows_witness:
  "\<exists>b. snapshot_query example_env 1 (example_mp 3) [] 5 5 100 = Inr b \<and>
     partitions b = [\<lparr>qr_partition_key = None, qr_static_cells = [], qr_rows = [\<lparr>qr_key = Some [5],
       qr_cells = [None, Some \<lparr>qr_timestamp = Some 3, qr_expiry = None, qr_value = [7], qr_most_recent_version = 0, qr_ttl = None\<rparr>]\<rparr>]\<rparr>]"
proof -
  have all: "take (min 5 (partition_row_limit (compact_for_query example_env 100))) (mp_rows (example_mp 3)) = mp_rows (example_mp 3)"
    by (simp add: compact_for_query_def example_env_def example_slice_def example_mp_tombstone)
  have "\<exists>b. snapshot_query example_env 1 (example_mp 3) [] 5 5 100 = Inr b \<and>
      result_has example_env 1 (map (row_result example_env (partition_view (example_mp 3) []) 100)
        (take (min 5 (partition_row_limit (compact_for_query example_env 100)))
          (filter (entry_live (qe_schema example_env) (partition_view (example_mp 3) []) 100) (mp_rows (example_mp 3))))) b"
    by (rule query_returns_live_rows [where sr = row_empty]) (simp_all add: example_query example_mp_fits example_mp_query)
  then show ?thesis
    unfolding example_query(3) example_mp_rows all example_row_result
    by (auto simp: result_has_def no_static_cells_def example_env_def example_slice_def)
qed

text \<open>The reader looks at one version only: a row that stands in an older version of the snapshot is not returned.\<close>

lemma older_versions_not_read:
  "entry_live example_schema (example_mp 3) 100 (hd (mp_rows (example_mp 3)))"
  "\<exists>b. snapshot_query example_env 1 mutation_partition_new [example_mp 3] 5 5 100 = Inr b \<and> partitions b = []"
proof -
  have "partition_view (example_mp 3) [] = example_mp 3"
    by (simp add: partition_view_def snapshot_partition_tombstone_def)
  then show "entry_live example_schema (example_mp 3) 100 (hd (mp_rows (example_mp 3)))"
    using example_mp_rows by (simp add: example_mp_tombstone split: if_splits)
  have new: "mp_fits example_schema (mutation_partition_new :: nat mutation_partition)"
    by (simp add: mp_fits_def mutation_partition_new_def rows_fit_def row_fits_def row_empty_def row_ok_def row_cells_def max_vector_size_def)
  have static: "snapshot_static_row example_schema mutation_partition_new [example_mp 3] = Inr row_empty"
    by (simp add: snapshot_static_row_def mutation_partition_new_def example_mp_def row_apply_def row_cells_def row_empty_def
        row_reserve_for_def)
  have T: "snapshot_partition_tombstone mutation_partition_new [example_mp 3] = tombstone_none"
    by (simp add: snapshot_partition_tombstone_def mutation_partition_new_def example_mp_def tomb_apply_def)
  show "\<exists>b. snapshot_query example_env 1 mutation_partition_new [example_mp 3] 5 5 100 = Inr b \<and> partitions b = []"
    using snapshot_query_live_rows [of example_env 1 mutation_partition_new "[example_mp 3]" row_empty 5 5 100]
      example_query new static T example_mp_query(4)
    by (simp add: mutation_partition_new_def at_keys_def result_has_def) blast
qed

text \<open>\<open>retract\<close> cancels a partition in the result but not in the digest: the key was fed before the position was
  remembered. A partition of which only a range tombstone within its grace period is left is not in the result
  and still changes the digest; without the tombstone the digest is empty.\<close>

lemma retracted_partition_in_digest:
  assumes "requested_digest (qe_request env)" "\<not> allow_short_read (qe_slice env)"
    and "\<not> can_purge_tombstone (compact_for_query env now) (Some dk) (tomb_of rt)" "tombstone_none < tomb_of rt"
    and "0 < rows" "0 < parts" "0 < slice_row_limit (qe_slice env)"
  shows "\<exists>b. data_query env [Start_fragment dk tombstone_none, Range_fragment rt, End_fragment] rows parts now = Inr b \<and>
      partitions b = [] \<and> digest b = [Hash_partition_key dk]"
    and "\<exists>b. data_query env [Start_fragment dk tombstone_none, End_fragment] rows parts now = Inr b \<and> partitions b = [] \<and> digest b = []"
proof -
  note defs = data_query_def consume_fragment_def cm_new_partition_def compactor_start_def cm_end_of_partition_def
    result_builder_empty_def tomb_present_def tombstone_none_def Let_def
  show "\<exists>b. data_query env [Start_fragment dk tombstone_none, End_fragment] rows parts now = Inr b \<and> partitions b = [] \<and> digest b = []"
    using assms by (simp add: defs)
  have "partition_tombstone (accumulator_apply rt (accumulator_clear (accumulator_empty False))) = tombstone_none"
    by (simp add: accumulator_apply_def accumulator_clear_def accumulator_empty_def drop_unneeded_tombstones_def
        update_current_tombstone_def Let_def)
  moreover obtain b where "qrb_end_of_partition env ((qrb_new_partition env dk result_builder_empty)\<lparr>qrb_stop := False\<rparr>) = Inr (False, b)"
    "partitions b = []" "digest b = [Hash_partition_key dk]"
  proof -
    let ?b = "(qrb_new_partition env dk result_builder_empty)\<lparr>qrb_stop := False\<rparr>"
    have b: "digest_pos ?b = [Hash_partition_key dk]" "partitions ?b = []" "rows_wr ?b = None" "live_clustering_rows ?b = 0"
      using assms(1) by (simp_all add: qrb_new_partition_def add_partition_def result_builder_empty_def Let_def)
    obtain b1 where "prepare_writers env ?b = Inr b1" "digest_pos b1 = digest_pos ?b" "partitions b1 = []"
      "live_clustering_rows b1 = 0" "\<not> live_data_in_static_row b1" "\<not> qrb_stop b1"
      using b by (cases "requested_result (qe_request env)"; cases "static_columns (qe_slice env) = []")
        (auto simp: prepare_writers_def query_static_row_def empty_row_slices Let_def assms(1,2))
    then show thesis
      using assms(2) b by (intro that [of "pw_retract b1"])
        (auto simp: qrb_end_of_partition_def querier_end_def pw_retract_def Let_def)
  qed
  ultimately show "\<exists>b. data_query env [Start_fragment dk tombstone_none, Range_fragment rt, End_fragment] rows parts now = Inr b \<and>
      partitions b = [] \<and> digest b = [Hash_partition_key dk]"
    using assms by (auto simp: defs cm_consume_range_tombstone_def partition_is_not_empty_def)
qed

end
