(* ===== verification/Spec2Isabelle.thy ===== *)
theory Spec2Isabelle
  imports Mvcc_Findings Sessions Port_Partition Query_Properties
begin

text \<open>
  This library verifies the storage engine, the write coordination and the client library of Scylla-PORT
  (\<open>src/Scylla-moon\<close>), a ScyllaDB in which read-only transactions take one round of messages: every write of a
  partition creates a new version with a number, a client sends the version it reads at with each read and
  learns newer versions from the replies, and a server promotes the version of a write above every version
  that has already been read.

  \<^bold>\<open>Parts of the program and their theories.\<close> A theory is named after what it models; the text at its head names
  the source files, and its definitions follow their functions in order.

  \<^item> \<open>Prelude\<close>: widths of integers, three-way comparisons, and the interfaces \<open>tri_preorder\<close>, \<open>mergeable\<close> and
    \<open>reversibly_mergeable\<close> (\<open>reversibly_mergeable.hh\<close>), which the theories below interpret on their own operations.
  \<^item> \<open>Tombstones\<close> (\<open>tombstone.hh\<close>, \<open>mutation_partition.hh\<close>): deletion times, row markers and row tombstones.
  \<^item> \<open>Atomic_Cell\<close> (\<open>atomic_cell.hh\<close>, \<open>atomic_cell_or_collection.hh\<close>, \<open>database.cc\<close>): the byte layout of cells and the
    order in which cells win.
  \<^item> \<open>Combine\<close>, \<open>Uuid\<close>, \<open>Counters\<close>, \<open>Collections\<close> (\<open>combine.hh\<close>, \<open>utils/UUID_gen.cc\<close>, \<open>counters.cc\<close>, \<open>types.cc\<close>): merges of
    sorted lists by key, the generator of counter ids, counter cells and collections.
  \<^item> \<open>Row\<close> (\<open>class row\<close>): both storage forms of a row, merge with rollback, equality, difference, compaction.
  \<^item> \<open>Clustering\<close>, \<open>Range_Tombstones\<close>, \<open>Range_Tombstone_Properties\<close> (\<open>clustering_bounds_comparator.hh\<close>,
    \<open>position_in_partition.hh\<close>, \<open>range_tombstone_list.cc\<close>): the order of positions and lists of range deletions with
    their undo log.
  \<^item> \<open>Mutation_Partition\<close>, \<open>Partition_Merge\<close>, \<open>Partition_Visitors\<close>, \<open>Partition_Compaction\<close> (\<open>mutation_partition.cc\<close> and
    the visitors): partitions made of the parts above.
  \<^item> \<open>Anchorless_List\<close>, \<open>Partition_Version\<close>, \<open>Mvcc\<close>, \<open>Mvcc_Properties\<close>, \<open>Mvcc_Findings\<close> (\<open>utils/anchorless_list.hh\<close>,
    \<open>partition_version.cc\<close>): the list of versions of a partition at the level of pointers, PORT's reads, writes
    and garbage collection. \<open>partition_entry\<close> calls a partition through \<open>partition_ops\<close>; \<open>Port_Partition\<close> fills it with
    the partitions of \<open>Mutation_Partition\<close>.
  \<^item> \<open>Query_Reader\<close>, \<open>Query\<close>, \<open>Query_Properties\<close> (\<open>partition_snapshot_reader.hh\<close>, \<open>mutation_compactor.hh\<close>,
    \<open>mutation_partition.cc\<close>, \<open>query-result-writer.hh\<close>): the fragments a replica reads from a snapshot, their
    compaction, and the result of a data query with the version that travels to the client.
  \<^item> \<open>Heat_Load_Balance\<close>, \<open>Consistency_Level\<close>, \<open>Storage_Proxy\<close>, \<open>Write_Properties\<close> (\<open>db/heat_load_balance.cc\<close>,
    \<open>db/consistency_level.cc\<close>, \<open>service/storage_proxy.cc\<close>, \<open>seastar/core/future-util.hh\<close>): which replicas a read
    asks, by cache hit rate or by order, and how a coordinator waits for replicas and collects the commit version.
  \<^item> \<open>Memtable\<close> (\<open>memtable.cc\<close>), \<open>Client\<close> (\<open>ClientView.java\<close>, \<open>CassandraClient10.java\<close>), \<open>Sessions\<close>: the partitions of a
    server, the client library, and the whole system as a step relation over clients, batches and memtables.

  \<^bold>\<open>How code is rendered.\<close> A class is a record, an enumeration or tagged union a datatype, and each function one
  definition that returns the changed state. Integers keep their width as words; signed ones are read with
  \<^const>\<open>sint\<close>. \<^const>\<open>None\<close> stands for what the language leaves undefined, a failed assertion, or a loop that does not
  end; exceptions are values of a sum type; the precondition that an accessor asserts is a precondition of its
  definition; floats are rationals; a failing allocation is an argument that says which allocation
  fails. Pointers matter where the code is about sharing: the versions of a partition and the nodes of range
  tombstone lists live in an explicit memory. Elsewhere an intrusive set is the list of its elements, and an
  iterator the part of the list behind it. Code outside \<open>src\<close> and code that a generator writes is an argument: the
  Thrift client, the clock, the endpoints of a key, the comparators of collection keys.

  Loops that follow a list end with it. The loop of \<open>range_tombstone_list::insert_from\<close>, which erases, splits
  and inserts while it runs, is proved to end on every input, and the search for a version is a partial function that
  is shown to be defined on every reachable state. One definition has a bound on its rounds, the loop of the snapshot
  reader; the bound its caller gives, one round for every row and range tombstone and one to find the end, is
  shown to suffice.

  \<^bold>\<open>What is shown.\<close>
  \<^item> Sessions: a client reads its own acknowledged writes, up to the cap on versions, in every interleaving, with
    lost replies, retries and repeated messages; version numbers stay below the client's cap, so nothing overflows or wraps around; a
    repeated write changes nothing; all attempts of an insert propose one version.
  \<^item> Versions: repeatable reads at a version, the commit version of a write, the version a read is served from (the
    newest one not newer than asked for, or else the newest),
    isolation of snapshots, and the invariant of every reachable entry with its list, snapshots and counters. A
    write of a serialised partition is read back with its contents and its commit version.
  \<^item> Writes: a write is acknowledged at most once and only when enough replicas have answered, and it is
    acknowledged once its live targets answer; a read that together with the write contacts more replicas than there
    are meets the acknowledged write, if it contacts distinct ones; a batch reports the largest commit version; the accounting of writes in the
    background.
  \<^item> Partitions, rows, range tombstones, counters, collections: merges under failing allocations either complete
    or leave the target as it was (counter updates excepted); merged contents; order independence; difference; compaction against
    liveness; equality; taking a partition apart and rebuilding it.
  \<^item> Queries: a data query returns exactly the live rows of the version it reads, in order and up to the limits, with
    the live cells of the requested columns and their versions. The compaction sees each range tombstone once and
    still applies to every row the newest deletion that covers it.
  \<^item> Lists, cells, ids: insertion, removal and relocation in the intrusive list; the byte layout of cells; unique time
    UUIDs; parse errors of collections.
  \<^item> Defects of the code, each with a lemma: garbage collection dereferences a null pointer when the oldest version
    is being read, and leaks versions; a write without a version changes what has been read; applying in place
    changes an open snapshot; relocation loses version numbers; a merge in set storage loses the version of a
    cell; a difference of rows drops a regular tombstone; EACH_QUORUM with pending endpoints; a quorum read that
    asks one replica twice, because the clipping of probabilities misses those its scaling lifts; a read past the
    end of an empty list in their redistribution; a client at the cap
    loses its writes; a read below all versions falls back to the newest; a retried insert writes empty values; a
    read does not return rows that stand in older versions only; a retracted partition stays in the digest.

  \<^bold>\<open>Assumptions.\<close> The theorems on versions take a version counter that is not at its maximum as a hypothesis;
  \<open>Sessions\<close> discharges it for clients that use the client library. There a key has one replica; several replicas
  are the subject of \<open>Write_Properties\<close>, which shows when answers suffice and not what a version number means across
  replicas. The invariant of entries covers the writes, reads and snapshots of PORT; the in-place \<open>apply\<close> and the
  relocation by the allocator are modelled and shown to break it.

  Queries are verified for all rows of a partition, columns that are not collections, and partitions without a static
  row; the model itself has ranges, collections, static rows, short reads and digests.

  \<^bold>\<open>Not modelled.\<close> Files and network (sstables, commit log, streaming, messaging, Seastar), the row cache and the
  combination of readers over several sources, reversed queries, reconcilable results, the coordinator's read path, gossip and the placement of replicas, CQL
  and the decoding of Thrift requests, schema changes beyond the conversion of partitions, \<open>apply_to_incomplete\<close>, which
  moves a memtable into the cache, memory accounting, hashing and printing: they are I/O, generated code, or
  unchanged by PORT and without influence on version numbers, and where they meet the parts above they are
  arguments or events of the models.
\<close>

end
